(* ===== verification/CPrelude.thy ===== *)
theory CPrelude
  imports Main "HOL-Library.Word" "HOL-Library.Monad_Syntax"
begin

text \<open>
  Vocabulary shared by every component.

  A C operation is a HOL function into \<open>'a exec\<close>: \<open>Some r\<close> is an execution that ends with the
  result \<open>r\<close> (return value and new state), \<open>None\<close> is an execution whose behaviour C leaves
  undefined: an access outside a block, a null or dangling pointer, a signed overflow, a division
  by zero, a failed \<open>assert\<close>.  A theorem that an operation yields \<open>Some r\<close> is therefore also a
  memory-safety theorem.

  Memory is a list of cells; a cell that was allocated but never written holds \<open>None\<close>.  C
  \<open>int\<close>s are HOL integers; the arithmetic that can leave the 32-bit range goes through \<open>i32\<close>
  (undefined outside the range) or \<open>u32\<close> (wraps).
\<close>

named_theorems c_simps \<open>evaluation of the memory and arithmetic primitives\<close>

type_synonym byte = "8 word"
type_synonym cell = "byte option"
type_synonym 'a exec = "'a option"

section \<open>Integers\<close>

definition i32 :: "int \<Rightarrow> int exec" where
  "i32 x = (if - (2 ^ 31) \<le> x \<and> x < 2 ^ 31 then Some x else None)"

definition u32 :: "int \<Rightarrow> int" where
  "u32 x = x mod 2 ^ 32"

definition cassert :: "bool \<Rightarrow> unit exec" where
  "cassert b = (if b then Some () else None)"

lemma i32_in [c_simps]: "- (2 ^ 31) \<le> x \<Longrightarrow> x < 2 ^ 31 \<Longrightarrow> i32 x = Some x"
  by (simp add: i32_def)

lemma i32_Some_iff: "i32 x = Some y \<longleftrightarrow> y = x \<and> - (2 ^ 31) \<le> x \<and> x < 2 ^ 31"
  by (auto simp: i32_def)

lemma u32_in [c_simps]: "0 \<le> x \<Longrightarrow> x < 2 ^ 32 \<Longrightarrow> u32 x = x"
  by (simp add: u32_def)

lemma u32_bounds [simp]: "0 \<le> u32 x" "u32 x < 2 ^ 32" "u32 x < 4294967296"
  by (simp_all add: u32_def)

lemma cassert_simps [c_simps]: "cassert True = Some ()" "cassert False = None"
  by (simp_all add: cassert_def)

lemma nat_int_mult [simp]: "nat (int a * int b) = a * b"
  by (simp flip: of_nat_mult)

section \<open>Blocks of memory\<close>

definition c_malloc :: "int \<Rightarrow> cell list" where
  "c_malloc n = replicate (nat n) None"

definition c_realloc :: "cell list \<Rightarrow> int \<Rightarrow> cell list" where
  "c_realloc d n = take (nat n) d @ replicate (nat n - length d) None"

definition mem_load :: "cell list \<Rightarrow> int \<Rightarrow> int \<Rightarrow> cell list exec" where
  "mem_load d off n =
     (if 0 \<le> off \<and> 0 \<le> n \<and> off + n \<le> int (length d)
      then Some (take (nat n) (drop (nat off) d)) else None)"

definition mem_store :: "cell list \<Rightarrow> int \<Rightarrow> cell list \<Rightarrow> cell list exec" where
  "mem_store d off bs =
     (if 0 \<le> off \<and> off + int (length bs) \<le> int (length d)
      then Some (take (nat off) d @ bs @ drop (nat off + length bs) d) else None)"

definition mem_move :: "cell list \<Rightarrow> int \<Rightarrow> int \<Rightarrow> int \<Rightarrow> cell list exec" where
  "mem_move d dst src n = do { bs \<leftarrow> mem_load d src n; mem_store d dst bs }"

lemma mem_load_nat [c_simps]:
  "off + n \<le> length d \<Longrightarrow> mem_load d (int off) (int n) = Some (take n (drop off d))"
  by (simp add: mem_load_def nat_int_add)

lemma mem_store_nat [c_simps]:
  "off + length bs \<le> length d \<Longrightarrow>
   mem_store d (int off) bs = Some (take off d @ bs @ drop (off + length bs) d)"
  by (simp add: mem_store_def)

lemma mem_move_nat [c_simps]:
  assumes "src + n \<le> length d" "dst + n \<le> length d"
  shows "mem_move d (int dst) (int src) (int n) =
    Some (take dst d @ take n (drop src d) @ drop (dst + n) d)"
proof -
  have n: "n \<le> length d - src" using assms(1) by linarith
  then have "length (take n (drop src d)) = n" by simp
  with n assms mem_store_nat [of dst "take n (drop src d)" d] show ?thesis
    by (simp add: mem_move_def mem_load_nat min_absorb2)
qed

lemma mem_store_length: "mem_store d off bs = Some d' \<Longrightarrow> length d' = length d"
  by (auto simp: mem_store_def split: if_splits)

lemma mem_load_length: "mem_load d off n = Some bs \<Longrightarrow> length bs = nat n"
  by (auto simp: mem_load_def split: if_splits)

lemma length_c_malloc [simp]: "length (c_malloc n) = nat n"
  by (simp add: c_malloc_def)

lemma length_c_realloc [simp]: "length (c_realloc d n) = nat n"
  by (simp add: c_realloc_def)

section \<open>Lists cut into blocks of equal length\<close>

definition chunks :: "nat \<Rightarrow> nat \<Rightarrow> 'a list \<Rightarrow> 'a list list" where
  "chunks k n d = map (\<lambda>i. take k (drop (i * k) d)) [0..<n]"

definition uniform :: "nat \<Rightarrow> 'a list list \<Rightarrow> bool" where
  "uniform k ss \<longleftrightarrow> (\<forall>s\<in>set ss. length s = k)"

lemma length_chunks [simp]: "length (chunks k n d) = n"
  by (simp add: chunks_def)

lemma uniform_simps [simp]:
  "uniform k []"
  "uniform k (s # ss) \<longleftrightarrow> length s = k \<and> uniform k ss"
  "uniform k (ss @ ts) \<longleftrightarrow> uniform k ss \<and> uniform k ts"
  by (auto simp: uniform_def)

lemma uniform_take [simp]: "uniform k ss \<Longrightarrow> uniform k (take n ss)"
  by (auto simp: uniform_def dest: in_set_takeD)

lemma uniform_drop [simp]: "uniform k ss \<Longrightarrow> uniform k (drop n ss)"
  by (auto simp: uniform_def dest: in_set_dropD)

lemma uniform_replicate [simp]: "uniform k (replicate n s) \<longleftrightarrow> n = 0 \<or> length s = k"
  by (auto simp: uniform_def)

lemma uniform_update [simp]: "uniform k ss \<Longrightarrow> length s = k \<Longrightarrow> uniform k (ss[i := s])"
  by (auto simp: uniform_def dest: set_update_subset_insert [THEN subsetD])

lemma uniform_nth: "uniform k ss \<Longrightarrow> i < length ss \<Longrightarrow> length (ss ! i) = k"
  by (auto simp: uniform_def)

lemma length_concat_uniform: "uniform k ss \<Longrightarrow> length (concat ss) = length ss * k"
  by (induction ss) auto

lemma drop_concat_uniform:
  "uniform k ss \<Longrightarrow> drop (i * k) (concat ss) = concat (drop i ss)"
proof (induction ss arbitrary: i)
  case (Cons s ss)
  then show ?case by (cases i) auto
qed simp

lemma take_concat_uniform:
  "uniform k ss \<Longrightarrow> take (i * k) (concat ss) = concat (take i ss)"
proof (induction ss arbitrary: i)
  case (Cons s ss)
  then show ?case by (cases i) auto
qed simp

lemma chunks_concat: "uniform k ss \<Longrightarrow> n = length ss \<Longrightarrow> chunks k n (concat ss) = ss"
proof (rule nth_equalityI)
  fix i assume u: "uniform k ss" and n: "n = length ss" and "i < length (chunks k n (concat ss))"
  then have i: "i < length ss" by simp
  then have "drop i ss = ss ! i # drop (Suc i) ss" by (simp add: Cons_nth_drop_Suc)
  with u i n show "chunks k n (concat ss) ! i = ss ! i"
    by (simp add: chunks_def drop_concat_uniform uniform_nth)
qed simp

lemma uniform_chunks: "length d = n * k \<Longrightarrow> uniform k (chunks k n d)"
proof -
  assume len: "length d = n * k"
  have "k \<le> n * k - i * k" if "i < n" for i
    using mult_le_mono1 [of "Suc i" n k] that by simp
  with len show ?thesis by (auto simp: uniform_def chunks_def)
qed

lemma concat_chunks: "length d = n * k \<Longrightarrow> concat (chunks k n d) = d"
proof -
  have "concat (chunks k n d) = take (n * k) d" if "n * k \<le> length d"
    using that
  proof (induction n)
    case (Suc n)
    have "take (n * k + k) d = take (n * k) d @ take k (drop (n * k) d)"
      by (rule take_add)
    with Suc show ?case by (simp add: chunks_def add.commute)
  qed (simp add: chunks_def)
  then show "length d = n * k \<Longrightarrow> concat (chunks k n d) = d" by simp
qed

lemma replicate_concat: "replicate (n * k) x = concat (replicate n (replicate k x))"
  by (induction n) (auto simp: replicate_add)


section \<open>Clients of a queue\<close>

text \<open>
  The two loops of the tests (\<open>test_queue.c\<close>, \<open>test_pqueue.c\<close>): push every element of a
  list, and pop until the queue says it is empty (at most \<open>n\<close> times).
\<close>

primrec feed :: "('q \<Rightarrow> 'a \<Rightarrow> 'q exec) \<Rightarrow> 'q \<Rightarrow> 'a list \<Rightarrow> 'q exec" where
  "feed push q [] = Some q"
| "feed push q (x # xs) = do { q \<leftarrow> push q x; feed push q xs }"

primrec drain :: "('q \<Rightarrow> ('a option \<times> 'q) exec) \<Rightarrow> nat \<Rightarrow> 'q \<Rightarrow> 'a list exec" where
  "drain pop 0 q = Some []"
| "drain pop (Suc n) q = do {
     (r, q) \<leftarrow> pop q;
     case r of None \<Rightarrow> Some [] | Some x \<Rightarrow> map_option ((#) x) (drain pop n q)
   }"

section \<open>Singly linked lists\<close>

text \<open>\<open>lpath nx a xs\<close>: following the field \<open>nx\<close> from \<open>a\<close> visits the addresses \<open>xs\<close> and ends at the
  null pointer.\<close>

fun lpath :: "(nat \<Rightarrow> nat option) \<Rightarrow> nat \<Rightarrow> nat list \<Rightarrow> bool" where
  "lpath nx a [] \<longleftrightarrow> a = 0"
| "lpath nx a (x # xs) \<longleftrightarrow> a = x \<and> x \<noteq> 0 \<and> (\<exists>b. nx x = Some b \<and> lpath nx b xs)"

lemma lpath_null [simp]: "lpath nx 0 xs \<longleftrightarrow> xs = []"
  by (cases xs) auto

lemma lpath_cong: "\<forall>x\<in>set xs. nx' x = nx x \<Longrightarrow> lpath nx' a xs = lpath nx a xs"
  by (induction xs arbitrary: a) auto

lemma lpath_upd [simp]: "x \<notin> set xs \<Longrightarrow> lpath (nx(x := y)) a xs = lpath nx a xs"
  by (rule lpath_cong) auto

lemma lpath_dom: "lpath nx a xs \<Longrightarrow> x \<in> set xs \<Longrightarrow> x \<noteq> 0 \<and> nx x \<noteq> None"
  by (induction xs arbitrary: a) auto

lemma lpath_ne: "a \<noteq> 0 \<Longrightarrow> lpath nx a xs \<longleftrightarrow> (\<exists>b ys. xs = a # ys \<and> nx a = Some b \<and> lpath nx b ys)"
  by (cases xs) auto

end
