(* ===== verification/Vec.thy ===== *)
theory Vec
  imports CPrelude "HOL-Library.Multiset"
begin

text \<open>
  \<open>src/co_vec.c\<close>: a growable array of items of \<open>itemsize\<close> bytes each, kept as one block of
  bytes.  The model keeps the bytes, the 32-bit products that compute offsets and the
  \<open>memcpy\<close>/\<open>memmove\<close> calls; the abstraction \<open>slots\<close> cuts the block into its \<open>cap\<close> items, and
  \<open>vitems\<close> is the part below \<open>size\<close>.
\<close>

section \<open>Operations\<close>

record covec =
  v_data :: "cell list"
  v_cap :: int
  v_size :: int
  v_itemsize :: int

definition VEC_INIT_CAP :: int where
  "VEC_INIT_CAP = 8"

definition covec_new :: "int \<Rightarrow> covec" where
  "covec_new isz = \<lparr>v_data = [], v_cap = 0, v_size = 0, v_itemsize = isz\<rparr>"

definition covec_clear :: "covec \<Rightarrow> covec" where
  "covec_clear v = v\<lparr>v_data := [], v_cap := 0, v_size := 0\<rparr>"

definition covec_growcap :: "covec \<Rightarrow> int \<Rightarrow> covec" where
  "covec_growcap v c =
     (if v_cap v < c
      then v\<lparr>v_data := c_realloc (v_data v) (u32 (c * v_itemsize v)), v_cap := c\<rparr> else v)"

definition covec_check_and_grow :: "covec \<Rightarrow> covec exec" where
  "covec_check_and_grow v = do {
     n \<leftarrow> i32 (v_size v + 1);
     if v_cap v \<le> n then do {
       c2 \<leftarrow> i32 (v_cap v * 2);
       Some (covec_growcap v (max VEC_INIT_CAP c2))
     } else Some v
   }"

definition covec_resize :: "covec \<Rightarrow> int \<Rightarrow> covec" where
  "covec_resize v n =
     (if v_size v = n then v
      else if n \<le> v_cap v then v\<lparr>v_size := n\<rparr>
      else v\<lparr>v_data := c_realloc (v_data v) (u32 (n * v_itemsize v)), v_cap := n, v_size := n\<rparr>)"

definition covec_move :: "covec \<Rightarrow> int \<Rightarrow> int \<Rightarrow> int \<Rightarrow> covec exec" where
  "covec_move v from dst cnt = do {
     d \<leftarrow> mem_move (v_data v) (u32 (dst * v_itemsize v)) (u32 (from * v_itemsize v))
            (u32 (cnt * v_itemsize v));
     Some (v\<lparr>v_data := d\<rparr>)
   }"

text \<open>The index rule of every accessor: a negative index counts from the end.\<close>

definition vec_index :: "covec \<Rightarrow> int \<Rightarrow> int" where
  "vec_index v i = (if i < 0 then v_size v + i else i)"

definition vec_put :: "covec \<Rightarrow> int \<Rightarrow> cell list \<Rightarrow> covec exec" where
  "vec_put v i bs = do {
     b \<leftarrow> mem_load bs 0 (v_itemsize v);
     d \<leftarrow> mem_store (v_data v) (u32 (i * v_itemsize v)) b;
     Some (v\<lparr>v_data := d\<rparr>)
   }"

definition covec_push :: "covec \<Rightarrow> int \<Rightarrow> cell list \<Rightarrow> (bool \<times> covec) exec" where
  "covec_push v index bs =
     (let i = vec_index v index in
      if i < 0 \<or> v_size v < i then Some (False, v)
      else do {
        v \<leftarrow> covec_check_and_grow v;
        v \<leftarrow> (if i \<noteq> v_size v then covec_move v i (i + 1) (v_size v - i) else Some v);
        v \<leftarrow> vec_put v i bs;
        Some (True, v\<lparr>v_size := v_size v + 1\<rparr>)
      })"

definition covec_push_head :: "covec \<Rightarrow> cell list \<Rightarrow> (bool \<times> covec) exec" where
  "covec_push_head v bs = covec_push v 0 bs"

definition covec_push_tail :: "covec \<Rightarrow> cell list \<Rightarrow> (bool \<times> covec) exec" where
  "covec_push_tail v bs = covec_push v (v_size v) bs"

text \<open>\<open>covec_get\<close> writes to an out-parameter: \<open>Some bytes\<close> is \<open>true\<close>, \<open>None\<close> is \<open>false\<close>.\<close>

definition covec_get :: "covec \<Rightarrow> int \<Rightarrow> cell list option exec" where
  "covec_get v index =
     (let i = vec_index v index in
      if i < 0 \<or> v_size v \<le> i then Some None
      else do {
        b \<leftarrow> mem_load (v_data v) (u32 (i * v_itemsize v)) (v_itemsize v);
        Some (Some b)
      })"

text \<open>\<open>covec_get_ptr\<close> gives the offset of the item in the block, \<open>None\<close> for \<open>NULL\<close>.\<close>

definition covec_get_ptr :: "covec \<Rightarrow> int \<Rightarrow> int option" where
  "covec_get_ptr v index =
     (let i = vec_index v index in
      if i < 0 \<or> v_size v \<le> i then None else Some (u32 (i * v_itemsize v)))"

definition covec_get_head :: "covec \<Rightarrow> cell list option exec" where
  "covec_get_head v = covec_get v 0"

definition covec_get_tail :: "covec \<Rightarrow> cell list option exec" where
  "covec_get_tail v = covec_get v (v_size v - 1)"

definition covec_set :: "covec \<Rightarrow> int \<Rightarrow> cell list \<Rightarrow> (bool \<times> covec) exec" where
  "covec_set v index bs =
     (let i = vec_index v index in
      if i < 0 \<or> v_size v \<le> i then Some (False, v)
      else do { v \<leftarrow> vec_put v i bs; Some (True, v) })"

definition covec_set_head :: "covec \<Rightarrow> cell list \<Rightarrow> (bool \<times> covec) exec" where
  "covec_set_head v bs = covec_set v 0 bs"

definition covec_set_tail :: "covec \<Rightarrow> cell list \<Rightarrow> (bool \<times> covec) exec" where
  "covec_set_tail v bs = covec_set v (v_size v - 1) bs"

text \<open>
  \<open>covec_del\<close> copies the item out when \<open>data\<close> is not \<open>NULL\<close>; the model always returns the
  copy, and a caller that passes \<open>NULL\<close> ignores it.
\<close>

definition covec_del :: "covec \<Rightarrow> int \<Rightarrow> (cell list option \<times> covec) exec" where
  "covec_del v index =
     (let i = vec_index v index in
      if i < 0 \<or> v_size v \<le> i then Some (None, v)
      else do {
        b \<leftarrow> covec_get v i;
        v \<leftarrow> (if i \<noteq> v_size v - 1 then covec_move v (i + 1) i (v_size v - i - 1) else Some v);
        Some (b, v\<lparr>v_size := v_size v - 1\<rparr>)
      })"

definition covec_del_head :: "covec \<Rightarrow> (cell list option \<times> covec) exec" where
  "covec_del_head v = covec_del v 0"

definition covec_del_tail :: "covec \<Rightarrow> (cell list option \<times> covec) exec" where
  "covec_del_tail v = covec_del v (v_size v - 1)"

definition covec_copy :: "covec \<Rightarrow> covec \<Rightarrow> covec exec" where
  "covec_copy vfrom vto = do {
     let vto = covec_resize (covec_clear vto) (v_size vfrom);
     b \<leftarrow> mem_load (v_data vfrom) 0 (u32 (v_size vfrom * v_itemsize vfrom));
     d \<leftarrow> mem_store (v_data vto) 0 b;
     Some (vto\<lparr>v_data := d\<rparr>)
   }"

definition covec_swap :: "covec \<Rightarrow> int \<Rightarrow> int \<Rightarrow> covec exec" where
  "covec_swap v idx1 idx2 = do {
     b1 \<leftarrow> covec_get v idx1;
     case b1 of None \<Rightarrow> Some v | Some p1 \<Rightarrow> do {
       b2 \<leftarrow> covec_get v idx2;
       case b2 of None \<Rightarrow> Some v | Some p2 \<Rightarrow> do {
         (_, v) \<leftarrow> covec_set v idx1 p2;
         (_, v) \<leftarrow> covec_set v idx2 p1;
         Some v
       }
     }
   }"

text \<open>\<open>covec_free\<close> clears the vector, frees the struct and returns \<open>NULL\<close>.\<close>

definition covec_free :: "covec \<Rightarrow> covec option" where
  "covec_free v = (let v = covec_clear v in None)"


section \<open>Invariant and abstraction\<close>

definition vec_ok :: "covec \<Rightarrow> bool" where
  "vec_ok v \<longleftrightarrow> 0 \<le> v_size v \<and> v_size v \<le> v_cap v \<and> v_cap v < 2 ^ 31 \<and>
     0 < v_itemsize v \<and> v_itemsize v < 2 ^ 16 \<and> v_cap v * v_itemsize v < 2 ^ 32 \<and>
     length (v_data v) = nat (v_cap v) * nat (v_itemsize v)"

abbreviation isz :: "covec \<Rightarrow> nat" where
  "isz v \<equiv> nat (v_itemsize v)"

definition slots :: "covec \<Rightarrow> cell list list" where
  "slots v = chunks (isz v) (nat (v_cap v)) (v_data v)"

definition vitems :: "covec \<Rightarrow> cell list list" where
  "vitems v = take (nat (v_size v)) (slots v)"

text \<open>Room for one more item without leaving the 32-bit range.\<close>

definition vec_room :: "covec \<Rightarrow> bool" where
  "vec_room v \<longleftrightarrow> v_cap v < 2 ^ 30 \<and> max VEC_INIT_CAP (v_cap v * 2) * v_itemsize v < 2 ^ 32"

text \<open>The fields of a well-formed vector as natural numbers.\<close>

lemma vec_okE:
  assumes "vec_ok v"
  obtains k c s where "v_itemsize v = int k" "v_cap v = int c" "v_size v = int s"
    "0 < k" "k < 2 ^ 16" "s \<le> c" "c < 2 ^ 31" "c * k < 2 ^ 32" "length (v_data v) = c * k"
proof -
  have "int (nat (v_cap v) * nat (v_itemsize v)) = v_cap v * v_itemsize v"
    using assms by (simp add: vec_ok_def)
  moreover have "v_cap v * v_itemsize v < 2 ^ 32" using assms by (simp add: vec_ok_def)
  ultimately have "int (nat (v_cap v) * nat (v_itemsize v)) < int (2 ^ 32)" by simp
  then have "nat (v_cap v) * nat (v_itemsize v) < 2 ^ 32" by (rule of_nat_less_imp_less)
  then show ?thesis
    using assms by (intro that [of "nat (v_itemsize v)" "nat (v_cap v)" "nat (v_size v)"])
      (auto simp: vec_ok_def)
qed

lemma vec_okI:
  assumes "v_itemsize v = int k" "v_cap v = int c" "v_size v = int s"
    "0 < k" "k < 2 ^ 16" "s \<le> c" "c < 2 ^ 31" "c * k < 2 ^ 32" "length (v_data v) = c * k"
  shows "vec_ok v"
proof -
  have "int c * int k < 2 ^ 32" using assms(8) by (simp flip: of_nat_mult)
  with assms show ?thesis by (simp add: vec_ok_def)
qed

lemma length_slots [simp]: "length (slots v) = nat (v_cap v)"
  by (simp add: slots_def)

lemma length_vitems: "vec_ok v \<Longrightarrow> length (vitems v) = nat (v_size v)"
  by (auto simp: vitems_def elim!: vec_okE)

lemma uniform_slots: "vec_ok v \<Longrightarrow> uniform (isz v) (slots v)"
  by (simp add: slots_def vec_ok_def uniform_chunks)

lemma concat_slots: "vec_ok v \<Longrightarrow> v_data v = concat (slots v)"
  by (simp add: slots_def vec_ok_def concat_chunks)

lemma length_vitem: "vec_ok v \<Longrightarrow> i < length (vitems v) \<Longrightarrow> length (vitems v ! i) = isz v"
  using uniform_nth [OF uniform_slots] by (simp add: vitems_def)

text \<open>Replacing the slots of a well-formed vector, the size kept.\<close>

definition with_slots :: "covec \<Rightarrow> cell list list \<Rightarrow> covec" where
  "with_slots v ss = v\<lparr>v_data := concat ss, v_cap := int (length ss)\<rparr>"

lemma with_slots_sel [simp]:
  "v_size (with_slots v ss) = v_size v" "v_itemsize (with_slots v ss) = v_itemsize v"
  "v_cap (with_slots v ss) = int (length ss)"
  by (simp_all add: with_slots_def)

lemma slots_with_slots [simp]: "uniform (isz v) ss \<Longrightarrow> slots (with_slots v ss) = ss"
  by (simp add: slots_def with_slots_def chunks_concat)

lemma slots_size_upd [simp]: "slots (v\<lparr>v_size := n\<rparr>) = slots v"
  by (simp add: slots_def)

lemma vec_ok_with_slots:
  assumes "vec_ok v" "uniform (isz v) ss" "length ss = nat (v_cap v)"
  shows "vec_ok (with_slots v ss)"
  using assms by (auto simp: vec_ok_def with_slots_def length_concat_uniform)

lemma off_int:
  assumes "vec_ok v" "0 \<le> i" "i \<le> v_cap v"
  shows "u32 (i * v_itemsize v) = int (nat i * isz v)"
  using assms(1)
proof (rule vec_okE)
  fix k c assume f: "v_itemsize v = int k" "v_cap v = int c" "c * k < 2 ^ 32"
  obtain n where n: "i = int n" "n \<le> c" using assms(2,3) f by (metis nonneg_int_cases of_nat_le_iff)
  then have "n * k \<le> c * k" by simp
  then have "n * k < 2 ^ 32" using f by linarith
  then have "int n * int k < 2 ^ 32" by (simp flip: of_nat_mult)
  with f n show ?thesis by (simp add: u32_def)
qed

lemma isz_int: "vec_ok v \<Longrightarrow> v_itemsize v = int (isz v)"
  by (simp add: vec_ok_def)

section \<open>The byte-level primitives on slots\<close>

lemma block_in: "(i::nat) < n \<Longrightarrow> i * k + k \<le> n * k"
  using mult_le_mono1 [of "Suc i" n k] by simp

lemma vec_load_slot:
  assumes ok: "vec_ok v" and i: "0 \<le> i" "i < v_cap v"
  shows "mem_load (v_data v) (u32 (i * v_itemsize v)) (v_itemsize v) = Some (slots v ! nat i)"
proof -
  let ?n = "nat i" and ?k = "isz v"
  have n: "?n < nat (v_cap v)" using i by simp
  have "?n * ?k + ?k \<le> length (v_data v)"
    using ok block_in [OF n, of ?k] by (simp add: vec_ok_def)
  then have "mem_load (v_data v) (int (?n * ?k)) (int ?k) = Some (take ?k (drop (?n * ?k) (v_data v)))"
    by (rule mem_load_nat)
  with n show ?thesis
    unfolding off_int [OF ok i(1) less_imp_le [OF i(2)]] isz_int [OF ok, symmetric]
    by (simp add: slots_def chunks_def)
qed

lemma vec_put_slot:
  assumes ok: "vec_ok v" and i: "0 \<le> i" "i < v_cap v" and bs: "length bs = isz v"
  shows "vec_put v i bs = Some (with_slots v ((slots v)[nat i := bs]))"
proof -
  let ?n = "nat i" and ?k = "isz v"
  have u: "uniform ?k (slots v)" using ok by (rule uniform_slots)
  have n: "?n < length (slots v)" using i by simp
  have le: "?n * ?k + length bs \<le> length (v_data v)"
    using ok i bs block_in [of ?n "nat (v_cap v)" ?k] by (auto simp: vec_ok_def)
  have "mem_load bs 0 (v_itemsize v) = Some bs"
    using ok bs by (simp add: vec_ok_def mem_load_def)
  moreover have "mem_store (v_data v) (int (?n * ?k)) bs =
      Some (take (?n * ?k) (v_data v) @ bs @ drop (?n * ?k + length bs) (v_data v))"
    using le by (rule mem_store_nat)
  moreover have "take (?n * ?k) (v_data v) = concat (take ?n (slots v))"
    using ok u by (simp add: concat_slots take_concat_uniform)
  moreover have "drop (?n * ?k + length bs) (v_data v) = concat (drop (Suc ?n) (slots v))"
    using ok u bs drop_concat_uniform [OF u, of "Suc ?n"] by (simp add: concat_slots add.commute)
  moreover have "concat ((slots v)[?n := bs]) =
      concat (take ?n (slots v)) @ bs @ concat (drop (Suc ?n) (slots v))"
    using n by (simp add: upd_conv_take_nth_drop)
  ultimately show ?thesis
    using ok i by (simp add: vec_put_def off_int with_slots_def)
qed

definition move_slots :: "'a list \<Rightarrow> nat \<Rightarrow> nat \<Rightarrow> nat \<Rightarrow> 'a list" where
  "move_slots ss from dst n = take dst ss @ take n (drop from ss) @ drop (dst + n) ss"

lemma length_move_slots [simp]:
  "from + n \<le> length ss \<Longrightarrow> dst + n \<le> length ss \<Longrightarrow> length (move_slots ss from dst n) = length ss"
  by (simp add: move_slots_def)

lemma uniform_move_slots [simp]: "uniform k ss \<Longrightarrow> uniform k (move_slots ss from dst n)"
  by (simp add: move_slots_def)

lemma covec_move_slots:
  assumes ok: "vec_ok v" and r: "0 \<le> from" "0 \<le> dst" "0 \<le> cnt"
    "from + cnt \<le> v_cap v" "dst + cnt \<le> v_cap v"
  shows "covec_move v from dst cnt =
    Some (with_slots v (move_slots (slots v) (nat from) (nat dst) (nat cnt)))"
proof -
  let ?k = "isz v" and ?f = "nat from" and ?t = "nat dst" and ?n = "nat cnt" and ?d = "v_data v"
  have u: "uniform ?k (slots v)" and d: "?d = concat (slots v)"
    using ok by (rule uniform_slots, rule concat_slots)
  have le: "?f + ?n \<le> nat (v_cap v)" "?t + ?n \<le> nat (v_cap v)" using r by linarith+
  have "length ?d = nat (v_cap v) * ?k" using ok by (simp add: vec_ok_def)
  then have l: "?f * ?k + ?n * ?k \<le> length ?d" "?t * ?k + ?n * ?k \<le> length ?d"
    using mult_le_mono1 [OF le(1), of ?k] mult_le_mono1 [OF le(2), of ?k]
    by (simp_all only: add_mult_distrib)
  have "take (?n * ?k) (drop (?f * ?k) ?d) = concat (take ?n (drop ?f (slots v)))"
    using u by (simp add: d drop_concat_uniform take_concat_uniform)
  moreover have "take (?t * ?k) ?d = concat (take ?t (slots v))"
    using u by (simp add: d take_concat_uniform)
  moreover have "drop (?t * ?k + ?n * ?k) ?d = concat (drop (?t + ?n) (slots v))"
    using drop_concat_uniform [OF u, of "?t + ?n"] by (simp add: d add_mult_distrib)
  moreover have "int (length (move_slots (slots v) ?f ?t ?n)) = v_cap v"
    using le r by (subst length_move_slots) simp_all
  moreover have "u32 (dst * v_itemsize v) = int (?t * ?k)" "u32 (from * v_itemsize v) = int (?f * ?k)"
    "u32 (cnt * v_itemsize v) = int (?n * ?k)"
    by (rule off_int [OF ok]; use r in linarith)+
  ultimately show ?thesis
    by (simp only: covec_move_def mem_move_nat [OF l] Option.bind.simps with_slots_def move_slots_def
        concat_append) simp
qed

lemma covec_grow_slots:
  assumes ok: "vec_ok v" and c: "v_cap v \<le> c" "c < 2 ^ 31" "c * v_itemsize v < 2 ^ 32"
  defines "ss \<equiv> slots v @ replicate (nat (c - v_cap v)) (replicate (isz v) None)"
  shows "c_realloc (v_data v) (u32 (c * v_itemsize v)) = concat ss \<and> uniform (isz v) ss \<and>
    int (length ss) = c \<and> vec_ok (with_slots v ss)"
  using ok
proof (rule vec_okE)
  fix k n s assume f: "v_itemsize v = int k" "v_cap v = int n" "v_size v = int s" "0 < k"
    "k < 2 ^ 16" "s \<le> n" "length (v_data v) = n * k"
  obtain m where m: "c = int m" "n \<le> m" using c f by (metis nonneg_int_cases of_nat_0_le_iff of_nat_le_iff order_trans)
  have mk: "m * k < 2 ^ 32" using c(3) f m by (simp flip: of_nat_mult)
  have nk: "n * k \<le> m * k" using m by simp
  have u: "uniform k ss" using uniform_slots [OF ok] f by (simp add: ss_def)
  have len: "length ss = m" using f m by (simp add: ss_def nat_diff_distrib)
  have "u32 (c * v_itemsize v) = int (m * k)"
    using f m mk by (simp add: u32_def flip: of_nat_mult)
  moreover have "m * k - n * k = nat (c - v_cap v) * k"
    using f m by (simp add: diff_mult_distrib nat_diff_distrib)
  ultimately have "c_realloc (v_data v) (u32 (c * v_itemsize v)) = concat ss"
    using f nk by (simp add: c_realloc_def ss_def replicate_concat concat_slots [OF ok, symmetric])
  moreover have "vec_ok (with_slots v ss)"
    using f m mk c(2) len u
    by (intro vec_okI [of _ k m s]) (auto simp: with_slots_def length_concat_uniform)
  ultimately show ?thesis using u len f m by simp
qed

lemma covec_growcap_slots:
  assumes ok: "vec_ok v" and c: "c < 2 ^ 31" "c * v_itemsize v < 2 ^ 32"
  shows "vec_ok (covec_growcap v c) \<and> v_size (covec_growcap v c) = v_size v \<and>
    v_itemsize (covec_growcap v c) = v_itemsize v \<and> v_cap (covec_growcap v c) = max (v_cap v) c \<and>
    slots (covec_growcap v c) = slots v @ replicate (nat (c - v_cap v)) (replicate (isz v) None)"
proof (cases "v_cap v < c")
  case True
  note g = covec_grow_slots [OF ok less_imp_le [OF True] c]
  have "covec_growcap v c = with_slots v (slots v @ replicate (nat (c - v_cap v)) (replicate (isz v) None))"
    using True g by (simp add: covec_growcap_def with_slots_def)
  with g True show ?thesis by simp
qed (use ok in \<open>simp add: covec_growcap_def\<close>)


section \<open>Operations on the abstraction\<close>

definition insert_nth :: "nat \<Rightarrow> 'a \<Rightarrow> 'a list \<Rightarrow> 'a list" where
  "insert_nth n x xs = take n xs @ x # drop n xs"

definition delete_nth :: "nat \<Rightarrow> 'a list \<Rightarrow> 'a list" where
  "delete_nth n xs = take n xs @ drop (Suc n) xs"

definition swap_nth :: "nat \<Rightarrow> nat \<Rightarrow> 'a list \<Rightarrow> 'a list" where
  "swap_nth i j xs = xs[i := xs ! j, j := xs ! i]"

definition valid_index :: "covec \<Rightarrow> int \<Rightarrow> bool" where
  "valid_index v i \<longleftrightarrow> 0 \<le> vec_index v i \<and> vec_index v i < v_size v"

lemma vec_index_nonneg [simp]: "0 \<le> i \<Longrightarrow> vec_index v i = i"
  by (simp add: vec_index_def)

lemma vec_index_neg [simp]: "i < 0 \<Longrightarrow> vec_index v i = v_size v + i"
  by (simp add: vec_index_def)

lemma vec_ok_size:
  "vec_ok v \<Longrightarrow> 0 \<le> v_size v" "vec_ok v \<Longrightarrow> v_size v \<le> v_cap v" "vec_ok v \<Longrightarrow> 0 \<le> v_cap v"
  by (auto simp: vec_ok_def)

lemma vitems_nth: "vec_ok v \<Longrightarrow> 0 \<le> i \<Longrightarrow> i < v_size v \<Longrightarrow> vitems v ! nat i = slots v ! nat i"
  by (simp add: vitems_def)

lemma vitems_with_slots:
  "uniform (isz v) ss \<Longrightarrow> vitems (with_slots v ss) = take (nat (v_size v)) ss"
  by (simp add: vitems_def)

lemma vec_ok_size_upd:
  "vec_ok v \<Longrightarrow> 0 \<le> n \<Longrightarrow> n \<le> v_cap v \<Longrightarrow> vec_ok (v\<lparr>v_size := n\<rparr>)"
  by (simp add: vec_ok_def)

lemma covec_get_spec:
  "vec_ok v \<Longrightarrow> covec_get v i =
    Some (if valid_index v i then Some (vitems v ! nat (vec_index v i)) else None)"
  using vec_ok_size [of v]
  by (auto simp: covec_get_def Let_def valid_index_def vec_load_slot vitems_nth)

text \<open>Reading through the pointer of \<open>covec_get_ptr\<close> gives the item.\<close>

lemma covec_get_ptr_load:
  assumes "vec_ok v" "0 \<le> i" "i < v_size v"
  obtains p where "covec_get_ptr v i = Some p"
    "mem_load (v_data v) p (v_itemsize v) = Some (vitems v ! nat i)"
  using assms vec_ok_size [of v]
  by (auto simp: covec_get_ptr_def vec_load_slot vitems_nth)

lemma covec_set_spec:
  assumes ok: "vec_ok v" and bs: "length bs = isz v"
  shows "if valid_index v i
    then \<exists>v'. covec_set v i bs = Some (True, v') \<and> vec_ok v' \<and> isz v' = isz v \<and>
      v_size v' = v_size v \<and> v_cap v' = v_cap v \<and> slots v' = (slots v)[nat (vec_index v i) := bs] \<and>
      vitems v' = (vitems v)[nat (vec_index v i) := bs]
    else covec_set v i bs = Some (False, v)"
proof -
  let ?j = "vec_index v i"
  have "vec_put v ?j bs = Some (with_slots v ((slots v)[nat ?j := bs]))" if "valid_index v i"
    using that ok bs vec_ok_size [OF ok] by (intro vec_put_slot) (auto simp: valid_index_def)
  moreover have "uniform (isz v) ((slots v)[nat ?j := bs])"
    using ok bs by (simp add: uniform_slots)
  ultimately show ?thesis
    using ok vec_ok_size [OF ok]
    by (auto simp: covec_set_def Let_def valid_index_def vec_ok_with_slots vitems_with_slots
        vitems_def take_update_swap)
qed

lemma covec_resize_spec:
  assumes ok: "vec_ok v" and n: "0 \<le> n" "n < 2 ^ 31" "n * v_itemsize v < 2 ^ 32"
  shows "vec_ok (covec_resize v n) \<and> v_size (covec_resize v n) = n \<and>
    isz (covec_resize v n) = isz v \<and> v_cap (covec_resize v n) = max (v_cap v) n \<and>
    slots (covec_resize v n) = slots v @ replicate (nat (n - v_cap v)) (replicate (isz v) None)"
proof (cases "v_cap v < n")
  case True
  note g = covec_grow_slots [OF ok less_imp_le [OF True] n(2,3)]
  have "covec_resize v n =
    (with_slots v (slots v @ replicate (nat (n - v_cap v)) (replicate (isz v) None)))\<lparr>v_size := n\<rparr>"
    using True g vec_ok_size [OF ok] by (auto simp: covec_resize_def with_slots_def)
  with g True n show ?thesis by (simp add: vec_ok_size_upd del: length_append)
next
  case False
  then show ?thesis
    using ok n vec_ok_size [OF ok] by (auto simp: covec_resize_def vec_ok_size_upd)
qed

lemma covec_check_and_grow_spec:
  assumes ok: "vec_ok v" and room: "vec_room v"
  shows "\<exists>v'. covec_check_and_grow v = Some v' \<and> vec_ok v' \<and> v_size v' = v_size v \<and>
    isz v' = isz v \<and> v_itemsize v' = v_itemsize v \<and> v_size v < v_cap v' \<and>
    v_cap v' \<le> max (v_cap v) (max VEC_INIT_CAP (2 * (v_size v + 1))) \<and> vitems v' = vitems v"
proof (cases "v_cap v \<le> v_size v + 1")
  case True
  let ?c = "max VEC_INIT_CAP (v_cap v * 2)"
  have c: "?c < 2 ^ 31" "?c * v_itemsize v < 2 ^ 32"
    using room by (auto simp: vec_room_def VEC_INIT_CAP_def)
  have e: "covec_check_and_grow v = Some (covec_growcap v ?c)"
    using True room vec_ok_size [OF ok] by (simp add: covec_check_and_grow_def vec_room_def i32_in)
  have "v_size v < ?c" "v_cap v \<le> ?c" "?c \<le> max VEC_INIT_CAP (2 * (v_size v + 1))"
    using True vec_ok_size [OF ok] by (auto simp: VEC_INIT_CAP_def)
  with e covec_growcap_slots [OF ok c] show ?thesis
    using vec_ok_size [OF ok] by (simp add: vitems_def)
next
  case False
  then show ?thesis
    using ok room vec_ok_size [OF ok] by (simp add: covec_check_and_grow_def vec_room_def i32_in)
qed

lemma take_move_right:
  "n \<le> s \<Longrightarrow> s < length ss \<Longrightarrow>
   take (Suc s) ((move_slots ss n (Suc n) (s - n))[n := b]) = insert_nth n b (take s ss)"
  by (simp add: move_slots_def insert_nth_def list_update_append take_update_swap
      upd_conv_take_nth_drop min_absorb1 min_absorb2 drop_take Suc_diff_le)

lemma take_move_left:
  "n < s \<Longrightarrow> s \<le> length ss \<Longrightarrow>
   take (s - 1) (move_slots ss (Suc n) n (s - n - 1)) = delete_nth n (take s ss)"
  by (simp add: move_slots_def delete_nth_def min_absorb1 min_absorb2 drop_take)


lemma covec_push_spec:
  assumes ok: "vec_ok v" and room: "vec_room v" and bs: "length bs = isz v"
    and i: "0 \<le> vec_index v i" "vec_index v i \<le> v_size v"
  shows "\<exists>v'. covec_push v i bs = Some (True, v') \<and> vec_ok v' \<and> isz v' = isz v \<and>
    v_cap v' \<le> max (v_cap v) (max VEC_INIT_CAP (2 * (v_size v + 1))) \<and>
    vitems v' = insert_nth (nat (vec_index v i)) bs (vitems v)"
proof -
  let ?j = "vec_index v i" and ?s = "v_size v"
  obtain w where w: "covec_check_and_grow v = Some w" "vec_ok w" "v_size w = ?s" "isz w = isz v"
    "?s < v_cap w" "v_cap w \<le> max (v_cap v) (max VEC_INIT_CAP (2 * (v_size v + 1)))" "vitems w = vitems v"
    using covec_check_and_grow_spec [OF ok room] by blast
  have s0: "0 \<le> ?s" using ok by (rule vec_ok_size)
  define ss where "ss = (if ?j \<noteq> ?s then move_slots (slots w) (nat ?j) (nat (?j + 1)) (nat (?s - ?j)) else slots w)"
  have ss: "uniform (isz w) ss" "length ss = nat (v_cap w)"
    using uniform_slots [OF w(2)] i w(5) by (auto simp: ss_def)
  have m: "(if ?j \<noteq> v_size w then covec_move w ?j (?j + 1) (v_size w - ?j) else Some w) =
      Some (with_slots w ss)"
    using i w s0 by (auto simp: ss_def covec_move_slots with_slots_def concat_slots [symmetric])
  let ?x = "with_slots w ss"
  have x: "vec_ok ?x" "slots ?x = ss" using ss w by (simp_all add: vec_ok_with_slots)
  let ?t = "ss[nat ?j := bs]"
  have "vec_put ?x ?j bs = Some (with_slots ?x ?t)"
    using x i bs w ss s0 vec_put_slot [OF x(1), of ?j bs] by simp
  moreover have "vec_ok (with_slots ?x ?t)" "uniform (isz ?x) ?t"
    using x ss bs w by (simp_all add: vec_ok_with_slots)
  moreover have "take (nat (?s + 1)) ?t = insert_nth (nat ?j) bs (take (nat ?s) (slots w))"
  proof (cases "?j = ?s")
    case True
    then show ?thesis
      using ss s0 w(5) by (simp add: ss_def insert_nth_def nat_add_distrib take_Suc_conv_app_nth)
  next
    case False
    then show ?thesis
      using i s0 w(5) take_move_right [of "nat ?j" "nat ?s" "slots w" bs]
      by (simp add: ss_def nat_add_distrib nat_diff_distrib)
  qed
  ultimately show ?thesis
    using i w s0 m by (intro exI [of _ "(with_slots ?x ?t)\<lparr>v_size := ?s + 1\<rparr>"])
      (auto simp: covec_push_def Let_def vitems_def vec_ok_size_upd ss(2))
qed

lemma covec_del_spec:
  assumes ok: "vec_ok v" and i: "valid_index v i"
  shows "\<exists>v'. covec_del v i = Some (Some (vitems v ! nat (vec_index v i)), v') \<and> vec_ok v' \<and>
    isz v' = isz v \<and> v_cap v' = v_cap v \<and> vitems v' = delete_nth (nat (vec_index v i)) (vitems v)"
proof -
  let ?j = "vec_index v i" and ?s = "v_size v"
  have j: "0 \<le> ?j" "?j < ?s" "?s \<le> v_cap v" using i ok vec_ok_size by (auto simp: valid_index_def)
  define ss where "ss = (if ?j \<noteq> ?s - 1 then move_slots (slots v) (nat (?j + 1)) (nat ?j) (nat (?s - ?j - 1)) else slots v)"
  have ss: "uniform (isz v) ss" "length ss = nat (v_cap v)"
    using uniform_slots [OF ok] j by (auto simp: ss_def)
  have m: "(if ?j \<noteq> ?s - 1 then covec_move v (?j + 1) ?j (?s - ?j - 1) else Some v) =
      Some (with_slots v ss)"
    using j ok by (auto simp: ss_def covec_move_slots with_slots_def concat_slots [symmetric])
  have "take (nat (?s - 1)) ss = delete_nth (nat ?j) (take (nat ?s) (slots v))"
  proof (cases "?j = ?s - 1")
    case True
    then show ?thesis using j by (simp add: ss_def delete_nth_def nat_diff_distrib min_absorb1)
  next
    case False
    then show ?thesis
      using j take_move_left [of "nat ?j" "nat ?s" "slots v"]
      by (simp add: ss_def nat_add_distrib nat_diff_distrib)
  qed
  moreover have "covec_get v ?j = Some (Some (vitems v ! nat ?j))"
    using j ok by (simp add: covec_get_spec valid_index_def)
  ultimately show ?thesis
    using j ok m ss by (intro exI [of _ "(with_slots v ss)\<lparr>v_size := ?s - 1\<rparr>"])
      (auto simp: covec_del_def Let_def vitems_def vec_ok_size_upd vec_ok_with_slots)
qed


lemma vec_index_cong: "v_size v' = v_size v \<Longrightarrow> vec_index v' i = vec_index v i"
  by (simp add: vec_index_def)

lemma valid_index_cong: "v_size v' = v_size v \<Longrightarrow> valid_index v' i = valid_index v i"
  by (simp add: valid_index_def vec_index_def)

lemma length_swap_nth [simp]: "length (swap_nth i j xs) = length xs"
  by (simp add: swap_nth_def)

lemma swap_nth_nth:
  "i < length xs \<Longrightarrow> j < length xs \<Longrightarrow> n < length xs \<Longrightarrow>
   swap_nth i j xs ! n = (if n = i then xs ! j else if n = j then xs ! i else xs ! n)"
  by (auto simp: swap_nth_def nth_list_update)

lemma mset_swap_nth: "i < length xs \<Longrightarrow> j < length xs \<Longrightarrow> mset (swap_nth i j xs) = mset xs"
  unfolding swap_nth_def by (rule mset_swap)

lemma covec_swap_valid:
  assumes ok: "vec_ok v" and i: "valid_index v i" and j: "valid_index v j"
  shows "\<exists>v'. covec_swap v i j = Some v' \<and> vec_ok v' \<and> isz v' = isz v \<and> v_size v' = v_size v \<and>
    v_cap v' = v_cap v \<and> vitems v' = swap_nth (nat (vec_index v i)) (nat (vec_index v j)) (vitems v)"
proof -
  let ?i = "nat (vec_index v i)" and ?j = "nat (vec_index v j)"
  have l: "?i < length (vitems v)" "?j < length (vitems v)"
    using i j ok by (simp_all add: valid_index_def length_vitems)
  note b = length_vitem [OF ok l(1)] length_vitem [OF ok l(2)]
  obtain w where w: "covec_set v i (vitems v ! ?j) = Some (True, w)" "vec_ok w" "isz w = isz v"
    "v_size w = v_size v" "v_cap w = v_cap v" "vitems w = (vitems v)[?i := vitems v ! ?j]"
    using covec_set_spec [OF ok b(2), of i, unfolded if_P [OF i]] by blast
  have jw: "valid_index w j" and jx: "vec_index w j = vec_index v j"
    using j by (simp_all only: valid_index_cong [OF w(4)] vec_index_cong [OF w(4)])
  have bw: "length (vitems v ! ?i) = isz w" using b w(3) by simp
  obtain x where x: "covec_set w j (vitems v ! ?i) = Some (True, x)" "vec_ok x" "isz x = isz w"
    "v_size x = v_size w" "v_cap x = v_cap w" "vitems x = (vitems w)[?j := vitems v ! ?i]"
    using covec_set_spec [OF w(2) bw, of j, unfolded if_P [OF jw] jx] by blast
  have "covec_swap v i j = Some x"
    using i j w(1) x(1) by (simp add: covec_swap_def covec_get_spec [OF ok])
  with w x show ?thesis by (simp add: swap_nth_def)
qed

lemma covec_swap_invalid:
  "vec_ok v \<Longrightarrow> \<not> (valid_index v i \<and> valid_index v j) \<Longrightarrow> covec_swap v i j = Some v"
  by (auto simp: covec_swap_def covec_get_spec)

lemma vec_ok_bytes:
  assumes "vec_ok v"
  shows "v_size v < 2 ^ 31" "v_size v * v_itemsize v < 2 ^ 32"
proof -
  have "v_size v * v_itemsize v \<le> v_cap v * v_itemsize v"
    using assms by (simp add: vec_ok_def mult_right_mono)
  then show "v_size v < 2 ^ 31" "v_size v * v_itemsize v < 2 ^ 32"
    using assms unfolding vec_ok_def by linarith+
qed

lemma covec_copy_spec:
  assumes ok: "vec_ok v" and same: "v_itemsize u = v_itemsize v"
  shows "\<exists>u'. covec_copy v u = Some u' \<and> vec_ok u' \<and> vitems u' = vitems v"
proof -
  let ?n = "nat (v_size v)" and ?k = "isz v" and ?w = "covec_resize (covec_clear u) (v_size v)"
  have n: "0 \<le> v_size v" "v_size v \<le> v_cap v" using ok by (rule vec_ok_size)+
  have c: "vec_ok (covec_clear u)" using ok same by (simp add: vec_ok_def covec_clear_def)
  have w: "vec_ok ?w" "v_size ?w = v_size v" "v_itemsize ?w = v_itemsize v" "v_cap ?w = v_size v"
    using covec_resize_spec [OF c n(1)] vec_ok_bytes [OF ok] same n
    by (simp_all add: covec_clear_def covec_resize_def)
  have dw: "length (v_data ?w) = ?n * ?k" using w unfolding vec_ok_def by simp
  have "?n * ?k \<le> nat (v_cap v) * ?k" using n by (intro mult_le_mono1) simp
  then have l: "0 + ?n * ?k \<le> length (v_data v)" using ok unfolding vec_ok_def by simp
  have t: "take (?n * ?k) (v_data v) = concat (vitems v)"
    using take_concat_uniform [OF uniform_slots [OF ok], of ?n]
    by (simp add: vitems_def concat_slots [OF ok, symmetric])
  have u: "uniform ?k (vitems v)" using uniform_slots [OF ok] by (simp add: vitems_def)
  have lc: "length (concat (vitems v)) = ?n * ?k"
    using length_concat_uniform [OF u] length_vitems [OF ok] by simp
  have "mem_load (v_data v) 0 (u32 (v_size v * v_itemsize v)) = Some (concat (vitems v))"
    using mem_load_nat [OF l] t by (simp add: off_int [OF ok n])
  moreover have "mem_store (v_data ?w) 0 (concat (vitems v)) = Some (concat (vitems v))"
    using mem_store_nat [of 0 "concat (vitems v)" "v_data ?w"] dw lc by simp
  ultimately have "covec_copy v u = Some (?w\<lparr>v_data := concat (vitems v)\<rparr>)"
    by (simp add: covec_copy_def)
  moreover have "?w\<lparr>v_data := concat (vitems v)\<rparr> = with_slots ?w (vitems v)"
    using w(4) n length_vitems [OF ok] by (cases ?w) (simp add: with_slots_def)
  ultimately show ?thesis
    using w n length_vitems [OF ok] u
    by (intro exI [of _ "with_slots ?w (vitems v)"]) (simp add: vec_ok_with_slots vitems_with_slots)
qed

section \<open>The vector as an interface\<close>

text \<open>
  What the priority queue relies on: reading, swapping, and pushing and deleting at the tail,
  each without undefined behaviour and with its effect on the list of items.
\<close>

locale item_vector =
  fixes read :: "'v \<Rightarrow> int \<Rightarrow> 'a option exec"
    and swap :: "'v \<Rightarrow> int \<Rightarrow> int \<Rightarrow> 'v exec"
    and push_tail :: "'v \<Rightarrow> 'a \<Rightarrow> (bool \<times> 'v) exec"
    and del_tail :: "'v \<Rightarrow> ('a option \<times> 'v) exec"
    and items :: "'v \<Rightarrow> 'a list"
    and inv :: "'v \<Rightarrow> bool"
    and room :: "'v \<Rightarrow> bool"
    and fits :: "'v \<Rightarrow> 'a \<Rightarrow> bool"
  assumes read_law: "inv v \<Longrightarrow> n < length (items v) \<Longrightarrow> read v (int n) = Some (Some (items v ! n))"
    and swap_law: "inv v \<Longrightarrow> m < length (items v) \<Longrightarrow> n < length (items v) \<Longrightarrow>
      \<exists>v'. swap v (int m) (int n) = Some v' \<and> inv v' \<and> items v' = swap_nth m n (items v) \<and>
        fits v' = fits v"
    and push_law: "inv v \<Longrightarrow> room v \<Longrightarrow> fits v x \<Longrightarrow>
      \<exists>v'. push_tail v x = Some (True, v') \<and> inv v' \<and> items v' = items v @ [x] \<and> fits v' = fits v"
    and del_law: "inv v \<Longrightarrow> items v \<noteq> [] \<Longrightarrow>
      \<exists>v'. del_tail v = Some (Some (last (items v)), v') \<and> inv v' \<and> items v' = butlast (items v) \<and>
        fits v' = fits v"
    and del_empty: "inv v \<Longrightarrow> items v = [] \<Longrightarrow> del_tail v = Some (None, v)"
begin

lemma swap_mset:
  assumes "inv v" "m < length (items v)" "n < length (items v)"
  obtains v' where "swap v (int m) (int n) = Some v'" "inv v'" "fits v' = fits v"
    "items v' = swap_nth m n (items v)" "mset (items v') = mset (items v)"
  using swap_law [OF assms] assms by (auto simp: mset_swap_nth)

lemma push_then_del:
  assumes "inv v" "room v" "fits v x"
  obtains v' v'' where "push_tail v x = Some (True, v')" "del_tail v' = Some (Some x, v'')"
    "inv v''" "items v'' = items v"
proof -
  obtain v' where v': "push_tail v x = Some (True, v')" "inv v'" "items v' = items v @ [x]"
    using push_law [OF assms] by blast
  then show ?thesis using del_law [of v'] that by fastforce
qed

text \<open>Deleting the head of a heap: swap it to the tail and delete it there.\<close>

lemma swap_del:
  assumes "inv v" "items v \<noteq> []"
  obtains v' v'' where "swap v 0 (int (length (items v)) - 1) = Some v'"
    "del_tail v' = Some (Some (hd (items v)), v'')" "inv v''" "fits v'' = fits v"
    "items v'' = butlast (swap_nth 0 (length (items v) - 1) (items v))"
    "mset (items v) = add_mset (hd (items v)) (mset (items v''))"
proof -
  let ?n = "length (items v)"
  have n: "0 < ?n" using assms by simp
  obtain v' where v': "swap v (int 0) (int (?n - 1)) = Some v'" "inv v'" "fits v' = fits v"
    "items v' = swap_nth 0 (?n - 1) (items v)" "mset (items v') = mset (items v)"
    using swap_mset [OF assms(1), of 0 "?n - 1"] n by (metis diff_less zero_less_one)
  have ne: "items v' \<noteq> []" using v'(4) n by (metis length_swap_nth list.size(3) less_irrefl)
  have l: "last (items v') = hd (items v)"
    using ne n v'(4) by (auto simp: last_conv_nth hd_conv_nth swap_nth_nth)
  obtain v'' where v'': "del_tail v' = Some (Some (hd (items v)), v'')" "inv v''"
    "items v'' = butlast (items v')" "fits v'' = fits v'"
    using del_law [OF v'(2) ne] l by auto
  have "mset (items v') = add_mset (last (items v')) (mset (butlast (items v')))"
    using ne by (metis append_butlast_last_id mset_append mset_single_iff_right add_mset_add_single mset.simps)
  with v' v'' l n show ?thesis
    by (intro that [of v' v'']) (auto simp: of_nat_diff)
qed

end

text \<open>Filling an empty vector from the tail keeps the capacity within twice the size.\<close>

definition vec_tight :: "covec \<Rightarrow> bool" where
  "vec_tight v \<longleftrightarrow> v_cap v \<le> max VEC_INIT_CAP (2 * v_size v)"

lemma vec_tight_room:
  assumes "vec_tight v" "0 \<le> v_size v" "0 < v_itemsize v"
    "v_size v < 2 ^ 28" "(4 * v_size v + 16) * v_itemsize v < 2 ^ 32"
  shows "vec_room v"
proof -
  have "max VEC_INIT_CAP (v_cap v * 2) \<le> 4 * v_size v + 16"
    using assms(1,2) by (auto simp: vec_tight_def VEC_INIT_CAP_def)
  then have "max VEC_INIT_CAP (v_cap v * 2) * v_itemsize v \<le> (4 * v_size v + 16) * v_itemsize v"
    using assms(3) by (intro mult_right_mono) auto
  moreover have "v_cap v < 2 ^ 30"
    using assms(1,2,4) by (auto simp: vec_tight_def VEC_INIT_CAP_def)
  ultimately show ?thesis using assms(5) unfolding vec_room_def by linarith
qed

lemma vec_tight_push:
  assumes "vec_ok v" "vec_tight v" "vec_room v" "length bs = isz v"
  shows "\<exists>v'. covec_push_tail v bs = Some (True, v') \<and> vec_ok v' \<and> vec_tight v' \<and>
    isz v' = isz v \<and> vitems v' = vitems v @ [bs]"
proof -
  obtain v' where v': "covec_push_tail v bs = Some (True, v')" "vec_ok v'" "isz v' = isz v"
    "v_cap v' \<le> max (v_cap v) (max VEC_INIT_CAP (2 * (v_size v + 1)))"
    "vitems v' = insert_nth (nat (v_size v)) bs (vitems v)"
    using covec_push_spec [OF assms(1,3,4), of "v_size v"] vec_ok_size [OF assms(1)]
    by (auto simp: covec_push_tail_def)
  have items: "vitems v' = vitems v @ [bs]"
    using v'(5) length_vitems [OF assms(1)] by (simp add: insert_nth_def)
  then have "v_size v' = v_size v + 1"
    using length_vitems [OF v'(2)] length_vitems [OF assms(1)] vec_ok_size [OF v'(2)]
      vec_ok_size [OF assms(1)] by simp
  then have "vec_tight v'" using v'(4) assms(2) by (auto simp: vec_tight_def)
  with v' items show ?thesis by blast
qed

text \<open>Reading an item through its pointer, as the comparison callback does.\<close>

definition vec_read :: "covec \<Rightarrow> int \<Rightarrow> cell list option exec" where
  "vec_read v i =
     (case covec_get_ptr v i of
        None \<Rightarrow> Some None
      | Some p \<Rightarrow> map_option Some (mem_load (v_data v) p (v_itemsize v)))"

interpretation vec: item_vector vec_read covec_swap covec_push_tail covec_del_tail
  vitems vec_ok vec_room "\<lambda>v x. length x = isz v"
proof (unfold_locales, goal_cases)
  case (1 v n)
  then have "0 \<le> int n" "int n < v_size v" using vec_ok_size [of v] by (auto simp: length_vitems)
  with 1 show ?case
    by (elim covec_get_ptr_load [of v "int n"]) (auto simp: vec_read_def)
next
  case (2 v m n)
  then have "valid_index v (int m)" "valid_index v (int n)"
    by (auto simp: valid_index_def length_vitems vec_ok_size)
  with covec_swap_valid [of v "int m" "int n"] 2 show ?case by auto
next
  case (3 v x)
  then show ?case
    using covec_push_spec [of v x "v_size v"] vec_ok_size [of v]
    by (auto simp: covec_push_tail_def insert_nth_def length_vitems vitems_def)
next
  case (4 v)
  then have p: "0 < v_size v" by (auto simp: vitems_def)
  with 4 have "valid_index v (v_size v - 1)" by (simp add: valid_index_def)
  from covec_del_spec [OF 4(1) this] p 4 show ?case
    by (auto simp: covec_del_tail_def delete_nth_def last_conv_nth butlast_conv_take length_vitems
        nat_diff_distrib min_absorb1)
next
  case (5 v)
  then have "v_size v = 0" using length_vitems [of v] vec_ok_size [of v] by simp
  then show ?case by (simp add: covec_del_tail_def covec_del_def)
qed


section \<open>Properties\<close>

text \<open>C3: Inserting with \<open>covec_push\<close> never has undefined behaviour on a well-formed vector with
  room in 32 bits.  An index from \<open>-size\<close> to \<open>size\<close> inserts the item at its place, shifts the
  rest up and keeps the vector well-formed; any other index returns false and changes nothing.\<close>
theorem covec_push_correct:
  assumes "vec_ok v" "vec_room v" "length bs = isz v"
  shows "if 0 \<le> vec_index v i \<and> vec_index v i \<le> v_size v
    then \<exists>v'. covec_push v i bs = Some (True, v') \<and> vec_ok v' \<and> isz v' = isz v \<and>
      vitems v' = insert_nth (nat (vec_index v i)) bs (vitems v)
    else covec_push v i bs = Some (False, v)"
  using covec_push_spec [OF assms, of i] by (auto simp: covec_push_def Let_def)

theorem covec_push_correct_witness:
  "\<exists>v'. covec_push (covec_new 2) 0 [Some 7, Some 9] = Some (True, v') \<and> vec_ok v' \<and>
     vitems v' = [[Some 7, Some 9]]"
proof -
  have "vec_ok (covec_new 2)" "vec_room (covec_new 2)" "length [Some 7, Some 9 :: cell] = isz (covec_new 2)"
    by (simp_all add: vec_ok_def vec_room_def covec_new_def VEC_INIT_CAP_def)
  from covec_push_correct [OF this, of 0] show ?thesis
    by (auto simp: covec_new_def insert_nth_def vitems_def)
qed

text \<open>Deleting with \<open>covec_del\<close> never has undefined behaviour on a well-formed vector: a valid
  index (negative ones count from the end) hands out the item, closes the gap and keeps the
  vector well-formed; any other index returns false and changes nothing.\<close>
theorem covec_del_correct:
  assumes "vec_ok v"
  shows "if valid_index v i
    then \<exists>v'. covec_del v i = Some (Some (vitems v ! nat (vec_index v i)), v') \<and> vec_ok v' \<and>
      isz v' = isz v \<and> v_cap v' = v_cap v \<and> vitems v' = delete_nth (nat (vec_index v i)) (vitems v)
    else covec_del v i = Some (None, v)"
  using covec_del_spec [OF assms, of i] by (auto simp: covec_del_def Let_def valid_index_def)

theorem covec_del_correct_witness:
  "covec_del (covec_new 4) (- 1) = Some (None, covec_new 4)"
proof -
  have "vec_ok (covec_new 4)" by (simp add: vec_ok_def covec_new_def)
  from covec_del_correct [OF this, of "- 1"] show ?thesis
    by (simp add: valid_index_def covec_new_def)
qed

lemma vec_feed:
  assumes "vec_ok v" "vec_tight v" "\<forall>x\<in>set xs. length x = isz v"
    "v_size v + int (length xs) < 2 ^ 28"
    "(4 * (v_size v + int (length xs)) + 16) * v_itemsize v < 2 ^ 32"
  shows "\<exists>v'. feed (\<lambda>v x. map_option snd (covec_push_tail v x)) v xs = Some v' \<and> vec_ok v' \<and>
    vitems v' = vitems v @ xs"
  using assms
proof (induction xs arbitrary: v)
  case (Cons x xs)
  let ?n = "v_size v"
  have n: "0 \<le> ?n" "0 < v_itemsize v" using Cons.prems(1) by (simp_all add: vec_ok_def)
  have "(4 * ?n + 16) * v_itemsize v \<le> (4 * (?n + int (length (x # xs))) + 16) * v_itemsize v"
    using n by (intro mult_right_mono) auto
  then have "(4 * ?n + 16) * v_itemsize v < 2 ^ 32"
    using Cons.prems(5) by (rule order.strict_trans1)
  moreover have "?n < 2 ^ 28" using Cons.prems(4) by simp
  ultimately have "vec_room v"
    using Cons.prems(2) n by (intro vec_tight_room)
  then obtain w where w: "covec_push_tail v x = Some (True, w)" "vec_ok w" "vec_tight w"
    "isz w = isz v" "vitems w = vitems v @ [x]"
    using vec_tight_push [OF Cons.prems(1,2)] Cons.prems(3) by auto
  have iw: "v_itemsize w = v_itemsize v" using w(2,4) Cons.prems(1) by (metis isz_int)
  have "v_size w = ?n + 1"
    using length_vitems [OF w(2)] length_vitems [OF Cons.prems(1)] vec_ok_size [OF w(2)] n w(5) by simp
  with w iw Cons.prems Cons.IH [OF w(2,3)] show ?case by (simp add: algebra_simps)
qed simp

lemma covec_new_ok: "0 < k \<Longrightarrow> k < 2 ^ 16 \<Longrightarrow> vec_ok (covec_new k)"
  by (simp add: vec_ok_def covec_new_def)

text \<open>Filling a new vector through \<open>covec_push_tail\<close>, growing its block as often as needed, and
  reading it back with \<open>covec_get\<close> returns exactly the items pushed, as long as four times the
  bytes stored fit in 32 bits.\<close>
theorem covec_fill_roundtrip:
  assumes "0 < k" "k < 2 ^ 16" "\<forall>x\<in>set xs. length x = nat k"
    "int (length xs) < 2 ^ 28" "(4 * int (length xs) + 16) * k < 2 ^ 32"
  shows "\<exists>v. feed (\<lambda>v x. map_option snd (covec_push_tail v x)) (covec_new k) xs = Some v \<and>
    v_size v = int (length xs) \<and>
    (\<forall>i. covec_get v (int i) = Some (if i < length xs then Some (xs ! i) else None))"
proof -
  have "vec_tight (covec_new k)" "isz (covec_new k) = nat k"
    by (simp_all add: vec_tight_def covec_new_def)
  then obtain v where v: "feed (\<lambda>v x. map_option snd (covec_push_tail v x)) (covec_new k) xs = Some v"
    "vec_ok v" "vitems v = xs"
    using vec_feed [OF covec_new_ok [OF assms(1,2)], of xs] assms
    by (auto simp: covec_new_def vitems_def)
  moreover have "v_size v = int (length xs)"
    using length_vitems [OF v(2)] vec_ok_size [OF v(2)] v(3) by simp
  ultimately show ?thesis
    by (auto simp: covec_get_spec valid_index_def)
qed

theorem covec_fill_roundtrip_witness:
  "\<exists>v. feed (\<lambda>v x. map_option snd (covec_push_tail v x)) (covec_new 1) [[Some 5], [Some 6]] = Some v \<and>
     covec_get v 1 = Some (Some [Some 6])"
proof -
  obtain v where v: "feed (\<lambda>v x. map_option snd (covec_push_tail v x)) (covec_new 1)
      [[Some 5], [Some 6]] = Some v"
    "\<forall>i. covec_get v (int i) = Some (if i < length [[Some 5], [Some 6]] then Some ([[Some 5], [Some 6]] ! i) else None)"
    using covec_fill_roundtrip [of 1 "[[Some 5], [Some 6]]"] by auto
  from v(1) v(2) [rule_format, of 1] show ?thesis by auto
qed

text \<open>\<open>covec_copy\<close> onto a vector with the same item size gives a well-formed vector with the
  same items, whatever the target held before.\<close>
theorem covec_copy_correct:
  assumes "vec_ok v" "v_itemsize u = v_itemsize v"
  shows "\<exists>u'. covec_copy v u = Some u' \<and> vec_ok u' \<and> vitems u' = vitems v"
  using assms by (rule covec_copy_spec)

theorem covec_copy_correct_witness:
  "\<exists>u'. covec_copy \<lparr>v_data = [Some 3, Some 4], v_cap = 1, v_size = 1, v_itemsize = 2\<rparr> (covec_new 2) = Some u' \<and>
     vec_ok u' \<and> vitems u' = [[Some 3, Some 4]]"
proof -
  let ?v = "\<lparr>v_data = [Some 3, Some 4], v_cap = 1, v_size = 1, v_itemsize = 2\<rparr> :: covec"
  have "vec_ok ?v" "v_itemsize (covec_new 2) = v_itemsize ?v" by (simp_all add: vec_ok_def covec_new_def)
  from covec_copy_correct [OF this] show ?thesis by (simp add: vitems_def slots_def chunks_def)
qed

text \<open>The block size is a 32-bit product.  Growing to a capacity whose bytes do not fit in 32 bits
  leaves a block shorter than the capacity says, and writing the last slot is undefined
  behaviour.\<close>
theorem covec_growcap_overflow:
  assumes "vec_ok v" "v_cap v < c" "2 ^ 32 \<le> c * v_itemsize v" "length bs = isz v"
  shows "int (length (v_data (covec_growcap v c))) < c * v_itemsize v \<and>
    (u32 ((c - 1) * v_itemsize v) = (c - 1) * v_itemsize v \<longrightarrow> vec_put (covec_growcap v c) (c - 1) bs = None)"
proof -
  let ?w = "covec_growcap v c" and ?k = "v_itemsize v"
  have k: "0 < ?k" "0 \<le> c" using assms(1,2) by (auto simp: vec_ok_def)
  have "int (length (v_data ?w)) = u32 (c * ?k)"
    using assms(2) by (simp add: covec_growcap_def)
  then have l: "int (length (v_data ?w)) < c * ?k" using assms(3) by (simp add: u32_def)
  moreover have "vec_put ?w (c - 1) bs = None" if "u32 ((c - 1) * ?k) = (c - 1) * ?k"
  proof -
    have "v_itemsize ?w = ?k" by (simp add: covec_growcap_def)
    moreover have "mem_load bs 0 ?k = Some bs" using assms(4) k by (simp add: mem_load_def)
    moreover have "mem_store (v_data ?w) ((c - 1) * ?k) bs = None"
      using l k assms(4) by (simp add: mem_store_def algebra_simps)
    ultimately show ?thesis using that by (simp add: vec_put_def)
  qed
  ultimately show ?thesis by blast
qed

theorem covec_growcap_overflow_witness:
  "vec_put (covec_growcap (covec_new 65535) 65538) 65537 (replicate 65535 (Some 0)) = None"
proof -
  have "vec_ok (covec_new 65535)" "v_cap (covec_new 65535) < 65538"
    "2 ^ 32 \<le> 65538 * v_itemsize (covec_new 65535)"
    "length (replicate 65535 (Some 0 :: cell)) = isz (covec_new 65535)"
    by (simp_all add: vec_ok_def covec_new_def)
  from covec_growcap_overflow [OF this] show ?thesis by (simp add: covec_new_def u32_def)
qed

end
