(* ===== verification/Ring.thy ===== *)
theory Ring
  imports Vec
begin

text \<open>
  The contents of a circular array: \<open>ring h t xs\<close> is what lies from index \<open>h\<close> up to, not
  including, index \<open>t\<close>, going round the end of \<open>xs\<close>.  Shared by the queue
  (\<open>src/co_queue.c\<close>, one slot at a time) and the ring buffer (\<open>src/co_buffer.c\<close>, blocks of
  bytes).  Equal indices mean an empty ring, so a ring of \<open>n\<close> slots holds at most \<open>n - 1\<close>.
\<close>

definition ring :: "nat \<Rightarrow> nat \<Rightarrow> 'a list \<Rightarrow> 'a list" where
  "ring h t xs = (if h \<le> t then take (t - h) (drop h xs) else drop h xs @ take t xs)"

definition ring_size :: "int \<Rightarrow> int \<Rightarrow> int \<Rightarrow> int" where
  "ring_size n h t = (if h \<le> t then t - h else n - (h - t))"

lemma length_ring:
  "h < length xs \<Longrightarrow> t < length xs \<Longrightarrow>
   length (ring h t xs) = (if h \<le> t then t - h else length xs - (h - t))"
  by (auto simp: ring_def)

lemma ring_size_length:
  "h < length xs \<Longrightarrow> t < length xs \<Longrightarrow>
   ring_size (int (length xs)) (int h) (int t) = int (length (ring h t xs))"
  by (auto simp: ring_size_def length_ring)

lemma ring_less: "h < length xs \<Longrightarrow> t < length xs \<Longrightarrow> length (ring h t xs) < length xs"
  by (auto simp: length_ring)

lemma ring_refl [simp]: "ring h h xs = []"
  by (simp add: ring_def)

lemma ring_empty_iff:
  "h < length xs \<Longrightarrow> t < length xs \<Longrightarrow> ring h t xs = [] \<longleftrightarrow> h = t"
  by (auto simp: ring_def)

lemma mod_once: "(a::nat) < n \<Longrightarrow> b \<le> n \<Longrightarrow> (a + b) mod n = (if a + b < n then a + b else a + b - n)"
  by (auto simp: mod_if le_mod_geq)

text \<open>Taking the first \<open>k\<close> elements out.\<close>

lemma ring_take_drop:
  assumes "h < length xs" "t < length xs" "k \<le> length (ring h t xs)"
  shows "ring ((h + k) mod length xs) t xs = drop k (ring h t xs)"
proof -
  have k: "k \<le> length xs" using assms ring_less [of h xs t] by linarith
  show ?thesis
  proof (cases "h \<le> t")
    case True
    then have "h + k \<le> t" using assms by (simp add: length_ring)
    then have "(h + k) mod length xs = h + k" using assms by simp
    with True \<open>h + k \<le> t\<close> show ?thesis by (simp add: ring_def drop_take add.commute)
  next
    case False
    then have l: "k \<le> length xs - (h - t)" using assms by (simp add: length_ring)
    show ?thesis
    proof (cases "h + k < length xs")
      case True
      with False l show ?thesis by (auto simp: ring_def add.commute)
    next
      case wrap: False
      then have "(h + k) mod length xs = h + k - length xs" using assms k by (simp add: mod_once)
      moreover have "h + k - length xs \<le> t" using l False assms by linarith
      moreover have "t + length xs - (h + k) = t - (k - (length xs - h))"
        "h + k - length xs = k - (length xs - h)" "k - (length xs - h) = k + h - length xs"
        using wrap assms by linarith+
      ultimately show ?thesis using False wrap assms
        by (simp add: ring_def drop_take drop_append)
    qed
  qed
qed

lemma ring_nth:
  assumes "h < length xs" "t < length xs" "k < length (ring h t xs)"
  shows "ring h t xs ! k = xs ! ((h + k) mod length xs)"
proof (cases "h \<le> t")
  case True
  then show ?thesis using assms by (simp add: length_ring) (simp add: ring_def)
next
  case False
  then have k: "k < length xs - (h - t)" "k \<le> length xs" using assms by (simp_all add: length_ring)
  show ?thesis
    using False assms(1) k by (auto simp: ring_def nth_append mod_once add.commute)
qed

lemma ring_hd: "h < length xs \<Longrightarrow> t < length xs \<Longrightarrow> h \<noteq> t \<Longrightarrow> hd (ring h t xs) = xs ! h"
  using ring_nth [of h xs t 0] ring_empty_iff [of h xs t] by (auto simp: hd_conv_nth)

text \<open>Writing a block at the tail, in two parts when it passes the end.\<close>

definition ring_write :: "nat \<Rightarrow> 'a list \<Rightarrow> 'a list \<Rightarrow> 'a list" where
  "ring_write t bs xs =
     (let k = min (length bs) (length xs - t);
          ys = take t xs @ take k bs @ drop (t + k) xs
      in drop k bs @ drop (length bs - k) ys)"

lemma ring_write_fits:
  "t + length bs \<le> length xs \<Longrightarrow>
   ring_write t bs xs = take t xs @ bs @ drop (t + length bs) xs"
  by (simp add: ring_write_def min_absorb1)

lemma ring_write_wraps:
  "t \<le> length xs \<Longrightarrow> length xs < t + length bs \<Longrightarrow>
   ring_write t bs xs =
     drop (length xs - t) bs @ drop (t + length bs - length xs) (take t xs @ take (length xs - t) bs)"
  by (simp add: ring_write_def min_absorb2 Let_def add.commute)

lemma length_ring_write:
  "t < length xs \<Longrightarrow> length bs \<le> length xs \<Longrightarrow> length (ring_write t bs xs) = length xs"
  by (cases "t + length bs \<le> length xs") (auto simp: ring_write_fits ring_write_wraps)

lemma ring_write_append:
  assumes "h < length xs" "t < length xs" and room: "length (ring h t xs) + length bs < length xs"
  shows "ring h ((t + length bs) mod length xs) (ring_write t bs xs) = ring h t xs @ bs"
proof -
  have b: "length bs \<le> length xs" using room by simp
  show ?thesis
  proof (cases "h \<le> t")
    case True
    then have r: "t - h + length bs < length xs" using room assms by (simp add: length_ring)
    show ?thesis
    proof (cases "t + length bs < length xs")
      case fits: True
      with True assms show ?thesis by (simp add: ring_write_fits ring_def drop_append take_append drop_take)
    next
      case wraps: False
      then have m: "(t + length bs) mod length xs = t + length bs - length xs"
        using assms b by (simp add: mod_once)
      have lt: "t + length bs - length xs < h" using r True wraps by linarith
      show ?thesis
      proof (cases "t + length bs = length xs")
        case exact: True
        with True assms lt show ?thesis by (simp add: m ring_write_fits ring_def drop_take)
      next
        case False
        with wraps have w: "length xs < t + length bs" by simp
        have "t + length bs - length xs = length bs - (length xs - t)" using assms(2) by simp
        with True assms lt w show ?thesis
          by (simp add: m ring_write_wraps ring_def drop_append take_append drop_take)
      qed
    qed
  next
    case False
    then have "length bs < h - t" using room assms by (simp add: length_ring)
    then have f: "t + length bs < h" "t + length bs < length xs" using False assms by auto
    with False assms show ?thesis by (simp add: ring_write_fits ring_def drop_append)
  qed
qed

lemma ring_push:
  assumes "h < length xs" "t < length xs" "Suc (length (ring h t xs)) < length xs"
  shows "ring h (Suc t mod length xs) (xs[t := x]) = ring h t xs @ [x]"
proof -
  have "xs[t := x] = ring_write t [x] xs"
    using assms(2) by (simp add: ring_write_fits upd_conv_take_nth_drop)
  then show ?thesis using ring_write_append [OF assms(1,2), of "[x]"] assms(3) by simp
qed

text \<open>Growing: the part from \<open>h\<close> to the end moves to the end of the longer array.\<close>

lemma ring_grow_straight:
  "h \<le> t \<Longrightarrow> t < length xs \<Longrightarrow> ring h t (xs @ ys) = ring h t xs"
  by (simp add: ring_def)

lemma ring_grow_wrapped:
  assumes "t < h" "h < length xs" and h': "h' = h + length ys" and n: "n = length xs - h"
  shows "ring h' t (move_slots (xs @ ys) h h' n) = ring h t xs"
proof -
  let ?zs = "move_slots (xs @ ys) h h' n"
  have "length (take h' (xs @ ys)) = h'" using assms by simp
  then have "drop h' ?zs = drop h xs"
    using assms by (simp add: move_slots_def)
  moreover have "take t ?zs = take t xs"
    using assms by (simp add: move_slots_def min_absorb1)
  ultimately show ?thesis using assms by (simp add: ring_def)
qed

text \<open>A first-in first-out queue as an interface.\<close>

locale fifo =
  fixes push :: "'q \<Rightarrow> 'a \<Rightarrow> 'q exec"
    and pop :: "'q \<Rightarrow> ('a option \<times> 'q) exec"
    and content :: "'q \<Rightarrow> 'a list"
    and ok :: "'q \<Rightarrow> bool"
    and room :: "nat \<Rightarrow> 'q \<Rightarrow> bool"
    and fits :: "'q \<Rightarrow> 'a \<Rightarrow> bool"
  assumes push_law: "ok q \<Longrightarrow> room (Suc n) q \<Longrightarrow> fits q x \<Longrightarrow>
      \<exists>q'. push q x = Some q' \<and> ok q' \<and> content q' = content q @ [x] \<and> room n q' \<and> fits q' = fits q"
    and pop_empty: "ok q \<Longrightarrow> content q = [] \<Longrightarrow> pop q = Some (None, q)"
    and pop_law: "ok q \<Longrightarrow> content q = x # xs \<Longrightarrow>
      \<exists>q'. pop q = Some (Some x, q') \<and> ok q' \<and> content q' = xs \<and> fits q' = fits q"
begin

lemma feed_content:
  "ok q \<Longrightarrow> room (length xs) q \<Longrightarrow> \<forall>x\<in>set xs. fits q x \<Longrightarrow>
   \<exists>q'. feed push q xs = Some q' \<and> ok q' \<and> content q' = content q @ xs"
proof (induction xs arbitrary: q)
  case (Cons x xs)
  obtain q1 where "push q x = Some q1" "ok q1" "content q1 = content q @ [x]" "room (length xs) q1"
    "fits q1 = fits q"
    using push_law [of q "length xs" x] Cons.prems by auto
  with Cons.IH [of q1] Cons.prems(3) show ?case by auto
qed simp

lemma drain_content: "ok q \<Longrightarrow> length (content q) \<le> n \<Longrightarrow> drain pop n q = Some (content q)"
proof (induction n arbitrary: q)
  case (Suc n)
  show ?case
  proof (cases "content q")
    case Nil
    with Suc.prems show ?thesis by (simp add: pop_empty)
  next
    case (Cons x xs)
    with pop_law [OF Suc.prems(1) Cons] Suc show ?thesis by auto
  qed
qed simp

text \<open>First in, first out: what was fed comes out in the same order, after what was there.\<close>

lemma feed_drain:
  assumes "ok q" "room (length xs) q" "\<forall>x\<in>set xs. fits q x" "length (content q) + length xs \<le> n"
  shows "do { q' \<leftarrow> feed push q xs; drain pop n q' } = Some (content q @ xs)"
  using feed_content [OF assms(1-3)] drain_content assms(4) by auto

end

end
