(* ===== verification/Queue.thy ===== *)
theory Queue
  imports Ring
begin

text \<open>
  \<open>src/co_queue.c\<close>: a first-in first-out queue in the slots of a \<open>covec\<close>, used as a circular
  array between \<open>head\<close> and \<open>tail\<close>.
\<close>

section \<open>Operations\<close>

record coqueue =
  q_vec :: covec
  q_head :: int
  q_tail :: int

definition QUEUE_INIT_SIZE :: int where
  "QUEUE_INIT_SIZE = 8"

definition coqueue_new :: "int \<Rightarrow> coqueue" where
  "coqueue_new itemsize =
     \<lparr>q_vec = covec_resize (covec_new itemsize) QUEUE_INIT_SIZE, q_head = 0, q_tail = 0\<rparr>"

definition coqueue_free :: "coqueue \<Rightarrow> coqueue option" where
  "coqueue_free q = (case covec_free (q_vec q) of _ \<Rightarrow> None)"

definition coqueue_size :: "coqueue \<Rightarrow> int" where
  "coqueue_size q = ring_size (v_size (q_vec q)) (q_head q) (q_tail q)"

text \<open>\<open>(i + d) % vec->size\<close>: undefined for an empty vector, C's remainder otherwise.\<close>

definition q_wrap :: "coqueue \<Rightarrow> int \<Rightarrow> int exec" where
  "q_wrap q i = (if v_size (q_vec q) = 0 then None else Some (i mod v_size (q_vec q)))"

definition coqueue_check_and_grow :: "coqueue \<Rightarrow> coqueue exec" where
  "coqueue_check_and_grow q =
     (let vecsize = v_size (q_vec q) in
      if vecsize \<le> coqueue_size q + 1 then do {
        n \<leftarrow> i32 (vecsize * 2);
        let v = covec_resize (q_vec q) n;
        if q_tail q < q_head q then do {
          let cnt = vecsize - q_head q;
          let newhead = v_size v - cnt;
          v \<leftarrow> covec_move v (q_head q) newhead cnt;
          Some (q\<lparr>q_vec := v, q_head := newhead\<rparr>)
        } else Some (q\<lparr>q_vec := v\<rparr>)
      } else Some q)"

definition coqueue_push :: "coqueue \<Rightarrow> cell list \<Rightarrow> coqueue exec" where
  "coqueue_push q bs = do {
     q \<leftarrow> coqueue_check_and_grow q;
     (_, v) \<leftarrow> covec_set (q_vec q) (q_tail q) bs;
     let q = q\<lparr>q_vec := v\<rparr>;
     t \<leftarrow> q_wrap q (q_tail q + 1);
     Some (q\<lparr>q_tail := t\<rparr>)
   }"

definition coqueue_pop :: "coqueue \<Rightarrow> (cell list option \<times> coqueue) exec" where
  "coqueue_pop q =
     (if coqueue_size q \<noteq> 0 then do {
        b \<leftarrow> covec_get (q_vec q) (q_head q);
        h \<leftarrow> q_wrap q (q_head q + 1);
        Some (b, q\<lparr>q_head := h\<rparr>)
      } else Some (None, q))"

definition coqueue_peek :: "coqueue \<Rightarrow> int \<Rightarrow> cell list option exec" where
  "coqueue_peek q index =
     (let n = coqueue_size q; i = (if index < 0 then n + index else index) in
      if i < 0 \<or> n \<le> i then Some None
      else do { j \<leftarrow> q_wrap q (q_head q + i); covec_get (q_vec q) j })"

section \<open>Invariant and abstraction\<close>

definition q_items :: "coqueue \<Rightarrow> cell list list" where
  "q_items q = ring (nat (q_head q)) (nat (q_tail q)) (slots (q_vec q))"

definition q_ok :: "coqueue \<Rightarrow> bool" where
  "q_ok q \<longleftrightarrow> vec_ok (q_vec q) \<and> v_size (q_vec q) = v_cap (q_vec q) \<and> 2 \<le> v_size (q_vec q) \<and>
     0 \<le> q_head q \<and> q_head q < v_size (q_vec q) \<and> 0 \<le> q_tail q \<and> q_tail q < v_size (q_vec q)"

text \<open>Enough address space for \<open>n\<close> more items: the array at most doubles when it is full.\<close>

definition q_room :: "nat \<Rightarrow> coqueue \<Rightarrow> bool" where
  "q_room n q \<longleftrightarrow> (let m = max (v_size (q_vec q)) (2 * (int (length (q_items q)) + int n)) in
     m < 2 ^ 31 \<and> m * v_itemsize (q_vec q) < 2 ^ 32)"

lemma q_okD:
  assumes "q_ok q"
  shows "nat (q_head q) < length (slots (q_vec q))" "nat (q_tail q) < length (slots (q_vec q))"
    "vec_ok (q_vec q)" "int (length (slots (q_vec q))) = v_size (q_vec q)"
    "v_size (q_vec q) = v_cap (q_vec q)" "0 \<le> q_head q" "0 \<le> q_tail q" "2 \<le> v_size (q_vec q)"
    "q_head q < v_size (q_vec q)" "q_tail q < v_size (q_vec q)"
  using assms by (auto simp: q_ok_def)

lemma coqueue_size_items:
  assumes "q_ok q"
  shows "coqueue_size q = int (length (q_items q))"
  using ring_size_length [OF q_okD(1,2) [OF assms]] q_okD(4,6,7) [OF assms]
  by (simp add: coqueue_size_def q_items_def del: length_slots)

lemma isz_eqD: "vec_ok v \<Longrightarrow> vec_ok w \<Longrightarrow> isz v = isz w \<Longrightarrow> v_itemsize v = v_itemsize w"
  by (metis isz_int)

lemma q_wrap_mod: "q_ok q \<Longrightarrow> 0 \<le> i \<Longrightarrow> q_wrap q i = Some (int (nat i mod length (slots (q_vec q))))"
  using q_okD(4,8) [of q] by (simp add: q_wrap_def zmod_int del: length_slots)

lemma q_set_slot:
  assumes "q_ok q" "0 \<le> i" "i < v_size (q_vec q)" "length bs = isz (q_vec q)"
  shows "\<exists>v. covec_set (q_vec q) i bs = Some (True, v) \<and> vec_ok v \<and> isz v = isz (q_vec q) \<and>
    v_size v = v_size (q_vec q) \<and> v_cap v = v_cap (q_vec q) \<and> slots v = (slots (q_vec q))[nat i := bs]"
proof -
  have "valid_index (q_vec q) i" using assms by (simp add: valid_index_def)
  then show ?thesis using covec_set_spec [OF q_okD(3) [OF assms(1)] assms(4), of i] assms(2) by auto
qed

lemma q_get_slot:
  assumes "q_ok q" "0 \<le> i" "i < v_size (q_vec q)"
  shows "covec_get (q_vec q) i = Some (Some (slots (q_vec q) ! nat i))"
proof -
  have "valid_index (q_vec q) i" using assms by (simp add: valid_index_def)
  then show ?thesis
    using covec_get_spec [OF q_okD(3) [OF assms(1)], of i] assms vitems_nth [OF q_okD(3) [OF assms(1)]] by simp
qed

lemma coqueue_grow_spec:
  assumes ok: "q_ok q" and room: "q_room (Suc n) q"
  shows "\<exists>q'. coqueue_check_and_grow q = Some q' \<and> q_ok q' \<and> q_items q' = q_items q \<and>
    isz (q_vec q') = isz (q_vec q) \<and> v_itemsize (q_vec q') = v_itemsize (q_vec q) \<and>
    q_tail q' = q_tail q \<and> int (length (q_items q)) + 1 < v_size (q_vec q') \<and>
    (v_size (q_vec q') = v_size (q_vec q) \<or> v_size (q_vec q') = 2 * (int (length (q_items q)) + 1))"
proof (cases "v_size (q_vec q) \<le> coqueue_size q + 1")
  case False
  then show ?thesis using ok by (simp add: coqueue_check_and_grow_def coqueue_size_items)
next
  case True
  note d = q_okD [OF ok]
  let ?v = "q_vec q" and ?n = "v_size (q_vec q)" and ?l = "int (length (q_items q))"
  have l: "?l < ?n" using ring_less [OF d(1,2)] d(4) by (simp add: q_items_def del: length_slots)
  then have n: "?n = ?l + 1" using True coqueue_size_items [OF ok] by simp
  let ?m = "?n * 2"
  have me: "?m \<le> max ?n (2 * (?l + int (Suc n)))" using n by simp
  have le: "?m * v_itemsize ?v \<le> max ?n (2 * (?l + int (Suc n))) * v_itemsize ?v"
    using me d(3) by (intro mult_right_mono) (simp_all add: vec_ok_def)
  have m: "0 \<le> ?m" "?m < 2 ^ 31" "?m * v_itemsize ?v < 2 ^ 32"
    using room me le d(8) unfolding q_room_def Let_def by linarith+
  let ?w = "covec_resize ?v ?m" and ?junk = "replicate (nat (?m - ?n)) (replicate (isz ?v) None)"
  have w: "vec_ok ?w" "v_size ?w = ?m" "isz ?w = isz ?v" "v_cap ?w = ?m" "slots ?w = slots ?v @ ?junk"
    using covec_resize_spec [OF d(3) m] d(5,8) by auto
  have iw: "v_itemsize ?w = v_itemsize ?v" using w(1,3) d(3) by (intro isz_eqD)
  have i: "i32 ?m = Some ?m" using m by (simp add: i32_in)
  have jl: "length ?junk = nat ?n" by simp
  show ?thesis
  proof (cases "q_tail q < q_head q")
    case False
    let ?q = "q\<lparr>q_vec := ?w\<rparr>"
    have "coqueue_check_and_grow q = Some ?q" using True False i by (simp add: coqueue_check_and_grow_def)
    moreover have "q_ok ?q" using w d by (simp add: q_ok_def)
    moreover have "q_items ?q = q_items q"
      using False w(5) d(2) d(6,7) by (simp add: q_items_def ring_grow_straight del: length_slots)
    ultimately show ?thesis using w iw n d(8) by (intro exI [of _ ?q]) simp
  next
    case wrapped: True
    let ?h = "q_head q" and ?c = "?n - q_head q"
    let ?x = "with_slots ?w (move_slots (slots ?w) (nat ?h) (nat (?m - ?c)) (nat ?c))"
    have u: "uniform (isz ?w) (move_slots (slots ?w) (nat ?h) (nat (?m - ?c)) (nat ?c))"
      using uniform_slots [OF w(1)] by simp
    have xl: "length (move_slots (slots ?w) (nat ?h) (nat (?m - ?c)) (nat ?c)) = nat ?m"
      using w(4) d by (subst length_move_slots) auto
    have "covec_move ?w ?h (?m - ?c) ?c = Some ?x"
      using w d wrapped by (intro covec_move_slots) auto
    moreover have x: "vec_ok ?x" "v_size ?x = ?m" "v_cap ?x = ?m" "isz ?x = isz ?v"
      using w u xl d(8) by (simp_all add: vec_ok_with_slots)
    let ?q = "q\<lparr>q_vec := ?x, q_head := ?m - ?c\<rparr>"
    have "q_items ?q = q_items q"
    proof -
      have e: "nat (?m - ?c) = nat ?h + length ?junk" "nat ?c = length (slots ?v) - nat ?h"
        using d(4-10) by (simp_all add: nat_diff_distrib nat_add_distrib)
      have "q_items ?q = ring (nat (?m - ?c)) (nat (q_tail q)) (slots ?x)"
        by (simp add: q_items_def)
      also have "\<dots> = ring (nat (?m - ?c)) (nat (q_tail q))
          (move_slots (slots ?w) (nat ?h) (nat (?m - ?c)) (nat ?c))"
        by (simp only: slots_with_slots [OF u])
      also have "\<dots> = ring (nat ?h) (nat (q_tail q)) (slots ?v)"
        unfolding w(5) by (rule ring_grow_wrapped) (use wrapped d(1,7) e in simp_all)
      finally show ?thesis by (simp only: q_items_def)
    qed
    ultimately show ?thesis
      using True wrapped i w x iw n d
      by (intro exI [of _ ?q]) (simp add: coqueue_check_and_grow_def Let_def q_ok_def)
  qed
qed


lemma coqueue_push_spec:
  assumes ok: "q_ok q" and room: "q_room (Suc n) q" and bs: "length bs = isz (q_vec q)"
  shows "\<exists>q'. coqueue_push q bs = Some q' \<and> q_ok q' \<and> q_items q' = q_items q @ [bs] \<and>
    q_room n q' \<and> isz (q_vec q') = isz (q_vec q)"
proof -
  obtain w where w: "coqueue_check_and_grow q = Some w" "q_ok w" "q_items w = q_items q"
    "isz (q_vec w) = isz (q_vec q)" "v_itemsize (q_vec w) = v_itemsize (q_vec q)"
    "int (length (q_items q)) + 1 < v_size (q_vec w)"
    "v_size (q_vec w) = v_size (q_vec q) \<or> v_size (q_vec w) = 2 * (int (length (q_items q)) + 1)"
    using coqueue_grow_spec [OF ok room] by blast
  note d = q_okD [OF w(2)]
  let ?ss = "slots (q_vec w)" and ?t = "nat (q_tail w)"
  obtain v where v: "covec_set (q_vec w) (q_tail w) bs = Some (True, v)" "vec_ok v"
    "isz v = isz (q_vec w)" "v_size v = v_size (q_vec w)" "v_cap v = v_cap (q_vec w)"
    "slots v = ?ss[?t := bs]"
    using q_set_slot [OF w(2) d(7,10), of bs] bs w(4) by auto
  let ?x = "w\<lparr>q_vec := v\<rparr>" and ?m = "Suc ?t mod length ?ss"
  let ?q = "?x\<lparr>q_tail := int ?m\<rparr>"
  have xok: "q_ok ?x" using w(2) v by (simp add: q_ok_def)
  have "q_wrap ?x (q_tail w + 1) = Some (int ?m)"
    using q_wrap_mod [OF xok, of "q_tail w + 1"] d(7) v(6)
    by (simp add: nat_add_distrib del: length_slots)
  then have push: "coqueue_push q bs = Some ?q"
    using w(1) v(1) by (simp add: coqueue_push_def Let_def)
  have sl: "Suc (length (q_items w)) < length ?ss" using w(6) d(4) unfolding w(3) by linarith
  have m: "?m < length ?ss" using d(2) by (intro mod_less_divisor) linarith
  have "q_ok ?q" using xok v(4) d(4) m by (auto simp: q_ok_def simp del: length_slots)
  moreover have items: "q_items ?q = q_items q @ [bs]"
    using ring_push [OF d(1,2), of bs] sl w(3) v(6) by (simp add: q_items_def del: length_slots)
  moreover have "q_room n ?q"
  proof -
    have iv: "v_itemsize v = v_itemsize (q_vec q)"
      using isz_eqD [OF v(2) d(3) v(3)] w(5) by simp
    let ?a = "max (v_size v) (2 * (int (length (q_items q)) + 1 + int n))"
    let ?b = "max (v_size (q_vec q)) (2 * (int (length (q_items q)) + int (Suc n)))"
    have ab: "?a \<le> ?b" using w(7) v(4) by auto
    then have "?a * v_itemsize v \<le> ?b * v_itemsize (q_vec q)"
      unfolding iv using q_okD(3) [OF ok] by (intro mult_right_mono) (simp_all add: vec_ok_def)
    with ab have "?a < 2 ^ 31" "?a * v_itemsize v < 2 ^ 32"
      using room unfolding q_room_def Let_def by linarith+
    moreover have "int (length (q_items ?q)) = int (length (q_items q)) + 1" using items by simp
    ultimately show ?thesis unfolding q_room_def Let_def by (simp only: coqueue.simps) (simp add: algebra_simps)
  qed
  ultimately show ?thesis using push v(3) w(4) by (intro exI [of _ ?q]) simp
qed

lemma coqueue_pop_spec:
  assumes ok: "q_ok q" and ne: "q_items q \<noteq> []"
  shows "\<exists>q'. coqueue_pop q = Some (Some (hd (q_items q)), q') \<and> q_ok q' \<and>
    q_items q' = tl (q_items q) \<and> q_vec q' = q_vec q"
proof -
  note d = q_okD [OF ok]
  let ?ss = "slots (q_vec q)" and ?h = "nat (q_head q)"
  let ?m = "(?h + 1) mod length ?ss"
  let ?q = "q\<lparr>q_head := int ?m\<rparr>"
  have hn: "?h \<noteq> nat (q_tail q)" using ne by (auto simp: q_items_def)
  have m: "?m < length ?ss" using d(1) by (intro mod_less_divisor) linarith
  have "q_wrap q (q_head q + 1) = Some (int ?m)"
    using q_wrap_mod [OF ok, of "q_head q + 1"] d(6) by (simp add: nat_add_distrib del: length_slots)
  moreover have "covec_get (q_vec q) (q_head q) = Some (Some (hd (q_items q)))"
    using q_get_slot [OF ok d(6,9)] ring_hd [OF d(1,2) hn] by (simp add: q_items_def)
  ultimately have "coqueue_pop q = Some (Some (hd (q_items q)), ?q)"
    using ne by (simp add: coqueue_pop_def coqueue_size_items [OF ok])
  moreover have "q_ok ?q" using ok m d(4) by (auto simp: q_ok_def simp del: length_slots)
  moreover have "q_items ?q = tl (q_items q)"
    using ring_take_drop [OF d(1,2), of 1] ne by (simp add: q_items_def drop_Suc Suc_leI del: length_slots)
  ultimately show ?thesis by (intro exI [of _ ?q]) simp
qed

lemma coqueue_peek_spec:
  assumes ok: "q_ok q"
  shows "coqueue_peek q i = Some
    (let n = int (length (q_items q)); j = (if i < 0 then n + i else i) in
     if 0 \<le> j \<and> j < n then Some (q_items q ! nat j) else None)"
proof -
  note d = q_okD [OF ok]
  have main: "do { k \<leftarrow> q_wrap q (q_head q + j); covec_get (q_vec q) k } = Some (Some (q_items q ! nat j))"
    if j: "0 \<le> j" "j < int (length (q_items q))" for j
  proof -
    let ?k = "(nat (q_head q) + nat j) mod length (slots (q_vec q))"
    have k: "?k < length (slots (q_vec q))" using d(1) by (intro mod_less_divisor) linarith
    have "q_wrap q (q_head q + j) = Some (int ?k)"
      using q_wrap_mod [OF ok, of "q_head q + j"] d(6) j by (simp add: nat_add_distrib del: length_slots)
    moreover have "covec_get (q_vec q) (int ?k) = Some (Some (slots (q_vec q) ! ?k))"
      using q_get_slot [OF ok, of "int ?k"] k d(4) by (simp del: length_slots)
    moreover have "slots (q_vec q) ! ?k = q_items q ! nat j"
      using ring_nth [OF d(1,2), of "nat j"] j by (simp add: q_items_def)
    ultimately show ?thesis by simp
  qed
  show ?thesis
    by (auto simp: coqueue_peek_def Let_def coqueue_size_items [OF ok] main)
qed

lemma coqueue_pop_empty: "q_ok q \<Longrightarrow> q_items q = [] \<Longrightarrow> coqueue_pop q = Some (None, q)"
  by (simp add: coqueue_pop_def coqueue_size_items)

interpretation queue: fifo coqueue_push coqueue_pop q_items q_ok q_room
  "\<lambda>q x. length x = isz (q_vec q)"
proof (unfold_locales, goal_cases)
  case (1 q n x)
  then show ?case using coqueue_push_spec [of q n x] by auto
next
  case (2 q)
  then show ?case by (rule coqueue_pop_empty)
next
  case (3 q x xs)
  then show ?case using coqueue_pop_spec [of q] by fastforce
qed

lemma coqueue_new_ok:
  assumes "0 < k" "k < 2 ^ 16"
  shows "q_ok (coqueue_new k)" "q_items (coqueue_new k) = []" "isz (q_vec (coqueue_new k)) = nat k"
    "v_size (q_vec (coqueue_new k)) = 8" "v_itemsize (q_vec (coqueue_new k)) = k"
proof -
  have v: "vec_ok (covec_new k)" using assms by (simp add: vec_ok_def covec_new_def)
  note r = covec_resize_spec [OF v, of 8]
  show "q_ok (coqueue_new k)" "isz (q_vec (coqueue_new k)) = nat k" "v_size (q_vec (coqueue_new k)) = 8"
    using r assms by (simp_all add: coqueue_new_def q_ok_def QUEUE_INIT_SIZE_def covec_new_def)
  show "q_items (coqueue_new k) = []" "v_itemsize (q_vec (coqueue_new k)) = k"
    by (simp_all add: coqueue_new_def q_items_def covec_resize_def covec_new_def)
qed


section \<open>Properties\<close>

text \<open>C2: First in, first out: items pushed on a queue in any well-formed state come out, by
  popping until the queue is empty, after what the queue already held and in the order pushed,
  however often the circular array is grown or its indices pass the end, with no undefined
  behaviour, as long as the array doubled fits the 32-bit byte count.\<close>
theorem coqueue_fifo:
  assumes "q_ok q" "q_room (length xs) q" "\<forall>x\<in>set xs. length x = isz (q_vec q)"
    "length (q_items q) + length xs \<le> n"
  shows "do { q' \<leftarrow> feed coqueue_push q xs; drain coqueue_pop n q' } = Some (q_items q @ xs)"
  using assms by (rule queue.feed_drain)

theorem coqueue_fifo_witness:
  "do { q' \<leftarrow> feed coqueue_push (coqueue_new 1) (map (\<lambda>i. [Some (word_of_nat i)]) [0..<20]);
        drain coqueue_pop 20 q' } = Some (map (\<lambda>i. [Some (word_of_nat i)]) [0..<20])"
proof -
  let ?xs = "map (\<lambda>i. [Some (word_of_nat i)]) [0..<20] :: cell list list"
  have "q_ok (coqueue_new 1)" "q_room (length ?xs) (coqueue_new 1)"
    "\<forall>x\<in>set ?xs. length x = isz (q_vec (coqueue_new 1))"
    "length (q_items (coqueue_new 1)) + length ?xs \<le> 20"
    using coqueue_new_ok [of 1] by (simp_all add: q_room_def)
  from coqueue_fifo [OF this] show ?thesis using coqueue_new_ok(2) [of 1] by simp
qed

text \<open>\<open>coqueue_peek\<close> reads the item at a distance from the head, or from the tail when the
  position is negative, without changing the queue, and answers false exactly when no such item
  is queued.\<close>
theorem coqueue_peek_correct:
  assumes "q_ok q"
  shows "coqueue_peek q i = Some
    (let n = int (length (q_items q)); j = (if i < 0 then n + i else i) in
     if 0 \<le> j \<and> j < n then Some (q_items q ! nat j) else None)"
  using assms by (rule coqueue_peek_spec)

theorem coqueue_peek_correct_witness:
  "coqueue_peek \<lparr>q_vec = \<lparr>v_data = [Some 1, Some 2, Some 3], v_cap = 3, v_size = 3, v_itemsize = 1\<rparr>,
     q_head = 2, q_tail = 1\<rparr> (- 1) = Some (Some [Some 1])"
proof -
  let ?q = "\<lparr>q_vec = \<lparr>v_data = [Some 1, Some 2, Some 3], v_cap = 3, v_size = 3, v_itemsize = 1\<rparr>,
     q_head = 2, q_tail = 1\<rparr> :: coqueue"
  have "q_ok ?q" by (simp add: q_ok_def vec_ok_def)
  from coqueue_peek_correct [OF this, of "- 1"] show ?thesis
    by (simp add: q_items_def ring_def slots_def chunks_def upt_rec Let_def)
qed

end
