(* ===== verification/PQueue.thy ===== *)
theory PQueue
  imports Vec
begin

text \<open>
  \<open>src/co_pqueue.c\<close>: a binary max-heap kept in a \<open>covec\<close>, ordered by a comparison callback.
  The callback and its user pointer are fields of the queue, as in the code; what it must satisfy
  is \<open>cmp_ok\<close>.  The two sifting loops are recursive functions over the index that moves; the
  products that compute child indices are 32-bit.
\<close>

section \<open>Operations\<close>

record 'u copqueue =
  pq_vec :: covec
  fn_comp :: "'u \<Rightarrow> cell list \<Rightarrow> cell list \<Rightarrow> int"
  pq_ud :: 'u

definition HEAP_PARENT :: "nat \<Rightarrow> nat" where
  "HEAP_PARENT child = (child - 1) div 2"

definition HEAP_LCHILD :: "nat \<Rightarrow> int" where
  "HEAP_LCHILD parent = int parent * 2 + 1"

definition HEAP_RCHILD :: "nat \<Rightarrow> int" where
  "HEAP_RCHILD parent = int parent * 2 + 2"

definition copqueue_new :: "int \<Rightarrow> ('u \<Rightarrow> cell list \<Rightarrow> cell list \<Rightarrow> int) \<Rightarrow> 'u \<Rightarrow> 'u copqueue" where
  "copqueue_new itemsize fn ud = \<lparr>pq_vec = covec_new itemsize, fn_comp = fn, pq_ud = ud\<rparr>"

definition copqueue_free :: "'u copqueue \<Rightarrow> 'u copqueue option" where
  "copqueue_free pq = (case covec_free (pq_vec pq) of _ \<Rightarrow> None)"

definition copqueue_size :: "'u copqueue \<Rightarrow> int" where
  "copqueue_size pq = v_size (pq_vec pq)"

text \<open>
  The callback reads both items through the pointers of \<open>covec_get_ptr\<close>; on a null pointer
  it would be undefined.
\<close>

definition pq_compare :: "'u copqueue \<Rightarrow> int \<Rightarrow> int \<Rightarrow> int exec" where
  "pq_compare pq i j = do {
     a \<leftarrow> vec_read (pq_vec pq) i;
     b \<leftarrow> vec_read (pq_vec pq) j;
     item1 \<leftarrow> a;
     item2 \<leftarrow> b;
     Some (fn_comp pq (pq_ud pq) item1 item2)
   }"

function heap_up :: "'u copqueue \<Rightarrow> nat \<Rightarrow> 'u copqueue exec" where
  "heap_up pq child =
     (if 0 < child then do {
        let parent = HEAP_PARENT child;
        c \<leftarrow> pq_compare pq (int parent) (int child);
        if 0 \<le> c then Some pq
        else do {
          v \<leftarrow> covec_swap (pq_vec pq) (int child) (int parent);
          heap_up (pq\<lparr>pq_vec := v\<rparr>) parent
        }
      } else Some pq)"
  by pat_completeness auto
termination
  by (relation "measure snd") (auto simp: HEAP_PARENT_def)

definition heap_up_tail :: "'u copqueue \<Rightarrow> 'u copqueue exec" where
  "heap_up_tail pq =
     (let n = v_size (pq_vec pq) in if n \<le> 1 then Some pq else heap_up pq (nat (n - 1)))"

text \<open>The child the parent is compared with: the greater of the two, the left one on a tie.\<close>

definition heap_pick :: "'u copqueue \<Rightarrow> int \<Rightarrow> nat \<Rightarrow> int \<Rightarrow> int exec" where
  "heap_pick pq n parent child = do {
     rchild \<leftarrow> i32 (HEAP_RCHILD parent);
     if rchild < n then do {
       c \<leftarrow> pq_compare pq child rchild;
       Some (if c < 0 then rchild else child)
     } else Some child
   }"

lemma heap_pick_gt: "heap_pick pq n parent child = Some c \<Longrightarrow> int parent < child \<Longrightarrow> int parent < c"
  by (auto simp: heap_pick_def HEAP_RCHILD_def i32_Some_iff split: Option.bind_splits if_splits)

lemma heap_pick_lt: "heap_pick pq n parent child = Some c \<Longrightarrow> child < n \<Longrightarrow> c < n"
  by (auto simp: heap_pick_def split: Option.bind_splits if_splits)

text \<open>At the head of the loop \<open>child\<close> is the left child of \<open>parent\<close>.\<close>

function heap_down :: "'u copqueue \<Rightarrow> int \<Rightarrow> nat \<Rightarrow> 'u copqueue exec" where
  "heap_down pq n parent = do {
     child \<leftarrow> i32 (HEAP_LCHILD parent);
     if child < n then do {
       child \<leftarrow> heap_pick pq n parent child;
       c \<leftarrow> pq_compare pq (int parent) child;
       if 0 \<le> c then Some pq
       else do {
         v \<leftarrow> covec_swap (pq_vec pq) child (int parent);
         heap_down (pq\<lparr>pq_vec := v\<rparr>) n (nat child)
       }
     } else Some pq
   }"
  by pat_completeness auto
termination
proof (relation "measure (\<lambda>(pq, n, parent). nat n - parent)", goal_cases)
  case (2 pq n parent l child)
  then have "int parent < child" "child < n"
    using heap_pick_gt [of pq n parent l child] heap_pick_lt [of pq n parent l child]
    by (auto simp: i32_Some_iff HEAP_LCHILD_def)
  then show ?case by auto
qed auto

definition heap_down_head :: "'u copqueue \<Rightarrow> 'u copqueue exec" where
  "heap_down_head pq =
     (let n = v_size (pq_vec pq) in if n \<le> 1 then Some pq else heap_down pq n 0)"

definition copqueue_push :: "'u copqueue \<Rightarrow> cell list \<Rightarrow> 'u copqueue exec" where
  "copqueue_push pq bs = do {
     (_, v) \<leftarrow> covec_push_tail (pq_vec pq) bs;
     heap_up_tail (pq\<lparr>pq_vec := v\<rparr>)
   }"

definition copqueue_pop :: "'u copqueue \<Rightarrow> (cell list option \<times> 'u copqueue) exec" where
  "copqueue_pop pq =
     (let n = v_size (pq_vec pq) in
      if 0 < n then do {
        v \<leftarrow> covec_swap (pq_vec pq) 0 (n - 1);
        (b, v) \<leftarrow> covec_del_tail v;
        pq \<leftarrow> heap_down_head (pq\<lparr>pq_vec := v\<rparr>);
        Some (b, pq)
      } else Some (None, pq))"

definition copqueue_get :: "'u copqueue \<Rightarrow> int \<Rightarrow> cell list option exec" where
  "copqueue_get pq index = covec_get (pq_vec pq) index"

declare heap_up.simps [simp del] heap_down.simps [simp del]

section \<open>Heaps in lists\<close>

text \<open>\<open>ge a b\<close> reads "\<open>a\<close> is not below \<open>b\<close>".\<close>

definition cmp_ok :: "('a \<Rightarrow> 'a \<Rightarrow> bool) \<Rightarrow> bool" where
  "cmp_ok ge \<longleftrightarrow> (\<forall>a b. ge a b \<or> ge b a) \<and> (\<forall>a b c. ge a b \<longrightarrow> ge b c \<longrightarrow> ge a c)"

definition edge :: "('a \<Rightarrow> 'a \<Rightarrow> bool) \<Rightarrow> 'a list \<Rightarrow> nat \<Rightarrow> bool" where
  "edge ge xs i \<longleftrightarrow> ge (xs ! HEAP_PARENT i) (xs ! i)"

definition heap :: "('a \<Rightarrow> 'a \<Rightarrow> bool) \<Rightarrow> 'a list \<Rightarrow> bool" where
  "heap ge xs \<longleftrightarrow> (\<forall>i. 0 < i \<longrightarrow> i < length xs \<longrightarrow> edge ge xs i)"

text \<open>Heap but for the edge above \<open>c\<close>, whose subtree is below the parent of \<open>c\<close>.\<close>

definition heap_up_inv :: "('a \<Rightarrow> 'a \<Rightarrow> bool) \<Rightarrow> 'a list \<Rightarrow> nat \<Rightarrow> bool" where
  "heap_up_inv ge xs c \<longleftrightarrow> c < length xs \<and>
     (\<forall>i. 0 < i \<longrightarrow> i < length xs \<longrightarrow> i \<noteq> c \<longrightarrow> edge ge xs i) \<and>
     (\<forall>i. 0 < i \<longrightarrow> i < length xs \<longrightarrow> HEAP_PARENT i = c \<longrightarrow> 0 < c \<longrightarrow>
        ge (xs ! HEAP_PARENT c) (xs ! i))"

text \<open>Heap but for the edges below \<open>p\<close>, whose children are below the parent of \<open>p\<close>.\<close>

definition heap_down_inv :: "('a \<Rightarrow> 'a \<Rightarrow> bool) \<Rightarrow> 'a list \<Rightarrow> nat \<Rightarrow> bool" where
  "heap_down_inv ge xs p \<longleftrightarrow> p < length xs \<and>
     (\<forall>i. 0 < i \<longrightarrow> i < length xs \<longrightarrow> HEAP_PARENT i \<noteq> p \<longrightarrow> edge ge xs i) \<and>
     (\<forall>i. 0 < i \<longrightarrow> i < length xs \<longrightarrow> HEAP_PARENT i = p \<longrightarrow> 0 < p \<longrightarrow>
        ge (xs ! HEAP_PARENT p) (xs ! i))"

lemma cmp_total: "cmp_ok ge \<Longrightarrow> \<not> ge a b \<Longrightarrow> ge b a"
  by (auto simp: cmp_ok_def)

lemma cmp_refl: "cmp_ok ge \<Longrightarrow> ge a a"
  by (auto simp: cmp_ok_def)

lemma cmp_trans: "cmp_ok ge \<Longrightarrow> ge a b \<Longrightarrow> ge b c \<Longrightarrow> ge a c"
  unfolding cmp_ok_def by blast

lemma HEAP_PARENT_less: "0 < i \<Longrightarrow> HEAP_PARENT i < i"
  by (simp add: HEAP_PARENT_def)

lemma parent_of: "0 < i \<Longrightarrow> HEAP_PARENT i = p \<longleftrightarrow> i = 2 * p + 1 \<or> i = 2 * p + 2"
  by (auto simp: HEAP_PARENT_def)

lemma heap_head: "cmp_ok ge \<Longrightarrow> heap ge xs \<Longrightarrow> i < length xs \<Longrightarrow> ge (xs ! 0) (xs ! i)"
proof (induction i rule: less_induct)
  case (less i)
  show ?case
  proof (cases "i = 0")
    case False
    with less have "ge (xs ! 0) (xs ! HEAP_PARENT i)" by (simp add: HEAP_PARENT_less less.IH order.strict_trans [OF HEAP_PARENT_less])
    moreover have "ge (xs ! HEAP_PARENT i) (xs ! i)" using less.prems False by (simp add: heap_def edge_def)
    ultimately show ?thesis using less.prems(1) by (blast intro: cmp_trans)
  qed (use less.prems in \<open>simp add: cmp_refl\<close>)
qed

lemma heap_up_start:
  assumes "heap ge xs"
  shows "heap_up_inv ge (xs @ [x]) (length xs)"
proof -
  have "edge ge (xs @ [x]) i" if "0 < i" "i < length xs" for i
    using assms that HEAP_PARENT_less [of i] by (simp add: heap_def edge_def nth_append)
  moreover have "HEAP_PARENT i \<noteq> length xs" if "0 < i" "i \<le> length xs" for i
    using that HEAP_PARENT_less [of i] by simp
  ultimately show ?thesis by (auto simp: heap_up_inv_def less_Suc_eq_le)
qed

lemma heap_up_done:
  "heap_up_inv ge xs c \<Longrightarrow> c = 0 \<or> edge ge xs c \<Longrightarrow> heap ge xs"
  by (auto simp: heap_up_inv_def heap_def)

lemma heap_up_step:
  assumes cmp: "cmp_ok ge" and inv: "heap_up_inv ge xs c" and c: "0 < c"
    and lt: "\<not> ge (xs ! HEAP_PARENT c) (xs ! c)"
  shows "heap_up_inv ge (swap_nth c (HEAP_PARENT c) xs) (HEAP_PARENT c)"
proof -
  let ?p = "HEAP_PARENT c" and ?ys = "swap_nth c (HEAP_PARENT c) xs"
  have p: "?p < c" "c < length xs" using c inv by (auto simp: heap_up_inv_def HEAP_PARENT_less)
  have gt: "ge (xs ! c) (xs ! ?p)" using cmp lt by (rule cmp_total)
  have e: "ge (xs ! HEAP_PARENT i) (xs ! i)" if "0 < i" "i < length xs" "i \<noteq> c" for i
    using inv that by (auto simp: heap_up_inv_def edge_def)
  have g: "ge (xs ! ?p) (xs ! i)" if "0 < i" "i < length xs" "HEAP_PARENT i = c" for i
    using inv that c by (auto simp: heap_up_inv_def)
  have nth: "?ys ! n = (if n = c then xs ! ?p else if n = ?p then xs ! c else xs ! n)"
    if "n < length xs" for n using that p by (simp add: swap_nth_nth)
  have "edge ge ?ys i" if i: "0 < i" "i < length xs" "i \<noteq> ?p" for i
  proof -
    have l: "HEAP_PARENT i < length xs" using i HEAP_PARENT_less [of i] by simp
    consider "i = c" | "i \<noteq> c" "HEAP_PARENT i = c" | "i \<noteq> c" "HEAP_PARENT i = ?p"
      | "i \<noteq> c" "HEAP_PARENT i \<noteq> c" "HEAP_PARENT i \<noteq> ?p" by blast
    then show ?thesis
    proof cases
      case 1 then show ?thesis using p l gt by (simp add: edge_def nth)
    next
      case 2 then show ?thesis using i p g by (simp add: edge_def nth)
    next
      case 3
      then have "ge (xs ! c) (xs ! i)" using cmp gt e [OF i(1,2) 3(1)] by (metis cmp_trans)
      then show ?thesis using 3 i p by (simp add: edge_def nth)
    next
      case 4 then show ?thesis using i l e by (simp add: edge_def nth)
    qed
  qed
  moreover have "ge (?ys ! HEAP_PARENT ?p) (?ys ! i)"
    if i: "0 < i" "i < length xs" "HEAP_PARENT i = ?p" "0 < ?p" for i
  proof -
    have pp: "HEAP_PARENT ?p < ?p" using i by (intro HEAP_PARENT_less)
    have a: "ge (xs ! HEAP_PARENT ?p) (xs ! ?p)" using e [of ?p] i p by simp
    have "ge (xs ! ?p) (xs ! i)" if "i \<noteq> c" using e [OF i(1,2) that] i by simp
    then have "ge (xs ! HEAP_PARENT ?p) (?ys ! i)"
      using a cmp i p HEAP_PARENT_less [OF i(1)] by (cases "i = c") (auto simp: nth intro: cmp_trans)
    then show ?thesis using pp p i by (simp add: nth)
  qed
  ultimately show ?thesis using p by (auto simp: heap_up_inv_def)
qed


lemma heap_down_start:
  assumes "heap ge xs" "xs \<noteq> []"
  shows "butlast (swap_nth 0 (length xs - 1) xs) = [] \<or>
    heap_down_inv ge (butlast (swap_nth 0 (length xs - 1) xs)) 0"
proof -
  let ?n = "length xs" and ?ys = "butlast (swap_nth 0 (length xs - 1) xs)"
  have nth: "?ys ! i = (if i = 0 then xs ! (?n - 1) else xs ! i)" if "i < ?n - 1" for i
    using that assms(2) by (simp add: nth_butlast swap_nth_nth)
  have "edge ge ?ys i" if i: "0 < i" "i < ?n - 1" "HEAP_PARENT i \<noteq> 0" for i
  proof -
    have "?ys ! i = xs ! i" "?ys ! HEAP_PARENT i = xs ! HEAP_PARENT i"
      using i HEAP_PARENT_less [of i] nth [of i] nth [of "HEAP_PARENT i"] by simp_all
    with i assms(1) show ?thesis by (simp add: heap_def edge_def)
  qed
  moreover have "length ?ys = ?n - 1" by simp
  moreover have "0 < length ?ys" if "?ys \<noteq> []" using that by (simp only: length_greater_0_conv not_False_eq_True)
  ultimately show ?thesis unfolding heap_down_inv_def by (metis less_irrefl)
qed

lemma heap_down_done:
  assumes "heap_down_inv ge xs p"
    "\<And>i. i < length xs \<Longrightarrow> i = 2 * p + 1 \<or> i = 2 * p + 2 \<Longrightarrow> ge (xs ! p) (xs ! i)"
  shows "heap ge xs"
  unfolding heap_def
proof (intro allI impI)
  fix i assume i: "0 < i" "i < length xs"
  show "edge ge xs i"
  proof (cases "HEAP_PARENT i = p")
    case True
    then have "i = 2 * p + 1 \<or> i = 2 * p + 2" using parent_of [OF i(1)] by blast
    with assms(2) i True show ?thesis by (simp only: edge_def)
  next
    case False
    with assms(1) i show ?thesis by (simp add: heap_down_inv_def)
  qed
qed

lemma heap_down_step:
  assumes cmp: "cmp_ok ge" and inv: "heap_down_inv ge xs p" and c: "0 < c" "c < length xs" "HEAP_PARENT c = p"
    and lt: "\<not> ge (xs ! p) (xs ! c)"
    and pick: "\<And>i. 0 < i \<Longrightarrow> i < length xs \<Longrightarrow> HEAP_PARENT i = p \<Longrightarrow> ge (xs ! c) (xs ! i)"
  shows "heap_down_inv ge (swap_nth c p xs) c"
proof -
  let ?ys = "swap_nth c p xs"
  have p: "p < c" "p < length xs" using c HEAP_PARENT_less [of c] by auto
  have e: "ge (xs ! HEAP_PARENT i) (xs ! i)" if "0 < i" "i < length xs" "HEAP_PARENT i \<noteq> p" for i
    using inv that by (auto simp: heap_down_inv_def edge_def)
  have g: "ge (xs ! HEAP_PARENT p) (xs ! i)" if "0 < i" "i < length xs" "HEAP_PARENT i = p" "0 < p" for i
    using inv that by (auto simp: heap_down_inv_def)
  have nth: "?ys ! n = (if n = c then xs ! p else if n = p then xs ! c else xs ! n)"
    if "n < length xs" for n using that p c by (simp add: swap_nth_nth)
  have "edge ge ?ys i" if i: "0 < i" "i < length xs" "HEAP_PARENT i \<noteq> c" for i
  proof -
    have l: "HEAP_PARENT i < i" "HEAP_PARENT i < length xs" using i HEAP_PARENT_less [of i] by auto
    consider "i = c" | "i \<noteq> c" "i = p" | "i \<noteq> c" "i \<noteq> p" "HEAP_PARENT i = p"
      | "i \<noteq> c" "i \<noteq> p" "HEAP_PARENT i \<noteq> p" by blast
    then show ?thesis
    proof cases
      case 1
      then have "?ys ! HEAP_PARENT i = xs ! c" "?ys ! i = xs ! p"
        using c p nth [of p] nth [of c] by simp_all
      then show ?thesis using cmp_total [OF cmp lt] by (simp add: edge_def)
    next
      case 2
      then have "?ys ! HEAP_PARENT i = xs ! HEAP_PARENT p" "?ys ! i = xs ! c"
        using i l c p nth [of p] nth [of "HEAP_PARENT p"] by simp_all
      then show ?thesis using g [OF c] 2 i by (simp add: edge_def)
    next
      case 3
      then have "?ys ! HEAP_PARENT i = xs ! c" "?ys ! i = xs ! i"
        using i p nth [of p] nth [of i] by simp_all
      then show ?thesis using pick [OF i(1,2) 3(3)] by (simp add: edge_def)
    next
      case 4
      then have "?ys ! HEAP_PARENT i = xs ! HEAP_PARENT i" "?ys ! i = xs ! i"
        using i l nth [of "HEAP_PARENT i"] nth [of i] by simp_all
      then show ?thesis using e [OF i(1,2) 4(3)] by (simp add: edge_def)
    qed
  qed
  moreover have "ge (?ys ! HEAP_PARENT c) (?ys ! i)" if i: "0 < i" "i < length xs" "HEAP_PARENT i = c" for i
  proof -
    have "c < i" using i HEAP_PARENT_less [of i] by simp
    then have "?ys ! HEAP_PARENT c = xs ! c" "?ys ! i = xs ! i"
      using i c p nth [of p] nth [of i] by simp_all
    moreover have "ge (xs ! HEAP_PARENT i) (xs ! i)" using i p by (intro e) auto
    ultimately show ?thesis using i(3) by simp
  qed
  ultimately show ?thesis using c by (auto simp: heap_down_inv_def)
qed

section \<open>Invariant and abstraction\<close>

definition pq_ge :: "'u copqueue \<Rightarrow> cell list \<Rightarrow> cell list \<Rightarrow> bool" where
  "pq_ge pq a b \<longleftrightarrow> 0 \<le> fn_comp pq (pq_ud pq) a b"

abbreviation pq_items :: "'u copqueue \<Rightarrow> cell list list" where
  "pq_items pq \<equiv> vitems (pq_vec pq)"

text \<open>
  A callback is acceptable when it is a total preorder and the sign of its answer for swapped
  arguments agrees: \<open>ge\<close> must fail exactly when the answer is negative.
\<close>

definition pq_ok :: "'u copqueue \<Rightarrow> bool" where
  "pq_ok pq \<longleftrightarrow> vec_ok (pq_vec pq) \<and> cmp_ok (pq_ge pq) \<and> heap (pq_ge pq) (pq_items pq)"

definition pq_room :: "'u copqueue \<Rightarrow> bool" where
  "pq_room pq \<longleftrightarrow> vec_room (pq_vec pq)"

lemma pq_ge_vec_upd [simp]: "pq_ge (pq\<lparr>pq_vec := v\<rparr>) = pq_ge pq"
  by (simp add: pq_ge_def fun_eq_iff)

lemma pq_compare_items:
  assumes "vec_ok (pq_vec pq)" "i < length (pq_items pq)" "j < length (pq_items pq)"
  shows "pq_compare pq (int i) (int j) =
    Some (fn_comp pq (pq_ud pq) (pq_items pq ! i) (pq_items pq ! j))"
  using assms by (simp add: pq_compare_def vec.read_law)

text \<open>What a sifting loop delivers: no undefined behaviour, a heap, the same items.\<close>

definition sifted :: "'u copqueue \<Rightarrow> 'u copqueue exec \<Rightarrow> bool" where
  "sifted pq r \<longleftrightarrow> (\<exists>v. r = Some (pq\<lparr>pq_vec := v\<rparr>) \<and> vec_ok v \<and> isz v = isz (pq_vec pq) \<and>
     heap (pq_ge pq) (vitems v) \<and> mset (vitems v) = mset (pq_items pq))"

lemma sifted_same: "vec_ok (pq_vec pq) \<Longrightarrow> heap (pq_ge pq) (pq_items pq) \<Longrightarrow> sifted pq (Some pq)"
  by (auto simp: sifted_def intro!: exI [of _ "pq_vec pq"])

lemma sifted_upd:
  "sifted (pq\<lparr>pq_vec := v\<rparr>) r \<Longrightarrow> isz v = isz (pq_vec pq) \<Longrightarrow> mset (vitems v) = mset (pq_items pq) \<Longrightarrow>
   sifted pq r"
  by (simp add: sifted_def)

lemma fits_eqD: "(\<lambda>x::'a list. length x = m) = (\<lambda>x. length x = n) \<Longrightarrow> m = n"
  by (metis length_replicate)

lemma pq_swap:
  assumes "vec_ok (pq_vec pq)" "m < length (pq_items pq)" "n < length (pq_items pq)"
  obtains v where "covec_swap (pq_vec pq) (int m) (int n) = Some v" "vec_ok v" "isz v = isz (pq_vec pq)"
    "vitems v = swap_nth m n (pq_items pq)" "mset (vitems v) = mset (pq_items pq)"
  using vec.swap_mset [OF assms] fits_eqD by metis

lemma heap_up_correct:
  assumes "vec_ok (pq_vec pq)" "cmp_ok (pq_ge pq)" "heap_up_inv (pq_ge pq) (pq_items pq) c"
  shows "sifted pq (heap_up pq c)"
  using assms
proof (induction pq c rule: heap_up.induct)
  case (1 pq c)
  let ?xs = "pq_items pq" and ?p = "HEAP_PARENT c"
  have c: "c < length ?xs" using "1.prems" by (simp add: heap_up_inv_def)
  show ?case
  proof (cases "c = 0 \<or> pq_ge pq (?xs ! ?p) (?xs ! c)")
    case True
    have h: "heap (pq_ge pq) ?xs"
      using "1.prems"(3) True by (intro heap_up_done) (auto simp: edge_def)
    have p: "c \<noteq> 0 \<Longrightarrow> ?p < length ?xs" using c HEAP_PARENT_less [of c] by simp
    have "heap_up pq c = Some pq"
      using True c p "1.prems"(1) by (auto simp: heap_up.simps [of pq c] pq_compare_items pq_ge_def)
    with h "1.prems"(1) show ?thesis by (simp add: sifted_same)
  next
    case False
    then have p: "0 < c" "?p < length ?xs" using c HEAP_PARENT_less [of c] by simp_all
    obtain v where v: "covec_swap (pq_vec pq) (int c) (int ?p) = Some v" "vec_ok v"
      "isz v = isz (pq_vec pq)" "vitems v = swap_nth c ?p ?xs" "mset (vitems v) = mset ?xs"
      using pq_swap [OF "1.prems"(1) c p(2)] by blast
    have cmp: "pq_compare pq (int ?p) (int c) = Some (fn_comp pq (pq_ud pq) (?xs ! ?p) (?xs ! c))"
      using c p "1.prems"(1) by (simp add: pq_compare_items)
    have neg: "\<not> 0 \<le> fn_comp pq (pq_ud pq) (?xs ! ?p) (?xs ! c)" using False by (simp add: pq_ge_def)
    have "heap_up_inv (pq_ge pq) (vitems v) ?p"
      using heap_up_step [OF "1.prems"(2,3) p(1)] False v(4) by simp
    then have "sifted (pq\<lparr>pq_vec := v\<rparr>) (heap_up (pq\<lparr>pq_vec := v\<rparr>) ?p)"
      using "1.IH" [OF p(1) refl cmp neg v(1)] "1.prems"(2) v(2) by simp
    moreover have "heap_up pq c = heap_up (pq\<lparr>pq_vec := v\<rparr>) ?p"
      using p cmp neg v(1) by (simp add: heap_up.simps [of pq c])
    ultimately show ?thesis using v by (metis sifted_upd)
  qed
qed


lemma i32_child: "int p < int n \<Longrightarrow> n \<le> 2 ^ 29 \<Longrightarrow>
    i32 (HEAP_LCHILD p) = Some (int (2 * p + 1)) \<and> i32 (HEAP_RCHILD p) = Some (int (2 * p + 2))"
  by (simp add: HEAP_LCHILD_def HEAP_RCHILD_def i32_Some_iff)

text \<open>The picked child is a child of \<open>p\<close> and not below any child of \<open>p\<close>.\<close>

lemma heap_pick_correct:
  assumes ok: "vec_ok (pq_vec pq)" and cmp: "cmp_ok (pq_ge pq)"
    and n: "n = length (pq_items pq)" "n \<le> 2 ^ 29" and l: "2 * p + 1 < n"
  obtains c where "heap_pick pq (int n) p (int (2 * p + 1)) = Some (int c)" "c < n" "0 < c"
    "HEAP_PARENT c = p"
    "\<And>i. 0 < i \<Longrightarrow> i < n \<Longrightarrow> HEAP_PARENT i = p \<Longrightarrow> pq_ge pq (pq_items pq ! c) (pq_items pq ! i)"
proof -
  let ?l = "2 * p + 1" and ?r = "2 * p + 2" and ?xs = "pq_items pq"
  define c where "c = (if ?r < n \<and> \<not> pq_ge pq (?xs ! ?l) (?xs ! ?r) then ?r else ?l)"
  have r: "i32 (HEAP_RCHILD p) = Some (int ?r)" using i32_child [of p n] l n by simp
  have cl: "pq_compare pq (int ?l) (int ?r) = Some (fn_comp pq (pq_ud pq) (?xs ! ?l) (?xs ! ?r))"
    if "?r < n" using that n(1) by (intro pq_compare_items [OF ok]) auto
  have "heap_pick pq (int n) p (int ?l) = Some (int c)"
  proof (cases "?r < n")
    case True
    then show ?thesis
      using r cl [OF True] unfolding heap_pick_def c_def pq_ge_def by (simp del: of_nat_add of_nat_mult)
  next
    case False
    then show ?thesis
      using r unfolding heap_pick_def c_def by (simp del: of_nat_add of_nat_mult)
  qed
  moreover have "pq_ge pq (?xs ! c) (?xs ! i)" if i: "0 < i" "i < n" "HEAP_PARENT i = p" for i
  proof -
    have il: "i = ?l \<or> i = ?r" using i parent_of [OF i(1), of p] by simp
    show ?thesis
    proof (cases "?r < n \<and> \<not> pq_ge pq (?xs ! ?l) (?xs ! ?r)")
      case True
      then have "c = ?r" by (simp add: c_def)
      with True il cmp_total [OF cmp] cmp_refl [OF cmp] show ?thesis by metis
    next
      case False
      then have "c = ?l" unfolding c_def by (rule if_not_P)
      with False il i(2) cmp_refl [OF cmp] show ?thesis by metis
    qed
  qed
  moreover have "c < n" "0 < c" "HEAP_PARENT c = p"
    using l by (auto simp: c_def HEAP_PARENT_def)
  ultimately show ?thesis using that by blast
qed

lemma heap_down_correct:
  assumes "vec_ok (pq_vec pq)" "cmp_ok (pq_ge pq)" "heap_down_inv (pq_ge pq) (pq_items pq) p"
    "n = int (length (pq_items pq))" "n \<le> 2 ^ 29"
  shows "sifted pq (heap_down pq n p)"
  using assms
proof (induction pq n p rule: heap_down.induct)
  case (1 pq n p)
  let ?xs = "pq_items pq" and ?l = "2 * p + 1" and ?n = "length (pq_items pq)"
  have p: "p < ?n" using "1.prems" by (simp add: heap_down_inv_def)
  have len: "?n \<le> 2 ^ 29" using "1.prems"(4,5) by simp
  have l: "i32 (HEAP_LCHILD p) = Some (int ?l)" using i32_child [of p ?n] p len by simp
  note step = heap_down.simps [of pq n p, unfolded l]
  show ?case
  proof (cases "?l < ?n")
    case False
    have "heap_down pq n p = Some pq" using False "1.prems"(4) by (subst step) auto
    moreover have "heap (pq_ge pq) ?xs"
      using "1.prems"(3) False by (intro heap_down_done) auto
    ultimately show ?thesis using "1.prems"(1) by (simp add: sifted_same)
  next
    case True
    obtain c where pick: "heap_pick pq n p (int ?l) = Some (int c)" and c: "c < ?n" "0 < c"
      "HEAP_PARENT c = p"
      "\<And>i. 0 < i \<Longrightarrow> i < ?n \<Longrightarrow> HEAP_PARENT i = p \<Longrightarrow> pq_ge pq (?xs ! c) (?xs ! i)"
      using heap_pick_correct [OF "1.prems"(1,2) refl len True] "1.prems"(4) by blast
    have ln: "int ?l < n" using True "1.prems"(4) by linarith
    have cmp: "pq_compare pq (int p) (int c) = Some (fn_comp pq (pq_ud pq) (?xs ! p) (?xs ! c))"
      using c p "1.prems"(1) by (simp add: pq_compare_items)
    show ?thesis
    proof (cases "pq_ge pq (?xs ! p) (?xs ! c)")
      case True
      have "heap (pq_ge pq) ?xs"
      proof (rule heap_down_done [OF "1.prems"(3)])
        fix i assume i: "i < ?n" "i = 2 * p + 1 \<or> i = 2 * p + 2"
        then have "0 < i" "HEAP_PARENT i = p" by (auto simp: HEAP_PARENT_def)
        then show "pq_ge pq (?xs ! p) (?xs ! i)"
          using True c(4) i(1) cmp_trans [OF "1.prems"(2)] by blast
      qed
      moreover have "heap_down pq n p = Some pq"
        using True ln pick cmp by (simp add: step pq_ge_def)
      ultimately show ?thesis using "1.prems"(1) by (simp add: sifted_same)
    next
      case False
      then have neg: "\<not> 0 \<le> fn_comp pq (pq_ud pq) (?xs ! p) (?xs ! c)" by (simp add: pq_ge_def)
      obtain v where v: "covec_swap (pq_vec pq) (int c) (int p) = Some v" "vec_ok v"
        "isz v = isz (pq_vec pq)" "vitems v = swap_nth c p ?xs" "mset (vitems v) = mset ?xs"
        using pq_swap [OF "1.prems"(1) c(1) p] by blast
      have inv: "heap_down_inv (pq_ge pq) (vitems v) c"
        unfolding v(4) by (rule heap_down_step [OF "1.prems"(2,3) c(2,1,3) False]) (rule c(4))
      have vl: "n = int (length (vitems v))" using "1.prems"(4) unfolding v(4) by simp
      have "sifted (pq\<lparr>pq_vec := v\<rparr>) (heap_down (pq\<lparr>pq_vec := v\<rparr>) n (nat (int c)))"
      proof (rule "1.IH" [OF l ln pick cmp neg v(1)])
        show "vec_ok (pq_vec (pq\<lparr>pq_vec := v\<rparr>))" using v(2) by simp
        show "cmp_ok (pq_ge (pq\<lparr>pq_vec := v\<rparr>))" using "1.prems"(2) by simp
        show "heap_down_inv (pq_ge (pq\<lparr>pq_vec := v\<rparr>)) (pq_items (pq\<lparr>pq_vec := v\<rparr>)) (nat (int c))"
          using inv by simp
        show "n = int (length (pq_items (pq\<lparr>pq_vec := v\<rparr>)))" using vl by simp
        show "n \<le> 2 ^ 29" by (rule "1.prems"(5))
      qed
      then have "sifted pq (heap_down (pq\<lparr>pq_vec := v\<rparr>) n (nat (int c)))"
        using v(3,5) by (rule sifted_upd)
      moreover have "heap_down pq n p = heap_down (pq\<lparr>pq_vec := v\<rparr>) n (nat (int c))"
        by (simp only: step Option.bind.simps ln if_True pick cmp neg if_False v(1))
      ultimately show ?thesis by (simp only:)
    qed
  qed
qed

lemma pq_size: "vec_ok (pq_vec pq) \<Longrightarrow> v_size (pq_vec pq) = int (length (pq_items pq))"
  by (simp add: length_vitems vec_ok_size)

lemma heap_small: "length xs \<le> 1 \<Longrightarrow> heap ge xs"
  by (auto simp: heap_def)

lemma copqueue_push_spec:
  assumes ok: "pq_ok pq" "pq_room pq" and bs: "length bs = isz (pq_vec pq)"
  shows "\<exists>v. copqueue_push pq bs = Some (pq\<lparr>pq_vec := v\<rparr>) \<and> pq_ok (pq\<lparr>pq_vec := v\<rparr>) \<and>
    isz v = isz (pq_vec pq) \<and> mset (vitems v) = add_mset bs (mset (pq_items pq))"
proof -
  obtain v where v: "covec_push_tail (pq_vec pq) bs = Some (True, v)" "vec_ok v"
    "vitems v = pq_items pq @ [bs]" "isz v = isz (pq_vec pq)"
    using vec.push_law [of "pq_vec pq" bs] ok bs fits_eqD by (auto simp: pq_ok_def pq_room_def)
  let ?q = "pq\<lparr>pq_vec := v\<rparr>"
  have q: "vec_ok (pq_vec ?q)" "cmp_ok (pq_ge ?q)" using ok v by (auto simp: pq_ok_def)
  have "heap_up_inv (pq_ge ?q) (pq_items ?q) (length (pq_items pq))"
    using ok v heap_up_start [of "pq_ge pq" "pq_items pq" bs] by (simp add: pq_ok_def)
  note up = heap_up_correct [OF q this]
  have "v_size v = int (length (pq_items pq)) + 1" using pq_size [OF q(1)] v(3) by simp
  then have "heap_up_tail ?q = (if pq_items pq = [] then Some ?q else heap_up ?q (length (pq_items pq)))"
    by (auto simp: heap_up_tail_def Let_def)
  moreover have "sifted ?q (Some ?q)" if "pq_items pq = []"
    using q v(3) that by (intro sifted_same) (simp_all add: heap_small)
  ultimately have "sifted ?q (heap_up_tail ?q)"
    using up by (simp split: if_splits)
  then show ?thesis
    using ok v by (auto simp: sifted_def copqueue_push_def pq_ok_def)
qed

lemma copqueue_pop_spec:
  assumes ok: "pq_ok pq" and ne: "pq_items pq \<noteq> []" and len: "length (pq_items pq) \<le> 2 ^ 29"
  shows "\<exists>v. copqueue_pop pq = Some (Some (hd (pq_items pq)), pq\<lparr>pq_vec := v\<rparr>) \<and>
    pq_ok (pq\<lparr>pq_vec := v\<rparr>) \<and> isz v = isz (pq_vec pq) \<and>
    mset (pq_items pq) = add_mset (hd (pq_items pq)) (mset (vitems v))"
proof -
  let ?xs = "pq_items pq" and ?n = "v_size (pq_vec pq)"
  have vok: "vec_ok (pq_vec pq)" and cmp: "cmp_ok (pq_ge pq)" and hp: "heap (pq_ge pq) ?xs"
    using ok by (simp_all add: pq_ok_def)
  have n: "?n = int (length ?xs)" "0 < ?n" using pq_size [OF vok] ne by simp_all
  obtain w v where w: "covec_swap (pq_vec pq) 0 (int (length ?xs) - 1) = Some w"
    and v: "covec_del_tail w = Some (Some (hd ?xs), v)" "vec_ok v"
    "vitems v = butlast (swap_nth 0 (length ?xs - 1) ?xs)"
    "mset ?xs = add_mset (hd ?xs) (mset (vitems v))"
    and f: "(\<lambda>x::cell list. length x = isz v) = (\<lambda>x. length x = isz (pq_vec pq))"
    using vec.swap_del [OF vok ne] by blast
  have iv: "isz v = isz (pq_vec pq)" using f by (rule fits_eqD)
  let ?q = "pq\<lparr>pq_vec := v\<rparr>"
  have q: "vec_ok (pq_vec ?q)" "cmp_ok (pq_ge ?q)" using v cmp by simp_all
  have vl: "v_size v = int (length (vitems v))" using pq_size [OF q(1)] by simp
  have "sifted ?q (heap_down_head ?q)"
  proof (cases "length (vitems v) \<le> 1")
    case True
    then show ?thesis
      using vl q(1) by (simp add: heap_down_head_def sifted_same heap_small)
  next
    case False
    have "heap_down_inv (pq_ge ?q) (pq_items ?q) 0"
    proof -
      have "vitems v \<noteq> []" using False by auto
      then show ?thesis using heap_down_start [OF hp ne] v(3) by simp
    qed
    moreover have "v_size v \<le> 2 ^ 29" using vl v(3) len by simp
    ultimately have "sifted ?q (heap_down ?q (v_size v) 0)"
      using heap_down_correct [OF q] vl by simp
    then show ?thesis using False vl by (simp add: heap_down_head_def)
  qed
  then show ?thesis
    using ok v w n iv by (auto simp: sifted_def copqueue_pop_def pq_ok_def)
qed

lemma copqueue_pop_empty:
  "pq_ok pq \<Longrightarrow> pq_items pq = [] \<Longrightarrow> copqueue_pop pq = Some (None, pq)"
  using pq_size [of pq] by (simp add: copqueue_pop_def pq_ok_def)


section \<open>The queue as an interface\<close>

locale priority_queue =
  fixes pop :: "'q \<Rightarrow> ('a option \<times> 'q) exec"
    and bag :: "'q \<Rightarrow> 'a multiset"
    and ok :: "'q \<Rightarrow> bool"
    and ge :: "'q \<Rightarrow> 'a \<Rightarrow> 'a \<Rightarrow> bool"
  assumes pop_empty: "ok q \<Longrightarrow> bag q = {#} \<Longrightarrow> pop q = Some (None, q)"
    and pop_max: "ok q \<Longrightarrow> bag q \<noteq> {#} \<Longrightarrow>
      \<exists>x q'. pop q = Some (Some x, q') \<and> ok q' \<and> ge q' = ge q \<and> bag q = add_mset x (bag q') \<and>
        (\<forall>y\<in>#bag q. ge q x y)"
begin

lemma drain_sorted:
  "ok q \<Longrightarrow> size (bag q) \<le> n \<Longrightarrow>
   \<exists>xs. drain pop n q = Some xs \<and> mset xs = bag q \<and> sorted_wrt (ge q) xs"
proof (induction n arbitrary: q)
  case 0
  then show ?case by simp
next
  case (Suc n)
  show ?case
  proof (cases "bag q = {#}")
    case True
    with Suc.prems show ?thesis by (simp add: pop_empty)
  next
    case False
    obtain x q' where x: "pop q = Some (Some x, q')" "ok q'" "ge q' = ge q"
      "bag q = add_mset x (bag q')" "\<forall>y\<in>#bag q. ge q x y"
      using pop_max [OF Suc.prems(1) False] by blast
    then obtain xs where xs: "drain pop n q' = Some xs" "mset xs = bag q'" "sorted_wrt (ge q) xs"
      using Suc.IH [of q'] Suc.prems(2) by auto
    have "\<forall>y\<in>set xs. ge q x y" using x(4,5) xs(2) by (metis set_mset_mset insertCI set_mset_add_mset_insert)
    with x xs show ?thesis by simp
  qed
qed

end

definition pq_small :: "'u copqueue \<Rightarrow> bool" where
  "pq_small pq \<longleftrightarrow> pq_ok pq \<and> length (pq_items pq) \<le> 2 ^ 29"

lemma pq_hd_max:
  "pq_ok pq \<Longrightarrow> y \<in> set (pq_items pq) \<Longrightarrow> pq_ge pq (hd (pq_items pq)) y"
proof -
  assume ok: "pq_ok pq" and y: "y \<in> set (pq_items pq)"
  then obtain i where "i < length (pq_items pq)" "y = pq_items pq ! i" by (auto simp: in_set_conv_nth)
  moreover have "hd (pq_items pq) = pq_items pq ! 0" using y by (intro hd_conv_nth) auto
  ultimately show ?thesis using ok heap_head [of "pq_ge pq" "pq_items pq" i] by (simp add: pq_ok_def)
qed

interpretation pqueue: priority_queue copqueue_pop "\<lambda>pq. mset (pq_items pq)" pq_small pq_ge
proof (unfold_locales, goal_cases)
  case (1 pq)
  then show ?case by (simp add: pq_small_def copqueue_pop_empty)
next
  case (2 pq)
  then have ne: "pq_items pq \<noteq> []" and ok: "pq_ok pq" and l: "length (pq_items pq) \<le> 2 ^ 29"
    by (auto simp: pq_small_def)
  obtain v where v: "copqueue_pop pq = Some (Some (hd (pq_items pq)), pq\<lparr>pq_vec := v\<rparr>)"
    "pq_ok (pq\<lparr>pq_vec := v\<rparr>)" "mset (pq_items pq) = add_mset (hd (pq_items pq)) (mset (vitems v))"
    using copqueue_pop_spec [OF ok ne l] by blast
  have "length (vitems v) < length (pq_items pq)"
    using arg_cong [OF v(3), of size] by simp
  then have "pq_small (pq\<lparr>pq_vec := v\<rparr>)" using v(2) l by (simp add: pq_small_def)
  moreover have "\<forall>y\<in>#mset (pq_items pq). pq_ge pq (hd (pq_items pq)) y"
    using pq_hd_max [OF ok] by simp
  moreover have "pq_ge (pq\<lparr>pq_vec := v\<rparr>) = pq_ge pq" by simp
  ultimately show ?case using v(1,3) by (metis (no_types, lifting) copqueue.select_convs(1) copqueue.surjective copqueue.update_convs(1))
qed


section \<open>Properties\<close>

text \<open>\<open>copqueue_push\<close> puts the item into the queue and restores the heap: the queue then holds
  the old items and the new one, under the same comparison, with no undefined behaviour.\<close>
theorem copqueue_push_correct:
  assumes "pq_ok pq" "pq_room pq" "length bs = isz (pq_vec pq)"
  shows "\<exists>pq'. copqueue_push pq bs = Some pq' \<and> pq_ok pq' \<and> pq_ge pq' = pq_ge pq \<and>
    mset (pq_items pq') = add_mset bs (mset (pq_items pq))"
  using copqueue_push_spec [OF assms] pq_ge_vec_upd by fastforce

definition byte_order :: "unit \<Rightarrow> cell list \<Rightarrow> cell list \<Rightarrow> int" where
  "byte_order ud a b =
     (let key = (\<lambda>bs. case bs of Some w # _ \<Rightarrow> uint w | _ \<Rightarrow> 0) in key a - key b)"

lemma byte_order_ok: "cmp_ok (\<lambda>a b. 0 \<le> byte_order () a b)"
  by (auto simp: cmp_ok_def byte_order_def Let_def)

theorem copqueue_push_correct_witness:
  "\<exists>pq'. copqueue_push (copqueue_new 1 byte_order ()) [Some 4] = Some pq' \<and> pq_ok pq' \<and>
     mset (pq_items pq') = {# [Some 4] #}"
proof -
  let ?pq = "copqueue_new 1 byte_order ()"
  have "pq_ok ?pq"
    using byte_order_ok
    by (simp add: pq_ok_def copqueue_new_def vec_ok_def covec_new_def heap_def vitems_def pq_ge_def [abs_def])
  moreover have "pq_room ?pq"
    by (simp add: pq_room_def vec_room_def copqueue_new_def covec_new_def VEC_INIT_CAP_def)
  moreover have "length [Some 4 :: cell] = isz (pq_vec ?pq)" by (simp add: copqueue_new_def covec_new_def)
  ultimately show ?thesis
    using copqueue_push_correct [of ?pq "[Some 4]"] by (auto simp: copqueue_new_def covec_new_def vitems_def)
qed

text \<open>C1: Popping until the queue says it is empty returns exactly the items of the queue, the largest
  first and each one not below those that follow, with no undefined behaviour.\<close>
theorem copqueue_drain_sorted:
  assumes "pq_ok pq" "length (pq_items pq) \<le> 2 ^ 29" "length (pq_items pq) \<le> n"
  shows "\<exists>xs. drain copqueue_pop n pq = Some xs \<and> mset xs = mset (pq_items pq) \<and>
    sorted_wrt (pq_ge pq) xs"
  using pqueue.drain_sorted [of pq n] assms by (simp add: pq_small_def)

theorem copqueue_drain_sorted_witness:
  "\<exists>xs. drain copqueue_pop 5 \<lparr>pq_vec = \<lparr>v_data = [Some 9, Some 5, Some 8], v_cap = 3, v_size = 3,
       v_itemsize = 1\<rparr>, fn_comp = byte_order, pq_ud = ()\<rparr> = Some xs \<and>
     mset xs = {# [Some 9], [Some 8], [Some 5] #} \<and>
     sorted_wrt (\<lambda>a b. 0 \<le> byte_order () a b) xs"
proof -
  let ?pq = "\<lparr>pq_vec = \<lparr>v_data = [Some 9, Some 5, Some 8], v_cap = 3, v_size = 3, v_itemsize = 1\<rparr>,
     fn_comp = byte_order, pq_ud = ()\<rparr> :: unit copqueue"
  have items: "pq_items ?pq = [[Some 9], [Some 5], [Some 8]]"
    by (simp add: vitems_def slots_def chunks_def upt_rec)
  have ge: "pq_ge ?pq = (\<lambda>a b. 0 \<le> byte_order () a b)" by (simp add: pq_ge_def fun_eq_iff)
  have "heap (pq_ge ?pq) (pq_items ?pq)"
    unfolding items ge heap_def edge_def
  proof (intro allI impI)
    fix i :: nat assume "0 < i" "i < length [[Some 9], [Some 5], [Some 8 :: cell]]"
    then have "i = 1 \<or> i = 2" by auto
    then show "0 \<le> byte_order () ([[Some 9], [Some 5], [Some 8]] ! HEAP_PARENT i)
        ([[Some 9], [Some 5], [Some 8]] ! i)"
      by (auto simp: HEAP_PARENT_def byte_order_def)
  qed
  then have "pq_ok ?pq" using byte_order_ok ge by (simp add: pq_ok_def vec_ok_def)
  from copqueue_drain_sorted [OF this, of 5] show ?thesis
    using items ge by (simp add: add_mset_commute)
qed

end
