(* ===== verification/Utf8.thy ===== *)
theory Utf8
  imports CPrelude
begin

unbundle bit_operations_syntax

text \<open>
  \<open>src/co_utf8.c\<close>: decoding one UTF-8 character and counting the characters of a
  zero-terminated string.  A string is the list of the bytes that lie in its block; a read beyond
  them is undefined.  The decoder is compared with the encoder that RFC 3629 describes.
\<close>

section \<open>Operations\<close>

definition MAXUNICODE :: "32 word" where
  "MAXUNICODE = 0x10FFFF"

definition limits :: "32 word list" where
  "limits = [0xFF, 0x7F, 0x7FF, 0xFFFF]"

definition read_byte :: "byte list \<Rightarrow> nat \<Rightarrow> 32 word exec" where
  "read_byte b i = (if i < length b then Some (ucast (b ! i)) else None)"

text \<open>The loop over the continuation bytes: \<open>None\<close> inside is the early \<open>return NULL\<close>.\<close>

definition shl1 :: "32 word \<Rightarrow> 32 word" where
  "shl1 w = push_bit 1 w"

function utf8_cont :: "byte list \<Rightarrow> 32 word \<Rightarrow> 32 word \<Rightarrow> nat \<Rightarrow> (32 word \<times> 32 word \<times> nat) option exec" where
  "utf8_cont b ch res n =
     (if ch AND 0x40 = 0 then Some (Some (ch, res, n))
      else do {
        let n = n + 1;
        cc \<leftarrow> read_byte b n;
        if cc AND 0xc0 \<noteq> 0x80 then Some None
        else utf8_cont b (shl1 ch) (push_bit 6 res OR (cc AND 0x3f)) n
      })"
  by pat_completeness auto
termination
  by (relation "measure (\<lambda>(b, ch, res, n). length b - n)") (auto simp: read_byte_def split: if_splits)

declare utf8_cont.simps [simp del]

text \<open>Shifting a 32-bit value by 32 or more is undefined.\<close>

definition shl32 :: "32 word \<Rightarrow> nat \<Rightarrow> 32 word exec" where
  "shl32 w n = (if n < 32 then Some (push_bit n w) else None)"

text \<open>
  The decoded code point and how far the returned pointer lies after \<open>s\<close>; \<open>Some None\<close> is
  \<open>NULL\<close>.
\<close>

definition coutf8_decode :: "byte list \<Rightarrow> (nat \<times> 32 word) option exec" where
  "coutf8_decode b = do {
     ch \<leftarrow> read_byte b 0;
     if ch < 0x80 then Some (Some (1, ch))
     else do {
       r \<leftarrow> utf8_cont b ch 0 0;
       case r of
         None \<Rightarrow> Some None
       | Some (ch, res, n) \<Rightarrow> do {
           hi \<leftarrow> shl32 (ch AND 0x7f) (n * 5);
           let res = res OR hi;
           if 3 < n \<or> MAXUNICODE < res \<or> res \<le> limits ! n then Some None
           else Some (Some (n + 1, res))
         }
     }
   }"

text \<open>The loop of \<open>coutf8_len\<close>; every successful decoding moves the pointer forward.\<close>

lemma coutf8_decode_pos: "coutf8_decode b = Some (Some (n, c)) \<Longrightarrow> 0 < n"
  by (auto simp: coutf8_decode_def Let_def split: Option.bind_splits if_splits option.splits)

function utf8_count :: "byte list \<Rightarrow> nat \<Rightarrow> nat exec" where
  "utf8_count b k = do {
     c \<leftarrow> read_byte b 0;
     if c = 0 then Some k
     else do {
       r \<leftarrow> coutf8_decode b;
       case r of
         None \<Rightarrow> Some k
       | Some (n, _) \<Rightarrow> utf8_count (drop n b) (k + 1)
     }
   }"
  by pat_completeness auto
termination
proof (relation "measure (\<lambda>(b, k). length b)", goal_cases)
  case (2 b k c r p n d)
  then show ?case
    using coutf8_decode_pos [of b n d] by (auto simp: read_byte_def split: if_splits)
qed simp

declare utf8_count.simps [simp del]

definition coutf8_len :: "byte list \<Rightarrow> nat exec" where
  "coutf8_len s = utf8_count s 0"

section \<open>The encoding\<close>

text \<open>The reference: the bytes of a code point, which is a number here.\<close>

definition tail_byte :: "int \<Rightarrow> byte" where
  "tail_byte x = word_of_int (0x80 + x mod 64)"

definition utf8_encode :: "int \<Rightarrow> byte list" where
  "utf8_encode c =
     (if c < 0x80 then [word_of_int c]
      else if c < 0x800 then [word_of_int (0xC0 + c div 64), tail_byte c]
      else if c < 0x10000 then
        [word_of_int (0xE0 + c div 4096), tail_byte (c div 64), tail_byte c]
      else
        [word_of_int (0xF0 + c div 262144), tail_byte (c div 4096), tail_byte (c div 64), tail_byte c])"

text \<open>A fact about every byte is decided by running through the 256 of them.\<close>

lemma all_bytes:
  assumes "list_all (\<lambda>n. P (word_of_int n)) [0..255]"
  shows "P (b::byte)"
proof -
  have "uint b < 2 ^ LENGTH(8)" by (rule unsigned_less)
  then have m: "uint b \<in> set [0..255]" by simp
  from assms have "\<forall>n\<in>set [0..255]. P (word_of_int n)" by (simp only: list_all_iff)
  from this [THEN bspec, OF m] show ?thesis by simp
qed

abbreviation u8 :: "byte \<Rightarrow> 32 word" where
  "u8 b \<equiv> ucast b"

definition is_tail :: "byte \<Rightarrow> bool" where
  "is_tail b \<longleftrightarrow> uint b div 64 = 2"

definition low6 :: "byte \<Rightarrow> int" where
  "low6 b = uint b mod 64"

lemma tail_test: "u8 b AND 0xc0 = 0x80 \<longleftrightarrow> is_tail b"
  by (rule all_bytes) code_simp

lemma tail_value: "u8 b AND 0x3f = word_of_int (low6 b)"
  by (rule all_bytes) code_simp

lemma low6_less [simp]: "low6 b < 64"
  by (simp add: low6_def)

lemma ascii_test: "u8 b < 0x80 \<longleftrightarrow> uint b < 128"
  by (rule all_bytes) code_simp

lemma lead_none: "128 \<le> uint b \<longrightarrow> uint b < 192 \<longrightarrow> u8 b AND 0x40 = 0 \<and> u8 b AND 0x7f \<le> 0xFF"
  by (rule all_bytes) code_simp

lemma lead2: "192 \<le> uint b \<longrightarrow> uint b < 224 \<longrightarrow> u8 b AND 0x40 \<noteq> 0 \<and> shl1 (u8 b) AND 0x40 = 0 \<and>
    push_bit 5 (shl1 (u8 b) AND 0x7f) = push_bit 6 (word_of_int (uint b - 192))"
  by (rule all_bytes) code_simp

lemma lead3: "224 \<le> uint b \<longrightarrow> uint b < 240 \<longrightarrow> u8 b AND 0x40 \<noteq> 0 \<and> shl1 (u8 b) AND 0x40 \<noteq> 0 \<and>
    shl1 (shl1 (u8 b)) AND 0x40 = 0 \<and>
    push_bit 10 (shl1 (shl1 (u8 b)) AND 0x7f) = push_bit 12 (word_of_int (uint b - 224))"
  by (rule all_bytes) code_simp

lemma lead4: "240 \<le> uint b \<longrightarrow> uint b < 248 \<longrightarrow> u8 b AND 0x40 \<noteq> 0 \<and> shl1 (u8 b) AND 0x40 \<noteq> 0 \<and>
    shl1 (shl1 (u8 b)) AND 0x40 \<noteq> 0 \<and> shl1 (shl1 (shl1 (u8 b))) AND 0x40 = 0 \<and>
    push_bit 15 (shl1 (shl1 (shl1 (u8 b))) AND 0x7f) = push_bit 18 (word_of_int (uint b - 240))"
  by (rule all_bytes) code_simp

lemma lead5: "248 \<le> uint b \<longrightarrow> u8 b AND 0x40 \<noteq> 0 \<and> shl1 (u8 b) AND 0x40 \<noteq> 0 \<and>
    shl1 (shl1 (u8 b)) AND 0x40 \<noteq> 0 \<and> shl1 (shl1 (shl1 (u8 b))) AND 0x40 \<noteq> 0"
  by (rule all_bytes) code_simp

lemma or_add:
  assumes "0 \<le> x" "x < 2 ^ k"
  shows "push_bit k (word_of_int y) OR word_of_int x = (word_of_int (y * 2 ^ k + x) :: 32 word)"
proof -
  have "push_bit k (word_of_int y) OR word_of_int x = push_bit k (word_of_int y) + (word_of_int x :: 32 word)"
  proof (rule disjunctive_add [symmetric])
    fix n
    have "\<not> bit x n" if "k \<le> n"
    proof -
      have "(2::int) ^ k \<le> 2 ^ n" using that by (intro power_increasing) auto
      then have "x < 2 ^ n" using assms by linarith
      then show ?thesis using assms by (simp add: bit_iff_odd)
    qed
    then show "\<not> bit (push_bit k (word_of_int y) :: 32 word) n \<or> \<not> bit (word_of_int x :: 32 word) n"
      by (cases "k \<le> n") (auto simp: bit_simps)
  qed
  also have "\<dots> = word_of_int (y * 2 ^ k + x)" by (simp add: push_bit_eq_mult mult.commute)
  finally show ?thesis .
qed

lemma low6_nonneg [simp]: "0 \<le> low6 b"
  by (simp add: low6_def)

lemma or_low6: "push_bit 6 (word_of_int y) OR word_of_int (low6 b) = (word_of_int (y * 64 + low6 b) :: 32 word)"
  using or_add [of "low6 b" 6 y] by simp

lemma word_le_bound: "0 \<le> v \<Longrightarrow> v < 2 ^ 32 \<Longrightarrow> (word_of_int v \<le> (w :: 32 word)) = (v \<le> uint w)"
  by (simp add: word_le_def uint_word_of_int)

lemma word_gt_bound: "0 \<le> v \<Longrightarrow> v < 2 ^ 32 \<Longrightarrow> ((w :: 32 word) < word_of_int v) = (uint w < v)"
  by (simp add: word_less_def uint_word_of_int)

text \<open>One decoding step, and a whole character of each length.\<close>

lemma cont_stop: "ch AND 0x40 = 0 \<Longrightarrow> utf8_cont b ch res n = Some (Some (ch, res, n))"
  by (subst utf8_cont.simps) simp

lemma cont_step:
  assumes "ch AND 0x40 \<noteq> 0"
  shows "utf8_cont b ch (word_of_int v) n =
    (if n + 1 < length b then
       if is_tail (b ! (n + 1))
       then utf8_cont b (shl1 ch) (word_of_int (v * 64 + low6 (b ! (n + 1)))) (n + 1)
       else Some None
     else None)"
  using assms
  by (subst utf8_cont.simps) (auto simp: read_byte_def tail_test tail_value or_low6)

lemma decode_none:
  assumes "128 \<le> uint c" "uint c < 192"
  shows "coutf8_decode (c # bs) = Some None"
proof -
  have "u8 c AND 0x40 = 0" "u8 c AND 0x7f \<le> 0xFF" "\<not> u8 c < 0x80"
    using lead_none [of c] assms by (auto simp: ascii_test)
  then show ?thesis
    by (simp add: coutf8_decode_def read_byte_def cont_stop shl32_def limits_def)
qed

lemma decode_ascii: "uint c < 128 \<Longrightarrow> coutf8_decode (c # bs) = Some (Some (1, u8 c))"
  by (simp add: coutf8_decode_def read_byte_def ascii_test)

lemma low6_sum: "0 \<le> x \<Longrightarrow> x < n \<Longrightarrow> 0 \<le> x * 64 + low6 t \<and> x * 64 + low6 t < n * 64"
  using low6_less [of t] low6_nonneg [of t] by linarith

definition utf8_result :: "nat \<Rightarrow> int \<Rightarrow> int \<Rightarrow> (nat \<times> 32 word) option exec" where
  "utf8_result n v low = Some (if low < v \<and> v \<le> 0x10FFFF then Some (n, word_of_int v) else None)"

lemmas decode_simps = coutf8_decode_def read_byte_def ascii_test cont_stop cont_step shl32_def
  limits_def MAXUNICODE_def Let_def word_le_bound word_gt_bound utf8_result_def

lemma decode2:
  assumes c: "192 \<le> uint c" "uint c < 224"
  shows "coutf8_decode (c # t # bs) =
    (if is_tail t then utf8_result 2 ((uint c - 192) * 64 + low6 t) 0x7F else Some None)"
proof -
  let ?x = "uint c - 192"
  have v: "0 \<le> ?x * 64 + low6 t" "?x * 64 + low6 t < 2048" using low6_sum [of ?x 32 t] c by simp_all
  have "word_of_int (low6 t) OR push_bit 6 (word_of_int ?x) = (word_of_int (?x * 64 + low6 t) :: 32 word)"
    using or_low6 [of ?x t] by (simp add: or.commute)
  then show ?thesis
    using lead2 [of c] c cont_step [of "u8 c" "c # t # bs" 0 0] v
    by (simp add: decode_simps del: of_int_add of_int_mult)
qed

lemma cont_start:
  assumes "ch AND 0x40 \<noteq> 0"
  shows "utf8_cont (c # bs) ch 0 0 =
    (case bs of [] \<Rightarrow> None
     | t # _ \<Rightarrow> if is_tail t then utf8_cont (c # bs) (shl1 ch) (word_of_int (low6 t)) 1 else Some None)"
  using cont_step [OF assms, of "c # bs" 0 0] by (simp split: list.splits)

lemma cont3:
  assumes "ch AND 0x40 \<noteq> 0" "shl1 ch AND 0x40 \<noteq> 0" "shl1 (shl1 ch) AND 0x40 = 0"
  shows "utf8_cont (c # t # u # bs) ch 0 0 =
    Some (if is_tail t \<and> is_tail u then Some (shl1 (shl1 ch), word_of_int (low6 t * 64 + low6 u), 2) else None)"
  using cont_step [OF assms(1), of "c # t # u # bs" 0 0] assms(2,3)
  by (simp add: cont_step cont_stop del: of_int_add of_int_mult)

lemma cont4:
  assumes "ch AND 0x40 \<noteq> 0" "shl1 ch AND 0x40 \<noteq> 0" "shl1 (shl1 ch) AND 0x40 \<noteq> 0"
    "shl1 (shl1 (shl1 ch)) AND 0x40 = 0"
  shows "utf8_cont (c # t # u # w # bs) ch 0 0 =
    Some (if is_tail t \<and> is_tail u \<and> is_tail w
      then Some (shl1 (shl1 (shl1 ch)), word_of_int ((low6 t * 64 + low6 u) * 64 + low6 w), 3) else None)"
  using cont_step [OF assms(1), of "c # t # u # w # bs" 0 0] assms(2-)
  by (simp add: cont_step cont_stop del: of_int_add of_int_mult)

lemma decode3:
  assumes c: "224 \<le> uint c" "uint c < 240"
  shows "coutf8_decode (c # t # u # bs) =
    (if is_tail t \<and> is_tail u then utf8_result 3 ((uint c - 224) * 4096 + (low6 t * 64 + low6 u)) 0x7FF
     else Some None)"
proof -
  define x y v where d: "x = uint c - 224" "y = low6 t * 64 + low6 u" "v = x * 4096 + y"
  have y: "0 \<le> y" "y < 4096" using low6_sum [of "low6 t" 64 u] by (simp_all add: d)
  then have v: "0 \<le> v" "v < 65536" using c by (simp_all add: d)
  have "word_of_int y OR push_bit 12 (word_of_int x) = (word_of_int v :: 32 word)"
    using or_add [of y 12 x] y by (simp add: or.commute d(3))
  moreover have "push_bit 10 (shl1 (shl1 (u8 c)) AND 0x7f) = push_bit 12 (word_of_int x)"
    using lead3 [of c] c unfolding d(1) by blast
  ultimately show ?thesis
    using lead3 [of c] c cont3 [of "u8 c" c t u bs] v unfolding d [symmetric]
    by (simp add: decode_simps del: of_int_add of_int_mult push_bit_and)
qed

lemma decode4:
  assumes c: "240 \<le> uint c" "uint c < 248"
  shows "coutf8_decode (c # t # u # w # bs) =
    (if is_tail t \<and> is_tail u \<and> is_tail w
     then utf8_result 4 ((uint c - 240) * 262144 + ((low6 t * 64 + low6 u) * 64 + low6 w)) 0xFFFF
     else Some None)"
proof -
  define x y v where d: "x = uint c - 240" "y = (low6 t * 64 + low6 u) * 64 + low6 w" "v = x * 262144 + y"
  have y: "0 \<le> y" "y < 262144"
    using low6_sum [of "low6 t * 64 + low6 u" 4096 w] low6_sum [of "low6 t" 64 u] by (simp_all add: d)
  then have v: "0 \<le> v" "v < 2097152" using c by (simp_all add: d)
  have "word_of_int y OR push_bit 18 (word_of_int x) = (word_of_int v :: 32 word)"
    using or_add [of y 18 x] y by (simp add: or.commute d(3))
  moreover have "push_bit 15 (shl1 (shl1 (shl1 (u8 c))) AND 0x7f) = push_bit 18 (word_of_int x)"
    using lead4 [of c] c unfolding d(1) by blast
  ultimately show ?thesis
    using lead4 [of c] c cont4 [of "u8 c" c t u w bs] v unfolding d [symmetric]
    by (simp add: decode_simps del: of_int_add of_int_mult push_bit_and)
qed

lemma cont_ge: "utf8_cont b ch res n = Some (Some (ch', res', n')) \<Longrightarrow> n \<le> n'"
proof (induction b ch res n rule: utf8_cont.induct)
  case (1 b ch res n)
  show ?case
    using 1 utf8_cont.simps [of b ch res n]
    by (auto split: if_splits Option.bind_splits dest: Suc_leD)
qed


lemma byte_uint [simp]: "uint (b::byte) < 256"
proof -
  have "uint b < 2 ^ LENGTH(8)" by (rule unsigned_less)
  then show ?thesis by simp
qed

lemma decode_cont:
  assumes "128 \<le> uint c" "coutf8_decode (c # bs) = Some (Some r)"
  obtains ch res n where "utf8_cont (c # bs) (u8 c) 0 0 = Some (Some (ch, res, n))" "n \<le> 3"
  using assms
  by (auto simp: coutf8_decode_def read_byte_def ascii_test Let_def
      split: Option.bind_splits option.splits if_splits)

lemma decode_short:
  assumes "192 \<le> uint c" "uint c < 248" "coutf8_decode (c # bs) = Some (Some r)"
  shows "1 \<le> length bs \<and> (224 \<le> uint c \<longrightarrow> 2 \<le> length bs) \<and> (240 \<le> uint c \<longrightarrow> 3 \<le> length bs)"
proof -
  have "128 \<le> uint c" using assms by simp
  from decode_cont [OF this assms(3)] obtain ch res n where
    r: "utf8_cont (c # bs) (u8 c) 0 0 = Some (Some (ch, res, n))" by blast
  consider "uint c < 224" | "224 \<le> uint c" "uint c < 240" | "240 \<le> uint c" by linarith
  then show ?thesis
    using r lead2 [of c] lead3 [of c] lead4 [of c] assms(1,2)
    by cases (auto simp: cont_start cont_step Suc_le_eq simp del: of_int_add of_int_mult split: if_splits list.splits)
qed

lemma decode_long:
  assumes "248 \<le> uint c"
  shows "coutf8_decode (c # bs) \<noteq> Some (Some r)"
proof
  assume d: "coutf8_decode (c # bs) = Some (Some r)"
  have "128 \<le> uint c" using assms by simp
  from decode_cont [OF this d] obtain ch res n where
    r: "utf8_cont (c # bs) (u8 c) 0 0 = Some (Some (ch, res, n))" "n \<le> 3" by blast
  have "\<exists>ch' v. utf8_cont (c # bs) ch' v (Suc (Suc (Suc (Suc 0)))) = Some (Some (ch, res, n))"
    using lead5 [of c] assms r(1)
    by (auto simp: cont_start cont_step simp del: of_int_add of_int_mult split: if_splits list.splits)
  with cont_ge r(2) show False by fastforce
qed

text \<open>Digits to the base 64.\<close>

lemma digits64:
  fixes x t :: int
  assumes "0 \<le> t" "t < 64"
  shows "(x * 64 + t) div 64 = x" "(x * 64 + t) mod 64 = t"
  using assms by auto

lemma div_4096: "(k::int) div 4096 = k div 64 div 64"
  using zdiv_zmult2_eq [of 64 k 64] by simp

lemma div_262144: "(k::int) div 262144 = k div 64 div 64 div 64"
  using zdiv_zmult2_eq [of 64 "k div 64" 64] zdiv_zmult2_eq [of 4096 k 64] by simp

lemma digits_sum:
  fixes k :: int
  shows "k div 64 * 64 + k mod 64 = k"
    "k div 4096 * 4096 + (k div 64 mod 64 * 64 + k mod 64) = k"
    "k div 262144 * 262144 + ((k div 4096 mod 64 * 64 + k div 64 mod 64) * 64 + k mod 64) = k"
proof -
  define a b c r s t where d: "a = k div 64" "b = a div 64" "c = b div 64" "r = k mod 64" "s = a mod 64" "t = b mod 64"
  have e: "a * 64 + r = k" "b * 64 + s = a" "c * 64 + t = b" by (simp_all add: d)
  have "b * 4096 + (s * 64 + r) = k" "c * 262144 + ((t * 64 + s) * 64 + r) = k"
    unfolding e(1) [symmetric] e(2) [symmetric] e(3) [symmetric] by simp_all
  then show "k div 64 * 64 + k mod 64 = k"
    "k div 4096 * 4096 + (k div 64 mod 64 * 64 + k mod 64) = k"
    "k div 262144 * 262144 + ((k div 4096 mod 64 * 64 + k div 64 mod 64) * 64 + k mod 64) = k"
    unfolding d div_4096 div_262144 by simp_all
qed

lemma low6_digits: "(x * 64 + low6 t) div 64 = x" "(x * 64 + low6 t) mod 64 = low6 t"
  using low6_less [of t] low6_nonneg [of t] by (intro digits64; simp)+

lemma uint_lead: "0 \<le> v \<Longrightarrow> v < 256 \<Longrightarrow> uint (word_of_int v :: byte) = v"
  by (simp add: uint_word_of_int)

lemma tail_byte_low6 [simp]: "is_tail (tail_byte x)" "low6 (tail_byte x) = x mod 64"
proof -
  have "uint (tail_byte x) = 128 + x mod 64"
    unfolding tail_byte_def
  proof (rule uint_lead)
    have "0 \<le> x mod 64" "x mod 64 < 64" by simp_all
    then show "0 \<le> 128 + x mod 64" "128 + x mod 64 < 256" by linarith+
  qed
  moreover have "(128 + x mod 64) mod 64 = x mod 64"
  proof -
    have "128 + x mod 64 = 2 * 64 + x mod 64" by simp
    then show ?thesis by (simp only: mod_mult_self3 mod_mod_trivial)
  qed
  moreover have "(128 + x mod 64) div 64 = 2"
    using pos_mod_bound [of 64 x] by (intro int_div_pos_eq [of _ _ _ "x mod 64"]) simp_all
  ultimately show "is_tail (tail_byte x)" "low6 (tail_byte x) = x mod 64"
    by (simp_all only: is_tail_def low6_def)
qed

lemma tail_byte_eq: "is_tail t \<Longrightarrow> x mod 64 = low6 t \<Longrightarrow> tail_byte x = t"
proof -
  assume "is_tail t" "x mod 64 = low6 t"
  then have "128 + x mod 64 = uint t"
    using div_mult_mod_eq [of "uint t" 64] by (simp add: is_tail_def low6_def)
  then show ?thesis by (simp add: tail_byte_def del: of_int_add)
qed

lemma decode_encode:
  assumes "0 \<le> k" "k \<le> 0x10FFFF"
  shows "coutf8_decode (utf8_encode k @ bs) = Some (Some (length (utf8_encode k), word_of_int k))"
proof -
  consider "k < 0x80" | "0x80 \<le> k" "k < 0x800" | "0x800 \<le> k" "k < 0x10000" | "0x10000 \<le> k" by linarith
  then show ?thesis
  proof cases
    case 1
    then have "uint (word_of_int k :: byte) = k" using assms by (simp add: uint_word_of_int)
    moreover have "u8 (word_of_int k) = word_of_int k"
      using 1 assms by (simp add: unsigned_of_int take_bit_int_eq_self)
    ultimately show ?thesis using 1 by (simp add: utf8_encode_def decode_ascii)
  next
    case 2
    define x where "x = k div 64"
    have x: "2 \<le> x" "x < 32" using 2 by (auto simp: x_def)
    moreover have "x * 64 + k mod 64 = k" using digits_sum(1) by (simp add: x_def)
    ultimately show ?thesis
      using 2 decode2 [of "word_of_int (192 + x)" "tail_byte k" bs] uint_lead [of "192 + x"]
      by (simp add: utf8_encode_def utf8_result_def x_def [symmetric] del: of_int_add)
  next
    case 3
    define x where "x = k div 4096"
    have x: "0 \<le> x" "x < 16" using 3 by (auto simp: x_def)
    moreover have "x * 4096 + (k div 64 mod 64 * 64 + k mod 64) = k"
      unfolding x_def by (rule digits_sum)
    ultimately show ?thesis
      using 3 decode3 [of "word_of_int (224 + x)" "tail_byte (k div 64)" "tail_byte k" bs] uint_lead [of "224 + x"]
      by (simp add: utf8_encode_def utf8_result_def x_def [symmetric] del: of_int_add)
  next
    case 4
    define x where "x = k div 262144"
    have x: "0 \<le> x" "x < 5" using 4 assms by (auto simp: x_def)
    then have u: "uint (word_of_int (240 + x) :: byte) = 240 + x" by (intro uint_lead) simp_all
    have k: "x * 262144 + ((k div 4096 mod 64 * 64 + k div 64 mod 64) * 64 + k mod 64) = k"
      unfolding x_def by (rule digits_sum)
    have "240 \<le> uint (word_of_int (240 + x) :: byte)" "uint (word_of_int (240 + x) :: byte) < 248"
      unfolding u using x by simp_all
    from decode4 [OF this, of "tail_byte (k div 4096)" "tail_byte (k div 64)" "tail_byte k" bs]
    have "coutf8_decode (word_of_int (240 + x) # tail_byte (k div 4096) # tail_byte (k div 64) # tail_byte k # bs) =
      utf8_result 4 k 0xFFFF"
      by (simp only: u tail_byte_low6 add_diff_cancel_left' k simp_thms if_True)
    moreover have "utf8_encode k = [word_of_int (240 + x), tail_byte (k div 4096), tail_byte (k div 64), tail_byte k]"
      using 4 by (simp add: utf8_encode_def x_def)
    ultimately show ?thesis using 4 assms by (simp add: utf8_result_def)
  qed
qed

lemma encode2: "0x7F < k \<Longrightarrow> k < 0x800 \<Longrightarrow> utf8_encode k = [word_of_int (0xC0 + k div 64), tail_byte k]"
  by (simp add: utf8_encode_def)

lemma encode3: "0x7FF < k \<Longrightarrow> k < 0x10000 \<Longrightarrow>
  utf8_encode k = [word_of_int (0xE0 + k div 4096), tail_byte (k div 64), tail_byte k]"
  by (simp add: utf8_encode_def)

lemma encode4: "0xFFFF < k \<Longrightarrow> utf8_encode k =
  [word_of_int (0xF0 + k div 262144), tail_byte (k div 4096), tail_byte (k div 64), tail_byte k]"
  by (simp add: utf8_encode_def)

lemma decode_inv:
  assumes "coutf8_decode b = Some (Some (n, w))"
  shows "\<exists>k. 0 \<le> k \<and> k \<le> 0x10FFFF \<and> w = word_of_int k \<and> n = length (utf8_encode k) \<and>
    take n b = utf8_encode k"
proof (cases b)
  case Nil
  with assms show ?thesis by (simp add: coutf8_decode_def read_byte_def)
next
  case (Cons c bs)
  have wc: "word_of_int (uint c) = c" by simp
  consider "uint c < 128" | "128 \<le> uint c" "uint c < 192" | "192 \<le> uint c" "uint c < 224"
    | "224 \<le> uint c" "uint c < 240" | "240 \<le> uint c" "uint c < 248" | "248 \<le> uint c" by linarith
  then show ?thesis
  proof cases
    case 1
    then show ?thesis
      using assms Cons by (intro exI [of _ "uint c"]) (auto simp: decode_ascii utf8_encode_def)
  next
    case 2
    then show ?thesis using assms Cons by (simp add: decode_none)
  next
    case 3
    then obtain t ts where bs: "bs = t # ts" using decode_short [of c bs "(n, w)"] assms Cons by (cases bs) auto
    define k where "k = (uint c - 192) * 64 + low6 t"
    have "coutf8_decode b = (if is_tail t then utf8_result 2 k 0x7F else Some None)"
      using decode2 [OF 3, of t ts] unfolding Cons bs k_def [symmetric] .
    then have r: "is_tail t" "n = 2" "w = word_of_int k" "0x7F < k" "k \<le> 0x10FFFF"
      using assms by (simp_all add: utf8_result_def split: if_splits)
    have "k div 64 = uint c - 192" "k mod 64 = low6 t"
      unfolding k_def by (rule low6_digits)+
    moreover have k: "k < 0x800" using low6_sum [of "uint c - 192" 32 t] 3 unfolding k_def by linarith
    ultimately have "utf8_encode k = [c, t]"
      unfolding encode2 [OF r(4) k] using r(1) wc
      by (simp only: tail_byte_eq add_diff_eq add_diff_cancel_left')
    then show ?thesis
      using r Cons bs by (intro exI [of _ k]) simp
  next
    case 4
    then obtain t u ts where bs: "bs = t # u # ts"
      using decode_short [of c bs "(n, w)"] assms Cons by (cases bs; cases "tl bs") auto
    define k where "k = (uint c - 224) * 4096 + (low6 t * 64 + low6 u)"
    then have kd: "k = ((uint c - 224) * 64 + low6 t) * 64 + low6 u" by simp
    have "coutf8_decode b = (if is_tail t \<and> is_tail u then utf8_result 3 k 0x7FF else Some None)"
      using decode3 [OF 4, of t u ts] unfolding Cons bs k_def [symmetric] .
    then have r: "is_tail t" "is_tail u" "n = 3" "w = word_of_int k" "0x7FF < k" "k \<le> 0x10FFFF"
      using assms by (simp_all add: utf8_result_def split: if_splits)
    have "k div 64 = (uint c - 224) * 64 + low6 t" "k mod 64 = low6 u"
      unfolding kd by (rule low6_digits)+
    then have "k div 4096 = uint c - 224" "k div 64 mod 64 = low6 t" "k mod 64 = low6 u"
      unfolding div_4096 by (simp_all only: low6_digits)
    moreover have k: "k < 0x10000"
      using low6_sum [of "uint c - 224" 16 t] low6_sum [of "(uint c - 224) * 64 + low6 t" 1024 u] 4
      unfolding kd by linarith
    ultimately have "utf8_encode k = [c, t, u]"
      unfolding encode3 [OF r(5) k] using r(1,2) wc
      by (simp only: tail_byte_eq add_diff_eq add_diff_cancel_left')
    then show ?thesis
      using r Cons bs by (intro exI [of _ k]) simp
  next
    case 5
    then obtain t u v ts where bs: "bs = t # u # v # ts"
      using decode_short [of c bs "(n, w)"] assms Cons by (cases bs; cases "tl bs"; cases "tl (tl bs)") auto
    define k where "k = (uint c - 240) * 262144 + ((low6 t * 64 + low6 u) * 64 + low6 v)"
    then have kd: "k = (((uint c - 240) * 64 + low6 t) * 64 + low6 u) * 64 + low6 v" by simp
    have "coutf8_decode b = (if is_tail t \<and> is_tail u \<and> is_tail v then utf8_result 4 k 0xFFFF else Some None)"
      using decode4 [OF 5, of t u v ts] unfolding Cons bs k_def [symmetric] .
    then have r: "is_tail t" "is_tail u" "is_tail v" "n = 4" "w = word_of_int k" "0xFFFF < k" "k \<le> 0x10FFFF"
      using assms by (simp_all add: utf8_result_def split: if_splits)
    have "k div 64 = ((uint c - 240) * 64 + low6 t) * 64 + low6 u" "k mod 64 = low6 v"
      unfolding kd by (rule low6_digits)+
    then have "k div 262144 = uint c - 240" "k div 4096 mod 64 = low6 t" "k div 64 mod 64 = low6 u"
      "k mod 64 = low6 v"
      unfolding div_4096 div_262144 by (simp_all only: low6_digits)
    then have "utf8_encode k = [c, t, u, v]"
      unfolding encode4 [OF r(6)] using r(1-3) wc by (simp only: tail_byte_eq add_diff_eq add_diff_cancel_left')
    then show ?thesis
      using r Cons bs by (intro exI [of _ k]) simp
  next
    case 6
    then show ?thesis using assms Cons decode_long [of c bs "(n, w)"] by simp
  qed
qed

lemma encode_pos: "utf8_encode k \<noteq> []"
  by (simp add: utf8_encode_def)

lemma u8_zero: "u8 b = 0 \<longleftrightarrow> uint b = 0"
  by (rule all_bytes) code_simp

lemma encode_hd:
  assumes "0 < k" "k \<le> 0x10FFFF"
  shows "u8 (hd (utf8_encode k)) \<noteq> 0"
proof -
  have lead: "uint (word_of_int v :: byte) \<noteq> 0" if "0 < v" "v < 256" for v
    using that uint_lead [of v] by simp
  consider "k < 0x80" | "0x80 \<le> k" "k < 0x800" | "0x800 \<le> k" "k < 0x10000" | "0x10000 \<le> k" by linarith
  then show ?thesis
  proof cases
    case 1
    then show ?thesis using lead [of k] assms by (simp add: utf8_encode_def u8_zero)
  next
    case 2
    then have "0 < 0xC0 + k div 64" "0xC0 + k div 64 < 256" by simp_all
    then show ?thesis using lead 2 by (simp add: utf8_encode_def u8_zero del: of_int_add)
  next
    case 3
    then have "0 < 0xE0 + k div 4096" "0xE0 + k div 4096 < 256" by simp_all
    then show ?thesis using lead 3 by (simp add: utf8_encode_def u8_zero del: of_int_add)
  next
    case 4
    then have "0 < 0xF0 + k div 262144" "0xF0 + k div 262144 < 256" using assms by simp_all
    then show ?thesis using lead 4 by (simp add: utf8_encode_def u8_zero del: of_int_add)
  qed
qed

lemma utf8_count_encode:
  assumes "\<forall>c\<in>set cs. 0 < c \<and> c \<le> 0x10FFFF"
  shows "utf8_count (concat (map utf8_encode cs) @ 0 # junk) k = Some (k + length cs)"
  using assms
proof (induction cs arbitrary: k)
  case Nil
  then show ?case by (subst utf8_count.simps) (simp add: read_byte_def)
next
  case (Cons c cs)
  let ?r = "concat (map utf8_encode cs) @ 0 # junk"
  have "read_byte (utf8_encode c @ ?r) 0 = Some (u8 (hd (utf8_encode c)))"
    using encode_pos [of c] by (simp add: read_byte_def nth_append hd_conv_nth)
  moreover have "u8 (hd (utf8_encode c)) \<noteq> 0" using encode_hd [of c] Cons.prems by simp
  moreover have "coutf8_decode (utf8_encode c @ ?r) = Some (Some (length (utf8_encode c), word_of_int c))"
    using decode_encode [of c ?r] Cons.prems by simp
  ultimately have "utf8_count (utf8_encode c @ ?r) k = utf8_count ?r (k + 1)"
    by (subst utf8_count.simps) simp
  then show ?case using Cons by simp
qed

section \<open>Properties\<close>

text \<open>C4: \<open>coutf8_decode\<close> accepts exactly UTF-8: it answers a code point and a length if and only if
  the string starts with the encoding of that code point, of that length, and the code point is
  at most 0x10FFFF.  In particular overlong forms, stray continuation bytes and truncated
  characters are refused (surrogates are not).\<close>
theorem coutf8_decode_iff:
  "coutf8_decode b = Some (Some (n, w)) \<longleftrightarrow>
   (\<exists>k. 0 \<le> k \<and> k \<le> 0x10FFFF \<and> w = word_of_int k \<and> n = length (utf8_encode k) \<and>
     take n b = utf8_encode k)"
proof (intro iffI)
  assume "\<exists>k. 0 \<le> k \<and> k \<le> 0x10FFFF \<and> w = word_of_int k \<and> n = length (utf8_encode k) \<and>
     take n b = utf8_encode k"
  then obtain k where k: "0 \<le> k" "k \<le> 0x10FFFF" "w = word_of_int k" "n = length (utf8_encode k)"
    "take n b = utf8_encode k" by blast
  then have "b = utf8_encode k @ drop n b" by (metis append_take_drop_id)
  with decode_encode [OF k(1,2), of "drop n b"] k(3,4)
  show "coutf8_decode b = Some (Some (n, w))" by simp
qed (rule decode_inv)

text \<open>\<open>coutf8_len\<close> returns the number of code points of a zero-terminated string that holds
  the UTF-8 encoding of non-zero code points, reading nothing past the terminator.\<close>
theorem coutf8_len_encode:
  assumes "\<forall>c\<in>set cs. 0 < c \<and> c \<le> 0x10FFFF"
  shows "coutf8_len (concat (map utf8_encode cs) @ 0 # junk) = Some (length cs)"
  using utf8_count_encode [OF assms, of junk 0] by (simp add: coutf8_len_def)

theorem coutf8_len_encode_witness:
  "coutf8_len (concat (map utf8_encode [0x41, 0x4E2D, 0x1F600]) @ [0]) = Some 3"
  using coutf8_len_encode [of "[0x41, 0x4E2D, 0x1F600]" "[]"] by simp

text \<open>C5: The loop does not bound the number of continuation bytes before the result is shifted: a
  byte 0xFF followed by seven continuation bytes shifts a 32-bit value by 35.\<close>
theorem coutf8_decode_ff_undefined:
  assumes "7 \<le> length bs" "\<forall>i<7. is_tail (bs ! i)"
  shows "coutf8_decode (0xFF # bs) = None"
proof -
  obtain t1 t2 t3 t4 t5 t6 t7 ts where bs: "bs = t1 # t2 # t3 # t4 # t5 # t6 # t7 # ts"
    using assms(1) by (auto simp: numeral_eq_Suc Suc_le_length_iff)
  have "is_tail (bs ! 0)" "is_tail (bs ! 1)" "is_tail (bs ! 2)" "is_tail (bs ! 3)" "is_tail (bs ! 4)"
    "is_tail (bs ! 5)" "is_tail (bs ! 6)" using assms(2) by auto
  then have t: "is_tail t1" "is_tail t2" "is_tail t3" "is_tail t4" "is_tail t5" "is_tail t6" "is_tail t7"
    using bs by simp_all
  have "\<exists>ch res. utf8_cont (0xFF # bs) 0xFF 0 0 = Some (Some (ch, res, 7))"
    using t by (simp add: bs cont_start cont_step cont_stop shl1_def del: of_int_add of_int_mult)
  then show ?thesis by (auto simp: coutf8_decode_def read_byte_def shl32_def)
qed

theorem coutf8_decode_ff_undefined_witness:
  "coutf8_decode (0xFF # replicate 7 0x80) = None"
proof -
  have "\<forall>i<7. is_tail (replicate 7 0x80 ! i)" by (simp add: is_tail_def)
  then show ?thesis using coutf8_decode_ff_undefined [of "replicate 7 0x80"] by simp
qed

end
