(* ===== verification/Utils.thy ===== *)
theory Utils
  imports CPrelude
begin

unbundle bit_operations_syntax

text \<open>
  \<open>src/co_utils.h\<close>: the helper macros on \<open>int\<close>s and the rounding of a size up to a power of
  two, on 32-bit words.
\<close>

definition CO_MIN :: "int \<Rightarrow> int \<Rightarrow> int" where
  "CO_MIN a b = (if a > b then b else a)"

definition CO_MAX :: "int \<Rightarrow> int \<Rightarrow> int" where
  "CO_MAX a b = (if a > b then a else b)"

definition CO_CLAMP :: "int \<Rightarrow> int \<Rightarrow> int \<Rightarrow> int" where
  "CO_CLAMP v mi ma = CO_MAX (CO_MIN v ma) mi"

definition roundup_pow2 :: "32 word \<Rightarrow> 32 word" where
  "roundup_pow2 sz =
     (let sz = sz - 1;
          sz = sz OR drop_bit 1 sz;
          sz = sz OR drop_bit 2 sz;
          sz = sz OR drop_bit 4 sz;
          sz = sz OR drop_bit 8 sz;
          sz = sz OR drop_bit 16 sz
      in sz + 1)"

lemma CO_MIN_min [simp]: "CO_MIN a b = min a b"
  by (simp add: CO_MIN_def)

lemma CO_MAX_max [simp]: "CO_MAX a b = max a b"
  by (simp add: CO_MAX_def)

text \<open>Each step doubles the distance over which a set bit is smeared towards bit 0.\<close>

definition smeared :: "nat \<Rightarrow> 32 word \<Rightarrow> 32 word \<Rightarrow> bool" where
  "smeared k x y \<longleftrightarrow> (\<forall>n. bit y n \<longleftrightarrow> (\<exists>j<k. bit x (n + j)))"

lemma smear_step:
  assumes s: "smeared k x y" and m: "m = k + k"
  shows "smeared m x (y OR drop_bit k y)"
proof -
  have "(\<exists>j<k. bit x (n + j)) \<or> (\<exists>j<k. bit x (n + k + j)) \<longleftrightarrow> (\<exists>j<k + k. bit x (n + j))" for n
  proof
    assume "(\<exists>j<k. bit x (n + j)) \<or> (\<exists>j<k. bit x (n + k + j))"
    then consider j where "j < k" "bit x (n + j)" | j where "j < k" "bit x (n + (k + j))"
      by (auto simp: add.assoc)
    then show "\<exists>j<k + k. bit x (n + j)" by cases (meson trans_less_add1 add_less_cancel_left)+
  next
    assume "\<exists>j<k + k. bit x (n + j)"
    then obtain j where j: "j < k + k" "bit x (n + j)" by blast
    show "(\<exists>j<k. bit x (n + j)) \<or> (\<exists>j<k. bit x (n + k + j))"
    proof (cases "j < k")
      case False
      then have "n + k + (j - k) = n + j" "j - k < k" using j by auto
      then show ?thesis using j(2) by metis
    qed (use j in blast)
  qed
  then show ?thesis using s m by (simp add: smeared_def bit_or_iff bit_drop_bit_eq add.commute add.left_commute)
qed

lemma highest_bit:
  assumes "(x :: 32 word) \<noteq> 0"
  obtains l where "l < 32" "bit x l" "\<And>m. bit x m \<Longrightarrow> m \<le> l"
proof -
  have lt: "m < 32" if "bit x m" for m using bit_imp_le_length [OF that] by simp
  obtain k where "bit x k" 
  proof -
    have "\<exists>k. bit x k"
    proof (rule ccontr)
      assume "\<nexists>k. bit x k"
      then have "x = 0" by (intro bit_word_eqI) simp
      then show False using assms by simp
    qed
    then show ?thesis using that by blast
  qed
  moreover have "\<forall>m. bit x m \<longrightarrow> m < 32" using lt by blast
  ultimately obtain l where "bit x l" "\<forall>m. bit x m \<longrightarrow> m \<le> l"
    using ex_has_greatest_nat [of "bit x" k "\<lambda>m. m" 32] by auto
  then show thesis using that lt by blast
qed

lemma smear_all:
  assumes s: "smeared 32 x y" and "x \<noteq> 0"
  shows "\<exists>l<32. bit x l \<and> (\<forall>m>l. \<not> bit x m) \<and> y = mask (Suc l)"
proof -
  obtain l where l: "l < 32" "bit x l" "\<And>m. bit x m \<Longrightarrow> m \<le> l"
    using highest_bit [OF assms(2)] by blast
  have "bit y n \<longleftrightarrow> n < Suc l" if "n < 32" for n
  proof
    assume "bit y n"
    then obtain j where "bit x (n + j)" using s unfolding smeared_def by blast
    then show "n < Suc l" using l(3) [of "n + j"] by linarith
  next
    assume "n < Suc l"
    then have "n + (l - n) = l" "l - n < 32" using l(1) by auto
    moreover have "bit x (n + (l - n))" using l(2) by (simp only: calculation(1))
    ultimately show "bit y n" using s unfolding smeared_def by blast
  qed
  then have "y = mask (Suc l)" by (intro bit_word_eqI) (simp add: bit_mask_iff)
  moreover have "\<forall>m>l. \<not> bit x m" using l(3) by (meson not_less)
  ultimately show ?thesis using l(1,2) by blast
qed

lemma top_bit:
  fixes x :: "32 word"
  assumes "bit x l" "\<forall>m>l. \<not> bit x m" 
  shows "2 ^ l \<le> uint x \<and> uint x < 2 ^ Suc l"
proof -
  have lt: "l < 32" using bit_imp_le_length [OF assms(1)] by simp
  have "take_bit (Suc l) x = x"
    using assms(2) by (intro bit_eqI) (auto simp: bit_take_bit_iff not_less_eq Suc_le_eq)
  then have "uint x = take_bit (Suc l) (uint x)" by (metis unsigned_take_bit_eq)
  then have "uint x < 2 ^ Suc l" by (metis take_bit_int_less_exp)
  moreover have "2 ^ l \<le> uint x"
  proof (rule ccontr)
    assume "\<not> 2 ^ l \<le> uint x"
    then have "\<not> bit (uint x) l" by (simp add: bit_iff_odd)
    then show False using assms(1) lt by (simp add: bit_uint_iff)
  qed
  ultimately show ?thesis by simp
qed

lemma roundup_pow2_spec:
  assumes "1 < s" "s \<le> 2 ^ 31"
  shows "\<exists>k. k \<le> 31 \<and> 0 < k \<and> roundup_pow2 (word_of_int s) = word_of_int (2 ^ k) \<and> 2 ^ (k - 1) < s \<and> s \<le> 2 ^ k"
proof -
  define x :: "32 word" where "x = word_of_int s - 1"
  have "x = word_of_int (s - 1)" by (simp add: x_def)
  then have ux: "uint x = s - 1" using assms by (simp add: uint_word_of_int del: of_int_diff)
  define y1 where "y1 = x OR drop_bit 1 x"
  define y2 where "y2 = y1 OR drop_bit 2 y1"
  define y3 where "y3 = y2 OR drop_bit 4 y2"
  define y4 where "y4 = y3 OR drop_bit 8 y3"
  define y where "y = y4 OR drop_bit 16 y4"
  have "smeared 1 x x" by (simp add: smeared_def)
  then have "smeared 2 x y1" unfolding y1_def by (rule smear_step) simp
  then have "smeared 4 x y2" unfolding y2_def by (rule smear_step) simp
  then have "smeared 8 x y3" unfolding y3_def by (rule smear_step) simp
  then have "smeared 16 x y4" unfolding y4_def by (rule smear_step) simp
  then have y: "smeared 32 x y" unfolding y_def by (rule smear_step) simp
  have r: "roundup_pow2 (word_of_int s) = y + 1"
    unfolding roundup_pow2_def Let_def x_def [symmetric] y1_def [symmetric] y2_def [symmetric]
      y3_def [symmetric] y4_def [symmetric] y_def [symmetric] ..
  have "x \<noteq> 0" using ux assms(1) by auto
  then obtain l where l: "l < 32" "bit x l" "\<forall>m>l. \<not> bit x m" "y = mask (Suc l)"
    using smear_all [OF y] by blast
  have b: "2 ^ l \<le> s - 1" "s - 1 < 2 ^ Suc l" using top_bit [OF l(2,3)] ux by auto
  have "l \<noteq> 31" using b(1) assms(2) by auto
  moreover have "roundup_pow2 (word_of_int s) = word_of_int (2 ^ Suc l)"
    using r l(4) by (simp add: mask_eq_decr_exp)
  ultimately show ?thesis using b l(1) by (intro exI [of _ "Suc l"]) auto
qed

text \<open>\<open>roundup_pow2\<close> of a size from 1 to 2^31 is the least power of two that is not below it.\<close>
theorem roundup_pow2_least:
  assumes "1 \<le> s" "s \<le> 2 ^ 31"
  shows "\<exists>k. uint (roundup_pow2 (word_of_int s)) = 2 ^ k \<and> s \<le> 2 ^ k \<and> (\<forall>j. s \<le> 2 ^ j \<longrightarrow> k \<le> j)"
proof (cases "s = 1")
  case True
  then show ?thesis by (intro exI [of _ 0]) (simp add: roundup_pow2_def)
next
  case False
  then obtain k where k: "k \<le> 31" "0 < k" "roundup_pow2 (word_of_int s) = word_of_int (2 ^ k)"
    "2 ^ (k - 1) < s" "s \<le> 2 ^ k" using roundup_pow2_spec assms by (metis less_le)
  have "(2::int) ^ k \<le> 2 ^ 31" using k(1) by (intro power_increasing) auto
  then have "uint (roundup_pow2 (word_of_int s)) = 2 ^ k"
    using k(3) by (simp add: uint_word_of_int del: of_int_power)
  moreover have "k \<le> j" if "s \<le> 2 ^ j" for j
  proof -
    have "(2::int) ^ (k - 1) < 2 ^ j" using that k(4) by linarith
    then show ?thesis using k(2) by simp
  qed
  ultimately show ?thesis using k(5) by blast
qed

theorem roundup_pow2_least_witness:
  "\<exists>k. uint (roundup_pow2 (word_of_int 100)) = 2 ^ k \<and> 100 \<le> (2::int) ^ k"
  using roundup_pow2_least [of 100] by auto

end
