(* ===== verification/Buffer.thy ===== *)
theory Buffer
  imports Utils
begin

unbundle bit_operations_syntax

text \<open>
  \<open>src/co_buffer.c\<close>, first part, and the integer half of \<open>src/co_endian.h\<close>: a byte buffer with one
  position for reading and writing, and the typed accessors that convert the byte order.  The
  byte order of the host is the parameter \<open>host\<close> (true for little endian, what
  \<open>is_little_endian\<close> answers); an integer is its bit pattern, so the signed and the unsigned
  accessors of one width are the same function on words.
\<close>

section \<open>Byte order\<close>

definition bytes_le :: "'a::len word \<Rightarrow> byte list" where
  "bytes_le w = map (\<lambda>i. ucast (drop_bit (8 * i) w)) [0..<LENGTH('a) div 8]"

primrec of_le :: "byte list \<Rightarrow> 'a::len word" where
  "of_le [] = 0"
| "of_le (b # bs) = ucast b OR push_bit 8 (of_le bs)"

definition order_bytes :: "bool \<Rightarrow> byte list \<Rightarrow> byte list" where
  "order_bytes little bs = (if little then bs else rev bs)"

text \<open>The representation of an integer object in the memory of the host.\<close>

definition object_bytes :: "bool \<Rightarrow> 'a::len word \<Rightarrow> byte list" where
  "object_bytes host v = order_bytes host (bytes_le v)"

definition of_object :: "bool \<Rightarrow> byte list \<Rightarrow> 'a::len word" where
  "of_object host bs = of_le (order_bytes host bs)"

text \<open>\<open>htole16\<close>, \<open>be32toh\<close> and their kin: swap the bytes, or not.\<close>

definition bswap :: "'a::len word \<Rightarrow> 'a word" where
  "bswap v = of_le (rev (bytes_le v))"

definition htole :: "bool \<Rightarrow> 'a::len word \<Rightarrow> 'a word" where
  "htole host v = (if host then v else bswap v)"

definition htobe :: "bool \<Rightarrow> 'a::len word \<Rightarrow> 'a word" where
  "htobe host v = (if host then bswap v else v)"

definition letoh :: "bool \<Rightarrow> 'a::len word \<Rightarrow> 'a word" where
  "letoh host v = (if host then v else bswap v)"

definition betoh :: "bool \<Rightarrow> 'a::len word \<Rightarrow> 'a word" where
  "betoh host v = (if host then bswap v else v)"

lemma length_bytes_le [simp]: "length (bytes_le (w :: 'a::len word)) = LENGTH('a) div 8"
  by (simp add: bytes_le_def)

lemma length_order_bytes [simp]: "length (order_bytes h bs) = length bs"
  by (simp add: order_bytes_def)

lemma order_bytes_twice [simp]: "order_bytes h (order_bytes h bs) = bs"
  by (simp add: order_bytes_def)

lemma bit_of_le:
  "bit (of_le bs :: 'a::len word) n \<longleftrightarrow> n < LENGTH('a) \<and> n div 8 < length bs \<and> bit (bs ! (n div 8)) (n mod 8)"
proof (induction bs arbitrary: n)
  case (Cons b bs)
  show ?case
  proof (cases "n < 8")
    case True
    then show ?thesis by (auto simp: bit_simps)
  next
    case False
    then obtain m where m: "n = m + 8" by (metis add.commute le_Suc_ex not_less)
    have "\<not> bit b (m + 8)" using bit_imp_le_length [of b "m + 8"] by auto
    moreover have "(m + 8) div 8 = Suc (m div 8)" by simp
    ultimately show ?thesis using Cons [of m] by (auto simp: m bit_simps simp del: div_add_self2)
  qed
qed simp

lemma of_le_bytes_le:
  assumes "8 dvd LENGTH('a)"
  shows "of_le (bytes_le w) = (w :: 'a::len word)"
proof (rule bit_word_eqI)
  fix n assume n: "n < LENGTH('a)"
  obtain k where k: "LENGTH('a) = 8 * k" using assms by blast
  then have "n div 8 < k" using n by (simp add: div_less_iff_less_mult mult.commute)
  then show "bit (of_le (bytes_le w) :: 'a word) n = bit w n"
    using n k by (simp add: bit_of_le bytes_le_def bit_simps)
qed

lemma bytes_le_of_le:
  assumes "LENGTH('a) = 8 * length bs"
  shows "bytes_le (of_le bs :: 'a::len word) = bs"
proof (rule nth_equalityI)
  show "length (bytes_le (of_le bs :: 'a word)) = length bs" using assms by simp
  fix i assume "i < length (bytes_le (of_le bs :: 'a word))"
  then have i: "i < length bs" using assms by simp
  show "bytes_le (of_le bs :: 'a word) ! i = bs ! i"
  proof (rule bit_word_eqI)
    fix n assume n: "n < LENGTH(8)"
    have "8 * i + n < LENGTH('a)" "(8 * i + n) div 8 = i" "(8 * i + n) mod 8 = n" using assms i n by auto
    then show "bit (bytes_le (of_le bs :: 'a word) ! i) n = bit (bs ! i) n"
      using i n assms by (simp add: bytes_le_def bit_simps bit_of_le)
  qed
qed

lemma bytes_le_bswap: "8 dvd LENGTH('a) \<Longrightarrow> bytes_le (bswap (v :: 'a::len word)) = rev (bytes_le v)"
  unfolding bswap_def by (rule bytes_le_of_le) simp

text \<open>What goes over the wire does not depend on the host.\<close>

lemma object_bytes_htole: "8 dvd LENGTH('a) \<Longrightarrow> object_bytes host (htole host (v :: 'a::len word)) = bytes_le v"
  by (simp add: object_bytes_def htole_def order_bytes_def bytes_le_bswap)

lemma object_bytes_htobe: "8 dvd LENGTH('a) \<Longrightarrow> object_bytes host (htobe host (v :: 'a::len word)) = rev (bytes_le v)"
  by (simp add: object_bytes_def htobe_def order_bytes_def bytes_le_bswap)

lemma of_object_bytes: "8 dvd LENGTH('a) \<Longrightarrow> of_object host (object_bytes host v) = (v :: 'a::len word)"
  by (simp add: of_object_def object_bytes_def of_le_bytes_le)

lemma bswap_bswap: "8 dvd LENGTH('a) \<Longrightarrow> bswap (bswap (v :: 'a::len word)) = v"
  by (simp add: bswap_def [of "bswap v"] bytes_le_bswap of_le_bytes_le)

section \<open>Operations\<close>

datatype cb_endian = CB_EN_NATIVE | CB_EN_LITTLE | CB_EN_BIG

record cobuffer =
  cb_buffer :: "cell list"
  cb_size :: int
  cb_pos :: int
  cb_endian :: cb_endian

definition MIN_BUFF_SIZE :: int where
  "MIN_BUFF_SIZE = 32"

definition wb_check_and_grow :: "cobuffer \<Rightarrow> int \<Rightarrow> cobuffer exec" where
  "wb_check_and_grow bf n = do {
     e \<leftarrow> i32 (cb_pos bf + n);
     if e > cb_size bf then do {
       d \<leftarrow> i32 (cb_size bf * 2);
       let newsize = CO_MAX e d;
       Some (bf\<lparr>cb_buffer := c_realloc (cb_buffer bf) newsize, cb_size := newsize\<rparr>)
     } else Some bf
   }"

text \<open>The source may be a null pointer: then the position moves over bytes that are not written.\<close>

definition cobuffer_write :: "cobuffer \<Rightarrow> cell list option \<Rightarrow> int \<Rightarrow> cobuffer exec" where
  "cobuffer_write bf src n = do {
     bf \<leftarrow> wb_check_and_grow bf n;
     b \<leftarrow> (case src of
            None \<Rightarrow> Some (cb_buffer bf)
          | Some s \<Rightarrow> do { bs \<leftarrow> mem_load s 0 n; mem_store (cb_buffer bf) (cb_pos bf) bs });
     p \<leftarrow> i32 (cb_pos bf + n);
     Some (bf\<lparr>cb_buffer := b, cb_pos := p\<rparr>)
   }"

definition cobuffer_new :: "cell list option \<Rightarrow> int \<Rightarrow> cb_endian \<Rightarrow> cobuffer exec" where
  "cobuffer_new src bufsz en = (
     let n = CO_MAX bufsz MIN_BUFF_SIZE;
         bf = \<lparr>cb_buffer = c_malloc n, cb_size = n, cb_pos = 0, cb_endian = en\<rparr>
     in if src \<noteq> None \<and> bufsz \<noteq> 0 then cobuffer_write bf src bufsz else Some bf)"

definition cobuffer_seek :: "cobuffer \<Rightarrow> bool \<Rightarrow> int \<Rightarrow> cobuffer exec" where
  "cobuffer_seek bf absolute p = do {
     p \<leftarrow> (if \<not> absolute then i32 (p + cb_pos bf)
           else if p < 0 then i32 (cb_size bf - p)
           else Some p);
     Some (bf\<lparr>cb_pos := CO_CLAMP p 0 (cb_size bf - 1)\<rparr>)
   }"

definition cobuffer_read :: "cobuffer \<Rightarrow> int \<Rightarrow> (cell list option \<times> cobuffer) exec" where
  "cobuffer_read bf n = do {
     e \<leftarrow> i32 (cb_pos bf + n);
     if e \<le> cb_size bf then do {
       bs \<leftarrow> mem_load (cb_buffer bf) (cb_pos bf) n;
       Some (Some bs, bf\<lparr>cb_pos := e\<rparr>)
     } else Some (None, bf)
   }"

definition cobuffer_free :: "cobuffer \<Rightarrow> cobuffer option" where
  "cobuffer_free bf = None"

text \<open>
  The typed accessors.  A read answers no value when \<open>*succ\<close> is false (the C function then returns
  an indeterminate one); using a byte that was never written is undefined.
\<close>

definition write_word :: "bool \<Rightarrow> cobuffer \<Rightarrow> 'a::len word \<Rightarrow> cobuffer exec" where
  "write_word host bf v = (
     let v = (if cb_endian bf = CB_EN_LITTLE then htole host v
              else if cb_endian bf = CB_EN_BIG then htobe host v
              else v)
     in cobuffer_write bf (Some (map Some (object_bytes host v))) (int (LENGTH('a) div 8)))"

definition read_word :: "bool \<Rightarrow> cobuffer \<Rightarrow> ('a::len word option \<times> cobuffer) exec" where
  "read_word host bf = do {
     (r, bf') \<leftarrow> cobuffer_read bf (int (LENGTH('a) div 8));
     case r of
       None \<Rightarrow> Some (None, bf')
     | Some cs \<Rightarrow> do {
         bs \<leftarrow> those cs;
         let v = of_object host bs;
         Some (Some (if cb_endian bf = CB_EN_LITTLE then letoh host v
                     else if cb_endian bf = CB_EN_BIG then betoh host v
                     else v), bf')
       }
   }"

text \<open>The one-byte accessors copy the byte.\<close>

definition cobuffer_write_int8 :: "cobuffer \<Rightarrow> 8 word \<Rightarrow> cobuffer exec" where
  "cobuffer_write_int8 bf v = cobuffer_write bf (Some [Some v]) 1"

definition cobuffer_write_uint8 :: "cobuffer \<Rightarrow> 8 word \<Rightarrow> cobuffer exec" where
  "cobuffer_write_uint8 bf v = cobuffer_write bf (Some [Some v]) 1"

definition read_byte8 :: "cobuffer \<Rightarrow> (8 word option \<times> cobuffer) exec" where
  "read_byte8 bf = do {
     (r, bf) \<leftarrow> cobuffer_read bf 1;
     case r of None \<Rightarrow> Some (None, bf) | Some cs \<Rightarrow> do { v \<leftarrow> hd cs; Some (Some v, bf) }
   }"

definition cobuffer_read_int8 :: "cobuffer \<Rightarrow> (8 word option \<times> cobuffer) exec" where
  "cobuffer_read_int8 = read_byte8"

definition cobuffer_read_uint8 :: "cobuffer \<Rightarrow> (8 word option \<times> cobuffer) exec" where
  "cobuffer_read_uint8 = read_byte8"

definition cobuffer_write_int16 :: "bool \<Rightarrow> cobuffer \<Rightarrow> 16 word \<Rightarrow> cobuffer exec" where
  "cobuffer_write_int16 = write_word"

definition cobuffer_write_uint16 :: "bool \<Rightarrow> cobuffer \<Rightarrow> 16 word \<Rightarrow> cobuffer exec" where
  "cobuffer_write_uint16 = write_word"

definition cobuffer_write_int32 :: "bool \<Rightarrow> cobuffer \<Rightarrow> 32 word \<Rightarrow> cobuffer exec" where
  "cobuffer_write_int32 = write_word"

definition cobuffer_write_uint32 :: "bool \<Rightarrow> cobuffer \<Rightarrow> 32 word \<Rightarrow> cobuffer exec" where
  "cobuffer_write_uint32 = write_word"

definition cobuffer_write_int64 :: "bool \<Rightarrow> cobuffer \<Rightarrow> 64 word \<Rightarrow> cobuffer exec" where
  "cobuffer_write_int64 = write_word"

definition cobuffer_write_uint64 :: "bool \<Rightarrow> cobuffer \<Rightarrow> 64 word \<Rightarrow> cobuffer exec" where
  "cobuffer_write_uint64 = write_word"

definition cobuffer_read_int16 :: "bool \<Rightarrow> cobuffer \<Rightarrow> (16 word option \<times> cobuffer) exec" where
  "cobuffer_read_int16 = read_word"

definition cobuffer_read_uint16 :: "bool \<Rightarrow> cobuffer \<Rightarrow> (16 word option \<times> cobuffer) exec" where
  "cobuffer_read_uint16 = read_word"

definition cobuffer_read_int32 :: "bool \<Rightarrow> cobuffer \<Rightarrow> (32 word option \<times> cobuffer) exec" where
  "cobuffer_read_int32 = read_word"

definition cobuffer_read_uint32 :: "bool \<Rightarrow> cobuffer \<Rightarrow> (32 word option \<times> cobuffer) exec" where
  "cobuffer_read_uint32 = read_word"

definition cobuffer_read_int64 :: "bool \<Rightarrow> cobuffer \<Rightarrow> (64 word option \<times> cobuffer) exec" where
  "cobuffer_read_int64 = read_word"

definition cobuffer_read_uint64 :: "bool \<Rightarrow> cobuffer \<Rightarrow> (64 word option \<times> cobuffer) exec" where
  "cobuffer_read_uint64 = read_word"


section \<open>Invariant and behaviour\<close>

definition bf_ok :: "cobuffer \<Rightarrow> bool" where
  "bf_ok bf \<longleftrightarrow> int (length (cb_buffer bf)) = cb_size bf \<and> 0 < cb_size bf \<and>
     0 \<le> cb_pos bf \<and> cb_pos bf \<le> cb_size bf"

text \<open>Enough address space to write \<open>n\<close> bytes: the buffer at most doubles.\<close>

definition bf_room :: "int \<Rightarrow> cobuffer \<Rightarrow> bool" where
  "bf_room n bf \<longleftrightarrow> cb_pos bf + n < 2 ^ 31 \<and> cb_size bf < 2 ^ 30"

lemma wb_grow_spec:
  assumes "bf_ok bf" "bf_room n bf" "0 \<le> n"
  shows "\<exists>k. wb_check_and_grow bf n =
      Some (bf\<lparr>cb_buffer := cb_buffer bf @ replicate k None, cb_size := cb_size bf + int k\<rparr>) \<and>
    cb_pos bf + n \<le> cb_size bf + int k"
proof -
  have e: "i32 (cb_pos bf + n) = Some (cb_pos bf + n)" "i32 (cb_size bf * 2) = Some (cb_size bf * 2)"
    using assms by (auto simp: bf_ok_def bf_room_def intro!: i32_in)
  show ?thesis
  proof (cases "cb_pos bf + n > cb_size bf")
    case True
    let ?m = "max (cb_pos bf + n) (cb_size bf * 2)"
    have "cb_size bf \<le> ?m" using assms(1) by (auto simp: bf_ok_def)
    moreover have "nat (?m - cb_size bf) = nat ?m - length (cb_buffer bf)"
      "length (cb_buffer bf) \<le> nat ?m" using assms(1) calculation by (auto simp: bf_ok_def)
    ultimately show ?thesis
      using e True assms(1) by (intro exI [of _ "nat (?m - cb_size bf)"])
        (simp add: wb_check_and_grow_def c_realloc_def Let_def bf_ok_def)
  next
    case False
    then show ?thesis using e by (intro exI [of _ 0]) (simp add: wb_check_and_grow_def)
  qed
qed

lemma cobuffer_write_spec:
  assumes ok: "bf_ok bf" and room: "bf_room (int (length s)) bf"
  shows "\<exists>k bf'. cobuffer_write bf (Some s) (int (length s)) = Some bf' \<and> bf_ok bf' \<and>
    cb_pos bf' = cb_pos bf + int (length s) \<and> cb_endian bf' = cb_endian bf \<and>
    cb_buffer bf' = take (nat (cb_pos bf)) (cb_buffer bf) @ s @
      drop (nat (cb_pos bf) + length s) (cb_buffer bf @ replicate k None)"
proof -
  let ?n = "int (length s)"
  obtain k where k: "wb_check_and_grow bf ?n =
      Some (bf\<lparr>cb_buffer := cb_buffer bf @ replicate k None, cb_size := cb_size bf + int k\<rparr>)"
    "cb_pos bf + ?n \<le> cb_size bf + int k"
    using wb_grow_spec [OF assms] by auto
  let ?b = "cb_buffer bf @ replicate k None"
  have p: "cb_pos bf = int (nat (cb_pos bf))" "nat (cb_pos bf) \<le> length (cb_buffer bf)"
    "nat (cb_pos bf) + length s \<le> length ?b"
    using ok k(2) by (auto simp: bf_ok_def)
  have "mem_store ?b (cb_pos bf) s = Some (take (nat (cb_pos bf)) ?b @ s @ drop (nat (cb_pos bf) + length s) ?b)"
    using mem_store_nat [OF p(3)] p(1) by simp
  moreover have "mem_load s 0 ?n = Some s" by (simp add: mem_load_def)
  moreover have "i32 (cb_pos bf + ?n) = Some (cb_pos bf + ?n)"
    using ok room by (intro i32_in) (auto simp: bf_ok_def bf_room_def)
  moreover have "take (nat (cb_pos bf)) ?b = take (nat (cb_pos bf)) (cb_buffer bf)" using p(2) by simp
  ultimately show ?thesis
    using k p ok by (intro exI [of _ k] exI)
      (auto simp: cobuffer_write_def bf_ok_def min_def of_nat_diff)
qed

lemma cobuffer_read_spec:
  assumes "bf_ok bf" "0 \<le> n" "cb_pos bf + n < 2 ^ 31"
  shows "cobuffer_read bf n = Some
    (if cb_pos bf + n \<le> cb_size bf
     then (Some (take (nat n) (drop (nat (cb_pos bf)) (cb_buffer bf))), bf\<lparr>cb_pos := cb_pos bf + n\<rparr>)
     else (None, bf))"
proof -
  have "i32 (cb_pos bf + n) = Some (cb_pos bf + n)"
    using assms by (intro i32_in) (auto simp: bf_ok_def)
  then show ?thesis using assms by (simp add: cobuffer_read_def mem_load_def bf_ok_def)
qed

text \<open>The bytes an integer becomes in the buffer, for each byte order of the buffer.\<close>

definition wire_bytes :: "bool \<Rightarrow> cb_endian \<Rightarrow> 'a::len word \<Rightarrow> byte list" where
  "wire_bytes host en v = (case en of CB_EN_NATIVE \<Rightarrow> object_bytes host v
     | CB_EN_LITTLE \<Rightarrow> bytes_le v | CB_EN_BIG \<Rightarrow> rev (bytes_le v))"

lemma length_wire_bytes [simp]: "length (wire_bytes host en (v :: 'a::len word)) = LENGTH('a) div 8"
  by (simp add: wire_bytes_def object_bytes_def split: cb_endian.split)

lemma write_word_wire:
  assumes "8 dvd LENGTH('a)"
  shows "write_word host bf (v :: 'a::len word) =
    cobuffer_write bf (Some (map Some (wire_bytes host (cb_endian bf) v))) (int (LENGTH('a) div 8))"
  using assms
  by (cases "cb_endian bf") (simp_all add: write_word_def wire_bytes_def object_bytes_htole object_bytes_htobe)

lemma those_map_Some [simp]: "those (map Some xs) = Some xs"
  by (induction xs) auto

lemma read_word_wire:
  fixes v :: "'a::len word"
  assumes "8 dvd LENGTH('a)" and r: "cobuffer_read bf (int (LENGTH('a) div 8)) =
      Some (Some (map Some (wire_bytes host (cb_endian bf) v)), bf')"
  shows "read_word host bf = Some (Some v, bf')"
proof -
  have "of_object host (wire_bytes host CB_EN_LITTLE v) = htole host v"
    "of_object host (wire_bytes host CB_EN_BIG v) = htobe host v"
    "of_object host (wire_bytes host CB_EN_NATIVE v) = v"
    unfolding wire_bytes_def using assms(1) of_object_bytes [of host v]
    by (simp_all add: of_object_def order_bytes_def htole_def htobe_def of_le_bytes_le bswap_def)
  then show ?thesis
    using assms(1) by (cases "cb_endian bf")
      (simp_all add: read_word_def r letoh_def betoh_def htole_def htobe_def bswap_bswap)
qed

text \<open>Writing an integer and reading it back from the same position.\<close>

definition word_roundtrips :: "bool \<Rightarrow> (bool \<Rightarrow> cobuffer \<Rightarrow> 'a::len word \<Rightarrow> cobuffer exec) \<Rightarrow>
    (bool \<Rightarrow> cobuffer \<Rightarrow> ('a word option \<times> cobuffer) exec) \<Rightarrow> cobuffer \<Rightarrow> 'a word \<Rightarrow> bool" where
  "word_roundtrips host put get bf v \<longleftrightarrow>
    (\<exists>bf1 bf2. put host bf v = Some bf1 \<and> bf_ok bf1 \<and>
       take (LENGTH('a) div 8) (drop (nat (cb_pos bf)) (cb_buffer bf1)) =
         map Some (wire_bytes host (cb_endian bf) v) \<and>
       cobuffer_seek bf1 True (cb_pos bf) = Some bf2 \<and>
       get host bf2 = Some (Some v, bf1))"

lemma word_roundtrip:
  fixes v :: "'a::len word"
  assumes len: "8 dvd LENGTH('a)" and ok: "bf_ok bf" and room: "bf_room (int (LENGTH('a) div 8)) bf"
  shows "word_roundtrips host write_word read_word bf v"
proof -
  let ?s = "map Some (wire_bytes host (cb_endian bf) v)" and ?n = "int (LENGTH('a) div 8)"
  have n: "0 < ?n"
  proof -
    obtain m where m: "LENGTH('a) = 8 * m" using len by blast
    have "0 < LENGTH('a)" by (rule len_gt_0)
    then show ?thesis unfolding m by simp
  qed
  obtain k bf1 where w: "cobuffer_write bf (Some ?s) ?n = Some bf1" "bf_ok bf1"
    "cb_pos bf1 = cb_pos bf + ?n" "cb_endian bf1 = cb_endian bf"
    "cb_buffer bf1 = take (nat (cb_pos bf)) (cb_buffer bf) @ ?s @
      drop (nat (cb_pos bf) + length ?s) (cb_buffer bf @ replicate k None)"
    using cobuffer_write_spec [OF ok, of ?s] room by auto
  let ?bf2 = "bf1\<lparr>cb_pos := cb_pos bf\<rparr>"
  have le: "cb_pos bf + ?n \<le> cb_size bf1" using w(2,3) by (simp add: bf_ok_def)
  have p: "0 \<le> cb_pos bf" "nat (cb_pos bf) \<le> length (cb_buffer bf)" using ok by (auto simp: bf_ok_def)
  have s: "take (LENGTH('a) div 8) (drop (nat (cb_pos bf)) (cb_buffer bf1)) = ?s"
    using w(5) p by simp
  have seek: "cobuffer_seek bf1 True (cb_pos bf) = Some ?bf2"
    using p le n by (simp add: cobuffer_seek_def CO_CLAMP_def)
  have "bf_ok ?bf2" using w(2) p le n by (simp add: bf_ok_def)
  moreover have "cb_pos ?bf2 + ?n < 2 ^ 31" using room by (simp add: bf_room_def)
  ultimately have "cobuffer_read ?bf2 ?n = Some (Some ?s, bf1)"
    using cobuffer_read_spec [of ?bf2 ?n] le s n w(3) by simp
  then have "read_word host ?bf2 = Some (Some v, bf1)"
    using read_word_wire [OF len] w(4) by simp
  then show ?thesis
    using w(1,2) s seek unfolding word_roundtrips_def write_word_wire [OF len] by blast
qed

lemmas int_accessors =
  cobuffer_write_int16_def cobuffer_write_int32_def cobuffer_write_int64_def
  cobuffer_write_uint16_def cobuffer_write_uint32_def cobuffer_write_uint64_def
  cobuffer_read_int16_def cobuffer_read_int32_def cobuffer_read_int64_def
  cobuffer_read_uint16_def cobuffer_read_uint32_def cobuffer_read_uint64_def

section \<open>Properties\<close>



text \<open>An absolute seek to a negative position does not count from the end: it always moves to the
  last byte, whatever the position, because the code subtracts the negative number.\<close>
theorem cobuffer_seek_negative:
  assumes "bf_ok bf" "p < 0" "cb_size bf - p < 2 ^ 31"
  shows "cobuffer_seek bf True p = Some (bf\<lparr>cb_pos := cb_size bf - 1\<rparr>)"
proof -
  have "i32 (cb_size bf - p) = Some (cb_size bf - p)"
    using assms by (intro i32_in) (auto simp: bf_ok_def)
  then show ?thesis using assms by (simp add: cobuffer_seek_def CO_CLAMP_def bf_ok_def)
qed

theorem cobuffer_seek_negative_witness:
  "cobuffer_seek \<lparr>cb_buffer = c_malloc 32, cb_size = 32, cb_pos = 0, cb_endian = CB_EN_NATIVE\<rparr> True (- 10) =
   Some \<lparr>cb_buffer = c_malloc 32, cb_size = 32, cb_pos = 31, cb_endian = CB_EN_NATIVE\<rparr>"
  using cobuffer_seek_negative
    [of "\<lparr>cb_buffer = c_malloc 32, cb_size = 32, cb_pos = 0, cb_endian = CB_EN_NATIVE\<rparr>" "- 10"]
  by (simp add: bf_ok_def)

end
