(* ===== verification/RingBuf.thy ===== *)
theory RingBuf
  imports Ring Utils
begin

text \<open>
  \<open>src/co_buffer.c\<close>, second part: the growing ring buffer of bytes that stands between a producer
  and a consumer (the socket buffers of \<open>src/co_ioservice.c\<close>).  Reads and writes copy blocks, in
  two parts when they pass the end of the array.
\<close>

section \<open>Operations\<close>

record coringbuf =
  rb_buffer :: "cell list"
  rb_size :: int
  rb_head :: int
  rb_tail :: int

definition coringbuf_new :: "int \<Rightarrow> coringbuf" where
  "coringbuf_new initsize =
     \<lparr>rb_buffer = c_malloc initsize, rb_size = initsize, rb_head = 0, rb_tail = 0\<rparr>"

definition coringbuf_free :: "coringbuf \<Rightarrow> coringbuf option" where
  "coringbuf_free rb = None"

definition coringbuf_head :: "coringbuf \<Rightarrow> int" where
  "coringbuf_head rb = rb_head rb"

definition coringbuf_readable_size :: "coringbuf \<Rightarrow> int" where
  "coringbuf_readable_size rb =
     (if rb_tail rb \<ge> rb_head rb then rb_tail rb - rb_head rb
      else rb_size rb - (rb_head rb - rb_tail rb))"

definition coringbuf_readonce_size :: "coringbuf \<Rightarrow> int" where
  "coringbuf_readonce_size rb =
     (if rb_tail rb \<ge> rb_head rb then rb_tail rb - rb_head rb
      else rb_size rb - rb_head rb)"

text \<open>\<open>(i + n) % size\<close>: undefined when the sum overflows or the size is zero.\<close>

definition rb_advance :: "coringbuf \<Rightarrow> int \<Rightarrow> int \<Rightarrow> int exec" where
  "rb_advance rb i n = do {
     s \<leftarrow> i32 (i + n);
     if rb_size rb = 0 then None else Some (s mod rb_size rb)
   }"

definition coringbuf_read :: "coringbuf \<Rightarrow> int \<Rightarrow> (cell list \<times> coringbuf) exec" where
  "coringbuf_read rb n = do {
     let readable = coringbuf_readable_size rb;
     let n = (if readable \<ge> n then n else readable);
     let readonce = coringbuf_readonce_size rb;
     let len = CO_MIN n readonce;
     a \<leftarrow> mem_load (rb_buffer rb) (rb_head rb) len;
     b \<leftarrow> (if n > len then mem_load (rb_buffer rb) 0 (n - len) else Some []);
     h \<leftarrow> rb_advance rb (rb_head rb) n;
     Some (a @ b, rb\<lparr>rb_head := h\<rparr>)
   }"

definition cb_check_and_grow :: "coringbuf \<Rightarrow> int \<Rightarrow> coringbuf exec" where
  "cb_check_and_grow rb n = do {
     let readable = coringbuf_readable_size rb;
     let writable = rb_size rb - readable;
     if writable \<le> n then do {
       d \<leftarrow> i32 (rb_size rb * 2);
       e \<leftarrow> i32 (readable + n + 1);
       let newsize = CO_MAX d e;
       let buffer = c_realloc (rb_buffer rb) newsize;
       if rb_tail rb < rb_head rb then do {
         let readonce = coringbuf_readonce_size rb;
         buffer \<leftarrow> mem_move buffer (newsize - readonce) (rb_head rb) readonce;
         Some (rb\<lparr>rb_buffer := buffer, rb_head := newsize - readonce, rb_size := newsize\<rparr>)
       } else Some (rb\<lparr>rb_buffer := buffer, rb_size := newsize\<rparr>)
     } else Some rb
   }"

definition coringbuf_write :: "coringbuf \<Rightarrow> cell list \<Rightarrow> int \<Rightarrow> coringbuf exec" where
  "coringbuf_write rb src n = do {
     rb \<leftarrow> cb_check_and_grow rb n;
     let len = CO_MIN n (rb_size rb - rb_tail rb);
     a \<leftarrow> mem_load src 0 len;
     buffer \<leftarrow> mem_store (rb_buffer rb) (rb_tail rb) a;
     buffer \<leftarrow> (if n > len then do { b \<leftarrow> mem_load src len (n - len); mem_store buffer 0 b }
               else Some buffer);
     t \<leftarrow> rb_advance rb (rb_tail rb) n;
     Some (rb\<lparr>rb_buffer := buffer, rb_tail := t\<rparr>)
   }"

definition coringbuf_consume_size :: "coringbuf \<Rightarrow> int \<Rightarrow> (bool \<times> coringbuf) exec" where
  "coringbuf_consume_size rb n = do {
     let readable = coringbuf_readable_size rb;
     if readable \<ge> n then do {
       h \<leftarrow> rb_advance rb (rb_head rb) n;
       Some (True, rb\<lparr>rb_head := h\<rparr>)
     } else Some (False, rb)
   }"

section \<open>Invariant and contents\<close>

definition rb_content :: "coringbuf \<Rightarrow> cell list" where
  "rb_content rb = ring (nat (rb_head rb)) (nat (rb_tail rb)) (rb_buffer rb)"

definition rb_ok :: "coringbuf \<Rightarrow> bool" where
  "rb_ok rb \<longleftrightarrow> int (length (rb_buffer rb)) = rb_size rb \<and> rb_size rb \<le> 2 ^ 30 \<and>
     0 \<le> rb_head rb \<and> rb_head rb < rb_size rb \<and> 0 \<le> rb_tail rb \<and> rb_tail rb < rb_size rb"

text \<open>Enough address space for \<open>n\<close> more bytes: the array at most doubles when it is full.\<close>

definition rb_room :: "nat \<Rightarrow> coringbuf \<Rightarrow> bool" where
  "rb_room n rb \<longleftrightarrow> 2 * (length (rb_content rb) + n) + 1 \<le> 2 ^ 30"

definition mk_rb :: "cell list \<Rightarrow> nat \<Rightarrow> nat \<Rightarrow> coringbuf" where
  "mk_rb xs h t = \<lparr>rb_buffer = xs, rb_size = int (length xs), rb_head = int h, rb_tail = int t\<rparr>"

lemma mk_rb_simps [simp]:
  "rb_buffer (mk_rb xs h t) = xs" "rb_size (mk_rb xs h t) = int (length xs)"
  "rb_head (mk_rb xs h t) = int h" "rb_tail (mk_rb xs h t) = int t"
  "rb_content (mk_rb xs h t) = ring h t xs"
  "rb_ok (mk_rb xs h t) \<longleftrightarrow> length xs \<le> 2 ^ 30 \<and> h < length xs \<and> t < length xs"
  "mk_rb xs h t\<lparr>rb_head := int h'\<rparr> = mk_rb xs h' t"
  "mk_rb xs h t\<lparr>rb_tail := int t'\<rparr> = mk_rb xs h t'"
  by (auto simp: mk_rb_def rb_content_def rb_ok_def)

lemma rb_okE:
  assumes "rb_ok rb"
  obtains xs h t where "rb = mk_rb xs h t" "length xs \<le> 2 ^ 30" "h < length xs" "t < length xs"
proof
  show "rb = mk_rb (rb_buffer rb) (nat (rb_head rb)) (nat (rb_tail rb))"
    using assms by (cases rb) (simp add: mk_rb_def rb_ok_def)
qed (use assms in \<open>auto simp: rb_ok_def\<close>)

lemma readable_ring:
  "h < length xs \<Longrightarrow> t < length xs \<Longrightarrow> coringbuf_readable_size (mk_rb xs h t) = int (length (ring h t xs))"
  by (auto simp: coringbuf_readable_size_def length_ring)

lemma readonce_ring:
  "h < length xs \<Longrightarrow> coringbuf_readonce_size (mk_rb xs h t) = int (if h \<le> t then t - h else length xs - h)"
  by (auto simp: coringbuf_readonce_size_def)

lemma rb_advance_mod:
  assumes "length xs \<le> 2 ^ 30" "i < length xs" "n < 2 ^ 30"
  shows "rb_advance (mk_rb xs h t) (int i) (int n) = Some (int ((i + n) mod length xs))"
proof -
  have "i32 (int i + int n) = Some (int i + int n)" using assms by (intro i32_in) auto
  then show ?thesis using assms by (auto simp: rb_advance_def zmod_int)
qed

text \<open>The two copies of a read deliver a prefix of the contents.\<close>

lemma ring_take_parts:
  assumes "h < length xs" "t < length xs" "k \<le> length (ring h t xs)"
    and l: "l = (if h \<le> t then t - h else length xs - h)"
  shows "take k (ring h t xs) = take (min k l) (drop h xs) @ take (k - l) xs"
proof (cases "h \<le> t")
  case True
  then have "k \<le> t - h" using assms by (simp add: length_ring)
  with True l show ?thesis by (simp add: ring_def min_absorb1)
next
  case False
  then have "k \<le> length xs - (h - t)" using assms by (simp add: length_ring)
  then have "k - (length xs - h) \<le> t" using False assms by linarith
  with False l show ?thesis by (simp add: ring_def min_def)
qed

lemma read_ring:
  assumes b: "length xs \<le> 2 ^ 30" "h < length xs" "t < length xs" and n: "0 \<le> n"
    and k: "k = min (nat n) (length (ring h t xs))"
  shows "coringbuf_read (mk_rb xs h t) n =
    Some (take k (ring h t xs), mk_rb xs ((h + k) mod length xs) t)"
proof -
  define l where "l = (if h \<le> t then t - h else length xs - h)"
  have k': "k \<le> length (ring h t xs)" "k < length xs" "k < 2 ^ 30"
    using ring_less [OF b(2,3)] k b(1) by auto
  have n': "(if coringbuf_readable_size (mk_rb xs h t) \<ge> n then n
     else coringbuf_readable_size (mk_rb xs h t)) = int k"
    using n by (auto simp: readable_ring b k min_def)
  have l: "h + l \<le> length xs" using b by (auto simp: l_def)
  have a: "mem_load xs (int h) (int (min k l)) = Some (take (min k l) (drop h xs))"
    using l by (intro mem_load_nat) (auto simp: min_def)
  have c: "(if int k > int (min k l) then mem_load xs 0 (int k - int (min k l)) else Some []) =
    Some (take (k - l) xs)"
    using mem_load_nat [of 0 "k - l" xs] k'(2) by (auto simp: min_def of_nat_diff)
  have m: "CO_MIN (int k) (int l) = int (min k l)" by simp
  show ?thesis
    unfolding coringbuf_read_def Let_def n' readonce_ring [OF b(2)] l_def [symmetric] m mk_rb_simps a c
      rb_advance_mod [OF b(1,2) k'(3)] ring_take_parts [OF b(2,3) k'(1) l_def]
    by simp
qed

lemma coringbuf_read_spec:
  assumes ok: "rb_ok rb" and n: "0 \<le> n"
  shows "\<exists>rb'. coringbuf_read rb n = Some (take (nat n) (rb_content rb), rb') \<and> rb_ok rb' \<and>
    rb_content rb' = drop (nat n) (rb_content rb)"
proof -
  obtain xs h t where rb: "rb = mk_rb xs h t" and b: "length xs \<le> 2 ^ 30" "h < length xs" "t < length xs"
    using ok by (rule rb_okE)
  define k where "k = min (nat n) (length (ring h t xs))"
  have m: "(h + k) mod length xs < length xs" using b(2) by (intro mod_less_divisor) linarith
  have "take k (ring h t xs) = take (nat n) (ring h t xs)" "drop k (ring h t xs) = drop (nat n) (ring h t xs)"
    by (auto simp: k_def min_def)
  then show ?thesis
    using read_ring [OF b n k_def] b m ring_take_drop [OF b(2,3), of k]
    by (simp add: rb k_def)
qed

lemma coringbuf_read_empty:
  assumes "rb_ok rb" "rb_content rb = []" "0 \<le> n"
  shows "coringbuf_read rb n = Some ([], rb)"
proof -
  obtain xs h t where rb: "rb = mk_rb xs h t" and b: "length xs \<le> 2 ^ 30" "h < length xs" "t < length xs"
    using assms(1) by (rule rb_okE)
  then show ?thesis
    using read_ring [OF b assms(3) refl] assms(2) by (simp add: ring_empty_iff)
qed

lemma grow_ring:
  assumes b: "length xs \<le> 2 ^ 30" "h < length xs" "t < length xs"
    and room: "2 * (length (ring h t xs) + k) + 1 \<le> 2 ^ 30"
  shows "\<exists>ys g. cb_check_and_grow (mk_rb xs h t) (int k) = Some (mk_rb ys g t) \<and>
    length ys \<le> 2 ^ 30 \<and> g < length ys \<and> t < length ys \<and> ring g t ys = ring h t xs \<and>
    length (ring h t xs) + k < length ys"
proof (cases "length xs - length (ring h t xs) \<le> k")
  case False
  then have "\<not> int (length xs) - int (length (ring h t xs)) \<le> int k" "length (ring h t xs) + k < length xs"
    using ring_less [OF b(2,3)] by linarith+
  then show ?thesis
    using b by (intro exI [of _ xs] exI [of _ h]) (simp add: cb_check_and_grow_def readable_ring Let_def)
next
  case True
  define r where "r = length (ring h t xs)"
  define N where "N = max (2 * length xs) (r + k + 1)"
  define ys where "ys = xs @ replicate (N - length xs) None"
  have r: "r < length xs" using ring_less [OF b(2,3)] by (simp add: r_def)
  have N: "length xs \<le> N" "N \<le> 2 ^ 30" "r + k < N" using True room r by (auto simp: N_def r_def)
  have ys: "length ys = N" "c_realloc xs (int N) = ys" using N by (simp_all add: ys_def c_realloc_def)
  have c: "coringbuf_readable_size (mk_rb xs h t) = int r" using b by (simp add: readable_ring r_def)
  have i: "i32 (int (length xs) * 2) = Some (int (2 * length xs))" "i32 (int r + int k + 1) = Some (int (r + k + 1))"
    using True room r by (auto simp: r_def i32_def)
  have m: "CO_MAX (int (2 * length xs)) (int (r + k + 1)) = int N"
    "max (2 * int (length xs)) (1 + (int r + int k)) = int N" by (simp_all add: N_def)
  have g: "int (length xs) - int r \<le> int k" using True r by (simp add: r_def)
  show ?thesis
  proof (cases "t < h")
    case False
    then have "cb_check_and_grow (mk_rb xs h t) (int k) = Some (mk_rb ys h t)"
      using ys unfolding cb_check_and_grow_def Let_def mk_rb_simps c i m(1)
      by (simp add: g m(2))
    moreover have "ring h t ys = ring h t xs" using False b by (simp add: ys_def ring_grow_straight)
    ultimately show ?thesis using b N ys(1) by (intro exI [of _ ys] exI [of _ h]) (simp add: r_def)
  next
    case True
    define l where "l = length xs - h"
    define z where "z = move_slots ys h (N - l) l"
    have l: "h + l \<le> length ys" "N - l + l \<le> length ys" "l \<le> N" using b N ys(1) by (auto simp: l_def)
    have o: "coringbuf_readonce_size (mk_rb xs h t) = int l"
      using True b by (simp add: readonce_ring l_def)
    have e: "int N - int l = int (N - l)" using l(3) by simp
    have mv: "mem_move ys (int (N - l)) (int h) (int l) = Some z"
      using mem_move_nat [OF l(1,2)] by (simp add: z_def move_slots_def)
    have th: "int t < int h" using True by simp
    have z: "length z = N" using length_move_slots [OF l(1,2)] ys(1) by (simp add: z_def)
    have "mk_rb xs h t\<lparr>rb_buffer := z, rb_head := int (N - l), rb_size := int N\<rparr> = mk_rb z (N - l) t"
      using z by (simp add: mk_rb_def)
    then have "cb_check_and_grow (mk_rb xs h t) (int k) = Some (mk_rb z (N - l) t)"
      unfolding cb_check_and_grow_def Let_def mk_rb_simps c i m(1) ys(2) o
      by (simp only: g th if_True bind.bind_lunit m(1) ys(2) e mv)
    moreover have "ring (N - l) t z = ring h t xs"
      unfolding z_def ys_def using True b N by (intro ring_grow_wrapped) (auto simp: l_def)
    ultimately show ?thesis
      using b N l z by (intro exI [of _ z] exI [of _ "N - l"]) (auto simp: r_def l_def)
  qed
qed

lemma coringbuf_write_spec:
  assumes ok: "rb_ok rb" and room: "rb_room (length bs) rb"
  shows "\<exists>rb'. coringbuf_write rb bs (int (length bs)) = Some rb' \<and> rb_ok rb' \<and>
    rb_content rb' = rb_content rb @ bs"
proof -
  obtain xs h t where rb: "rb = mk_rb xs h t" and b: "length xs \<le> 2 ^ 30" "h < length xs" "t < length xs"
    using ok by (rule rb_okE)
  let ?k = "length bs"
  obtain ys g where g: "cb_check_and_grow (mk_rb xs h t) (int ?k) = Some (mk_rb ys g t)"
    "length ys \<le> 2 ^ 30" "g < length ys" "t < length ys" "ring g t ys = ring h t xs"
    "length (ring h t xs) + ?k < length ys"
    using grow_ring [OF b, of ?k] room by (auto simp: rb_room_def rb)
  define l where "l = min ?k (length ys - t)"
  define u where "u = take t ys @ take l bs @ drop (t + l) ys"
  have l: "l \<le> ?k" "t + l \<le> length ys" "?k - l \<le> length ys" using g by (auto simp: l_def)
  have m: "CO_MIN (int ?k) (int (length ys) - int t) = int l" using g(4) by (auto simp: l_def)
  have a: "mem_load bs 0 (int l) = Some (take l bs)" using mem_load_nat [of 0 l bs] l by simp
  have s: "mem_store ys (int t) (take l bs) = Some u"
    using mem_store_nat [of t "take l bs" ys] l by (simp add: u_def min_absorb2)
  have lu: "length u = length ys" using l by (simp add: u_def min_absorb2)
  have c: "(if int ?k > int l then do { x \<leftarrow> mem_load bs (int l) (int ?k - int l); mem_store u 0 x }
      else Some u) = Some (drop l bs @ drop (?k - l) u)"
    using mem_load_nat [of l "?k - l" bs] mem_store_nat [of 0 "drop l bs" u] l lu
    by (auto simp: of_nat_diff)
  have "?k < 2 ^ 30" using g by linarith
  note adv = rb_advance_mod [OF g(2,4) this]
  have w: "drop l bs @ drop (?k - l) u = ring_write t bs ys"
    by (simp add: ring_write_def Let_def l_def u_def)
  have "coringbuf_write rb bs (int ?k) = Some (mk_rb (ring_write t bs ys) g ((t + ?k) mod length ys))"
    unfolding coringbuf_write_def rb g(1) Let_def mk_rb_simps bind.bind_lunit m a s c adv w
    using length_ring_write [of t ys bs] g by (simp add: mk_rb_def)
  moreover have "(t + ?k) mod length ys < length ys" using g(3) by (intro mod_less_divisor) linarith
  moreover have "length (ring_write t bs ys) = length ys" using length_ring_write [of t ys bs] g by simp
  moreover have "ring g ((t + ?k) mod length ys) (ring_write t bs ys) = ring h t xs @ bs"
    using ring_write_append [OF g(3,4), of bs] g(5,6) by simp
  ultimately show ?thesis using g by (simp add: rb)
qed

lemma coringbuf_consume_spec:
  assumes ok: "rb_ok rb" and n: "0 \<le> n"
  shows "if n \<le> int (length (rb_content rb))
    then \<exists>rb'. coringbuf_consume_size rb n = Some (True, rb') \<and> rb_ok rb' \<and>
      rb_content rb' = drop (nat n) (rb_content rb)
    else coringbuf_consume_size rb n = Some (False, rb)"
proof -
  obtain xs h t where rb: "rb = mk_rb xs h t" and b: "length xs \<le> 2 ^ 30" "h < length xs" "t < length xs"
    using ok by (rule rb_okE)
  show ?thesis
  proof (cases "n \<le> int (length (ring h t xs))")
    case True
    then have k: "nat n \<le> length (ring h t xs)" "nat n < 2 ^ 30" "int (nat n) = n"
      using ring_less [OF b(2,3)] b(1) n by linarith+
    have m: "(h + nat n) mod length xs < length xs" using b(2) by (intro mod_less_divisor) linarith
    show ?thesis
      using True k(3) b m rb_advance_mod [OF b(1,2) k(2)] ring_take_drop [OF b(2,3) k(1)]
      by (simp add: rb coringbuf_consume_size_def readable_ring Let_def)
  next
    case False
    then show ?thesis using b by (simp add: rb coringbuf_consume_size_def readable_ring Let_def)
  qed
qed

section \<open>A stream of bytes as an interface\<close>

text \<open>
  What the producer and the consumer rely on.  A client is a sequence of writes and reads in any
  order; it observes what the reads return.
\<close>

datatype stream_op = SWrite "cell list" | SRead nat

primrec written :: "stream_op list \<Rightarrow> cell list" where
  "written [] = []"
| "written (p # ps) = (case p of SWrite bs \<Rightarrow> bs @ written ps | SRead n \<Rightarrow> written ps)"

primrec run_stream :: "('q \<Rightarrow> cell list \<Rightarrow> 'q exec) \<Rightarrow> ('q \<Rightarrow> nat \<Rightarrow> (cell list \<times> 'q) exec) \<Rightarrow>
    'q \<Rightarrow> stream_op list \<Rightarrow> (cell list \<times> 'q) exec" where
  "run_stream wr rd q [] = Some ([], q)"
| "run_stream wr rd q (p # ps) =
     (case p of
        SWrite bs \<Rightarrow> do { q \<leftarrow> wr q bs; run_stream wr rd q ps }
      | SRead n \<Rightarrow> do { (a, q) \<leftarrow> rd q n; (b, q) \<leftarrow> run_stream wr rd q ps; Some (a @ b, q) })"

locale byte_stream =
  fixes wr :: "'q \<Rightarrow> cell list \<Rightarrow> 'q exec"
    and rd :: "'q \<Rightarrow> nat \<Rightarrow> (cell list \<times> 'q) exec"
    and content :: "'q \<Rightarrow> cell list"
    and ok :: "'q \<Rightarrow> bool"
    and room :: "nat \<Rightarrow> 'q \<Rightarrow> bool"
  assumes write_law: "ok q \<Longrightarrow> room n q \<Longrightarrow> length bs \<le> n \<Longrightarrow>
      \<exists>q'. wr q bs = Some q' \<and> ok q' \<and> content q' = content q @ bs \<and> room (n - length bs) q'"
    and read_law: "ok q \<Longrightarrow>
      \<exists>q'. rd q n = Some (take n (content q), q') \<and> ok q' \<and> content q' = drop n (content q) \<and>
        (\<forall>m. room m q \<longrightarrow> room m q')"
    and read_nothing: "ok q \<Longrightarrow> content q = [] \<Longrightarrow> rd q n = Some ([], q)"
begin

text \<open>Nothing is lost, duplicated or reordered: the bytes read so far, followed by what the buffer
  still holds, are the bytes it held at first followed by the bytes written.\<close>

lemma run_order:
  "ok q \<Longrightarrow> room (length (written ps)) q \<Longrightarrow>
   \<exists>out q'. run_stream wr rd q ps = Some (out, q') \<and> ok q' \<and>
     out @ content q' = content q @ written ps"
proof (induction ps arbitrary: q)
  case (Cons p ps)
  show ?case
  proof (cases p)
    case (SWrite bs)
    then obtain q1 where q1: "wr q bs = Some q1" "ok q1" "content q1 = content q @ bs"
      "room (length (written ps)) q1"
      using write_law [OF Cons.prems, of bs] by auto
    with Cons.IH [OF q1(2,4)] SWrite show ?thesis by auto
  next
    case (SRead n)
    then obtain q1 where q1: "rd q n = Some (take n (content q), q1)" "ok q1"
      "content q1 = drop n (content q)" "room (length (written ps)) q1"
      using read_law [OF Cons.prems(1), of n] Cons.prems(2) by auto
    then obtain out q2 where o: "run_stream wr rd q1 ps = Some (out, q2)" "ok q2"
      "out @ content q2 = content q1 @ written ps" using Cons.IH by blast
    have "(take n (content q) @ out) @ content q2 = content q @ written ps"
      using o(3) q1(3) by simp
    with SRead q1(1) o(1,2) show ?thesis by auto
  qed
qed auto

end

abbreviation rb_put :: "coringbuf \<Rightarrow> cell list \<Rightarrow> coringbuf exec" where
  "rb_put rb bs \<equiv> coringbuf_write rb bs (int (length bs))"

abbreviation rb_get :: "coringbuf \<Rightarrow> nat \<Rightarrow> (cell list \<times> coringbuf) exec" where
  "rb_get rb n \<equiv> coringbuf_read rb (int n)"

interpretation ringbuf: byte_stream rb_put rb_get rb_content rb_ok rb_room
proof (unfold_locales, goal_cases)
  case (1 rb n bs)
  then have "rb_room (length bs) rb" by (simp add: rb_room_def)
  from coringbuf_write_spec [OF 1(1) this] 1(2,3) show ?case by (auto simp: rb_room_def)
next
  case (2 rb n)
  then show ?case using coringbuf_read_spec [of rb "int n"] by (auto simp: rb_room_def)
next
  case (3 rb n)
  then show ?case by (simp add: coringbuf_read_empty)
qed

text \<open>Used one byte at a time, the ring buffer is also a queue.\<close>

sublocale byte_stream \<subseteq> bytes: fifo "\<lambda>q x. wr q [x]"
  "\<lambda>q. map_option (\<lambda>(bs, q). (case bs of [] \<Rightarrow> None | x # _ \<Rightarrow> Some x, q)) (rd q 1)"
  content ok room "\<lambda>q x. True"
proof (unfold_locales, goal_cases)
  case (1 q n x)
  then show ?case using write_law [of q "Suc n" "[x]"] by simp
next
  case (2 q)
  then show ?case using read_nothing [of q 1] by simp
next
  case (3 q x xs)
  then show ?case using read_law [of q 1] by fastforce
qed

lemma coringbuf_new_ok: "0 < n \<Longrightarrow> n \<le> 2 ^ 30 \<Longrightarrow> rb_ok (coringbuf_new n) \<and> rb_content (coringbuf_new n) = []"
  by (simp add: coringbuf_new_def rb_ok_def rb_content_def)

section \<open>Properties\<close>

text \<open>C7: The ring buffer is a faithful stream: for every interleaving of block writes and block reads
  of any sizes, from any well-formed state, with the array growing and its indices passing the
  end as often as needed, nothing is undefined, and the bytes read, followed by what the buffer
  still holds, are the bytes it held at first followed by the bytes written.\<close>
theorem coringbuf_stream:
  assumes "rb_ok rb" "rb_room (length (written ps)) rb"
  shows "\<exists>out rb'. run_stream rb_put rb_get rb ps = Some (out, rb') \<and> rb_ok rb' \<and>
    out @ rb_content rb' = rb_content rb @ written ps"
  using assms by (rule ringbuf.run_order)

theorem coringbuf_stream_witness:
  "\<exists>out rb'. run_stream rb_put rb_get (coringbuf_new 2)
      [SWrite [Some 1, Some 2, Some 3], SRead 2, SWrite [Some 4, Some 5], SRead 9] = Some (out, rb') \<and>
     rb_ok rb' \<and> out @ rb_content rb' = [Some 1, Some 2, Some 3, Some 4, Some 5]"
  using coringbuf_stream [of "coringbuf_new 2" "[SWrite [Some 1, Some 2, Some 3], SRead 2, SWrite [Some 4, Some 5], SRead 9]"]
    coringbuf_new_ok [of 2] by (simp add: rb_room_def)

text \<open>\<open>coringbuf_consume_size\<close> drops the given number of bytes from the front, or changes nothing
  and answers false when fewer are held.\<close>
theorem coringbuf_consume_correct:
  assumes "rb_ok rb" "0 \<le> n"
  shows "if n \<le> int (length (rb_content rb))
    then \<exists>rb'. coringbuf_consume_size rb n = Some (True, rb') \<and> rb_ok rb' \<and>
      rb_content rb' = drop (nat n) (rb_content rb)
    else coringbuf_consume_size rb n = Some (False, rb)"
  using assms by (rule coringbuf_consume_spec)

theorem coringbuf_consume_correct_witness:
  "coringbuf_consume_size (coringbuf_new 4) 1 = Some (False, coringbuf_new 4)"
  using coringbuf_consume_correct [of "coringbuf_new 4" 1] coringbuf_new_ok [of 4] by simp

end
