(* ===== verification/Links.thy ===== *)
theory Links
  imports CPrelude
begin

text \<open>
  Doubly linked structures, for \<open>src/co_clink.h\<close> and \<open>src/co_list.c\<close> alike.  A structure is seen
  through two partial functions: the successor and the predecessor field of an address.  A cycle
  through the addresses \<open>c\<close> is linked in both directions; a list that ends in null pointers is a
  cycle through the list header, whose two fields point to the first and the last node.
\<close>

type_synonym 'a field = "'a \<Rightarrow> 'a option"

definition linked :: "'a field \<Rightarrow> 'a field \<Rightarrow> 'a \<Rightarrow> 'a \<Rightarrow> bool" where
  "linked nx pv a b \<longleftrightarrow> nx a = Some b \<and> pv b = Some a"

fun chain :: "'a field \<Rightarrow> 'a field \<Rightarrow> 'a list \<Rightarrow> bool" where
  "chain nx pv (a # b # xs) \<longleftrightarrow> linked nx pv a b \<and> chain nx pv (b # xs)"
| "chain nx pv _ \<longleftrightarrow> True"

definition cycle :: "'a field \<Rightarrow> 'a field \<Rightarrow> 'a list \<Rightarrow> bool" where
  "cycle nx pv c \<longleftrightarrow> c \<noteq> [] \<and> distinct c \<and> chain nx pv (c @ [hd c])"

lemma chain_append: "chain nx pv (xs @ y # ys) \<longleftrightarrow> chain nx pv (xs @ [y]) \<and> chain nx pv (y # ys)"
proof (induction xs)
  case (Cons x xs)
  then show ?case by (cases xs) auto
qed simp

lemma chain_join:
  "xs \<noteq> [] \<Longrightarrow> ys \<noteq> [] \<Longrightarrow>
   chain nx pv (xs @ ys) \<longleftrightarrow> chain nx pv xs \<and> linked nx pv (last xs) (hd ys) \<and> chain nx pv ys"
proof (induction xs)
  case (Cons x xs)
  then show ?case by (cases xs; cases ys) auto
qed simp

text \<open>A chain depends on the successors of all but its last address and the predecessors of all
  but its first.\<close>

lemma chain_frame:
  "chain nx pv xs \<Longrightarrow> \<forall>a\<in>set (butlast xs). nx' a = nx a \<Longrightarrow> \<forall>b\<in>set (tl xs). pv' b = pv b \<Longrightarrow>
   chain nx' pv' xs"
proof (induction nx pv xs rule: chain.induct)
  case (1 nx pv a b xs)
  then show ?case by (cases xs) (auto simp: linked_def)
qed auto

lemma cycle_frame:
  assumes "cycle nx pv c" "\<forall>a\<in>set c. nx' a = nx a \<and> pv' a = pv a"
  shows "cycle nx' pv' c"
  using assms unfolding cycle_def by (cases c) (auto intro!: chain_frame [of nx pv])

lemma cycle_single [simp]: "cycle nx pv [h] \<longleftrightarrow> nx h = Some h \<and> pv h = Some h"
  by (simp add: cycle_def linked_def)

lemma cycle_head:
  assumes "cycle nx pv (h # xs)"
  shows "nx h = Some (hd (xs @ [h]))" "pv h = Some (last (h # xs))"
  using assms by (cases xs, auto simp: cycle_def linked_def chain_join [of "_ # _" "[_]", simplified])

lemma cycle_at:
  assumes "cycle nx pv (xs @ x # ys)" "xs \<noteq> []"
  shows "nx x = Some (hd (ys @ [hd xs]))" "pv x = Some (last xs)"
proof -
  have "chain nx pv (xs @ x # (ys @ [hd xs]))" using assms by (simp add: cycle_def)
  then have "linked nx pv (last xs) x" "chain nx pv (x # (ys @ [hd xs]))"
    using assms(2) chain_join [of xs "x # (ys @ [hd xs])"] by auto
  then show "nx x = Some (hd (ys @ [hd xs]))" "pv x = Some (last xs)"
    by (cases ys; auto simp: linked_def)+
qed

text \<open>Linking a new address between two neighbours, and unlinking one.\<close>

lemma chain_upd:
  assumes "chain nx pv xs" "\<And>q. q \<noteq> a \<Longrightarrow> q \<noteq> x \<Longrightarrow> nx' q = nx q" "\<And>q. q \<noteq> b \<Longrightarrow> q \<noteq> x \<Longrightarrow> pv' q = pv q"
    and x: "x \<notin> set xs" and ab: "a \<notin> set (butlast xs)" "b \<notin> set (tl xs)"
  shows "chain nx' pv' xs"
proof (rule chain_frame [OF assms(1)])
  have "x \<notin> set (butlast xs)" using x by (auto dest: in_set_butlastD)
  then show "\<forall>q\<in>set (butlast xs). nx' q = nx q" using assms(2) ab(1) by metis
  have "x \<notin> set (tl xs)" using x by (cases xs) auto
  then show "\<forall>q\<in>set (tl xs). pv' q = pv q" using assms(3) ab(2) by metis
qed

lemma ends_fresh:
  assumes d: "distinct (xs @ ys)" and ne: "xs \<noteq> []"
  shows "last xs \<notin> set (butlast xs)" "hd (ys @ [hd xs]) \<notin> set (tl xs)"
    "last xs \<notin> set (butlast (ys @ [hd xs]))" "hd (ys @ [hd xs]) \<notin> set (tl (ys @ [hd xs]))"
proof -
  show "last xs \<notin> set (butlast xs)" using assms by (cases xs rule: rev_cases) auto
  show "hd (ys @ [hd xs]) \<notin> set (tl xs)" using assms by (cases ys; cases xs) auto
  have "last xs \<in> set xs" using ne by simp
  then show "last xs \<notin> set (butlast (ys @ [hd xs]))" using d by auto
  show "hd (ys @ [hd xs]) \<notin> set (tl (ys @ [hd xs]))" using assms by (cases ys) auto
qed

lemma cycle_insert:
  assumes c: "cycle nx pv (xs @ ys)" and ne: "xs \<noteq> []" and x: "x \<notin> set (xs @ ys)"
    and ab: "a = last xs" "b = hd (ys @ [hd xs])"
    and upd: "nx' a = Some x" "nx' x = Some b" "pv' x = Some a" "pv' b = Some x"
    and same: "\<And>q. q \<noteq> a \<Longrightarrow> q \<noteq> x \<Longrightarrow> nx' q = nx q" "\<And>q. q \<noteq> b \<Longrightarrow> q \<noteq> x \<Longrightarrow> pv' q = pv q"
  shows "cycle nx' pv' (xs @ x # ys)"
proof -
  let ?zs = "ys @ [hd xs]"
  have d: "distinct (xs @ ys)" and ch: "chain nx pv xs" "chain nx pv ?zs"
    using c ne chain_join [of xs ?zs nx pv] by (simp_all add: cycle_def)
  have fr: "distinct (xs @ ys)" using d by simp
  note nin = ends_fresh [OF fr ne, folded ab]
  have "x \<notin> set xs" "x \<notin> set ?zs" using x ne by auto
  then have "chain nx' pv' xs" "chain nx' pv' ?zs"
    using chain_upd [OF ch(1) same _ nin(1,2)] chain_upd [OF ch(2) same _ nin(3,4)] by blast+
  moreover have "linked nx' pv' (last xs) x" "linked nx' pv' x (hd ?zs)"
    using upd ab by (auto simp: linked_def)
  ultimately have "chain nx' pv' (xs @ x # ?zs)"
    using ne by (cases ys) (auto simp: chain_join)
  then show ?thesis using d x ne by (simp add: cycle_def)
qed

lemma cycle_remove:
  assumes c: "cycle nx pv (xs @ x # ys)" and ne: "xs \<noteq> []"
    and ab: "a = last xs" "b = hd (ys @ [hd xs])"
    and upd: "nx' a = Some b" "pv' b = Some a"
    and same: "\<And>q. q \<noteq> a \<Longrightarrow> q \<noteq> x \<Longrightarrow> nx' q = nx q" "\<And>q. q \<noteq> b \<Longrightarrow> q \<noteq> x \<Longrightarrow> pv' q = pv q"
  shows "cycle nx' pv' (xs @ ys)"
proof -
  let ?zs = "ys @ [hd xs]"
  have d: "distinct (xs @ x # ys)" and ch: "chain nx pv xs" "chain nx pv (x # ?zs)"
    using c ne chain_join [of xs "x # ?zs" nx pv] by (simp_all add: cycle_def)
  then have ch2: "chain nx pv ?zs" by (cases ys) auto
  have fr: "distinct (xs @ ys)" using d by simp
  note nin = ends_fresh [OF fr ne, folded ab]
  have "x \<notin> set xs" "x \<notin> set ?zs" using d ne by auto
  then have "chain nx' pv' xs" "chain nx' pv' ?zs"
    using chain_upd [OF ch(1) same _ nin(1,2)] chain_upd [OF ch2 same _ nin(3,4)] by blast+
  moreover have "linked nx' pv' (last xs) (hd ?zs)" using upd ab by (simp add: linked_def)
  ultimately show ?thesis using d ne by (auto simp: cycle_def chain_join)
qed

text \<open>A list that ends in the null pointer \<open>z\<close>: a cycle through its header.\<close>

lemma nlist_at:
  assumes "cycle nx pv (z # xs @ x # ys)"
  shows "nx x = Some (hd (ys @ [z]))" "pv x = Some (last (z # xs))" "x \<noteq> z"
  using cycle_at [of nx pv "z # xs" x ys] assms by (auto simp: cycle_def)

lemma nlist_insert:
  assumes c: "cycle nx pv (z # xs @ ys)" and x: "x \<notin> set (z # xs @ ys)"
    and ab: "a = last (z # xs)" "b = hd (ys @ [z])"
  shows "cycle (nx(x \<mapsto> b, a \<mapsto> x)) (pv(x \<mapsto> a, b \<mapsto> x)) (z # xs @ x # ys)"
proof -
  have "a \<noteq> x" using x ab(1) last_in_set [of "z # xs"] by fastforce
  moreover have "b \<noteq> x" using x ab(2) by (cases ys) auto
  ultimately show ?thesis
    using cycle_insert [of nx pv "z # xs" ys x a b "nx(x \<mapsto> b, a \<mapsto> x)" "pv(x \<mapsto> a, b \<mapsto> x)"] assms by simp
qed

lemma nlist_remove:
  assumes c: "cycle nx pv (z # xs @ x # ys)" and ab: "a = last (z # xs)" "b = hd (ys @ [z])"
    and same: "\<And>q. q \<noteq> x \<Longrightarrow> nx' q = (nx(a \<mapsto> b)) q" "\<And>q. q \<noteq> x \<Longrightarrow> pv' q = (pv(b \<mapsto> a)) q"
  shows "cycle nx' pv' (z # xs @ ys)"
proof -
  have d: "distinct (z # xs @ x # ys)" using c by (simp add: cycle_def)
  then have "a \<noteq> x" using ab(1) last_in_set [of "z # xs"] by fastforce
  moreover have "b \<noteq> x" using d ab(2) by (cases ys) auto
  ultimately show ?thesis
    using cycle_remove [of nx pv "z # xs" x ys a b nx' pv'] c ab same [of a] same [of b] same by simp
qed

end
