(* ===== verification/CoList.thy ===== *)
theory CoList
  imports Links
begin

text \<open>
  \<open>src/co_list.c\<close>: a doubly linked list in the heap.  Address 0 is the null pointer; \<open>malloc\<close> is
  the argument \<open>p\<close> of the operations that allocate, and \<open>free\<close> removes the node, so that a later
  access to it is undefined.  A list is well-formed when the header, seen as a node at address 0
  whose successor is \<open>head\<close> and whose predecessor is \<open>tail\<close>, closes its nodes to a cycle.
\<close>

section \<open>Operations\<close>

record colist_node =
  nd_prev :: nat
  nd_next :: nat
  nd_data :: "cell list"

type_synonym node_heap = "nat \<Rightarrow> colist_node option"

record colist =
  l_head :: nat
  l_tail :: nat
  l_itemsize :: int

definition nd_load :: "node_heap \<Rightarrow> nat \<Rightarrow> colist_node exec" where
  "nd_load m p = (if p = 0 then None else m p)"

definition nd_upd :: "node_heap \<Rightarrow> nat \<Rightarrow> (colist_node \<Rightarrow> colist_node) \<Rightarrow> node_heap exec" where
  "nd_upd m p f = do { n \<leftarrow> nd_load m p; Some (m(p \<mapsto> f n)) }"

text \<open>\<open>CO_MALLOC\<close>, \<open>memset\<close> and \<open>memcpy\<close> of the item: undefined when \<open>malloc\<close> fails.\<close>

definition new_node :: "node_heap \<Rightarrow> nat \<Rightarrow> colist \<Rightarrow> cell list \<Rightarrow> node_heap exec" where
  "new_node m p l data = do {
     d \<leftarrow> mem_load data 0 (l_itemsize l);
     if p = 0 \<or> m p \<noteq> None then None
     else Some (m(p \<mapsto> \<lparr>nd_prev = 0, nd_next = 0, nd_data = d\<rparr>))
   }"

definition colist_new :: "int \<Rightarrow> colist" where
  "colist_new itemsize = \<lparr>l_head = 0, l_tail = 0, l_itemsize = itemsize\<rparr>"

partial_function (option) free_nodes :: "node_heap \<Rightarrow> nat \<Rightarrow> node_heap exec" where
  "free_nodes m node =
     (if node = 0 then Some m
      else do {
        n \<leftarrow> nd_load m node;
        free_nodes (m(node := None)) (nd_next n)
      })"

definition colist_free :: "colist \<Rightarrow> node_heap \<Rightarrow> (colist option \<times> node_heap) exec" where
  "colist_free l m = do { m \<leftarrow> free_nodes m (l_head l); Some (None, m) }"

definition colist_push_head :: "colist \<Rightarrow> node_heap \<Rightarrow> nat \<Rightarrow> cell list \<Rightarrow> (colist \<times> node_heap) exec" where
  "colist_push_head l m p data = do {
     m \<leftarrow> new_node m p l data;
     if l_head l = 0 then Some (l\<lparr>l_head := p, l_tail := p\<rparr>, m)
     else do {
       m \<leftarrow> nd_upd m p (nd_next_update (\<lambda>_. l_head l));
       m \<leftarrow> nd_upd m (l_head l) (nd_prev_update (\<lambda>_. p));
       Some (l\<lparr>l_head := p\<rparr>, m)
     }
   }"

definition colist_push_tail :: "colist \<Rightarrow> node_heap \<Rightarrow> nat \<Rightarrow> cell list \<Rightarrow> (colist \<times> node_heap) exec" where
  "colist_push_tail l m p data = do {
     m \<leftarrow> new_node m p l data;
     if l_tail l = 0 then Some (l\<lparr>l_head := p, l_tail := p\<rparr>, m)
     else do {
       m \<leftarrow> nd_upd m p (nd_prev_update (\<lambda>_. l_tail l));
       m \<leftarrow> nd_upd m (l_tail l) (nd_next_update (\<lambda>_. p));
       Some (l\<lparr>l_tail := p\<rparr>, m)
     }
   }"

definition colist_push_at :: "colist \<Rightarrow> node_heap \<Rightarrow> nat \<Rightarrow> nat \<Rightarrow> cell list \<Rightarrow> bool \<Rightarrow> (colist \<times> node_heap) exec" where
  "colist_push_at l m p node data before = do {
     cassert (node \<noteq> 0);
     m \<leftarrow> new_node m p l data;
     n \<leftarrow> nd_load m node;
     if before then do {
       m \<leftarrow> nd_upd m p (nd_next_update (\<lambda>_. node));
       m \<leftarrow> nd_upd m p (nd_prev_update (\<lambda>_. nd_prev n));
       m \<leftarrow> (if nd_prev n \<noteq> 0 then nd_upd m (nd_prev n) (nd_next_update (\<lambda>_. p)) else Some m);
       m \<leftarrow> nd_upd m node (nd_prev_update (\<lambda>_. p));
       Some (if l_head l = node then l\<lparr>l_head := p\<rparr> else l, m)
     } else do {
       m \<leftarrow> nd_upd m p (nd_prev_update (\<lambda>_. node));
       m \<leftarrow> nd_upd m p (nd_next_update (\<lambda>_. nd_next n));
       m \<leftarrow> (if nd_next n \<noteq> 0 then nd_upd m (nd_next n) (nd_prev_update (\<lambda>_. p)) else Some m);
       m \<leftarrow> nd_upd m node (nd_next_update (\<lambda>_. p));
       Some (if l_tail l = node then l\<lparr>l_tail := p\<rparr> else l, m)
     }
   }"

text \<open>The item is answered as the data copied out; \<open>Some None\<close> in front is \<open>false\<close>.\<close>

definition colist_pop_at :: "colist \<Rightarrow> node_heap \<Rightarrow> nat \<Rightarrow> (cell list option \<times> colist \<times> node_heap) exec" where
  "colist_pop_at l m node =
     (if node = 0 then Some (None, l, m)
      else do {
        (l, m) \<leftarrow>
          (if l_head l = node then do {
             h \<leftarrow> nd_load m node;
             let l = l\<lparr>l_head := nd_next h\<rparr>;
             m \<leftarrow> (if l_head l \<noteq> 0 then nd_upd m (l_head l) (nd_prev_update (\<lambda>_. 0)) else Some m);
             Some (l, m)
           } else Some (l, m));
        (l, m) \<leftarrow>
          (if l_tail l = node then do {
             t \<leftarrow> nd_load m node;
             let l = l\<lparr>l_tail := nd_prev t\<rparr>;
             m \<leftarrow> (if l_tail l \<noteq> 0 then nd_upd m (l_tail l) (nd_next_update (\<lambda>_. 0)) else Some m);
             Some (l, m)
           } else Some (l, m));
        n \<leftarrow> nd_load m node;
        m \<leftarrow> (if nd_prev n \<noteq> 0 then nd_upd m (nd_prev n) (nd_next_update (\<lambda>_. nd_next n)) else Some m);
        n \<leftarrow> nd_load m node;
        m \<leftarrow> (if nd_next n \<noteq> 0 then nd_upd m (nd_next n) (nd_prev_update (\<lambda>_. nd_prev n)) else Some m);
        n \<leftarrow> nd_load m node;
        Some (Some (nd_data n), l, m(node := None))
      })"

definition colist_pop_head :: "colist \<Rightarrow> node_heap \<Rightarrow> (cell list option \<times> colist \<times> node_heap) exec" where
  "colist_pop_head l m = colist_pop_at l m (l_head l)"

definition colist_pop_tail :: "colist \<Rightarrow> node_heap \<Rightarrow> (cell list option \<times> colist \<times> node_heap) exec" where
  "colist_pop_tail l m = colist_pop_at l m (l_tail l)"

definition colist_getvalue :: "node_heap \<Rightarrow> nat \<Rightarrow> cell list exec" where
  "colist_getvalue m node = map_option nd_data (nd_load m node)"

definition colist_setvalue :: "colist \<Rightarrow> node_heap \<Rightarrow> nat \<Rightarrow> cell list \<Rightarrow> node_heap exec" where
  "colist_setvalue l m node data = do {
     d \<leftarrow> mem_load data 0 (l_itemsize l);
     nd_upd m node (nd_data_update (\<lambda>_. d))
   }"

section \<open>Well-formed lists\<close>

definition lnx :: "colist \<Rightarrow> node_heap \<Rightarrow> nat field" where
  "lnx l m a = (if a = 0 then Some (l_head l) else map_option nd_next (m a))"

definition lpv :: "colist \<Rightarrow> node_heap \<Rightarrow> nat field" where
  "lpv l m a = (if a = 0 then Some (l_tail l) else map_option nd_prev (m a))"

definition lst :: "colist \<Rightarrow> node_heap \<Rightarrow> nat list \<Rightarrow> bool" where
  "lst l m ps \<longleftrightarrow> cycle (lnx l m) (lpv l m) (0 # ps)"

definition item :: "node_heap \<Rightarrow> nat \<Rightarrow> cell list" where
  "item m p = (case m p of None \<Rightarrow> [] | Some n \<Rightarrow> nd_data n)"

lemma lst_distinct: "lst l m ps \<Longrightarrow> distinct (0 # ps)"
  by (simp add: lst_def cycle_def)

lemma lst_head: "lst l m ps \<Longrightarrow> l_head l = hd (ps @ [0])" "lst l m ps \<Longrightarrow> l_tail l = last (0 # ps)"
  using cycle_head [of "lnx l m" "lpv l m" 0 ps] by (simp_all add: lst_def lnx_def lpv_def)

lemma lst_at:
  assumes "lst l m (xs @ x # ys)"
  obtains n where "m x = Some n" "x \<noteq> 0" "nd_next n = hd (ys @ [0])" "nd_prev n = last (0 # xs)"
proof -
  have "x \<noteq> 0" using lst_distinct [OF assms] by auto
  then show thesis
    using cycle_at [of "lnx l m" "lpv l m" "0 # xs" x ys] assms that
    by (auto simp: lst_def lnx_def lpv_def)
qed

lemma lst_live: "lst l m ps \<Longrightarrow> p \<in> set ps \<Longrightarrow> p \<noteq> 0 \<and> (\<exists>n. m p = Some n)"
  by (metis in_set_conv_decomp lst_at)

lemma lst_insert:
  assumes "lst l m (xs @ ys)" "x \<notin> set (0 # xs @ ys)" "a = last (0 # xs)" "b = hd (ys @ [0])"
    and "lnx l' m' = (lnx l m)(x \<mapsto> b, a \<mapsto> x)" "lpv l' m' = (lpv l m)(x \<mapsto> a, b \<mapsto> x)"
  shows "lst l' m' (xs @ x # ys)"
  using nlist_insert [of "lnx l m" "lpv l m" 0 xs ys x a b] assms by (simp add: lst_def)

lemma lst_remove:
  assumes "lst l m (xs @ x # ys)" "a = last (0 # xs)" "b = hd (ys @ [0])"
    and "\<And>q. q \<noteq> x \<Longrightarrow> lnx l' m' q = ((lnx l m)(a \<mapsto> b)) q" "\<And>q. q \<noteq> x \<Longrightarrow> lpv l' m' q = ((lpv l m)(b \<mapsto> a)) q"
  shows "lst l' m' (xs @ ys)"
  using nlist_remove [of "lnx l m" "lpv l m" 0 xs x ys a b "lnx l' m'" "lpv l' m'"] assms by (simp add: lst_def)

text \<open>Nothing but the pointers of the neighbours changes.\<close>

definition keeps :: "nat set \<Rightarrow> nat \<Rightarrow> node_heap \<Rightarrow> node_heap \<Rightarrow> bool" where
  "keeps A x m m' \<longleftrightarrow> (\<forall>q. q \<noteq> x \<longrightarrow> map_option nd_data (m' q) = map_option nd_data (m q) \<and>
     (q \<notin> A \<longrightarrow> m' q = m q))"

lemma colist_push_head_spec:
  assumes ok: "lst l m ps" and p: "p \<noteq> 0" "m p = None" and d: "int (length d) = l_itemsize l"
  shows "\<exists>l' m'. colist_push_head l m p d = Some (l', m') \<and> lst l' m' (p # ps) \<and>
    item m' p = d \<and> keeps (set ps) p m m' \<and> l_itemsize l' = l_itemsize l"
proof -
  have x: "p \<notin> set (0 # [] @ ps)" using p lst_live [OF ok] by force
  have n: "new_node m p l d = Some (m(p \<mapsto> \<lparr>nd_prev = 0, nd_next = 0, nd_data = d\<rparr>))"
    using p d by (simp add: new_node_def mem_load_def)
  show ?thesis
  proof (cases ps)
    case Nil
    then have h: "l_head l = 0" "l_tail l = 0" using lst_head [OF ok] by simp_all
    have "lst (l\<lparr>l_head := p, l_tail := p\<rparr>) (m(p \<mapsto> \<lparr>nd_prev = 0, nd_next = 0, nd_data = d\<rparr>)) ([] @ p # ps)"
      by (rule lst_insert [OF _ x refl refl]) (use ok p Nil in \<open>auto simp: lnx_def lpv_def fun_eq_iff\<close>)
    then show ?thesis using n h by (simp add: colist_push_head_def item_def keeps_def)
  next
    case (Cons q qs)
    then have h: "l_head l = q" using lst_head [OF ok] by simp
    obtain k where k: "m q = Some k" "q \<noteq> 0" using lst_live [OF ok, of q] Cons by auto
    have qp: "q \<noteq> p" using x Cons by auto
    let ?m = "m(p \<mapsto> \<lparr>nd_prev = 0, nd_next = q, nd_data = d\<rparr>, q \<mapsto> k\<lparr>nd_prev := p\<rparr>)"
    have "lst (l\<lparr>l_head := p\<rparr>) ?m ([] @ p # ps)"
      by (rule lst_insert [OF _ x refl refl]) (use ok p k qp Cons in \<open>auto simp: lnx_def lpv_def fun_eq_iff\<close>)
    then show ?thesis using n h k qp p Cons
      by (simp add: colist_push_head_def nd_upd_def nd_load_def item_def keeps_def)
  qed
qed

lemma colist_push_tail_spec:
  assumes ok: "lst l m ps" and p: "p \<noteq> 0" "m p = None" and d: "int (length d) = l_itemsize l"
  shows "\<exists>l' m'. colist_push_tail l m p d = Some (l', m') \<and> lst l' m' (ps @ [p]) \<and>
    item m' p = d \<and> keeps (set ps) p m m' \<and> l_itemsize l' = l_itemsize l"
proof -
  have x: "p \<notin> set (0 # ps @ [])" using p lst_live [OF ok] by force
  have n: "new_node m p l d = Some (m(p \<mapsto> \<lparr>nd_prev = 0, nd_next = 0, nd_data = d\<rparr>))"
    using p d by (simp add: new_node_def mem_load_def)
  show ?thesis
  proof (cases "ps = []")
    case True
    then have h: "l_head l = 0" "l_tail l = 0" using lst_head [OF ok] by simp_all
    have "lst (l\<lparr>l_head := p, l_tail := p\<rparr>) (m(p \<mapsto> \<lparr>nd_prev = 0, nd_next = 0, nd_data = d\<rparr>)) (ps @ p # [])"
      by (rule lst_insert [OF _ x refl refl]) (use ok p True in \<open>auto simp: lnx_def lpv_def fun_eq_iff\<close>)
    then show ?thesis using n h True by (simp add: colist_push_tail_def item_def keeps_def)
  next
    case False
    define q where "q = last ps"
    have q: "q \<in> set ps" "last (0 # ps) = q" using False by (simp_all add: q_def)
    then have h: "l_tail l = q" using lst_head [OF ok] by simp
    obtain k where k: "m q = Some k" "q \<noteq> 0" using lst_live [OF ok q(1)] by auto
    have qp: "q \<noteq> p" using x q by auto
    let ?m = "m(p \<mapsto> \<lparr>nd_prev = q, nd_next = 0, nd_data = d\<rparr>, q \<mapsto> k\<lparr>nd_next := p\<rparr>)"
    have "lst (l\<lparr>l_tail := p\<rparr>) ?m (ps @ p # [])"
      by (rule lst_insert [OF _ x refl refl, unfolded q(2)])
        (use ok p k qp in \<open>auto simp: lnx_def lpv_def fun_eq_iff\<close>)
    then show ?thesis using n h k qp p q
      by (simp add: colist_push_tail_def nd_upd_def nd_load_def item_def keeps_def)
  qed
qed

lemma colist_push_before_spec:
  assumes ok: "lst l m (xs @ y # ys)" and p: "p \<noteq> 0" "m p = None" and d: "int (length d) = l_itemsize l"
  shows "\<exists>l' m'. colist_push_at l m p y d True = Some (l', m') \<and> lst l' m' (xs @ p # y # ys) \<and>
    item m' p = d \<and> keeps (set (xs @ y # ys)) p m m' \<and> l_itemsize l' = l_itemsize l"
proof -
  have x: "p \<notin> set (0 # xs @ y # ys)" using p lst_live [OF ok] by force
  have n: "new_node m p l d = Some (m(p \<mapsto> \<lparr>nd_prev = 0, nd_next = 0, nd_data = d\<rparr>))"
    using p d by (simp add: new_node_def mem_load_def)
  obtain k where k: "m y = Some k" "y \<noteq> 0" "nd_prev k = last (0 # xs)" by (rule lst_at [OF ok])
  have yp: "y \<noteq> p" using x by auto
  have dis: "distinct (0 # xs @ y # ys)" by (rule lst_distinct [OF ok])
  show ?thesis
  proof (cases "xs = []")
    case True
    then have h: "l_head l = y" using lst_head [OF ok] by simp
    let ?m = "m(p \<mapsto> \<lparr>nd_prev = 0, nd_next = y, nd_data = d\<rparr>, y \<mapsto> k\<lparr>nd_prev := p\<rparr>)"
    have "lst (l\<lparr>l_head := p\<rparr>) ?m (xs @ p # y # ys)"
      by (rule lst_insert [OF ok x refl refl])
        (use p k yp True in \<open>auto simp: lnx_def lpv_def fun_eq_iff\<close>)
    then show ?thesis using n h k yp p True
      by (simp add: colist_push_at_def cassert_def nd_upd_def nd_load_def item_def keeps_def)
  next
    case False
    define q where "q = last xs"
    have q: "q \<in> set xs" "last (0 # xs) = q" using False by (simp_all add: q_def)
    obtain j where j: "m q = Some j" "q \<noteq> 0" using lst_live [OF ok, of q] q(1) by auto
    have ne: "q \<noteq> p" "q \<noteq> y" using x q(1) dis by auto
    have h: "l_head l \<noteq> y" using lst_head(1) [OF ok] dis False by (cases xs) auto
    let ?m = "m(p \<mapsto> \<lparr>nd_prev = q, nd_next = y, nd_data = d\<rparr>, q \<mapsto> j\<lparr>nd_next := p\<rparr>,
      y \<mapsto> k\<lparr>nd_prev := p\<rparr>)"
    have "lst l ?m (xs @ p # y # ys)"
      by (rule lst_insert [OF ok x refl refl, unfolded q(2)])
        (use p k j yp ne in \<open>auto simp: lnx_def lpv_def fun_eq_iff\<close>)
    moreover have "colist_push_at l m p y d True = Some (l, ?m)"
      using n h k(1,2) k(3) [unfolded q(2)] j yp p ne
      by (simp add: colist_push_at_def cassert_def nd_upd_def nd_load_def)
    moreover have "keeps (set (xs @ y # ys)) p m ?m" using j k q ne yp by (auto simp: keeps_def)
    ultimately show ?thesis using ne yp by (auto simp: item_def)
  qed
qed

lemma colist_push_after_spec:
  assumes ok: "lst l m (xs @ y # ys)" and p: "p \<noteq> 0" "m p = None" and d: "int (length d) = l_itemsize l"
  shows "\<exists>l' m'. colist_push_at l m p y d False = Some (l', m') \<and> lst l' m' (xs @ y # p # ys) \<and>
    item m' p = d \<and> keeps (set (xs @ y # ys)) p m m' \<and> l_itemsize l' = l_itemsize l"
proof -
  have ok': "lst l m ((xs @ [y]) @ ys)" using ok by simp
  have x: "p \<notin> set (0 # (xs @ [y]) @ ys)" using p lst_live [OF ok] by force
  have n: "new_node m p l d = Some (m(p \<mapsto> \<lparr>nd_prev = 0, nd_next = 0, nd_data = d\<rparr>))"
    using p d by (simp add: new_node_def mem_load_def)
  obtain k where k: "m y = Some k" "y \<noteq> 0" "nd_next k = hd (ys @ [0])" by (rule lst_at [OF ok])
  have yp: "y \<noteq> p" using x by auto
  have dis: "distinct (0 # xs @ y # ys)" by (rule lst_distinct [OF ok])
  show ?thesis
  proof (cases "ys = []")
    case True
    then have h: "l_tail l = y" using lst_head [OF ok] by simp
    let ?m = "m(p \<mapsto> \<lparr>nd_prev = y, nd_next = 0, nd_data = d\<rparr>, y \<mapsto> k\<lparr>nd_next := p\<rparr>)"
    have "lst (l\<lparr>l_tail := p\<rparr>) ?m ((xs @ [y]) @ p # ys)"
      by (rule lst_insert [OF ok' x refl refl])
        (use p k yp True in \<open>auto simp: lnx_def lpv_def fun_eq_iff\<close>)
    then show ?thesis using n h k yp p True
      by (simp add: colist_push_at_def cassert_def nd_upd_def nd_load_def item_def keeps_def)
  next
    case False
    define q where "q = hd ys"
    have q: "q \<in> set ys" "hd (ys @ [0]) = q" using False by (simp_all add: q_def)
    obtain j where j: "m q = Some j" "q \<noteq> 0" using lst_live [OF ok, of q] q(1) by auto
    have ne: "q \<noteq> p" "q \<noteq> y" using x q(1) dis by auto
    have h: "l_tail l \<noteq> y" using lst_head(2) [OF ok] dis False by (cases ys rule: rev_cases) auto
    let ?m = "m(p \<mapsto> \<lparr>nd_prev = y, nd_next = q, nd_data = d\<rparr>, q \<mapsto> j\<lparr>nd_prev := p\<rparr>,
      y \<mapsto> k\<lparr>nd_next := p\<rparr>)"
    have "lst l ?m ((xs @ [y]) @ p # ys)"
      by (rule lst_insert [OF ok' x refl refl, unfolded q(2)])
        (use p k j yp ne in \<open>auto simp: lnx_def lpv_def fun_eq_iff\<close>)
    moreover have "colist_push_at l m p y d False = Some (l, ?m)"
      using n h k(1,2) k(3) [unfolded q(2)] j yp p ne
      by (simp add: colist_push_at_def cassert_def nd_upd_def nd_load_def)
    moreover have "keeps (set (xs @ y # ys)) p m ?m" using j k q ne yp by (auto simp: keeps_def)
    ultimately show ?thesis using ne yp by (auto simp: item_def)
  qed
qed

lemma colist_pop_at_spec:
  assumes ok: "lst l m (xs @ y # ys)"
  shows "\<exists>l' m'. colist_pop_at l m y = Some (Some (item m y), l', m') \<and> lst l' m' (xs @ ys) \<and>
    m' y = None \<and> keeps (set (xs @ ys)) y m m' \<and> l_itemsize l' = l_itemsize l"
proof -
  define a b where ab: "a = last (0 # xs)" "b = hd (ys @ [0])"
  obtain k where k: "m y = Some k" "y \<noteq> 0" "nd_next k = b" "nd_prev k = a"
    unfolding ab by (rule lst_at [OF ok])
  have dis: "distinct (0 # xs @ y # ys)" by (rule lst_distinct [OF ok])
  note hd = lst_head [OF ok]
  have a: "xs = [] \<and> a = 0 \<and> l_head l = y \<or> a \<in> set xs \<and> a \<noteq> 0 \<and> l_head l \<noteq> y"
  proof (cases "xs = []")
    case False
    then have "last xs \<in> set xs" "l_head l \<in> set xs" using hd(1) by simp_all
    moreover have "0 \<notin> set xs" "y \<notin> set xs" using dis by auto
    ultimately have "last xs \<noteq> 0" "l_head l \<noteq> y" "last xs \<in> set xs" by metis+
    with False show ?thesis by (simp add: ab(1))
  qed (use hd(1) in \<open>simp add: ab(1)\<close>)
  have b: "ys = [] \<and> b = 0 \<and> l_tail l = y \<or> b \<in> set ys \<and> b \<noteq> 0 \<and> l_tail l \<noteq> y"
  proof (cases "ys = []")
    case False
    then have "hd ys \<in> set ys" "l_tail l \<in> set ys" using hd(2) by simp_all
    then have "hd ys \<noteq> 0" "l_tail l \<noteq> y" using dis by auto
    with False show ?thesis by (simp add: ab(2))
  qed (use hd(2) in \<open>simp add: ab(2)\<close>)
  have live: "\<exists>n. m a = Some n" if "a \<noteq> 0" using a that lst_live [OF ok, of a] by auto
  have live': "\<exists>n. m b = Some n" if "b \<noteq> 0" using b that lst_live [OF ok, of b] by auto
  have ne: "a \<noteq> y" "b \<noteq> y" "a \<noteq> b \<or> a = 0" using a b dis by auto
  let ?l = "l\<lparr>l_head := if a = 0 then b else l_head l, l_tail := if b = 0 then a else l_tail l\<rparr>"
  let ?m1 = "if a = 0 then m else m(a \<mapsto> (the (m a))\<lparr>nd_next := b\<rparr>)"
  let ?m2 = "if b = 0 then ?m1 else ?m1(b \<mapsto> (the (m b))\<lparr>nd_prev := a\<rparr>)"
  let ?m' = "?m2(y := None)"
  have "colist_pop_at l m y = Some (Some (item m y), ?l, ?m')"
    using a b k ne live live'
    by (cases "a = 0"; cases "b = 0")
      (auto simp: colist_pop_at_def nd_upd_def nd_load_def item_def Let_def fun_upd_twist)
  moreover have "lst ?l ?m' (xs @ ys)"
  proof (rule lst_remove [OF ok ab])
    show "lnx ?l ?m' q = ((lnx l m)(a \<mapsto> b)) q" if "q \<noteq> y" for q
      using that a b k ne live live' hd(1) by (cases "a = 0"; cases "b = 0") (auto simp: lnx_def)
    show "lpv ?l ?m' q = ((lpv l m)(b \<mapsto> a)) q" if "q \<noteq> y" for q
      using that a b k ne live live' hd(2) by (cases "a = 0"; cases "b = 0") (auto simp: lpv_def)
  qed
  moreover have "keeps (set (xs @ ys)) y m ?m'"
    using a b ne live live' by (cases "a = 0"; cases "b = 0") (auto simp: keeps_def)
  ultimately show ?thesis by auto
qed

lemma free_nodes_spec:
  assumes "chain (lnx l m) (lpv l m) (ps @ [0])" "distinct ps" "0 \<notin> set ps" 
    "\<forall>p\<in>set ps. m p \<noteq> None"
  shows "free_nodes m (hd (ps @ [0])) = Some (m |` (- set ps))"
  using assms
proof (induction ps arbitrary: m)
  case Nil
  have "m |` UNIV = m" by (simp add: restrict_map_def)
  then show ?case by (subst free_nodes.simps) simp
next
  case (Cons p ps)
  then obtain n where n: "m p = Some n" "p \<noteq> 0" by auto
  have ch: "linked (lnx l m) (lpv l m) p (hd (ps @ [0]))" "chain (lnx l m) (lpv l m) (ps @ [0])"
    using Cons.prems(1) chain_join [of "[p]" "ps @ [0]"] by simp_all
  then have nn: "nd_next n = hd (ps @ [0])" using n by (simp add: linked_def lnx_def)
  have "chain (lnx l (m(p := None))) (lpv l (m(p := None))) (ps @ [0])"
  proof (rule chain_frame [OF ch(2)])
    show "\<forall>a\<in>set (butlast (ps @ [0])). lnx l (m(p := None)) a = lnx l m a"
      using Cons.prems(2) by (auto simp: lnx_def)
    have "set (tl (ps @ [0])) \<subseteq> set ps \<union> {0}" by (cases ps) auto
    then show "\<forall>b\<in>set (tl (ps @ [0])). lpv l (m(p := None)) b = lpv l m b"
      using Cons.prems(2,3) by (auto simp: lpv_def)
  qed
  then have "free_nodes (m(p := None)) (hd (ps @ [0])) = Some (m(p := None) |` (- set ps))"
  proof (rule Cons.IH)
    show "distinct ps" "0 \<notin> set ps" "\<forall>q\<in>set ps. (m(p := None)) q \<noteq> None" using Cons.prems(2-4) by auto
  qed
  moreover have "m(p := None) |` (- set ps) = m |` (- set (p # ps))"
    by (auto simp: restrict_map_def fun_eq_iff)
  ultimately show ?case using n nn
    by (subst free_nodes.simps) (simp add: nd_load_def)
qed

lemma colist_free_spec:
  assumes "lst l m ps"
  shows "colist_free l m = Some (None, m |` (- set ps))"
proof -
  have "chain (lnx l m) (lpv l m) (ps @ [0])"
    using assms chain_join [of "[0]" "ps @ [0]"] by (simp add: lst_def cycle_def)
  then show ?thesis
    using free_nodes_spec [of l m ps] lst_distinct [OF assms] lst_live [OF assms] lst_head(1) [OF assms]
    by (simp add: colist_free_def)
qed

section \<open>Properties\<close>

text \<open>What a list operation has to answer: a list of the nodes given, with the new item at \<open>p\<close>.\<close>

definition pushed :: "nat list \<Rightarrow> node_heap \<Rightarrow> nat \<Rightarrow> cell list \<Rightarrow> (colist \<times> node_heap) exec \<Rightarrow> nat list \<Rightarrow> bool" where
  "pushed ps m p d r qs \<longleftrightarrow> (\<exists>l' m'. r = Some (l', m') \<and> lst l' m' qs \<and> item m' p = d \<and> keeps (set ps) p m m')"

text \<open>The node at \<open>y\<close> is handed out and freed, the nodes given are left.\<close>

definition popped :: "node_heap \<Rightarrow> nat \<Rightarrow> (cell list option \<times> colist \<times> node_heap) exec \<Rightarrow> nat list \<Rightarrow> bool" where
  "popped m y r qs \<longleftrightarrow> (\<exists>l' m'. r = Some (Some (item m y), l', m') \<and> lst l' m' qs \<and> m' y = None \<and> keeps (set qs) y m m')"

lemma colist_pop_ends_spec:
  assumes ok: "lst l m ps"
  shows "if ps = [] then colist_pop_head l m = Some (None, l, m) \<and> colist_pop_tail l m = Some (None, l, m)
    else popped m (hd ps) (colist_pop_head l m) (tl ps) \<and> popped m (last ps) (colist_pop_tail l m) (butlast ps)"
proof (cases "ps = []")
  case True
  then show ?thesis using lst_head [OF ok] by (simp add: colist_pop_head_def colist_pop_tail_def colist_pop_at_def)
next
  case False
  have h: "l_head l = hd ps" "l_tail l = last ps" using lst_head [OF ok] False by simp_all
  have "lst l m ([] @ hd ps # tl ps)" "lst l m (butlast ps @ last ps # [])" using ok False by simp_all
  from this [THEN colist_pop_at_spec] show ?thesis
    using False h by (auto simp: popped_def colist_pop_head_def colist_pop_tail_def)
qed

text \<open>C10: The four ways to insert put a new node, with the item given, at the head or at the tail of a
  well-formed list, empty or not, and before or after any of its nodes; the list stays well-formed, no
  other item and no node outside the list changes, and nothing is undefined.\<close>
theorem colist_push_correct:
  assumes "lst l m ps" "p \<noteq> 0" "m p = None" "int (length d) = l_itemsize l"
  shows "pushed ps m p d (colist_push_head l m p d) (p # ps) \<and> pushed ps m p d (colist_push_tail l m p d) (ps @ [p]) \<and>
    (\<forall>xs y ys. ps = xs @ y # ys \<longrightarrow>
      pushed ps m p d (colist_push_at l m p y d True) (xs @ p # y # ys) \<and>
      pushed ps m p d (colist_push_at l m p y d False) (xs @ y # p # ys))"
proof (intro conjI allI impI)
  show "pushed ps m p d (colist_push_head l m p d) (p # ps)" "pushed ps m p d (colist_push_tail l m p d) (ps @ [p])"
    using colist_push_head_spec [OF assms] colist_push_tail_spec [OF assms] by (auto simp: pushed_def)
next
  fix xs y ys assume ps: "ps = xs @ y # ys"
  show "pushed ps m p d (colist_push_at l m p y d True) (xs @ p # y # ys)" "pushed ps m p d (colist_push_at l m p y d False) (xs @ y # p # ys)"
    using colist_push_before_spec [OF assms [unfolded ps]] colist_push_after_spec [OF assms [unfolded ps]] unfolding pushed_def ps by blast+
qed

theorem colist_push_correct_witness:
  "pushed [] Map.empty 9 [Some 2] (colist_push_tail (colist_new 1) Map.empty 9 [Some 2]) [9] \<and>
   pushed [5] [5 \<mapsto> \<lparr>nd_prev = 0, nd_next = 0, nd_data = [Some 1]\<rparr>] 9 [Some 2]
     (colist_push_at \<lparr>l_head = 5, l_tail = 5, l_itemsize = 1\<rparr> [5 \<mapsto> \<lparr>nd_prev = 0, nd_next = 0, nd_data = [Some 1]\<rparr>] 9 5 [Some 2] True) [9, 5]"
proof -
  have e: "lst (colist_new 1) Map.empty []" by (simp add: colist_new_def lst_def cycle_def linked_def lnx_def lpv_def)
  have "lst \<lparr>l_head = 5, l_tail = 5, l_itemsize = 1\<rparr> [5 \<mapsto> \<lparr>nd_prev = 0, nd_next = 0, nd_data = [Some 1]\<rparr>] [5]"
    by (simp add: lst_def cycle_def linked_def lnx_def lpv_def)
  note l = conjunct2 [OF conjunct2 [OF colist_push_correct [OF this, of 9 "[Some 2]"]], THEN spec, of "[]", THEN spec, of 5, THEN spec, of "[]"]
  show ?thesis using colist_push_correct [OF e, of 9 "[Some 2]"] l by (simp add: colist_new_def)
qed

text \<open>C11: Popping at the head or at the tail of a well-formed list, or at any of its nodes, hands out the item
  of that node, frees the node, closes the gap and changes no other item and no node outside the list;
  popping the empty list, or a null node, answers false and changes nothing.  Freeing the list frees
  exactly its nodes.\<close>
theorem colist_pop_free_correct:
  assumes "lst l m ps"
  shows "(if ps = [] then colist_pop_head l m = Some (None, l, m) \<and> colist_pop_tail l m = Some (None, l, m)
     else popped m (hd ps) (colist_pop_head l m) (tl ps) \<and> popped m (last ps) (colist_pop_tail l m) (butlast ps)) \<and>
    (\<forall>xs y ys. ps = xs @ y # ys \<longrightarrow> popped m y (colist_pop_at l m y) (xs @ ys)) \<and>
    colist_pop_at l m 0 = Some (None, l, m) \<and> colist_free l m = Some (None, m |` (- set ps))"
proof (intro conjI allI impI)
  fix xs y ys assume ps: "ps = xs @ y # ys"
  show "popped m y (colist_pop_at l m y) (xs @ ys)" using colist_pop_at_spec [OF assms [unfolded ps]] by (auto simp: popped_def)
qed (use colist_pop_ends_spec [OF assms] colist_free_spec [OF assms] in \<open>simp_all add: colist_pop_at_def\<close>)

theorem colist_pop_free_correct_witness:
  "colist_pop_head (colist_new 1) Map.empty = Some (None, colist_new 1, Map.empty) \<and>
   popped [5 \<mapsto> \<lparr>nd_prev = 0, nd_next = 6, nd_data = [Some 1]\<rparr>, 6 \<mapsto> \<lparr>nd_prev = 5, nd_next = 0, nd_data = [Some 2]\<rparr>] 6
     (colist_pop_tail \<lparr>l_head = 5, l_tail = 6, l_itemsize = 1\<rparr>
       [5 \<mapsto> \<lparr>nd_prev = 0, nd_next = 6, nd_data = [Some 1]\<rparr>, 6 \<mapsto> \<lparr>nd_prev = 5, nd_next = 0, nd_data = [Some 2]\<rparr>]) [5]"
proof -
  have e: "lst (colist_new 1) Map.empty []" by (simp add: colist_new_def lst_def cycle_def linked_def lnx_def lpv_def)
  have "lst \<lparr>l_head = 5, l_tail = 6, l_itemsize = 1\<rparr>
      [5 \<mapsto> \<lparr>nd_prev = 0, nd_next = 6, nd_data = [Some 1]\<rparr>, 6 \<mapsto> \<lparr>nd_prev = 5, nd_next = 0, nd_data = [Some 2]\<rparr>] [5, 6]"
    by (simp add: lst_def cycle_def linked_def lnx_def lpv_def)
  from colist_pop_free_correct [OF e] colist_pop_free_correct [OF this] show ?thesis by simp
qed

end
