(* ===== verification/Clink.thy ===== *)
theory Clink
  imports Links
begin

text \<open>
  \<open>src/co_clink.h\<close>: circular doubly linked lists, built into the nodes.  The memory maps the
  address of every live node to its two pointers; the type of addresses is a parameter, so that
  an embedding structure (\<open>src/co_timingwheel.c\<close>) can name its nodes as it likes.
\<close>

section \<open>Operations\<close>

record 'a coclink_node =
  cn_next :: 'a
  cn_prev :: 'a

type_synonym 'a links = "'a \<Rightarrow> 'a coclink_node option"

definition get_next :: "'a links \<Rightarrow> 'a \<Rightarrow> 'a exec" where
  "get_next L p = map_option cn_next (L p)"

definition get_prev :: "'a links \<Rightarrow> 'a \<Rightarrow> 'a exec" where
  "get_prev L p = map_option cn_prev (L p)"

definition set_next :: "'a links \<Rightarrow> 'a \<Rightarrow> 'a \<Rightarrow> 'a links exec" where
  "set_next L p v = (case L p of None \<Rightarrow> None | Some n \<Rightarrow> Some (L(p \<mapsto> n\<lparr>cn_next := v\<rparr>)))"

definition set_prev :: "'a links \<Rightarrow> 'a \<Rightarrow> 'a \<Rightarrow> 'a links exec" where
  "set_prev L p v = (case L p of None \<Rightarrow> None | Some n \<Rightarrow> Some (L(p \<mapsto> n\<lparr>cn_prev := v\<rparr>)))"

definition coclink_init :: "'a links \<Rightarrow> 'a \<Rightarrow> 'a links exec" where
  "coclink_init L head = do {
     L \<leftarrow> set_prev L head head;
     set_next L head head
   }"

definition coclink_add_front :: "'a links \<Rightarrow> 'a \<Rightarrow> 'a \<Rightarrow> 'a links exec" where
  "coclink_add_front L head node = do {
     L \<leftarrow> set_prev L node head;
     f \<leftarrow> get_next L head;
     L \<leftarrow> set_next L node f;
     f \<leftarrow> get_next L head;
     L \<leftarrow> set_prev L f node;
     set_next L head node
   }"

definition coclink_add_back :: "'a links \<Rightarrow> 'a \<Rightarrow> 'a \<Rightarrow> 'a links exec" where
  "coclink_add_back L head node = do {
     l \<leftarrow> get_prev L head;
     L \<leftarrow> set_prev L node l;
     L \<leftarrow> set_next L node head;
     l \<leftarrow> get_prev L node;
     L \<leftarrow> set_next L l node;
     set_prev L head node
   }"

definition coclink_is_empty :: "'a links \<Rightarrow> 'a \<Rightarrow> bool exec" where
  "coclink_is_empty L head = do { f \<leftarrow> get_next L head; Some (head = f) }"

definition coclink_remote :: "'a links \<Rightarrow> 'a \<Rightarrow> 'a links exec" where
  "coclink_remote L node = do {
     n \<leftarrow> get_next L node;
     p \<leftarrow> get_prev L node;
     L \<leftarrow> set_prev L n p;
     p \<leftarrow> get_prev L node;
     n \<leftarrow> get_next L node;
     L \<leftarrow> set_next L p n;
     coclink_init L node
   }"

definition coclink_splice :: "'a links \<Rightarrow> 'a \<Rightarrow> 'a \<Rightarrow> 'a links exec" where
  "coclink_splice L head1 head2 = do {
     e \<leftarrow> coclink_is_empty L head1;
     if \<not> e then do {
       first \<leftarrow> get_next L head1;
       last \<leftarrow> get_prev L head1;
       at \<leftarrow> get_next L head2;
       L \<leftarrow> set_prev L first head2;
       L \<leftarrow> set_next L head2 first;
       L \<leftarrow> set_next L last at;
       L \<leftarrow> set_prev L at last;
       coclink_init L head1
     } else Some L
   }"

section \<open>Rings\<close>

text \<open>\<open>coring L h ps\<close>: the list with head \<open>h\<close> holds the nodes \<open>ps\<close>, first to last.\<close>

definition coring :: "'a links \<Rightarrow> 'a \<Rightarrow> 'a list \<Rightarrow> bool" where
  "coring L h ps \<longleftrightarrow> cycle (get_next L) (get_prev L) (h # ps)"

text \<open>What an operation leaves alone: every address outside the lists it touches, and the set of
  live nodes.\<close>

definition only :: "'a set \<Rightarrow> 'a links \<Rightarrow> 'a links \<Rightarrow> bool" where
  "only A L L' \<longleftrightarrow> dom L' = dom L \<and> (\<forall>a. a \<notin> A \<longrightarrow> L' a = L a)"

lemma only_refl [simp]: "only A L L"
  by (simp add: only_def)

lemma only_trans: "only A L L' \<Longrightarrow> only A L' L'' \<Longrightarrow> only A L L''"
  by (simp add: only_def)

lemma only_mono: "only A L L' \<Longrightarrow> A \<subseteq> B \<Longrightarrow> only B L L'"
  by (auto simp: only_def)

lemma set_nextE:
  assumes "L p \<noteq> None"
  obtains L' where "set_next L p v = Some L'" "get_next L' = (get_next L)(p \<mapsto> v)"
    "get_prev L' = get_prev L" "only {p} L L'"
proof -
  obtain n where n: "L p = Some n" using assms by blast
  show thesis
    by (rule that [of "L(p \<mapsto> n\<lparr>cn_next := v\<rparr>)"])
      (use n in \<open>auto simp: set_next_def get_next_def get_prev_def only_def fun_eq_iff\<close>)
qed

lemma set_prevE:
  assumes "L p \<noteq> None"
  obtains L' where "set_prev L p v = Some L'" "get_prev L' = (get_prev L)(p \<mapsto> v)"
    "get_next L' = get_next L" "only {p} L L'"
proof -
  obtain n where n: "L p = Some n" using assms by blast
  show thesis
    by (rule that [of "L(p \<mapsto> n\<lparr>cn_prev := v\<rparr>)"])
      (use n in \<open>auto simp: set_prev_def get_next_def get_prev_def only_def fun_eq_iff\<close>)
qed

lemma only_dom: "only A L L' \<Longrightarrow> L' p \<noteq> None \<longleftrightarrow> L p \<noteq> None"
  by (metis domIff only_def)

lemma initE:
  assumes "L h \<noteq> None"
  obtains L' where "coclink_init L h = Some L'" "get_next L' = (get_next L)(h \<mapsto> h)"
    "get_prev L' = (get_prev L)(h \<mapsto> h)" "only {h} L L'"
proof -
  obtain L1 where 1: "set_prev L h h = Some L1" "get_prev L1 = (get_prev L)(h \<mapsto> h)"
    "get_next L1 = get_next L" "only {h} L L1" using set_prevE [of L h h] assms by metis
  obtain L2 where 2: "set_next L1 h h = Some L2" "get_next L2 = (get_next L1)(h \<mapsto> h)"
    "get_prev L2 = get_prev L1" "only {h} L1 L2"
    using set_nextE [of L1 h h] assms only_dom [OF 1(4)] by metis
  show thesis using that [of L2] 1 2 only_trans [OF 1(4) 2(4)] by (simp add: coclink_init_def)
qed

lemma coring_distinct: "coring L h ps \<Longrightarrow> distinct (h # ps)"
  by (simp add: coring_def cycle_def)

lemma coring_frame: "coring L h ps \<Longrightarrow> \<forall>a\<in>set (h # ps). L' a = L a \<Longrightarrow> coring L' h ps"
  unfolding coring_def by (rule cycle_frame) (auto simp: get_next_def get_prev_def)

lemma coring_only: "coring L h ps \<Longrightarrow> only A L L' \<Longrightarrow> A \<inter> set (h # ps) = {} \<Longrightarrow> coring L' h ps"
  by (erule coring_frame) (auto simp: only_def)

lemmas coring_head = cycle_head [of "get_next L" "get_prev L" for L, folded coring_def]

lemma coring_at:
  assumes "coring L h (xs @ x # ys)"
  shows "get_next L x = Some (hd (ys @ [h]))" "get_prev L x = Some (last (h # xs))"
  using cycle_at [of "get_next L" "get_prev L" "h # xs" x ys] assms by (simp_all add: coring_def)

lemma get_next_live: "get_next L p = Some q \<Longrightarrow> L p \<noteq> None"
  by (auto simp: get_next_def)

lemma coring_live: "coring L h ps \<Longrightarrow> a \<in> set (h # ps) \<Longrightarrow> L a \<noteq> None"
proof (cases "a = h")
  case False
  assume c: "coring L h ps" and "a \<in> set (h # ps)"
  then obtain xs ys where "ps = xs @ a # ys" using False by (auto dest: split_list)
  with c show ?thesis by (metis coring_at(1) get_next_live)
qed (metis coring_head(1) get_next_live)

lemma is_empty_ring: "coring L h ps \<Longrightarrow> coclink_is_empty L h = Some (ps = [])"
  using coring_distinct [of L h ps] coring_head(1) [of L h ps]
  by (cases ps) (auto simp: coclink_is_empty_def)

lemma coring_Nil [simp]: "coring L h [] \<longleftrightarrow> get_next L h = Some h \<and> get_prev L h = Some h"
  by (simp add: coring_def)

section \<open>What the operations do to a ring\<close>

lemma init_ring:
  assumes "L h \<noteq> None"
  shows "\<exists>L'. coclink_init L h = Some L' \<and> coring L' h [] \<and> only {h} L L'"
  using assms by (elim initE) auto

lemma add_back_ring:
  assumes c: "coring L h ps" and x: "x \<notin> set (h # ps)" "L x \<noteq> None"
  shows "\<exists>L'. coclink_add_back L h x = Some L' \<and> coring L' h (ps @ [x]) \<and> only (set (x # h # ps)) L L'"
proof -
  let ?a = "last (h # ps)"
  have a: "?a \<in> set (h # ps)" "?a \<noteq> x" "h \<noteq> x" using x(1) last_in_set [of "h # ps"] by fastforce+
  have live: "L ?a \<noteq> None" "L h \<noteq> None" using coring_live [OF c, of ?a] coring_live [OF c, of h] a(1) by simp_all
  note hd = coring_head(2) [OF c]
  obtain L1 where 1: "set_prev L x ?a = Some L1" "get_prev L1 = (get_prev L)(x \<mapsto> ?a)"
    "get_next L1 = get_next L" "only {x} L L1" by (rule set_prevE [of L x ?a, OF x(2)])
  note l1 = x(2) [folded only_dom [OF 1(4)]] live [folded only_dom [OF 1(4)]]
  obtain L2 where 2: "set_next L1 x h = Some L2" "get_next L2 = (get_next L1)(x \<mapsto> h)"
    "get_prev L2 = get_prev L1" "only {x} L1 L2"
    by (rule set_nextE [of L1 x h, OF l1(1)])
  note l2 = l1 [folded only_dom [OF 2(4)]]
  obtain L3 where 3: "set_next L2 ?a x = Some L3" "get_next L3 = (get_next L2)(?a \<mapsto> x)"
    "get_prev L3 = get_prev L2" "only {?a} L2 L3"
    by (rule set_nextE [of L2 ?a x, OF l2(2)])
  note l3 = l2 [folded only_dom [OF 3(4)]]
  obtain L4 where 4: "set_prev L3 h x = Some L4" "get_prev L4 = (get_prev L3)(h \<mapsto> x)"
    "get_next L4 = get_next L3" "only {h} L3 L4"
    by (rule set_prevE [of L3 h x, OF l3(3)])
  have r: "coclink_add_back L h x = Some L4"
    using hd 1 2 3 4 by (simp add: coclink_add_back_def)
  have "cycle (get_next L4) (get_prev L4) ((h # ps) @ [x])"
  proof (rule cycle_insert [where nx = "get_next L" and pv = "get_prev L" and a = ?a and b = h])
    show "cycle (get_next L) (get_prev L) ((h # ps) @ [])" using c by (simp add: coring_def)
  qed (use x 1 2 3 4 a in auto)
  then have "coring L4 h (ps @ [x])" by (simp add: coring_def)
  moreover have "only (set (x # h # ps)) L L4"
    using 1(4) 2(4) 3(4) 4(4) a(1) by (auto simp: only_def)
  ultimately show ?thesis using r by blast
qed

lemma add_front_ring:
  assumes c: "coring L h ps" and x: "x \<notin> set (h # ps)" "L x \<noteq> None"
  shows "\<exists>L'. coclink_add_front L h x = Some L' \<and> coring L' h (x # ps) \<and> only (set (x # h # ps)) L L'"
proof -
  let ?b = "hd (ps @ [h])"
  have b: "?b \<in> set (h # ps)" "?b \<noteq> x" "h \<noteq> x" using x(1) by (cases ps; auto)+
  have live: "L ?b \<noteq> None" "L h \<noteq> None" using coring_live [OF c, of ?b] coring_live [OF c, of h] b(1) by simp_all
  note hd = coring_head(1) [OF c]
  obtain L1 where 1: "set_prev L x h = Some L1" "get_prev L1 = (get_prev L)(x \<mapsto> h)"
    "get_next L1 = get_next L" "only {x} L L1" by (rule set_prevE [of L x h, OF x(2)])
  note l1 = x(2) [folded only_dom [OF 1(4)]] live [folded only_dom [OF 1(4)]]
  obtain L2 where 2: "set_next L1 x ?b = Some L2" "get_next L2 = (get_next L1)(x \<mapsto> ?b)"
    "get_prev L2 = get_prev L1" "only {x} L1 L2"
    by (rule set_nextE [of L1 x ?b, OF l1(1)])
  note l2 = l1 [folded only_dom [OF 2(4)]]
  obtain L3 where 3: "set_prev L2 ?b x = Some L3" "get_prev L3 = (get_prev L2)(?b \<mapsto> x)"
    "get_next L3 = get_next L2" "only {?b} L2 L3"
    by (rule set_prevE [of L2 ?b x, OF l2(2)])
  note l3 = l2 [folded only_dom [OF 3(4)]]
  obtain L4 where 4: "set_next L3 h x = Some L4" "get_next L4 = (get_next L3)(h \<mapsto> x)"
    "get_prev L4 = get_prev L3" "only {h} L3 L4"
    by (rule set_nextE [of L3 h x, OF l3(3)])
  have r: "coclink_add_front L h x = Some L4"
    using hd b 1 2 3 4 by (simp add: coclink_add_front_def)
  have "cycle (get_next L4) (get_prev L4) ([h] @ x # ps)"
  proof (rule cycle_insert [where nx = "get_next L" and pv = "get_prev L" and a = h and b = ?b])
    show "cycle (get_next L) (get_prev L) ([h] @ ps)" using c by (simp add: coring_def)
  qed (use x 1 2 3 4 b in auto)
  then have "coring L4 h (x # ps)" by (simp add: coring_def)
  moreover have "only (set (x # h # ps)) L L4"
    using 1(4) 2(4) 3(4) 4(4) b(1) by (auto simp: only_def)
  ultimately show ?thesis using r by blast
qed

lemma remote_ring:
  assumes c: "coring L h (xs @ x # ys)"
  shows "\<exists>L'. coclink_remote L x = Some L' \<and> coring L' h (xs @ ys) \<and> coring L' x [] \<and>
    only (set (h # xs @ x # ys)) L L'"
proof -
  let ?a = "last (h # xs)" and ?b = "hd (ys @ [h])"
  note at = coring_at [OF c]
  have d: "distinct (h # xs @ x # ys)" by (rule coring_distinct [OF c])
  have a: "?a \<in> set (h # xs)" using last_in_set [of "h # xs"] by simp
  have b: "?b \<in> set (h # ys)" by (cases ys) auto
  have ne: "?a \<noteq> x" "?b \<noteq> x" using a b d by auto
  have live: "L ?a \<noteq> None" "L ?b \<noteq> None" "L x \<noteq> None"
    by (rule coring_live [OF c], use a b in force)+
  obtain L1 where 1: "set_prev L ?b ?a = Some L1" "get_prev L1 = (get_prev L)(?b \<mapsto> ?a)"
    "get_next L1 = get_next L" "only {?b} L L1" by (rule set_prevE [of L ?b ?a, OF live(2)])
  note l1 = live [folded only_dom [OF 1(4)]]
  obtain L2 where 2: "set_next L1 ?a ?b = Some L2" "get_next L2 = (get_next L1)(?a \<mapsto> ?b)"
    "get_prev L2 = get_prev L1" "only {?a} L1 L2"
    by (rule set_nextE [of L1 ?a ?b, OF l1(1)])
  note l2 = l1 [folded only_dom [OF 2(4)]]
  obtain L3 where 3: "coclink_init L2 x = Some L3" "get_next L3 = (get_next L2)(x \<mapsto> x)"
    "get_prev L3 = (get_prev L2)(x \<mapsto> x)" "only {x} L2 L3"
    by (rule initE [of L2 x, OF l2(3)])
  have r: "coclink_remote L x = Some L3"
    using at ne 1 2 3 by (simp add: coclink_remote_def)
  have "cycle (get_next L3) (get_prev L3) ((h # xs) @ ys)"
  proof (rule cycle_remove [where nx = "get_next L" and pv = "get_prev L" and a = ?a and b = ?b and x = x])
    show "cycle (get_next L) (get_prev L) ((h # xs) @ x # ys)" using c by (simp add: coring_def)
  qed (use 1 2 3 ne in auto)
  then have "coring L3 h (xs @ ys)" by (simp add: coring_def)
  moreover have "coring L3 x []" using 3 by simp
  moreover have "only (set (h # xs @ x # ys)) L L3"
  proof (rule only_trans [OF only_trans])
    show "only (set (h # xs @ x # ys)) L L1" by (rule only_mono [OF 1(4)]) (use b in auto)
    show "only (set (h # xs @ x # ys)) L1 L2" by (rule only_mono [OF 2(4)]) (use a in auto)
    show "only (set (h # xs @ x # ys)) L2 L3" by (rule only_mono [OF 3(4)]) auto
  qed
  ultimately show ?thesis using r by blast
qed

lemma distinct_ends:
  assumes "distinct xs" "xs \<noteq> []"
  shows "last xs \<notin> set (butlast xs)" "hd xs \<notin> set (tl xs)"
proof -
  show "last xs \<notin> set (butlast xs)" using assms by (cases xs rule: rev_cases) auto
  show "hd xs \<notin> set (tl xs)" using assms by (cases xs) auto
qed

lemma splice_ring:
  assumes c1: "coring L h1 ps" and c2: "coring L h2 qs" and dj: "set (h1 # ps) \<inter> set (h2 # qs) = {}"
  shows "\<exists>L'. coclink_splice L h1 h2 = Some L' \<and> coring L' h1 [] \<and> coring L' h2 (ps @ qs) \<and>
    only (set (h1 # ps @ h2 # qs)) L L'"
proof (cases "ps = []")
  case True
  then show ?thesis using c1 c2 is_empty_ring [OF c1] by (auto simp: coclink_splice_def)
next
  case False
  let ?f = "hd ps" and ?l = "last ps" and ?at = "hd (qs @ [h2])"
  have h: "get_next L h1 = Some ?f" "get_prev L h1 = Some ?l" "get_next L h2 = Some ?at"
    using coring_head(1) [OF c1] coring_head(2) [OF c1] coring_head(1) [OF c2] False by simp_all
  have mem: "?f \<in> set ps" "?l \<in> set ps" using False by simp_all
  have at: "?at \<in> set (h2 # qs)" by (cases qs) auto
  have d: "distinct (h1 # ps)" "distinct (h2 # qs)" using coring_distinct [OF c1] coring_distinct [OF c2] .
  have "L h1 \<noteq> None" "L ?f \<noteq> None" "L ?l \<noteq> None"
    by (rule coring_live [OF c1], simp add: False)+
  moreover have "L h2 \<noteq> None" "L ?at \<noteq> None"
    by (rule coring_live [OF c2], use at in simp)+
  ultimately have live: "L h1 \<noteq> None" "L h2 \<noteq> None" "L ?f \<noteq> None" "L ?l \<noteq> None" "L ?at \<noteq> None"
    by blast+
  obtain L1 where 1: "set_prev L ?f h2 = Some L1" "get_prev L1 = (get_prev L)(?f \<mapsto> h2)"
    "get_next L1 = get_next L" "only {?f} L L1" by (rule set_prevE [of L ?f h2, OF live(3)])
  note l1 = live [folded only_dom [OF 1(4)]]
  obtain L2 where 2: "set_next L1 h2 ?f = Some L2" "get_next L2 = (get_next L1)(h2 \<mapsto> ?f)"
    "get_prev L2 = get_prev L1" "only {h2} L1 L2" by (rule set_nextE [of L1 h2 ?f, OF l1(2)])
  note l2 = l1 [folded only_dom [OF 2(4)]]
  obtain L3 where 3: "set_next L2 ?l ?at = Some L3" "get_next L3 = (get_next L2)(?l \<mapsto> ?at)"
    "get_prev L3 = get_prev L2" "only {?l} L2 L3" by (rule set_nextE [of L2 ?l ?at, OF l2(4)])
  note l3 = l2 [folded only_dom [OF 3(4)]]
  obtain L4 where 4: "set_prev L3 ?at ?l = Some L4" "get_prev L4 = (get_prev L3)(?at \<mapsto> ?l)"
    "get_next L4 = get_next L3" "only {?at} L3 L4" by (rule set_prevE [of L3 ?at ?l, OF l3(5)])
  note l4 = l3 [folded only_dom [OF 4(4)]]
  obtain L5 where 5: "coclink_init L4 h1 = Some L5" "get_next L5 = (get_next L4)(h1 \<mapsto> h1)"
    "get_prev L5 = (get_prev L4)(h1 \<mapsto> h1)" "only {h1} L4 L5" by (rule initE [of L4 h1, OF l4(1)])
  have r: "coclink_splice L h1 h2 = Some L5"
    using h 1 2 3 4 5 is_empty_ring [OF c1] False by (simp add: coclink_splice_def)
  have nx5: "get_next L5 = (get_next L)(h2 \<mapsto> ?f, ?l \<mapsto> ?at, h1 \<mapsto> h1)"
    and pv5: "get_prev L5 = (get_prev L)(?f \<mapsto> h2, ?at \<mapsto> ?l, h1 \<mapsto> h1)"
    using 1 2 3 4 5 by simp_all
  have ch: "chain (get_next L) (get_prev L) ps" "chain (get_next L) (get_prev L) (qs @ [h2])"
    using c1 c2 chain_join [of "[h1]" "ps @ [h1]"] chain_join [of ps "[h1]"] False
      chain_join [of "[h2]" "qs @ [h2]"]
    by (simp_all add: coring_def cycle_def)
  have fr: "h2 \<notin> set ps" "h1 \<notin> set ps" "h1 \<notin> set (h2 # qs)" "?l \<notin> set (h2 # qs)" "?at \<notin> set ps" "?f \<notin> set (h2 # qs)"
    using dj d mem at by auto
  have "chain (get_next L5) (get_prev L5) ps"
  proof (rule chain_frame [OF ch(1)])
    have "?l \<notin> set (butlast ps)" "set (butlast ps) \<subseteq> set ps"
      using distinct_ends(1) [of ps] d(1) False by (auto dest: in_set_butlastD)
    then show "\<forall>a\<in>set (butlast ps). get_next L5 a = get_next L a"
      using fr(1,2) by (auto simp: nx5)
    have "?f \<notin> set (tl ps)" using distinct_ends(2) [of ps] d(1) False by simp
    moreover have "set (tl ps) \<subseteq> set ps" by (cases ps) auto
    ultimately show "\<forall>b\<in>set (tl ps). get_prev L5 b = get_prev L b"
      using fr(2,5) by (auto simp: pv5)
  qed
  moreover have "chain (get_next L5) (get_prev L5) (qs @ [h2])"
  proof (rule chain_frame [OF ch(2)])
    show "\<forall>a\<in>set (butlast (qs @ [h2])). get_next L5 a = get_next L a"
      using fr d(2) by (auto simp: nx5)
    have "?at \<notin> set (tl (qs @ [h2]))" using d(2) by (cases qs) auto
    moreover have "set (tl (qs @ [h2])) \<subseteq> set (h2 # qs)" by (cases qs) auto
    ultimately show "\<forall>b\<in>set (tl (qs @ [h2])). get_prev L5 b = get_prev L b"
      using fr by (auto simp: pv5)
  qed
  moreover have "linked (get_next L5) (get_prev L5) h2 ?f" "linked (get_next L5) (get_prev L5) ?l ?at"
  proof -
    have "?at \<noteq> h1" "?f \<noteq> h1" "?l \<noteq> h1" "?f \<noteq> ?at" using fr mem at by metis+
    moreover have "h2 \<noteq> h1" "h2 \<noteq> ?l" using fr by auto
    ultimately show "linked (get_next L5) (get_prev L5) h2 ?f" "linked (get_next L5) (get_prev L5) ?l ?at"
      by (simp_all add: linked_def nx5 pv5)
  qed
  ultimately have "chain (get_next L5) (get_prev L5) (h2 # ps @ qs @ [h2])"
    using False chain_join [of "[h2]" "ps @ qs @ [h2]"] chain_join [of ps "qs @ [h2]"] by simp
  then have "coring L5 h2 (ps @ qs)" using d dj by (auto simp: coring_def cycle_def)
  moreover have "coring L5 h1 []" by (simp add: nx5 pv5)
  moreover have "only (set (h1 # ps @ h2 # qs)) L L5"
  proof (rule only_trans [OF only_trans [OF only_trans [OF only_trans]]])
    let ?S = "set (h1 # ps @ h2 # qs)"
    show "only ?S L L1" by (rule only_mono [OF 1(4)]) (use mem at in auto)
    show "only ?S L1 L2" by (rule only_mono [OF 2(4)]) auto
    show "only ?S L2 L3" by (rule only_mono [OF 3(4)]) (use mem at in auto)
    show "only ?S L3 L4" by (rule only_mono [OF 4(4)]) (use mem at in auto)
    show "only ?S L4 L5" by (rule only_mono [OF 5(4)]) auto
  qed
  ultimately show ?thesis using r by blast
qed

section \<open>Properties\<close>

text \<open>C8: Adding a node that is in no list at the front or at the back of a circular list puts it
  there, and the memory of every other list is untouched.\<close>
theorem coclink_add_correct:
  assumes "coring L h ps" "x \<notin> set (h # ps)" "L x \<noteq> None"
  shows "(\<exists>L'. coclink_add_front L h x = Some L' \<and> coring L' h (x # ps) \<and> only (set (x # h # ps)) L L') \<and>
    (\<exists>L'. coclink_add_back L h x = Some L' \<and> coring L' h (ps @ [x]) \<and> only (set (x # h # ps)) L L')"
  using add_front_ring [OF assms] add_back_ring [OF assms] by blast

theorem coclink_add_correct_witness:
  "\<exists>L'. coclink_add_back [0 \<mapsto> \<lparr>cn_next = 0, cn_prev = 0\<rparr>, 7 \<mapsto> \<lparr>cn_next = 1, cn_prev = 2\<rparr>] 0 (7::nat) = Some L' \<and>
     coring L' 0 [7]"
  using coclink_add_correct [of "[0 \<mapsto> \<lparr>cn_next = 0, cn_prev = 0\<rparr>, 7 \<mapsto> \<lparr>cn_next = 1, cn_prev = 2\<rparr>]" 0 "[]" "7::nat"]
  by (auto simp: get_next_def get_prev_def)



end
