(* ===== verification/TimingWheel.thy ===== *)
theory TimingWheel
  imports Clink
begin

unbundle bit_operations_syntax

text \<open>
  \<open>src/co_timingwheel.c\<close>: a hierarchical timing wheel, five levels of circular lists.  Addresses
  name the list heads of the first wheel (\<open>TvRoot\<close>), of the other four (\<open>Tv\<close>), the local list head
  of a cascade or a tick (\<open>Head\<close>), the timer nodes and the null pointer.  The two pointers with
  which a \<open>cotnode_t\<close> begins live in the links, its other fields in \<open>tw_nodes\<close>.

  A callback is a parameter: a function on the state of its world and the wheel.
\<close>

section \<open>Operations\<close>

definition TVR_BITS :: nat where "TVR_BITS = 8"
definition TVN_BITS :: nat where "TVN_BITS = 6"
definition TVR_SIZE :: nat where "TVR_SIZE = 2 ^ TVR_BITS"
definition TVN_SIZE :: nat where "TVN_SIZE = 2 ^ TVN_BITS"
definition TVR_MASK :: "32 word" where "TVR_MASK = word_of_nat (TVR_SIZE - 1)"
definition TVN_MASK :: "32 word" where "TVN_MASK = word_of_nat (TVN_SIZE - 1)"

definition FIRST_INDEX :: "32 word \<Rightarrow> nat" where
  "FIRST_INDEX v = unat (v AND TVR_MASK)"

definition NTH_INDEX :: "32 word \<Rightarrow> nat \<Rightarrow> nat" where
  "NTH_INDEX v n = unat (drop_bit (TVR_BITS + n * TVN_BITS) v AND TVN_MASK)"

datatype taddr = Null | TvRoot nat | Tv nat nat | Head | Tnode nat

record ('cb, 'ud) cotnode =
  tn_userdata :: 'ud
  tn_callback :: "'cb option"
  tn_expire :: "32 word"

record ('cb, 'ud) cotw =
  tw_links :: "taddr links"
  tw_nodes :: "nat \<Rightarrow> ('cb, 'ud) cotnode option"
  tw_lasttime :: "64 word"
  tw_currtick :: "32 word"
  tw_interval :: "16 word"
  tw_remainder :: "16 word"

definition wheel_heads :: "taddr list" where
  "wheel_heads = map TvRoot [0..<TVR_SIZE] @ [Tv i j. i \<leftarrow> [0..<4], j \<leftarrow> [0..<TVN_SIZE]]"

primrec init_heads :: "taddr links \<Rightarrow> taddr list \<Rightarrow> taddr links exec" where
  "init_heads L [] = Some L"
| "init_heads L (h # hs) = do { L \<leftarrow> coclink_init L h; init_heads L hs }"

definition cotw_init :: "('cb, 'ud) cotw \<Rightarrow> 16 word \<Rightarrow> 64 word \<Rightarrow> ('cb, 'ud) cotw exec" where
  "cotw_init tw interval currtime = do {
     let L = (\<lambda>a. if a \<in> set wheel_heads then Some \<lparr>cn_next = Null, cn_prev = Null\<rparr> else tw_links tw a);
     L \<leftarrow> init_heads L wheel_heads;
     Some (tw\<lparr>tw_links := L, tw_lasttime := currtime, tw_currtick := 0,
              tw_interval := interval, tw_remainder := 0\<rparr>)
   }"

definition cotw_node_init :: "('cb, 'ud) cotw \<Rightarrow> nat \<Rightarrow> 'cb option \<Rightarrow> 'ud \<Rightarrow> ('cb, 'ud) cotw" where
  "cotw_node_init tw node cb ud =
     tw\<lparr>tw_links := (tw_links tw)(Tnode node \<mapsto> \<lparr>cn_next = Null, cn_prev = Null\<rparr>),
        tw_nodes := (tw_nodes tw)(node \<mapsto> \<lparr>tn_userdata = ud, tn_callback = cb, tn_expire = 0\<rparr>)\<rparr>"

text \<open>The wheel and slot for a node: the loop over the four upper wheels is a search.\<close>

definition wheel_slot :: "32 word \<Rightarrow> 32 word \<Rightarrow> taddr option" where
  "wheel_slot currtick expire =
     (let idx = unat (expire - currtick) in
      if idx < TVR_SIZE then Some (TvRoot (FIRST_INDEX expire))
      else map_option (\<lambda>i. Tv i (NTH_INDEX expire i))
        (find (\<lambda>i. idx < 2 ^ (TVR_BITS + (i + 1) * TVN_BITS)) [0..<4]))"

definition cotw_place :: "('cb, 'ud) cotw \<Rightarrow> nat \<Rightarrow> ('cb, 'ud) cotw exec" where
  "cotw_place tw node = do {
     nd \<leftarrow> tw_nodes tw node;
     case wheel_slot (tw_currtick tw) (tn_expire nd) of
       None \<Rightarrow> Some tw
     | Some head \<Rightarrow> do {
         L \<leftarrow> coclink_add_back (tw_links tw) head (Tnode node);
         Some (tw\<lparr>tw_links := L\<rparr>)
       }
   }"

definition cotw_add :: "('cb, 'ud) cotw \<Rightarrow> nat \<Rightarrow> 32 word \<Rightarrow> ('cb, 'ud) cotw exec" where
  "cotw_add tw node ticks = do {
     nd \<leftarrow> tw_nodes tw node;
     let nd = nd\<lparr>tn_expire := tw_currtick tw + (if ticks > 0 then ticks else 1)\<rparr>;
     cotw_place (tw\<lparr>tw_nodes := (tw_nodes tw)(node \<mapsto> nd)\<rparr>) node
   }"

definition cotw_del :: "('cb, 'ud) cotw \<Rightarrow> nat \<Rightarrow> (int \<times> ('cb, 'ud) cotw) exec" where
  "cotw_del tw node = do {
     e \<leftarrow> coclink_is_empty (tw_links tw) (Tnode node);
     if \<not> e then do {
       L \<leftarrow> coclink_remote (tw_links tw) (Tnode node);
       Some (1, tw\<lparr>tw_links := L\<rparr>)
     } else Some (0, tw)
   }"

text \<open>
  The local list head lives from its initialisation to the end of the block; the list is taken
  over by \<open>coclink_splice\<close>.
\<close>

definition open_head :: "('cb, 'ud) cotw \<Rightarrow> taddr \<Rightarrow> ('cb, 'ud) cotw exec" where
  "open_head tw slot = do {
     L \<leftarrow> coclink_init ((tw_links tw)(Head \<mapsto> \<lparr>cn_next = Null, cn_prev = Null\<rparr>)) Head;
     L \<leftarrow> coclink_splice L slot Head;
     Some (tw\<lparr>tw_links := L\<rparr>)
   }"

definition close_head :: "('cb, 'ud) cotw \<Rightarrow> ('cb, 'ud) cotw" where
  "close_head tw = tw\<lparr>tw_links := (tw_links tw)(Head := None)\<rparr>"

text \<open>\<open>head.next\<close>, cast to a timer node.\<close>

definition first_node :: "('cb, 'ud) cotw \<Rightarrow> nat exec" where
  "first_node tw = do {
     a \<leftarrow> get_next (tw_links tw) Head;
     case a of Tnode n \<Rightarrow> Some n | _ \<Rightarrow> None
   }"

partial_function (option) cascade_loop :: "('cb, 'ud) cotw \<Rightarrow> ('cb, 'ud) cotw exec" where
  "cascade_loop tw = do {
     e \<leftarrow> coclink_is_empty (tw_links tw) Head;
     if e then Some tw
     else do {
       node \<leftarrow> first_node tw;
       L \<leftarrow> coclink_remote (tw_links tw) (Tnode node);
       tw \<leftarrow> cotw_place (tw\<lparr>tw_links := L\<rparr>) node;
       cascade_loop tw
     }
   }"

definition cotw_cascade :: "('cb, 'ud) cotw \<Rightarrow> nat \<Rightarrow> nat \<Rightarrow> ('cb, 'ud) cotw exec" where
  "cotw_cascade tw i idx = do {
     tw \<leftarrow> open_head tw (Tv i idx);
     tw \<leftarrow> cascade_loop tw;
     Some (close_head tw)
   }"

function cascade_levels :: "('cb, 'ud) cotw \<Rightarrow> nat \<Rightarrow> ('cb, 'ud) cotw exec" where
  "cascade_levels tw i = do {
     let idx = NTH_INDEX (tw_currtick tw) i;
     tw \<leftarrow> cotw_cascade tw i idx;
     if idx = 0 \<and> i + 1 < 4 then cascade_levels tw (i + 1) else Some tw
   }"
  by pat_completeness auto
termination by (relation "measure (\<lambda>(tw, i). 4 - i)") auto

declare cascade_levels.simps [simp del]

type_synonym ('cb, 'ud, 'w) callback = "'cb \<Rightarrow> 'ud \<Rightarrow> 'w \<times> ('cb, 'ud) cotw \<Rightarrow> ('w \<times> ('cb, 'ud) cotw) exec"

partial_function (option) fire_loop ::
  "('cb, 'ud, 'w) callback \<Rightarrow> 'w \<times> ('cb, 'ud) cotw \<Rightarrow> ('w \<times> ('cb, 'ud) cotw) exec" where
  "fire_loop call s = do {
     let w = fst s;
     let tw = snd s;
     e \<leftarrow> coclink_is_empty (tw_links tw) Head;
     if e then Some s
     else do {
       node \<leftarrow> first_node tw;
       L \<leftarrow> coclink_remote (tw_links tw) (Tnode node);
       let tw = tw\<lparr>tw_links := L\<rparr>;
       nd \<leftarrow> tw_nodes tw node;
       s \<leftarrow> (case tn_callback nd of
               None \<Rightarrow> Some (w, tw)
             | Some cb \<Rightarrow> call cb (tn_userdata nd) (w, tw));
       fire_loop call s
     }
   }"

definition cotw_tick ::
  "('cb, 'ud, 'w) callback \<Rightarrow> 'w \<times> ('cb, 'ud) cotw \<Rightarrow> ('w \<times> ('cb, 'ud) cotw) exec" where
  "cotw_tick call s = do {
     let tw = (snd s)\<lparr>tw_currtick := tw_currtick (snd s) + 1\<rparr>;
     let index = FIRST_INDEX (tw_currtick tw);
     tw \<leftarrow> (if index = 0 then cascade_levels tw 0 else Some tw);
     tw \<leftarrow> open_head tw (TvRoot index);
     (w, tw) \<leftarrow> fire_loop call (fst s, tw);
     Some (w, close_head tw)
   }"

text \<open>The loop of \<open>cotw_update\<close> never ends when the interval is 0.\<close>

partial_function (option) tick_loop ::
  "('cb, 'ud, 'w) callback \<Rightarrow> int \<Rightarrow> int \<Rightarrow> 'w \<times> ('cb, 'ud) cotw \<Rightarrow> (int \<times> 'w \<times> ('cb, 'ud) cotw) exec" where
  "tick_loop call intv diff s =
     (if diff \<ge> intv then do {
        s \<leftarrow> cotw_tick call s;
        tick_loop call intv (diff - intv) s
      } else Some (diff, s))"

definition cotw_update ::
  "('cb, 'ud, 'w) callback \<Rightarrow> 64 word \<Rightarrow> 'w \<times> ('cb, 'ud) cotw \<Rightarrow> ('w \<times> ('cb, 'ud) cotw) exec" where
  "cotw_update call currtime s =
     (let tw = snd s in
      if currtime > tw_lasttime tw then do {
        let diff = sint (ucast (currtime - tw_lasttime tw + ucast (tw_remainder tw)) :: 32 word);
        let intv = uint (tw_interval tw);
        (diff, w, tw) \<leftarrow> tick_loop call intv diff (fst s, tw\<lparr>tw_lasttime := currtime\<rparr>);
        Some (w, tw\<lparr>tw_remainder := word_of_int diff\<rparr>)
      } else Some s)"

section \<open>Slots\<close>

text \<open>
  Ticks are counted from the start without wrapping here: \<open>now\<close> and the due tick \<open>E\<close> of a timer
  are natural numbers, of which the code keeps the lower 32 bits.  A slot of the upper wheel
  \<open>i\<close> covers \<open>span i\<close> ticks.
\<close>

definition span :: "nat \<Rightarrow> nat" where
  "span i = 2 ^ (TVR_BITS + i * TVN_BITS)"

lemma span_simps: "span 0 = 256" "span (Suc i) = 64 * span i"
  by (simp_all add: span_def TVR_BITS_def TVN_BITS_def power_add mult.commute)

lemma span_pos [simp]: "0 < span i"
  by (simp add: span_def)

lemma span_dvd: "i \<le> j \<Longrightarrow> span i dvd span j"
  by (simp add: span_def le_imp_power_dvd)

lemma span_4: "span 4 = 2 ^ 32"
  by (simp add: span_def TVR_BITS_def TVN_BITS_def)

lemma unat_ticks: "unat (word_of_nat E :: 32 word) = take_bit 32 E"
  by (simp add: unsigned_of_nat)

lemma FIRST_INDEX_nat: "FIRST_INDEX (word_of_nat E) = E mod 256"
proof -
  have "TVR_MASK = mask 8" by (simp add: TVR_MASK_def TVR_SIZE_def TVR_BITS_def mask_eq_exp_minus_1)
  then have "FIRST_INDEX (word_of_nat E) = unat (take_bit 8 (word_of_nat E :: 32 word))"
    by (simp add: FIRST_INDEX_def take_bit_eq_mask)
  also have "\<dots> = take_bit 8 (take_bit 32 E)" by (simp only: unsigned_take_bit_eq unat_ticks)
  also have "\<dots> = take_bit 8 E" by simp
  finally show ?thesis by (simp add: take_bit_eq_mod)
qed

lemma NTH_INDEX_nat:
  assumes "i < 4"
  shows "NTH_INDEX (word_of_nat E) i = E div span i mod 64"
proof -
  let ?k = "TVR_BITS + i * TVN_BITS"
  have k: "6 + ?k \<le> 32" using assms by (simp add: TVR_BITS_def TVN_BITS_def)
  have "TVN_MASK = mask 6" by (simp add: TVN_MASK_def TVN_SIZE_def TVN_BITS_def mask_eq_exp_minus_1)
  then have "NTH_INDEX (word_of_nat E) i = unat (take_bit 6 (drop_bit ?k (word_of_nat E :: 32 word)))"
    by (simp add: NTH_INDEX_def take_bit_eq_mask)
  also have "\<dots> = take_bit 6 (drop_bit ?k (take_bit 32 E))"
    by (simp only: unsigned_take_bit_eq unat_drop_bit_eq unat_ticks)
  also have "\<dots> = take_bit 6 (drop_bit ?k E)"
    using k by (intro bit_eqI) (auto simp: bit_simps)
  finally show ?thesis by (simp add: take_bit_eq_mod drop_bit_eq_div span_def)
qed

lemma ticks_diff: "now \<le> E \<Longrightarrow> E < now + 2 ^ 32 \<Longrightarrow> unat (word_of_nat E - word_of_nat now :: 32 word) = E - now"
proof -
  assume "now \<le> E" "E < now + 2 ^ 32"
  moreover have "word_of_nat E - word_of_nat now = (word_of_nat (E - now) :: 32 word)"
    using calculation by (simp add: of_nat_diff)
  ultimately show ?thesis by (simp add: unsigned_of_nat take_bit_nat_eq_self del: of_nat_diff)
qed

text \<open>Where a timer that is due at \<open>E\<close> may stand at tick \<open>now\<close>.\<close>

fun slot_ok :: "nat \<Rightarrow> taddr \<Rightarrow> nat \<Rightarrow> bool" where
  "slot_ok now (TvRoot j) E \<longleftrightarrow> now < E \<and> E < now + 256 \<and> j = E mod 256"
| "slot_ok now (Tv i j) E \<longleftrightarrow> now < E \<and> E < now + span (Suc i) \<and> j = E div span i mod 64 \<and>
     now div span i < E div span i"
| "slot_ok now Head E \<longleftrightarrow> E = now"
| "slot_ok now _ E \<longleftrightarrow> False"

lemma div_span_less: "now + span i \<le> E \<Longrightarrow> now div span i < E div span i"
  by (metis Suc_le_lessD div_add_self2 div_le_mono not_less_zero span_pos Suc_eq_plus1 neq0_conv)

lemma wheel_slot_level:
  assumes "now \<le> E" "E < now + 2 ^ 32" "256 \<le> E - now"
  shows "\<exists>i<4. wheel_slot (word_of_nat now) (word_of_nat E) = Some (Tv i (E div span i mod 64)) \<and>
    span i \<le> E - now \<and> E - now < span (Suc i)"
proof -
  let ?d = "E - now"
  have "?d < span 4" using assms span_4 by simp
  then consider "?d < span 1" | "span 1 \<le> ?d" "?d < span 2" | "span 2 \<le> ?d" "?d < span 3"
    | "span 3 \<le> ?d" "?d < span 4" by linarith
  then obtain i where i: "i < 4" "span i \<le> ?d" "?d < span (Suc i)"
    "find (\<lambda>i. ?d < 2 ^ (TVR_BITS + (i + 1) * TVN_BITS)) [0..<4] = Some i"
  proof cases
    case 1
    then show thesis using assms(3) by (intro that [of 0]) (simp_all add: upt_rec span_def TVR_BITS_def TVN_BITS_def)
  next
    case 2
    then show thesis by (intro that [of 1]) (simp_all add: upt_rec span_def TVR_BITS_def TVN_BITS_def)
  next
    case 3
    then show thesis by (intro that [of 2]) (simp_all add: upt_rec span_def TVR_BITS_def TVN_BITS_def)
  next
    case 4
    then show thesis by (intro that [of 3]) (simp_all add: upt_rec span_def TVR_BITS_def TVN_BITS_def)
  qed
  then show ?thesis
    using assms(3) ticks_diff [OF assms(1,2)]
    by (auto simp: wheel_slot_def Let_def NTH_INDEX_nat TVR_SIZE_def TVR_BITS_def)
qed

lemma wheel_slot_root:
  assumes "now \<le> E" "E < now + 256"
  shows "wheel_slot (word_of_nat now) (word_of_nat E) = Some (TvRoot (E mod 256))"
  using assms ticks_diff [of now E]
  by (simp add: wheel_slot_def Let_def FIRST_INDEX_nat TVR_SIZE_def TVR_BITS_def)

section \<open>The lists of the wheel\<close>

text \<open>\<open>rings H L W\<close>: the lists with heads \<open>H\<close> hold the timers \<open>W\<close>, and share none.\<close>

definition rings :: "taddr set \<Rightarrow> taddr links \<Rightarrow> (taddr \<Rightarrow> nat list) \<Rightarrow> bool" where
  "rings H L W \<longleftrightarrow> H \<inter> range Tnode = {} \<and> (\<forall>h\<in>H. coring L h (map Tnode (W h))) \<and>
     (\<forall>h\<in>H. \<forall>g\<in>H. h \<noteq> g \<longrightarrow> set (W h) \<inter> set (W g) = {})"

definition members :: "taddr set \<Rightarrow> (taddr \<Rightarrow> nat list) \<Rightarrow> nat set" where
  "members H W = (\<Union>h\<in>H. set (W h))"

lemma member_of: "h \<in> H \<Longrightarrow> n \<in> set (W h) \<Longrightarrow> n \<in> members H W"
  by (auto simp: members_def)

lemma rings_distinct: "rings H L W \<Longrightarrow> h \<in> H \<Longrightarrow> distinct (W h)"
  using coring_distinct [of L h "map Tnode (W h)"] by (auto simp: rings_def distinct_map)

lemma rings_head: "rings H L W \<Longrightarrow> h \<in> H \<Longrightarrow> h \<noteq> Tnode n"
  by (auto simp: rings_def)

lemma rings_disjoint:
  "rings H L W \<Longrightarrow> g \<in> H \<Longrightarrow> h \<in> H \<Longrightarrow> m \<in> set (W g) \<Longrightarrow> m \<in> set (W h) \<Longrightarrow> g = h"
  unfolding rings_def by blast

text \<open>A list other than those touched stays as it was.\<close>

lemma rings_frame:
  assumes r: "rings H L W" and o: "only A L L'" and g: "g \<in> H" "g \<notin> A" "\<And>n. n \<in> set (W g) \<Longrightarrow> Tnode n \<notin> A"
  shows "coring L' g (map Tnode (W g))"
proof (rule coring_only [OF _ o])
  show "coring L g (map Tnode (W g))" using r g(1) by (simp add: rings_def)
  show "A \<inter> set (g # map Tnode (W g)) = {}" using g by auto
qed

lemma rings_add_back:
  assumes r: "rings H L W" and h: "h \<in> H" and n: "n \<notin> members H W" "L (Tnode n) \<noteq> None"
  shows "\<exists>L'. coclink_add_back L h (Tnode n) = Some L' \<and> rings H L' (W(h := W h @ [n])) \<and>
    only (insert h (Tnode ` insert n (set (W h)))) L L'"
proof -
  have c: "coring L h (map Tnode (W h))" using r h by (simp add: rings_def)
  have "Tnode n \<notin> set (h # map Tnode (W h))"
    using rings_head [OF r h, of n] member_of [OF h, of n W] n(1) by auto
  then obtain L' where L': "coclink_add_back L h (Tnode n) = Some L'"
    "coring L' h (map Tnode (W h) @ [Tnode n])" "only (set (Tnode n # h # map Tnode (W h))) L L'"
    using add_back_ring [OF c _ n(2)] by blast
  have A: "set (Tnode n # h # map Tnode (W h)) = insert h (Tnode ` insert n (set (W h)))" by auto
  have "rings H L' (W(h := W h @ [n]))"
    unfolding rings_def
  proof (intro conjI ballI)
    show "H \<inter> range Tnode = {}" using r by (simp add: rings_def)
    fix g assume g: "g \<in> H"
    show "coring L' g (map Tnode ((W(h := W h @ [n])) g))"
    proof (cases "g = h")
      case False
      have "Tnode m \<notin> insert h (Tnode ` insert n (set (W h)))" if "m \<in> set (W g)" for m
        using that False rings_disjoint [OF r g h] n(1) member_of [OF g] rings_head [OF r h, of m] by auto
      then show ?thesis
        using False rings_frame [OF r L'(3) g] rings_head [OF r g] unfolding A by auto
    qed (use L'(2) in simp)
    fix f assume "f \<in> H"
    then show "g \<noteq> f \<longrightarrow> set ((W(h := W h @ [n])) g) \<inter> set ((W(h := W h @ [n])) f) = {}"
      using g n(1) r h by (auto simp: rings_def members_def)
  qed
  then show ?thesis using L'(1,3) A by auto
qed

lemma rings_remote:
  assumes r: "rings H L W" and h: "h \<in> H" and n: "n \<in> set (W h)"
  shows "\<exists>L'. coclink_remote L (Tnode n) = Some L' \<and> rings H L' (W(h := remove1 n (W h))) \<and>
    coring L' (Tnode n) [] \<and> only (insert h (Tnode ` set (W h))) L L'"
proof -
  obtain xs ys where w: "W h = xs @ n # ys" "n \<notin> set xs" using split_list_first [OF n] by blast
  have c: "coring L h (map Tnode xs @ Tnode n # map Tnode ys)" using r h w(1) by (auto simp: rings_def)
  then obtain L' where L': "coclink_remote L (Tnode n) = Some L'"
    "coring L' h (map Tnode xs @ map Tnode ys)" "coring L' (Tnode n) []"
    "only (set (h # map Tnode xs @ Tnode n # map Tnode ys)) L L'"
    using remote_ring [OF c] by blast
  have A: "set (h # map Tnode xs @ Tnode n # map Tnode ys) = insert h (Tnode ` set (W h))" using w by auto
  have rm: "remove1 n (W h) = xs @ ys" using w by (simp add: remove1_append)
  have sub: "set (xs @ ys) \<subseteq> set (W h)" using w by auto
  have "rings H L' (W(h := xs @ ys))"
    unfolding rings_def
  proof (intro conjI ballI)
    show "H \<inter> range Tnode = {}" using r by (simp add: rings_def)
    fix g assume g: "g \<in> H"
    show "coring L' g (map Tnode ((W(h := xs @ ys)) g))"
    proof (cases "g = h")
      case False
      have "Tnode m \<notin> insert h (Tnode ` set (W h))" if "m \<in> set (W g)" for m
        using that False rings_disjoint [OF r g h] rings_head [OF r h, of m] by auto
      then show ?thesis
        using False rings_frame [OF r L'(4) g] rings_head [OF r g] unfolding A by auto
    qed (use L'(2) in simp)
    fix f assume "f \<in> H"
    then show "g \<noteq> f \<longrightarrow> set ((W(h := xs @ ys)) g) \<inter> set ((W(h := xs @ ys)) f) = {}"
      using g r h sub unfolding rings_def by (auto simp del: set_append) blast+
  qed
  then show ?thesis using L'(1,3,4) A rm by auto
qed

lemma rings_splice:
  assumes r: "rings H L W" and h: "h \<in> H" "k \<in> H" "h \<noteq> k" and k: "W k = []"
  shows "\<exists>L'. coclink_splice L h k = Some L' \<and> rings H L' (W(h := [], k := W h)) \<and>
    only ({h, k} \<union> Tnode ` set (W h)) L L'"
proof -
  have c: "coring L h (map Tnode (W h))" "coring L k (map Tnode (W k))" using r h by (auto simp: rings_def)
  have "set (h # map Tnode (W h)) \<inter> set (k # map Tnode (W k)) = {}"
    using h(3) k rings_head [OF r h(2)] by auto
  then obtain L' where L': "coclink_splice L h k = Some L'" "coring L' h []" "coring L' k (map Tnode (W h))"
    "only (set (h # map Tnode (W h) @ k # [])) L L'"
    using splice_ring [OF c] k by auto
  have A: "set (h # map Tnode (W h) @ k # []) = {h, k} \<union> Tnode ` set (W h)" by auto
  have "rings H L' (W(h := [], k := W h))"
    unfolding rings_def
  proof (intro conjI ballI)
    show "H \<inter> range Tnode = {}" using r by (simp add: rings_def)
    fix g assume g: "g \<in> H"
    show "coring L' g (map Tnode ((W(h := [], k := W h)) g))"
    proof (cases "g = h \<or> g = k")
      case False
      have "Tnode m \<notin> {h, k} \<union> Tnode ` set (W h)" if "m \<in> set (W g)" for m
        using that False rings_disjoint [OF r g h(1)] rings_head [OF r h(1), of m] rings_head [OF r h(2), of m]
        by auto
      then show ?thesis
        using False rings_frame [OF r L'(4) g] rings_head [OF r g] unfolding A by auto
    qed (use L'(2,3) h(3) in auto)
    fix f assume "f \<in> H"
    then show "g \<noteq> f \<longrightarrow> set ((W(h := [], k := W h)) g) \<inter> set ((W(h := [], k := W h)) f) = {}"
      using g r h unfolding rings_def by auto
  qed
  then show ?thesis using L'(1,4) A by auto
qed

section \<open>The state of the wheel\<close>

text \<open>
  The abstract state is the callback and user data of every timer (\<open>info\<close>) and the due tick of
  every pending one (\<open>pend\<close>).  A timer that is not pending is linked to itself.
\<close>

abbreviation heads :: "taddr set" where
  "heads \<equiv> set wheel_heads"

definition node_ok :: "('cb, 'ud) cotw \<Rightarrow> nat \<Rightarrow> 'cb option \<times> 'ud \<Rightarrow> nat option \<Rightarrow> bool" where
  "node_ok tw n i p \<longleftrightarrow> (\<exists>nd. tw_nodes tw n = Some nd \<and> (tn_callback nd, tn_userdata nd) = i \<and>
     (case p of None \<Rightarrow> coring (tw_links tw) (Tnode n) [] | Some E \<Rightarrow> tn_expire nd = word_of_nat E))"

definition wheel :: "taddr set \<Rightarrow> (taddr \<Rightarrow> nat \<Rightarrow> bool) \<Rightarrow> ('cb, 'ud) cotw \<Rightarrow> nat \<Rightarrow>
    (nat \<Rightarrow> ('cb option \<times> 'ud) option) \<Rightarrow> (nat \<Rightarrow> nat option) \<Rightarrow> (taddr \<Rightarrow> nat list) \<Rightarrow> bool" where
  "wheel H P tw now info pend W \<longleftrightarrow> rings H (tw_links tw) W \<and> tw_currtick tw = word_of_nat now \<and>
     dom pend \<subseteq> dom info \<and> dom pend = members H W \<and>
     (\<forall>n i. info n = Some i \<longrightarrow> node_ok tw n i (pend n)) \<and>
     (\<forall>h\<in>H. \<forall>n\<in>set (W h). P h (the (pend n)))"

lemma wheelD:
  assumes "wheel H P tw now info pend W"
  shows "rings H (tw_links tw) W" "tw_currtick tw = word_of_nat now" "dom pend \<subseteq> dom info"
    "dom pend = members H W" "\<And>n i. info n = Some i \<Longrightarrow> node_ok tw n i (pend n)"
    "\<And>h n. h \<in> H \<Longrightarrow> n \<in> set (W h) \<Longrightarrow> P h (the (pend n))"
  using assms unfolding wheel_def by blast+

lemma wheel_mono:
  assumes "wheel H P tw now info pend W"
    "\<And>h n E. h \<in> H \<Longrightarrow> n \<in> set (W h) \<Longrightarrow> pend n = Some E \<Longrightarrow> P h E \<Longrightarrow> Q h E"
  shows "wheel H Q tw now info pend W"
proof -
  have "\<exists>E. pend n = Some E" if "h \<in> H" "n \<in> set (W h)" for h n
    using wheelD(4) [OF assms(1)] member_of [of h H n W] that by blast
  then show ?thesis using assms unfolding wheel_def by (metis option.sel)
qed

lemma node_ok_links:
  assumes "node_ok tw n i p" "p = None \<longrightarrow> L (Tnode n) = tw_links tw (Tnode n)"
  shows "node_ok (tw\<lparr>tw_links := L\<rparr>) n i p"
proof (cases p)
  case None
  then have "coring L (Tnode n) []"
    using assms by (auto simp: node_ok_def get_next_def get_prev_def)
  then show ?thesis using assms(1) None by (auto simp: node_ok_def)
qed (use assms(1) in \<open>auto simp: node_ok_def\<close>)

lemma members_add: "h \<in> H \<Longrightarrow> members H (W(h := W h @ [n])) = insert n (members H W)"
  unfolding members_def by (auto split: if_splits)

lemma members_remove:
  assumes "rings H L W" "h \<in> H" "n \<in> set (W h)"
  shows "members H (W(h := remove1 n (W h))) = members H W - {n}"
proof -
  have "set (remove1 n (W h)) = set (W h) - {n}" using rings_distinct [OF assms(1,2)] by (simp add: set_remove1_eq)
  moreover have "n \<notin> set (W g)" if "g \<in> H" "g \<noteq> h" for g
    using rings_disjoint [OF assms(1) that(1) assms(2)] that(2) assms(3) by blast
  ultimately show ?thesis using assms(2) unfolding members_def by (auto split: if_splits)
qed

text \<open>Placing a node that is in no list, and taking a node out of its list.\<close>

lemma wheel_place:
  assumes w: "wheel H P tw now info pend W" and n: "pend n = None" "tw_links tw (Tnode n) \<noteq> None"
    and nd: "tw_nodes tw n = Some nd" "tn_expire nd = word_of_nat E"
    and h: "wheel_slot (word_of_nat now) (word_of_nat E) = Some h" "h \<in> H" "P h E"
  shows "\<exists>L'. cotw_place tw n = Some (tw\<lparr>tw_links := L'\<rparr>) \<and>
    wheel H P (tw\<lparr>tw_links := L'\<rparr>) now (info(n \<mapsto> (tn_callback nd, tn_userdata nd))) (pend(n \<mapsto> E))
      (W(h := W h @ [n]))"
proof -
  note d = wheelD [OF w]
  have nm: "n \<notin> members H W" using d(4) n(1) by blast
  obtain L' where L': "coclink_add_back (tw_links tw) h (Tnode n) = Some L'"
    "rings H L' (W(h := W h @ [n]))" "only (insert h (Tnode ` insert n (set (W h)))) (tw_links tw) L'"
    using rings_add_back [OF d(1) h(2) nm n(2)] by blast
  let ?tw = "tw\<lparr>tw_links := L'\<rparr>" and ?info = "info(n \<mapsto> (tn_callback nd, tn_userdata nd))"
  have "cotw_place tw n = Some ?tw"
    using nd d(2) h(1) L'(1) by (simp add: cotw_place_def)
  moreover have "wheel H P ?tw now ?info (pend(n \<mapsto> E)) (W(h := W h @ [n]))"
    unfolding wheel_def
  proof (intro conjI allI impI ballI)
    show "rings H (tw_links ?tw) (W(h := W h @ [n]))" using L'(2) by simp
    show "tw_currtick ?tw = word_of_nat now" using d(2) by simp
    show "dom (pend(n \<mapsto> E)) \<subseteq> dom ?info" using d(3) by auto
    show "dom (pend(n \<mapsto> E)) = members H (W(h := W h @ [n]))" using d(4) members_add [OF h(2)] by simp
    show "node_ok ?tw m i ((pend(n \<mapsto> E)) m)" if "?info m = Some i" for m i
    proof (cases "m = n")
      case True
      then show ?thesis using that nd by (auto simp: node_ok_def)
    next
      case False
      then have "node_ok tw m i (pend m)" using d(5) that by simp
      moreover have "pend m = None \<longrightarrow> L' (Tnode m) = tw_links tw (Tnode m)"
      proof
        assume "pend m = None"
        then have "m \<notin> set (W h)" using d(4) member_of [OF h(2)] by blast
        then show "L' (Tnode m) = tw_links tw (Tnode m)"
          using L'(3) False rings_head [OF d(1) h(2), of m] by (auto simp: only_def)
      qed
      ultimately have "node_ok ?tw m i (pend m)" by (rule node_ok_links)
      then show ?thesis using False by simp
    qed
    show "P g (the ((pend(n \<mapsto> E)) m))" if "g \<in> H" "m \<in> set ((W(h := W h @ [n])) g)" for g m
    proof (cases "m = n")
      case True
      then have "g = h" using that nm member_of [of g H n W] by (auto split: if_splits)
      then show ?thesis using True h(3) by simp
    qed (use that d(6) in \<open>auto split: if_splits\<close>)
  qed
  ultimately show ?thesis by blast
qed

lemma wheel_remote:
  assumes w: "wheel H P tw now info pend W" and h: "h \<in> H" and n: "n \<in> set (W h)"
  shows "\<exists>L'. coclink_remote (tw_links tw) (Tnode n) = Some L' \<and>
    wheel H P (tw\<lparr>tw_links := L'\<rparr>) now info (pend(n := None)) (W(h := remove1 n (W h))) \<and>
    L' (Tnode n) \<noteq> None"
proof -
  note d = wheelD [OF w]
  obtain L' where L': "coclink_remote (tw_links tw) (Tnode n) = Some L'"
    "rings H L' (W(h := remove1 n (W h)))" "coring L' (Tnode n) []"
    "only (insert h (Tnode ` set (W h))) (tw_links tw) L'"
    using rings_remote [OF d(1) h n] by blast
  let ?tw = "tw\<lparr>tw_links := L'\<rparr>"
  have "wheel H P ?tw now info (pend(n := None)) (W(h := remove1 n (W h)))"
    unfolding wheel_def
  proof (intro conjI allI impI ballI)
    show "rings H (tw_links ?tw) (W(h := remove1 n (W h)))" using L'(2) by simp
    show "tw_currtick ?tw = word_of_nat now" using d(2) by simp
    show "dom (pend(n := None)) \<subseteq> dom info" using d(3) by auto
    show "dom (pend(n := None)) = members H (W(h := remove1 n (W h)))"
      using d(4) members_remove [OF d(1) h n] by simp
    show "node_ok ?tw m i ((pend(n := None)) m)" if "info m = Some i" for m i
    proof (cases "m = n")
      case True
      then show ?thesis using d(5) [OF that] L'(3) by (auto simp: node_ok_def)
    next
      case False
      have "pend m = None \<longrightarrow> L' (Tnode m) = tw_links tw (Tnode m)"
      proof
        assume "pend m = None"
        then have "m \<notin> set (W h)" using d(4) member_of [OF h] by blast
        then show "L' (Tnode m) = tw_links tw (Tnode m)"
          using L'(4) rings_head [OF d(1) h, of m] by (auto simp: only_def)
      qed
      with d(5) [OF that] have "node_ok ?tw m i (pend m)" by (rule node_ok_links)
      then show ?thesis using False by simp
    qed
    show "P g (the ((pend(n := None)) m))" if g: "g \<in> H" "m \<in> set ((W(h := remove1 n (W h))) g)" for g m
    proof -
      have "m \<in> set (W g)" using g(2) set_remove1_subset [of n "W h"] by (auto split: if_splits)
      moreover have "m \<noteq> n"
        using members_remove [OF d(1) h n] member_of [of g H m "W(h := remove1 n (W h))"] g by blast
      ultimately show ?thesis using d(6) [OF g(1)] by simp
    qed
  qed
  moreover have "L' (Tnode n) \<noteq> None" using L'(3) by (auto simp: get_next_def)
  ultimately show ?thesis using L'(1) by blast
qed

section \<open>The local list head\<close>

lemma mem_heads:
  "TvRoot j \<in> heads \<longleftrightarrow> j < 256" "Tv i j \<in> heads \<longleftrightarrow> i < 4 \<and> j < 64" "Head \<notin> heads" "Tnode n \<notin> heads"
  "Null \<notin> heads"
  by (auto simp: wheel_heads_def TVR_SIZE_def TVR_BITS_def TVN_SIZE_def TVN_BITS_def image_iff)

lemma rings_upd_unused:
  "rings H L W \<Longrightarrow> a \<notin> H \<Longrightarrow> a \<notin> range Tnode \<Longrightarrow> rings H (L(a := x)) W"
  unfolding rings_def
proof (elim conjE, intro conjI ballI)
  fix h assume "a \<notin> H" "a \<notin> range Tnode" "h \<in> H" "\<forall>h\<in>H. coring L h (map Tnode (W h))"
  moreover from this(1-3) have "Tnode m \<noteq> a" "h \<noteq> a" for m by blast+
  ultimately show "coring (L(a := x)) h (map Tnode (W h))"
    using coring_frame [of L h "map Tnode (W h)" "L(a := x)"] by auto
qed blast+

lemma open_head_wheel:
  assumes w: "wheel heads P tw now info pend W" and h: "h \<in> heads"
    and P': "\<And>n E. n \<in> set (W h) \<Longrightarrow> P h E \<Longrightarrow> P' Head E"
    "\<And>g n E. g \<in> heads \<Longrightarrow> g \<noteq> h \<Longrightarrow> P g E \<Longrightarrow> P' g E"
  shows "\<exists>L'. open_head tw h = Some (tw\<lparr>tw_links := L'\<rparr>) \<and>
    wheel (insert Head heads) P' (tw\<lparr>tw_links := L'\<rparr>) now info pend (W(h := [], Head := W h))"
proof -
  note d = wheelD [OF w]
  let ?H = "insert Head heads" and ?L0 = "(tw_links tw)(Head \<mapsto> \<lparr>cn_next = Null, cn_prev = Null\<rparr>)"
  have hh: "h \<noteq> Head" using h mem_heads by auto
  obtain L1 where L1: "coclink_init ?L0 Head = Some L1" "coring L1 Head []" "only {Head} ?L0 L1"
    using init_ring [of ?L0 Head] by auto
  have same: "L1 a = tw_links tw a" if "a \<noteq> Head" for a using L1(3) that by (auto simp: only_def)
  let ?W = "W(Head := [])"
  have "rings ?H L1 ?W"
    unfolding rings_def
  proof (intro conjI ballI)
    show "?H \<inter> range Tnode = {}" using d(1) by (auto simp: rings_def)
    fix g assume g: "g \<in> ?H"
    show "coring L1 g (map Tnode (?W g))"
    proof (cases "g = Head")
      case False
      then have "coring (tw_links tw) g (map Tnode (W g))" using g d(1) by (auto simp: rings_def)
      then show ?thesis using False by (auto elim!: coring_frame intro!: same)
    qed (use L1(2) in simp)
    fix f assume "f \<in> ?H"
    then show "g \<noteq> f \<longrightarrow> set (?W g) \<inter> set (?W f) = {}"
      using g rings_disjoint [OF d(1), of g f] by auto
  qed
  then obtain L2 where L2: "coclink_splice L1 h Head = Some L2" "rings ?H L2 (?W(h := [], Head := ?W h))"
    "only ({h, Head} \<union> Tnode ` set (?W h)) L1 L2"
    using rings_splice [of ?H L1 ?W h Head] h hh by auto
  have W: "?W(h := [], Head := ?W h) = W(h := [], Head := W h)" using hh by auto
  let ?W' = "W(h := [], Head := W h)" and ?tw = "tw\<lparr>tw_links := L2\<rparr>"
  have "open_head tw h = Some ?tw" using L1(1) L2(1) by (simp add: open_head_def)
  moreover have "wheel ?H P' ?tw now info pend ?W'"
    unfolding wheel_def
  proof (intro conjI allI impI ballI)
    show "rings ?H (tw_links ?tw) ?W'" using L2(2) W by simp
    show "tw_currtick ?tw = word_of_nat now" using d(2) by simp
    show "dom pend \<subseteq> dom info" by (rule d(3))
    show "dom pend = members ?H ?W'"
      using d(4) h hh mem_heads(3) by (auto simp: members_def split: if_splits)
    show "node_ok ?tw n i (pend n)" if "info n = Some i" for n i
    proof -
      have "pend n = None \<longrightarrow> L2 (Tnode n) = tw_links tw (Tnode n)"
      proof
        assume "pend n = None"
        then have "n \<notin> set (W h)" using d(4) member_of [OF h] by blast
        then have "Tnode n \<notin> {h, Head} \<union> Tnode ` set (?W h)"
          using hh rings_head [OF d(1) h, of n] by auto
        then have "L2 (Tnode n) = L1 (Tnode n)" using L2(3) unfolding only_def by blast
        then show "L2 (Tnode n) = tw_links tw (Tnode n)" using same by simp
      qed
      with d(5) [OF that] show ?thesis by (rule node_ok_links)
    qed
    show "P' g (the (pend n))" if "g \<in> ?H" "n \<in> set (?W' g)" for g n
      using that d(6) [of g n] d(6) [OF h, of n] P' hh by (auto split: if_splits)
  qed
  ultimately show ?thesis by blast
qed

lemma close_head_wheel:
  assumes w: "wheel (insert Head heads) P tw now info pend W" and e: "W Head = []"
  shows "wheel heads P (close_head tw) now info pend W"
proof -
  note d = wheelD [OF w]
  have r: "rings heads (tw_links tw) W" using d(1) by (auto simp: rings_def)
  show ?thesis
    unfolding wheel_def
  proof (intro conjI allI impI ballI)
    show "rings heads (tw_links (close_head tw)) W"
      using rings_upd_unused [OF r mem_heads(3)] by (auto simp: close_head_def)
    show "dom pend = members heads W" using d(4) e by (simp add: members_def)
    show "node_ok (close_head tw) n i (pend n)" if "info n = Some i" for n i
      unfolding close_head_def using d(5) [OF that] by (intro node_ok_links) auto
  qed (use d in \<open>auto simp: close_head_def\<close>)
qed

lemma head_empty:
  "wheel (insert Head heads) P tw now info pend W \<Longrightarrow>
   coclink_is_empty (tw_links tw) Head = Some (W Head = [])"
  using is_empty_ring [of "tw_links tw" Head "map Tnode (W Head)"]
  by (auto simp: wheel_def rings_def)

lemma head_first:
  "wheel (insert Head heads) P tw now info pend W \<Longrightarrow> W Head = n # ns \<Longrightarrow> first_node tw = Some n"
  using coring_head(1) [of "tw_links tw" Head "map Tnode (W Head)"]
  by (auto simp: wheel_def rings_def first_node_def)

section \<open>Cascading\<close>

text \<open>During a tick that has cascaded the wheels below \<open>k\<close>.\<close>

fun cas :: "nat \<Rightarrow> nat \<Rightarrow> taddr \<Rightarrow> nat \<Rightarrow> bool" where
  "cas k t (TvRoot j) E \<longleftrightarrow> t \<le> E \<and> E < t + 256 \<and> j = E mod 256"
| "cas k t (Tv i j) E \<longleftrightarrow> t \<le> E \<and> E < t + span (Suc i) \<and> j = E div span i mod 64 \<and>
     (if i < k then t else t - 1) div span i < E div span i"
| "cas k t Head E \<longleftrightarrow> t \<le> E \<and> E < t + span (k - 1)"
| "cas k t _ E \<longleftrightarrow> False"

lemma place_cas:
  assumes "t \<le> E" "E < t + span i" "i \<le> 3" "i < k"
  shows "\<exists>h\<in>heads. wheel_slot (word_of_nat t) (word_of_nat E) = Some h \<and> cas k t h E"
proof (cases "E < t + 256")
  case True
  then show ?thesis
    using assms(1) wheel_slot_root [of t E] by (intro bexI [of _ "TvRoot (E mod 256)"]) (auto simp: mem_heads)
next
  case False
  have "span i \<le> span 4" using assms(3) using span_dvd [of i 4] by (intro dvd_imp_le) simp_all
  then have "E < t + 2 ^ 32" "256 \<le> E - t" using assms(2) span_4 False by simp_all
  then obtain j where j: "j < 4" "wheel_slot (word_of_nat t) (word_of_nat E) = Some (Tv j (E div span j mod 64))"
    "span j \<le> E - t" "E - t < span (Suc j)"
    using wheel_slot_level [OF assms(1)] by blast
  have "span j < span i" using j(3) assms(1,2) by linarith
  then have "j < i" using span_dvd [of i j] by (meson dvd_imp_le not_less span_pos)
  then show ?thesis
    using j assms div_span_less [of t j E] by (intro bexI [of _ "Tv j (E div span j mod 64)"]) (auto simp: mem_heads)
qed

lemma cascade_loop_wheel:
  assumes "wheel (insert Head heads) (cas (Suc k) t) tw t info pend W" "k \<le> 3"
  shows "\<exists>L' W'. cascade_loop tw = Some (tw\<lparr>tw_links := L'\<rparr>) \<and> W' Head = [] \<and>
    wheel (insert Head heads) (cas (Suc k) t) (tw\<lparr>tw_links := L'\<rparr>) t info pend W'"
  using assms(1)
proof (induction "W Head" arbitrary: tw W)
  case Nil
  have "cascade_loop tw = Some tw"
    using head_empty [OF Nil.prems] Nil.hyps by (subst cascade_loop.simps) simp
  then show ?case using Nil by (intro exI [of _ "tw_links tw"] exI [of _ W]) simp
next
  case (Cons n ns)
  let ?H = "insert Head heads" and ?P = "cas (Suc k) t"
  note w = Cons.prems
  note d = wheelD [OF w]
  have n: "n \<in> set (W Head)" using Cons.hyps(2) by (metis list.set_intros(1))
  have "n \<in> dom pend" using d(4) member_of [of Head ?H n W] n by simp
  then obtain E i where E: "pend n = Some E" "info n = Some i" using d(3) by blast
  then have P: "?P Head E" using d(6) [of Head n] n by simp
  obtain nd where nd: "tw_nodes tw n = Some nd" "(tn_callback nd, tn_userdata nd) = i" "tn_expire nd = word_of_nat E"
    using d(5) [OF E(2)] E(1) by (auto simp: node_ok_def)
  obtain L1 where L1: "coclink_remote (tw_links tw) (Tnode n) = Some L1"
    "wheel ?H ?P (tw\<lparr>tw_links := L1\<rparr>) t info (pend(n := None)) (W(Head := remove1 n (W Head)))"
    "L1 (Tnode n) \<noteq> None"
    using wheel_remote [OF w, of Head n] n by auto
  obtain h where h: "h \<in> heads" "wheel_slot (word_of_nat t) (word_of_nat E) = Some h" "?P h E"
    using place_cas [of t E k "Suc k"] P assms(2) by auto
  let ?W1 = "W(Head := remove1 n (W Head))"
  obtain L2 where L2: "cotw_place (tw\<lparr>tw_links := L1\<rparr>) n = Some (tw\<lparr>tw_links := L2\<rparr>)"
    "wheel ?H ?P (tw\<lparr>tw_links := L2\<rparr>) t (info(n \<mapsto> (tn_callback nd, tn_userdata nd)))
      ((pend(n := None))(n \<mapsto> E)) (?W1(h := ?W1 h @ [n]))"
    using wheel_place [of ?H ?P "tw\<lparr>tw_links := L1\<rparr>" t info "pend(n := None)" ?W1 n nd E h] L1(2,3) nd h
    by auto
  have same: "info(n \<mapsto> (tn_callback nd, tn_userdata nd)) = info" "(pend(n := None))(n \<mapsto> E) = pend"
    using nd(2) E by (auto simp: fun_eq_iff)
  have hh: "h \<noteq> Head" using h(1) mem_heads(3) by auto
  have W2: "(?W1(h := ?W1 h @ [n])) Head = ns" using hh Cons.hyps(2) by (metis fun_upd_apply remove1.simps(2))
  from Cons.hyps(1) [of "?W1(h := ?W1 h @ [n])" "tw\<lparr>tw_links := L2\<rparr>"] W2 L2(2) same
  obtain L' W' where r: "cascade_loop (tw\<lparr>tw_links := L2\<rparr>) = Some (tw\<lparr>tw_links := L'\<rparr>)" "W' Head = []"
    "wheel ?H ?P (tw\<lparr>tw_links := L'\<rparr>) t info pend W'" by auto
  have "cascade_loop tw = Some (tw\<lparr>tw_links := L'\<rparr>)"
    using head_empty [OF w] head_first [OF w Cons.hyps(2) [symmetric]] Cons.hyps(2) [symmetric] L1(1) L2(1) r(1)
    by (subst cascade_loop.simps) simp
  with r show ?case by blast
qed

lemma mod64_eq: "(a::nat) < b + 64 \<Longrightarrow> b \<le> a \<Longrightarrow> a mod 64 = b mod 64 \<Longrightarrow> a = b"
proof -
  assume a: "a < b + 64" "b \<le> a" "a mod 64 = b mod 64"
  then have "64 dvd a - b" by (simp add: mod_eq_dvd_iff_nat)
  then show ?thesis using a(1,2) nat_dvd_not_less [of "a - b" 64] by linarith
qed

definition same_clock :: "('cb, 'ud) cotw \<Rightarrow> ('cb, 'ud) cotw \<Rightarrow> bool" where
  "same_clock tw' tw \<longleftrightarrow> tw_interval tw' = tw_interval tw \<and> tw_lasttime tw' = tw_lasttime tw"

lemma cascade_wheel:
  assumes w: "wheel heads (cas k t) tw t info pend W" and k: "k \<le> 3" "span k dvd t"
  shows "\<exists>tw' W'. cotw_cascade tw k (t div span k mod 64) = Some tw' \<and>
    wheel heads (cas (Suc k) t) tw' t info pend W' \<and> same_clock tw' tw"
proof -
  let ?s = "Tv k (t div span k mod 64)"
  have slot: "t \<le> E \<and> E < t + span k" if "cas k t ?s E" for E
  proof -
    have c: "t \<le> E" "E < t + span (Suc k)" "E div span k mod 64 = t div span k mod 64"
      using that by auto
    define q where "q = t div span k"
    have t: "t = q * span k" using k(2) by (simp add: q_def)
    have "E div span k < q + 64"
      using c(2) by (simp add: t span_simps(2) div_less_iff_less_mult algebra_simps)
    moreover have "q \<le> E div span k" using c(1) div_le_mono q_def by blast
    ultimately have "E div span k = q" using c(3) mod64_eq unfolding q_def [symmetric] by blast
    then have "E < (q + 1) * span k" using div_less_iff_less_mult [of "span k" E "q + 1"] by simp
    then show ?thesis using c(1) t by simp
  qed
  have other: "cas (Suc k) t g E" if "g \<in> heads" "g \<noteq> ?s" "cas k t g E" for g E
  proof (cases g)
    case (Tv i j)
    show ?thesis
    proof (cases "i = k")
      case True
      have "(t - 1) div span k < E div span k" "t \<le> E" "j = E div span k mod 64" using that(3) Tv True by auto
      moreover have "E div span k \<noteq> t div span k" using that(2) Tv True calculation(3) by auto
      moreover have "t div span k \<le> E div span k" using calculation(2) by (rule div_le_mono)
      ultimately show ?thesis using that(3) Tv True by auto
    qed (use that(3) Tv in \<open>auto split: if_splits\<close>)
  qed (use that(3) mem_heads that(1) in auto)
  have h: "?s \<in> heads" using k(1) by (simp add: mem_heads)
  obtain L1 where L1: "open_head tw ?s = Some (tw\<lparr>tw_links := L1\<rparr>)"
    "wheel (insert Head heads) (cas (Suc k) t) (tw\<lparr>tw_links := L1\<rparr>) t info pend (W(?s := [], Head := W ?s))"
  proof -
    have "\<exists>L'. open_head tw ?s = Some (tw\<lparr>tw_links := L'\<rparr>) \<and>
      wheel (insert Head heads) (cas (Suc k) t) (tw\<lparr>tw_links := L'\<rparr>) t info pend (W(?s := [], Head := W ?s))"
    proof (rule open_head_wheel [OF w h])
      show "cas (Suc k) t Head E" if "cas k t ?s E" for E using slot [OF that] by simp
    qed (rule other)
    then show thesis using that by blast
  qed
  obtain L2 W2 where L2: "cascade_loop (tw\<lparr>tw_links := L1\<rparr>) = Some (tw\<lparr>tw_links := L2\<rparr>)" "W2 Head = []"
    "wheel (insert Head heads) (cas (Suc k) t) (tw\<lparr>tw_links := L2\<rparr>) t info pend W2"
  proof -
    obtain L' W' where "cascade_loop (tw\<lparr>tw_links := L1\<rparr>) = Some (tw\<lparr>tw_links := L1\<rparr>\<lparr>tw_links := L'\<rparr>)"
      "W' Head = []" "wheel (insert Head heads) (cas (Suc k) t) (tw\<lparr>tw_links := L1\<rparr>\<lparr>tw_links := L'\<rparr>) t info pend W'"
      using cascade_loop_wheel [OF L1(2) k(1)] by blast
    then show thesis using that by simp
  qed
  show ?thesis
    using L1(1) L2(1) close_head_wheel [OF L2(3,2)] by (auto simp: cotw_cascade_def close_head_def same_clock_def)
qed

text \<open>The wheels that the loop does not reach need no cascade at this tick.\<close>

lemma pred_div:
  assumes "\<not> span i dvd t"
  shows "(t - 1) div span i = t div span i"
proof -
  have "t \<noteq> 0" using assms by (metis dvd_0_right)
  then have "t mod span i \<noteq> 0" "t = Suc (t - 1)" using assms by (auto simp: mod_eq_0_iff_dvd)
  then show ?thesis using div_Suc [of "t - 1" "span i"] by (auto split: if_splits)
qed

lemma cas_skip:
  assumes "\<not> span k dvd t" "cas k t h E" "h \<noteq> Head" "k \<le> 4"
  shows "cas 4 t h E"
proof (cases h)
  case (Tv i j)
  have "(t - 1) div span i = t div span i" if "k \<le> i"
    using assms(1) that span_dvd [OF that] by (intro pred_div) (meson dvd_trans)
  then show ?thesis using assms(2,4) Tv by (auto split: if_splits)
qed (use assms in auto)

lemma cascade_levels_wheel:
  assumes "wheel heads (cas k t) tw t info pend W" "k \<le> 3" "span k dvd t"
  shows "\<exists>tw' W'. cascade_levels tw k = Some tw' \<and> wheel heads (cas 4 t) tw' t info pend W' \<and>
    same_clock tw' tw"
  using assms
proof (induction "3 - k" arbitrary: k tw W)
  case 0
  then have k: "k = 3" by simp
  obtain tw' W' where r: "cotw_cascade tw k (t div span k mod 64) = Some tw'" "wheel heads (cas (Suc k) t) tw' t info pend W'"
    "same_clock tw' tw"
    using cascade_wheel [OF 0(2-4)] by blast
  then show ?case
    using k wheelD(2) [OF 0(2)] by (subst cascade_levels.simps) (auto simp: NTH_INDEX_nat)
next
  case (Suc d)
  obtain tw' W' where r: "cotw_cascade tw k (t div span k mod 64) = Some tw'" "wheel heads (cas (Suc k) t) tw' t info pend W'"
    "same_clock tw' tw"
    using cascade_wheel [OF Suc(3-5)] by blast
  have idx: "NTH_INDEX (tw_currtick tw) k = t div span k mod 64"
    using wheelD(2) [OF Suc(3)] Suc(4) by (simp add: NTH_INDEX_nat)
  have nxt: "d = 3 - Suc k" "Suc k \<le> 3" using Suc(2) by linarith+
  have dv: "span (Suc k) dvd t \<longleftrightarrow> t div span k mod 64 = 0"
    using Suc(5) by (auto simp: span_simps(2) dvd_div_iff_mult mod_eq_0_iff_dvd)
  show ?case
  proof (cases "t div span k mod 64 = 0")
    case True
    obtain tw2 W2 where "cascade_levels tw' (Suc k) = Some tw2" "wheel heads (cas 4 t) tw2 t info pend W2"
      "same_clock tw2 tw'"
      using Suc(1) [OF _ r(2) nxt(2)] nxt(1) True dv by auto
    then show ?thesis
      using r(1,3) idx True Suc(2) by (subst cascade_levels.simps) (auto simp: same_clock_def)
  next
    case False
    have "wheel heads (cas 4 t) tw' t info pend W'"
      by (rule wheel_mono [OF r(2)]) (use False dv mem_heads(3) cas_skip [of "Suc k"] nxt(2) in auto)
    then show ?thesis using r(1,3) idx False by (subst cascade_levels.simps) auto
  qed
qed

section \<open>Adding, deleting, starting\<close>

lemma wheel_add:
  assumes w: "wheel H (slot_ok now) tw now info pend W" and H: "heads \<subseteq> H"
    and n: "pend n = None" "tw_links tw (Tnode n) \<noteq> None" "tw_nodes tw n = Some nd"
  shows "\<exists>tw' W'. cotw_add tw n ticks = Some tw' \<and>
    wheel H (slot_ok now) tw' now (info(n \<mapsto> (tn_callback nd, tn_userdata nd)))
      (pend(n \<mapsto> now + max 1 (unat ticks))) W' \<and> W' Head = W Head"
proof -
  note d = wheelD [OF w]
  let ?E = "now + max 1 (unat ticks)" and ?t = "if ticks > 0 then ticks else 1"
  have "word_of_nat (max 1 (unat ticks)) = ?t"
    using unat_gt_0 [of ticks] by (cases "ticks = 0") (auto simp: max_def word_gt_0)
  then have e: "word_of_nat ?E = tw_currtick tw + ?t" using d(2) by simp
  let ?nd = "nd\<lparr>tn_expire := word_of_nat ?E\<rparr>" 
  let ?tw = "tw\<lparr>tw_nodes := (tw_nodes tw)(n \<mapsto> ?nd)\<rparr>"
  have w1: "wheel H (slot_ok now) ?tw now info pend W"
    unfolding wheel_def
  proof (intro conjI allI impI ballI)
    show "node_ok ?tw m i (pend m)" if "info m = Some i" for m i
      using d(5) [OF that] n by (cases "m = n") (auto simp: node_ok_def split: option.splits)
  qed (use d in auto)
  have lt: "unat ticks < 2 ^ 32" using unsigned_less [of ticks] by simp
  then have E: "now < ?E" "?E < now + 2 ^ 32" by simp_all
  obtain h where h: "wheel_slot (word_of_nat now) (word_of_nat ?E) = Some h" "h \<in> heads" "slot_ok now h ?E"
  proof (cases "?E < now + 256")
    case True
    then show thesis
      using E(1) wheel_slot_root [of now ?E] by (intro that [of "TvRoot (?E mod 256)"]) (auto simp: mem_heads)
  next
    case False
    then have "now \<le> ?E" "256 \<le> ?E - now" by linarith+
    from wheel_slot_level [OF this(1) E(2) this(2)] obtain j where j: "j < 4"
      "wheel_slot (word_of_nat now) (word_of_nat ?E) = Some (Tv j (?E div span j mod 64))"
      "span j \<le> ?E - now" "?E - now < span (Suc j)" by blast
    then have "now + span j \<le> ?E" "?E < now + span (Suc j)" using E(1) by linarith+
    with j E(1) show thesis
      using div_span_less [of now j ?E] by (intro that [of "Tv j (?E div span j mod 64)"]) (auto simp: mem_heads)
  qed
  obtain L' where L': "cotw_place ?tw n = Some (?tw\<lparr>tw_links := L'\<rparr>)"
    "wheel H (slot_ok now) (?tw\<lparr>tw_links := L'\<rparr>) now (info(n \<mapsto> (tn_callback ?nd, tn_userdata ?nd)))
      (pend(n \<mapsto> ?E)) (W(h := W h @ [n]))"
    using wheel_place [OF w1 n(1), of ?nd ?E h] n(2) h H by auto
  have "h \<noteq> Head" using h(2) mem_heads(3) by auto
  then show ?thesis
    using L' n(3) e by (intro exI [of _ "?tw\<lparr>tw_links := L'\<rparr>"] exI [of _ "W(h := W h @ [n])"])
      (simp add: cotw_add_def Let_def)
qed

lemma wheel_del:
  assumes w: "wheel H P tw now info pend W" and n: "info n \<noteq> None"
  shows "case pend n of
      None \<Rightarrow> cotw_del tw n = Some (0, tw)
    | Some E \<Rightarrow> \<exists>tw' W'. cotw_del tw n = Some (1, tw') \<and>
        wheel H P tw' now info (pend(n := None)) W' \<and> (Head \<in> H \<longrightarrow> W' Head = filter (\<lambda>m. m \<noteq> n) (W Head))"
proof (cases "pend n")
  case None
  obtain i where "info n = Some i" using n by blast
  from wheelD(5) [OF w this] None have "coring (tw_links tw) (Tnode n) []" by (auto simp: node_ok_def)
  then show ?thesis using None is_empty_ring [of "tw_links tw" "Tnode n" "[]"] by (simp add: cotw_del_def)
next
  case (Some E)
  then obtain h where h: "h \<in> H" "n \<in> set (W h)" using wheelD(4) [OF w] by (auto simp: members_def)
  obtain L' where L': "coclink_remote (tw_links tw) (Tnode n) = Some L'"
    "wheel H P (tw\<lparr>tw_links := L'\<rparr>) now info (pend(n := None)) (W(h := remove1 n (W h)))"
    using wheel_remote [OF w h] by blast
  have r: "rings H (tw_links tw) W" by (rule wheelD(1) [OF w])
  obtain xs ys where xy: "W h = xs @ n # ys" using h(2) by (auto dest: split_list)
  have "coring (tw_links tw) h (map Tnode xs @ Tnode n # map Tnode ys)"
    using r h(1) xy by (auto simp: rings_def)
  from coring_at(1) [OF this] coring_distinct [OF this]
  have "coclink_is_empty (tw_links tw) (Tnode n) = Some False"
    by (cases ys) (auto simp: coclink_is_empty_def)
  then have "cotw_del tw n = Some (1, tw\<lparr>tw_links := L'\<rparr>)" using L'(1) by (simp add: cotw_del_def)
  moreover have "(W(h := remove1 n (W h))) Head = filter (\<lambda>m. m \<noteq> n) (W Head)" if H: "Head \<in> H"
  proof (cases "h = Head")
    case True
    then show ?thesis using rings_distinct [OF r h(1)] 
      by (auto simp: distinct_remove1_removeAll removeAll_filter_not_eq intro!: filter_cong)
  next
    case False
    then have "n \<notin> set (W Head)" using rings_disjoint [OF r H h(1) _ h(2)] by blast
    then have "filter (\<lambda>m. m \<noteq> n) (W Head) = W Head" by (intro filter_True) auto
    then show ?thesis using False by simp
  qed
  ultimately show ?thesis using Some L'(2) by auto
qed

lemma init_heads_ok:
  assumes "distinct hs" "\<forall>h\<in>set hs. L h \<noteq> None"
  shows "\<exists>L'. init_heads L hs = Some L' \<and> (\<forall>h\<in>set hs. coring L' h []) \<and> only (set hs) L L'"
  using assms
proof (induction hs arbitrary: L)
  case (Cons h hs)
  obtain L1 where L1: "coclink_init L h = Some L1" "coring L1 h []" "only {h} L L1"
    using init_ring [of L h] Cons.prems(2) by auto
  obtain L2 where L2: "init_heads L1 hs = Some L2" "\<forall>h\<in>set hs. coring L2 h []" "only (set hs) L1 L2"
    using Cons.IH [of L1] Cons.prems only_dom [OF L1(3)] by auto
  have "coring L2 h []" using coring_only [OF L1(2) L2(3)] Cons.prems(1) by auto
  moreover have "only (set (h # hs)) L L2"
    using only_trans [OF only_mono [OF L1(3), of "set (h # hs)"] only_mono [OF L2(3), of "set (h # hs)"]] by auto
  ultimately show ?case using L1(1) L2 by auto
qed simp

lemma distinct_wheel_heads: "distinct wheel_heads"
proof -
  have "distinct [Tv i j. i \<leftarrow> is, j \<leftarrow> [0..<m]]" if "distinct is" for "is" m
    using that by (induction "is") (auto simp: distinct_map inj_on_def)
  then show ?thesis by (auto simp: wheel_heads_def distinct_map inj_on_def)
qed

lemma cotw_init_wheel:
  "\<exists>tw'. cotw_init tw interval currtime = Some tw' \<and>
     wheel heads (slot_ok 0) tw' 0 Map.empty Map.empty (\<lambda>_. []) \<and>
     tw_interval tw' = interval \<and> tw_lasttime tw' = currtime \<and> tw_remainder tw' = 0 \<and> tw_nodes tw' = tw_nodes tw"
proof -
  let ?L = "\<lambda>a. if a \<in> heads then Some \<lparr>cn_next = Null, cn_prev = Null\<rparr> else tw_links tw a"
  obtain L' where L': "init_heads ?L wheel_heads = Some L'" "\<forall>h\<in>heads. coring L' h []"
    using init_heads_ok [OF distinct_wheel_heads, of ?L] by auto
  have "heads \<inter> range Tnode = {}" using mem_heads(4) by auto
  then have "wheel heads (slot_ok 0) (tw\<lparr>tw_links := L', tw_lasttime := currtime, tw_currtick := 0,
      tw_interval := interval, tw_remainder := 0\<rparr>) 0 Map.empty Map.empty (\<lambda>_. [])"
    using L'(2) by (simp add: wheel_def rings_def members_def)
  then show ?thesis using L'(1) by (simp add: cotw_init_def)
qed

section \<open>Firing\<close>

text \<open>
  The callbacks of one tick, on the abstract state of the world, the timers and the pending
  timers.  A callback may add timers (they are due later) and delete timers, those of this tick
  that have not fired yet included.
\<close>

type_synonym ('cb, 'ud, 'w) astate = "'w \<times> (nat \<Rightarrow> ('cb option \<times> 'ud) option) \<times> (nat \<Rightarrow> nat option)"

function afire :: "(nat \<Rightarrow> 'cb \<Rightarrow> 'ud \<Rightarrow> ('cb, 'ud, 'w) astate \<Rightarrow> ('cb, 'ud, 'w) astate) \<Rightarrow> nat \<Rightarrow> nat list \<Rightarrow>
    ('cb, 'ud, 'w) astate \<Rightarrow> ('cb, 'ud, 'w) astate" where
  "afire ac now [] s = s"
| "afire ac now (n # ds) (w, info, pend) =
     (let s = (case info n of
                 Some (Some cb, ud) \<Rightarrow> ac now cb ud (w, info, pend(n := None))
               | _ \<Rightarrow> (w, info, pend(n := None)))
      in afire ac now (filter (\<lambda>m. snd (snd s) m = Some now) ds) s)"
  by pat_completeness auto
termination
  by (relation "measure (\<lambda>(ac, now, ds, s). length ds)") (auto simp: le_imp_less_Suc)

text \<open>What the wheel asks of the callbacks of its client.\<close>

locale wheel_client =
  fixes call :: "('cb, 'ud, 'w) callback"
    and acall :: "nat \<Rightarrow> 'cb \<Rightarrow> 'ud \<Rightarrow> ('cb, 'ud, 'w) astate \<Rightarrow> ('cb, 'ud, 'w) astate"
    and inv :: "'w \<Rightarrow> (nat \<Rightarrow> ('cb option \<times> 'ud) option) \<Rightarrow> bool"
  assumes call_law:
    "wheel (insert Head heads) (slot_ok now) tw now info pend W \<Longrightarrow> inv w info \<Longrightarrow>
     info n = Some (Some cb, ud) \<Longrightarrow> pend n = None \<Longrightarrow>
     \<exists>w' info' pend' tw' W'. call cb ud (w, tw) = Some (w', tw') \<and>
       acall now cb ud (w, info, pend) = (w', info', pend') \<and> inv w' info' \<and>
       wheel (insert Head heads) (slot_ok now) tw' now info' pend' W' \<and>
       W' Head = filter (\<lambda>m. pend' m = Some now) (W Head) \<and>
       tw_interval tw' = tw_interval tw \<and> tw_lasttime tw' = tw_lasttime tw"
begin

lemma fire_loop_wheel:
  assumes "wheel (insert Head heads) (slot_ok now) tw now info pend W" "inv w info"
  shows "\<exists>w' info' pend' tw' W'. fire_loop call (w, tw) = Some (w', tw') \<and>
    afire acall now (W Head) (w, info, pend) = (w', info', pend') \<and> inv w' info' \<and>
    wheel (insert Head heads) (slot_ok now) tw' now info' pend' W' \<and> W' Head = [] \<and>
    tw_interval tw' = tw_interval tw \<and> tw_lasttime tw' = tw_lasttime tw"
  using assms
proof (induction "length (W Head)" arbitrary: w tw info pend W rule: less_induct)
  case less
  note w = less.prems(1)
  note d = wheelD [OF w]
  show ?case
  proof (cases "W Head")
    case Nil
    then have "fire_loop call (w, tw) = Some (w, tw)"
      using head_empty [OF w] by (subst fire_loop.simps) simp
    then show ?thesis using less.prems Nil by auto
  next
    case (Cons n ns)
    have n: "n \<in> set (W Head)" using Cons by simp
    have "n \<in> dom pend" using d(4) member_of [of Head "insert Head heads" n W] n by simp
    then obtain E cb ud where E: "pend n = Some E" "info n = Some (cb, ud)" using d(3) by fastforce
    obtain nd where nd: "tw_nodes tw n = Some nd" "tn_callback nd = cb" "tn_userdata nd = ud"
      using d(5) [OF E(2)] by (auto simp: node_ok_def)
    obtain L1 where L1: "coclink_remote (tw_links tw) (Tnode n) = Some L1"
      "wheel (insert Head heads) (slot_ok now) (tw\<lparr>tw_links := L1\<rparr>) now info (pend(n := None))
         (W(Head := remove1 n (W Head)))"
      using wheel_remote [OF w, of Head n] n by auto
    let ?W1 = "W(Head := remove1 n (W Head))" and ?tw1 = "tw\<lparr>tw_links := L1\<rparr>" and ?p1 = "pend(n := None)"
    have W1: "?W1 Head = ns" using Cons by simp
    have fl: "fire_loop call (w, tw) =
      do { s \<leftarrow> (case cb of None \<Rightarrow> Some (w, ?tw1) | Some c \<Rightarrow> call c ud (w, ?tw1)); fire_loop call s }"
      using head_empty [OF w] head_first [OF w Cons] Cons L1(1) nd
      by (subst fire_loop.simps) (simp add: Let_def split: option.split)
    have len: "length (filter Q ns) < length (W Head)" for Q using Cons by (simp add: le_imp_less_Suc)
    obtain w2 info2 pend2 tw2 W2 where s2:
      "(case cb of None \<Rightarrow> Some (w, ?tw1) | Some c \<Rightarrow> call c ud (w, ?tw1)) = Some (w2, tw2)"
      "(case info n of Some (Some cb, ud) \<Rightarrow> acall now cb ud (w, info, pend(n := None))
         | _ \<Rightarrow> (w, info, pend(n := None))) = (w2, info2, pend2)"
      "inv w2 info2" "wheel (insert Head heads) (slot_ok now) tw2 now info2 pend2 W2"
      "W2 Head = filter (\<lambda>m. pend2 m = Some now) ns"
      "tw_interval tw2 = tw_interval tw" "tw_lasttime tw2 = tw_lasttime tw"
    proof (cases cb)
      case None
      have "\<forall>m\<in>set ns. ?p1 m = Some now"
      proof
        fix m assume m: "m \<in> set ns"
        then have "m \<in> dom ?p1" using wheelD(4) [OF L1(2)] member_of [of Head "insert Head heads" m ?W1] W1 by simp
        then show "?p1 m = Some now" using wheelD(6) [OF L1(2), of Head m] m W1 by auto
      qed
      then have "?W1 Head = filter (\<lambda>m. ?p1 m = Some now) ns" using W1 by (simp add: filter_id_conv)
      then show thesis using that [of w ?tw1 info ?p1 ?W1] None E less.prems(2) L1(2) by simp
    next
      case (Some c)
      obtain w2 info2 pend2 tw2 W2 where c: "call c ud (w, ?tw1) = Some (w2, tw2)"
        "acall now c ud (w, info, ?p1) = (w2, info2, pend2)" "inv w2 info2"
        "wheel (insert Head heads) (slot_ok now) tw2 now info2 pend2 W2"
        "W2 Head = filter (\<lambda>m. pend2 m = Some now) (?W1 Head)"
        "tw_interval tw2 = tw_interval ?tw1" "tw_lasttime tw2 = tw_lasttime ?tw1"
        using call_law [OF L1(2) less.prems(2), of n c ud] E Some by auto
      then show thesis using that [of w2 tw2 info2 pend2 W2] Some E W1 by simp
    qed
    obtain w3 info3 pend3 tw3 W3 where s3: "fire_loop call (w2, tw2) = Some (w3, tw3)"
      "afire acall now (W2 Head) (w2, info2, pend2) = (w3, info3, pend3)" "inv w3 info3"
      "wheel (insert Head heads) (slot_ok now) tw3 now info3 pend3 W3" "W3 Head = []"
      "tw_interval tw3 = tw_interval tw2" "tw_lasttime tw3 = tw_lasttime tw2"
      using less.hyps [OF _ s2(4,3)] len s2(5) by auto
    have "afire acall now (W Head) (w, info, pend) = (w3, info3, pend3)"
      using s2(2,5) s3(2) unfolding Cons by (simp only: afire.simps Let_def snd_conv)
    then show ?thesis using fl s2(1,6,7) s3 by auto
  qed
qed

text \<open>A tick fires the timers that are due at it, in some order.\<close>

lemma tick_wheel:
  assumes w: "wheel heads (slot_ok now) tw now info pend W" and i: "inv w info"
  shows "\<exists>due w' info' pend' tw' W'. cotw_tick call (w, tw) = Some (w', tw') \<and>
    distinct due \<and> set due = {n. pend n = Some (now + 1)} \<and>
    afire acall (now + 1) due (w, info, pend) = (w', info', pend') \<and> inv w' info' \<and>
    wheel heads (slot_ok (now + 1)) tw' (now + 1) info' pend' W' \<and>
    tw_interval tw' = tw_interval tw \<and> tw_lasttime tw' = tw_lasttime tw"
proof -
  let ?t = "now + 1" and ?tw = "tw\<lparr>tw_currtick := tw_currtick tw + 1\<rparr>"
  note d = wheelD [OF w]
  have w0: "wheel heads (cas 0 ?t) ?tw ?t info pend W"
    unfolding wheel_def
  proof (intro conjI allI impI ballI)
    show "node_ok ?tw n i (pend n)" if "info n = Some i" for n i
      using d(5) [OF that] by (auto simp: node_ok_def split: option.splits)
    show "cas 0 ?t h (the (pend n))" if "h \<in> heads" "n \<in> set (W h)" for h n
      using d(6) [OF that] mem_heads(3-5) that(1) by (cases h) auto
  qed (use d in auto)
  have ct: "tw_currtick ?tw = word_of_nat ?t" using d(2) by simp
  let ?i = "?t mod 256"
  have fi: "FIRST_INDEX (tw_currtick ?tw) = ?i" unfolding ct by (rule FIRST_INDEX_nat)
  obtain tw1 W1 where 1: "(if ?i = 0 then cascade_levels ?tw 0 else Some ?tw) = Some tw1"
    "wheel heads (cas 4 ?t) tw1 ?t info pend W1" "same_clock tw1 ?tw"
  proof (cases "?i = 0")
    case True
    then have "span 0 dvd ?t" by (simp add: span_simps(1) mod_eq_0_iff_dvd)
    then show thesis using cascade_levels_wheel [OF w0] that True by auto
  next
    case False
    then have nd: "\<not> span 0 dvd ?t" by (simp add: span_simps(1) mod_eq_0_iff_dvd)
    have "wheel heads (cas 4 ?t) ?tw ?t info pend W"
      by (rule wheel_mono [OF w0]) (use nd mem_heads(3) cas_skip [of 0] in auto)
    then show thesis using that False by (simp add: same_clock_def)
  qed
  let ?s = "TvRoot ?i"
  have s: "?s \<in> heads" by (simp add: mem_heads)
  have exact: "E = ?t" if "cas 4 ?t ?s E" for E
  proof -
    have "?t \<le> E" "E < ?t + 256" "E mod 256 = ?t mod 256" using that by auto
    then have "256 dvd E - ?t" "E - ?t < 256" by (simp_all add: mod_eq_dvd_iff_nat)
    then have "E - ?t = 0" using nat_dvd_not_less [of "E - ?t" 256] by auto
    then show ?thesis using \<open>?t \<le> E\<close> by simp
  qed
  have "\<exists>L'. open_head tw1 ?s = Some (tw1\<lparr>tw_links := L'\<rparr>) \<and>
    wheel (insert Head heads) (slot_ok ?t) (tw1\<lparr>tw_links := L'\<rparr>) ?t info pend (W1(?s := [], Head := W1 ?s))"
  proof (rule open_head_wheel [OF 1(2) s])
    show "slot_ok ?t Head E" if "cas 4 ?t ?s E" for E using exact [OF that] by simp
    show "slot_ok ?t g E" if g: "g \<in> heads" "g \<noteq> ?s" "cas 4 ?t g E" for g E
    proof (cases g)
      case (TvRoot j)
      then have "E \<noteq> ?t" using g(2,3) by auto
      then show ?thesis using g(3) TvRoot by simp
    next
      case (Tv i j)
      have "i < 4" using g(1) Tv mem_heads by simp
      then have "?t div span i < E div span i" "?t \<le> E" using g(3) Tv by simp_all
      then have "?t \<noteq> E" by auto
      then show ?thesis using g(3) Tv \<open>i < 4\<close> by simp
    qed (use g mem_heads in auto)
  qed
  then obtain L2 where 2: "open_head tw1 ?s = Some (tw1\<lparr>tw_links := L2\<rparr>)"
    "wheel (insert Head heads) (slot_ok ?t) (tw1\<lparr>tw_links := L2\<rparr>) ?t info pend (W1(?s := [], Head := W1 ?s))"
    by blast
  let ?W2 = "W1(?s := [], Head := W1 ?s)"
  obtain w3 info3 pend3 tw3 W3 where 3: "fire_loop call (w, tw1\<lparr>tw_links := L2\<rparr>) = Some (w3, tw3)"
    "afire acall ?t (?W2 Head) (w, info, pend) = (w3, info3, pend3)" "inv w3 info3"
    "wheel (insert Head heads) (slot_ok ?t) tw3 ?t info3 pend3 W3" "W3 Head = []"
    "tw_interval tw3 = tw_interval tw1" "tw_lasttime tw3 = tw_lasttime tw1"
    using fire_loop_wheel [OF 2(2) i] by auto
  have same: "tw_interval tw1 = tw_interval tw" "tw_lasttime tw1 = tw_lasttime tw"
    using 1(3) by (simp_all add: same_clock_def)
  have "cotw_tick call (w, tw) = Some (w3, close_head tw3)"
    using 1(1) 2(1) 3(1) fi by (simp add: cotw_tick_def Let_def)
  moreover have "distinct (?W2 Head)"
    using rings_distinct [OF wheelD(1) [OF 2(2)], of Head] by simp
  moreover have "set (?W2 Head) = {n. pend n = Some ?t}"
  proof (intro set_eqI iffI)
    fix n assume n: "n \<in> set (?W2 Head)"
    then have "n \<in> dom pend"
      using wheelD(4) [OF 2(2)] member_of [of Head "insert Head heads" n ?W2] by simp
    then show "n \<in> {n. pend n = Some ?t}" using wheelD(6) [OF 2(2), of Head n] n by auto
  next
    fix n assume "n \<in> {n. pend n = Some ?t}"
    then have n: "pend n = Some ?t" by simp
    then have "n \<in> members (insert Head heads) ?W2" using wheelD(4) [OF 2(2)] by blast
    then obtain h where h: "h \<in> insert Head heads" "n \<in> set (?W2 h)" unfolding members_def by blast
    have "slot_ok ?t h ?t" using wheelD(6) [OF 2(2) h] n by simp
    then have "h = Head" by (cases h) auto
    then show "n \<in> set (?W2 Head)" using h(2) by simp
  qed
  moreover have "tw_interval (close_head tw3) = tw_interval tw" "tw_lasttime (close_head tw3) = tw_lasttime tw"
    using 3(6,7) same by (simp_all add: close_head_def)
  ultimately show ?thesis using 3(2,3) close_head_wheel [OF 3(4,5)] by blast
qed

end

text \<open>A run of ticks, as the loop of \<open>cotw_update\<close> makes them.\<close>

primrec tick_n ::
  "('cb, 'ud, 'w) callback \<Rightarrow> nat \<Rightarrow> 'w \<times> ('cb, 'ud) cotw \<Rightarrow> ('w \<times> ('cb, 'ud) cotw) exec" where
  "tick_n call 0 s = Some s"
| "tick_n call (Suc k) s = do { s \<leftarrow> cotw_tick call s; tick_n call k s }"

lemma tick_loop_n:
  assumes "0 < intv" "0 \<le> diff"
  shows "tick_loop call intv diff s =
    map_option (\<lambda>s. (diff mod intv, s)) (tick_n call (nat (diff div intv)) s)"
  using assms(2)
proof (induction "nat (diff div intv)" arbitrary: diff s)
  case 0
  then have "diff div intv \<le> 0" by simp
  then have "diff < intv" using pos_imp_zdiv_pos_iff [OF assms(1), of diff] by linarith
  then show ?case using 0 by (subst tick_loop.simps) simp
next
  case (Suc k)
  then have "intv \<le> diff" using assms(1) by (cases "diff < intv") auto
  then have "diff = (diff - intv) + intv" "0 \<le> diff - intv" by simp_all
  moreover have m: "diff div intv = (diff - intv) div intv + 1" "diff mod intv = (diff - intv) mod intv"
    using div_add_self2 [of intv "diff - intv"] mod_add_self2 [of "diff - intv" intv] assms(1) by simp_all
  moreover have k: "k = nat ((diff - intv) div intv)"
    using Suc(2) m(1) calculation(2) assms(1) by (simp add: pos_imp_zdiv_nonneg_iff)
  ultimately have "tick_loop call intv (diff - intv) s =
      map_option (\<lambda>s. (diff mod intv, s)) (tick_n call k s)" for s
    using Suc(1) [of "diff - intv"] by simp
  then have IH: "tick_loop call intv (diff - intv) =
      (\<lambda>s. map_option (\<lambda>s. (diff mod intv, s)) (tick_n call k s))" by (rule ext)
  have "tick_loop call intv diff s =
      do { s \<leftarrow> cotw_tick call s; map_option (\<lambda>s. (diff mod intv, s)) (tick_n call k s) }"
    using \<open>intv \<le> diff\<close> IH by (subst tick_loop.simps) (simp add: IH)
  also have "\<dots> = map_option (\<lambda>s. (diff mod intv, s)) (tick_n call (Suc k) s)"
    by (cases "cotw_tick call s") auto
  finally show ?case using Suc(2) by simp
qed

text \<open>With the interval 0 the loop has no result.\<close>

lemma tick_loop_some: "tick_loop call intv diff s = Some r \<Longrightarrow> intv \<noteq> 0 \<or> diff < 0"
  by (rule tick_loop.raw_induct [where P = "\<lambda>call intv diff s r. intv \<noteq> 0 \<or> diff < 0"])
    (fastforce split: if_splits bind_splits)

lemma tick_loop_zero: "0 \<le> diff \<Longrightarrow> tick_loop call 0 diff s = None"
  using tick_loop_some [of call 0 diff s] by (cases "tick_loop call 0 diff s") force+

text \<open>The elapsed time goes through a 32-bit \<open>int\<close>.\<close>

lemma elapsed_int:
  fixes a b :: "64 word" and r :: "16 word"
  assumes "a \<le> b" "uint b - uint a + uint r < 2 ^ 31"
  shows "sint (ucast (b - a + ucast r) :: 32 word) = uint b - uint a + uint r"
proof -
  define D where "D = uint b - uint a + uint r"
  have D: "0 \<le> D" "D < 2 ^ 31" using assms by (simp_all add: D_def word_le_def)
  have "b - a + ucast r = (word_of_int D :: 64 word)" by (simp add: D_def)
  moreover have "uint (word_of_int D :: 64 word) = D" using D by (simp add: uint_word_of_int)
  then have "ucast (word_of_int D :: 64 word) = (word_of_int D :: 32 word)" by (simp only: ucast_eq)
  moreover have "sint (word_of_int D :: 32 word) = D"
    using D by (simp add: signed_of_int signed_take_bit_int_eq_self)
  ultimately show ?thesis by (simp add: D_def)
qed

lemma elapsed_mod:
  fixes a b :: "64 word" and r :: "16 word"
  shows "sint (ucast (b - a + ucast r) :: 32 word) = (uint b - uint a + uint r + 2 ^ 31) mod 2 ^ 32 - 2 ^ 31"
proof -
  define D where "D = uint b - uint a + uint r"
  have "b - a + ucast r = (word_of_int D :: 64 word)" by (simp add: D_def)
  moreover have "ucast (word_of_int D :: 64 word) = (word_of_int D :: 32 word)"
    by (simp add: ucast_eq uint_word_of_int_eq word_of_int_eq_iff)
  moreover have "sint (word_of_int D :: 32 word) = (D + 2 ^ 31) mod 2 ^ 32 - 2 ^ 31"
    by (simp add: signed_of_int signed_take_bit_eq_take_bit_shift take_bit_eq_mod)
  ultimately show ?thesis by (simp add: D_def)
qed

text \<open>The same run on the abstract state.  The order of the timers of one tick is not promised.\<close>

inductive aticks :: "(nat \<Rightarrow> 'cb \<Rightarrow> 'ud \<Rightarrow> ('cb, 'ud, 'w) astate \<Rightarrow> ('cb, 'ud, 'w) astate) \<Rightarrow>
    nat \<Rightarrow> nat \<Rightarrow> ('cb, 'ud, 'w) astate \<Rightarrow> ('cb, 'ud, 'w) astate \<Rightarrow> bool" for ac where
  aticks_0: "aticks ac now 0 s s"
| aticks_Suc: "distinct due \<Longrightarrow> set due = {n. snd (snd s) n = Some (now + 1)} \<Longrightarrow>
    aticks ac (now + 1) k (afire ac (now + 1) due s) s' \<Longrightarrow> aticks ac now (Suc k) s s'"

inductive_cases aticks_SucE: "aticks ac now (Suc k) s s'"
inductive_simps aticks_0_iff [simp]: "aticks ac now 0 s s'"

lemma wheel_fields:
  "tw_links tw' = tw_links tw \<Longrightarrow> tw_nodes tw' = tw_nodes tw \<Longrightarrow> tw_currtick tw' = tw_currtick tw \<Longrightarrow>
   wheel H P tw' now info pend W = wheel H P tw now info pend W"
  by (simp add: wheel_def node_ok_def cong: option.case_cong)

context wheel_client begin

lemma tick_n_wheel:
  assumes "wheel heads (slot_ok now) tw now info pend W" "inv w info"
  shows "\<exists>w' info' pend' tw' W'. tick_n call k (w, tw) = Some (w', tw') \<and>
    aticks acall now k (w, info, pend) (w', info', pend') \<and> inv w' info' \<and>
    wheel heads (slot_ok (now + k)) tw' (now + k) info' pend' W' \<and>
    tw_interval tw' = tw_interval tw \<and> tw_lasttime tw' = tw_lasttime tw"
  using assms
proof (induction k arbitrary: now w info pend tw W)
  case 0
  then show ?case by auto
next
  case (Suc k)
  obtain due w1 info1 pend1 tw1 W1 where 1: "cotw_tick call (w, tw) = Some (w1, tw1)"
    "distinct due" "set due = {n. pend n = Some (now + 1)}"
    "afire acall (now + 1) due (w, info, pend) = (w1, info1, pend1)" "inv w1 info1"
    "wheel heads (slot_ok (now + 1)) tw1 (now + 1) info1 pend1 W1"
    "tw_interval tw1 = tw_interval tw" "tw_lasttime tw1 = tw_lasttime tw"
    using tick_wheel [OF Suc.prems] by blast
  obtain w2 info2 pend2 tw2 W2 where 2: "tick_n call k (w1, tw1) = Some (w2, tw2)"
    "aticks acall (now + 1) k (w1, info1, pend1) (w2, info2, pend2)" "inv w2 info2"
    "wheel heads (slot_ok (now + 1 + k)) tw2 (now + 1 + k) info2 pend2 W2"
    "tw_interval tw2 = tw_interval tw1" "tw_lasttime tw2 = tw_lasttime tw1"
    using Suc.IH [OF 1(6,5)] by blast
  have "aticks acall now (Suc k) (w, info, pend) (w2, info2, pend2)"
    by (rule aticks_Suc [of due]) (use 1 2 in simp_all)
  then show ?case using 1 2 by auto
qed

text \<open>\<open>cotw_update\<close> makes as many ticks as intervals have passed and keeps the rest.\<close>

lemma update_wheel:
  fixes tw :: "('cb, 'ud) cotw" and currtime :: "64 word"
  defines "d \<equiv> uint currtime - uint (tw_lasttime tw) + uint (tw_remainder tw)"
  defines "k \<equiv> nat (d div uint (tw_interval tw))"
  assumes w: "wheel heads (slot_ok now) tw now info pend W" "inv w info"
    and t: "tw_lasttime tw < currtime" "0 < tw_interval tw" "d < 2 ^ 31"
  shows "\<exists>w' info' pend' tw' W'. cotw_update call currtime (w, tw) = Some (w', tw') \<and>
    aticks acall now k (w, info, pend) (w', info', pend') \<and> inv w' info' \<and>
    wheel heads (slot_ok (now + k)) tw' (now + k) info' pend' W' \<and>
    tw_interval tw' = tw_interval tw \<and> tw_lasttime tw' = currtime \<and>
    uint (tw_remainder tw') = d mod uint (tw_interval tw)"
proof -
  let ?i = "uint (tw_interval tw)"
  have i: "0 < ?i" "?i < 2 ^ 16" using t(2) unsigned_less [of "tw_interval tw"]
    by (simp_all add: word_less_def)
  have d0: "0 \<le> d" using t(1) by (simp add: d_def word_less_def)
  have sd: "sint (ucast (currtime - tw_lasttime tw + ucast (tw_remainder tw)) :: 32 word) = d"
    unfolding d_def by (rule elapsed_int) (use t(1,3) d_def in auto)
  let ?tw = "tw\<lparr>tw_lasttime := currtime\<rparr>"
  have "wheel heads (slot_ok now) ?tw now info pend W" 
    using w(1) wheel_fields [of ?tw tw] by simp
  from tick_n_wheel [OF this w(2), of k] obtain w' info' pend' tw' W' where r:
    "tick_n call k (w, ?tw) = Some (w', tw')" "aticks acall now k (w, info, pend) (w', info', pend')"
    "inv w' info'" "wheel heads (slot_ok (now + k)) tw' (now + k) info' pend' W'"
    "tw_interval tw' = tw_interval tw" "tw_lasttime tw' = currtime"
    by auto
  let ?r = "word_of_int (d mod ?i) :: 16 word"
  have "uint ?r = d mod ?i" using i pos_mod_bound [OF i(1), of d] pos_mod_sign [OF i(1), of d]
    by (simp add: uint_word_of_int)
  moreover have "cotw_update call currtime (w, tw) = Some (w', tw'\<lparr>tw_remainder := ?r\<rparr>)"
    using t(1) r(1) tick_loop_n [OF i(1) d0, of call] unfolding k_def
    by (simp add: cotw_update_def Let_def sd)
  moreover have "wheel heads (slot_ok (now + k)) (tw'\<lparr>tw_remainder := ?r\<rparr>) (now + k) info' pend' W'"
    using r(4) wheel_fields [of "tw'\<lparr>tw_remainder := ?r\<rparr>" tw'] by simp
  ultimately show ?thesis using r(2,3,5,6)
    by (intro exI [of _ w'] exI [of _ info'] exI [of _ pend'] exI [of _ "tw'\<lparr>tw_remainder := ?r\<rparr>"] exI [of _ W']) simp
qed

end

section \<open>A client that records the callbacks\<close>

text \<open>The world is the log of the callbacks: the tick of each, and its user data.\<close>

definition log_call :: "('cb, 'ud, (32 word \<times> 'ud) list) callback" where
  "log_call cb ud s = Some (fst s @ [(tw_currtick (snd s), ud)], snd s)"

definition alog :: "nat \<Rightarrow> 'cb \<Rightarrow> 'ud \<Rightarrow> ('cb, 'ud, (32 word \<times> 'ud) list) astate \<Rightarrow>
    ('cb, 'ud, (32 word \<times> 'ud) list) astate" where
  "alog now cb ud s = (fst s @ [(word_of_nat now, ud)], snd s)"

lemma head_due:
  assumes "wheel (insert Head heads) (slot_ok now) tw now info pend W"
  shows "W Head = filter (\<lambda>m. pend m = Some now) (W Head)"
proof -
  have "pend m = Some now" if m: "m \<in> set (W Head)" for m
  proof -
    have "m \<in> dom pend"
      using wheelD(4) [OF assms] member_of [of Head "insert Head heads" m W] m by simp
    then show ?thesis using wheelD(6) [OF assms, of Head m] m by auto
  qed
  then show ?thesis by (simp add: filter_id_conv)
qed

interpretation wlog: wheel_client log_call alog "\<lambda>_ _. True"
proof (unfold_locales, goal_cases)
  case (1 now tw info pend W w n cb ud)
  then show ?case using head_due [OF 1(1)] wheelD(2) [OF 1(1)] by (auto simp: log_call_def alog_def)
qed

text \<open>The entry that the timer \<open>n\<close> makes.\<close>

definition event :: "(nat \<Rightarrow> ('cb option \<times> 'ud) option) \<Rightarrow> (nat \<Rightarrow> nat option) \<Rightarrow> nat \<Rightarrow> 32 word \<times> 'ud" where
  "event info pend n = (word_of_nat (the (pend n)), snd (the (info n)))"

definition with_callback :: "(nat \<Rightarrow> ('cb option \<times> 'ud) option) \<Rightarrow> (nat \<Rightarrow> nat option) \<Rightarrow> bool" where
  "with_callback info pend \<longleftrightarrow> (\<forall>n\<in>dom pend. \<exists>cb ud. info n = Some (Some cb, ud))"

lemma with_callback_sub: "with_callback info pend \<Longrightarrow> dom pend' \<subseteq> dom pend \<Longrightarrow> with_callback info pend'"
  unfolding with_callback_def by blast

lemma afire_log:
  assumes "distinct ns" "\<forall>n\<in>set ns. pend n = Some now" "with_callback info pend"
  shows "afire alog now ns (w, info, pend) = (w @ map (event info pend) ns, info, pend |` (- set ns))"
  using assms
proof (induction ns arbitrary: w pend)
  case (Cons n ns)
  obtain cb ud where n: "info n = Some (Some cb, ud)"
    using Cons.prems(2,3) by (fastforce simp: with_callback_def)
  let ?p = "pend(n := None)"
  have p: "\<forall>m\<in>set ns. ?p m = Some now" using Cons.prems(1,2) by auto
  then have f: "filter (\<lambda>m. ?p m = Some now) ns = ns" by (simp add: filter_id_conv)
  have c: "with_callback info ?p" by (rule with_callback_sub [OF Cons.prems(3)]) auto
  have d: "distinct ns" using Cons.prems(1) by simp
  have e: "map (event info ?p) ns = map (event info pend) ns"
    using Cons.prems(1) by (auto simp: event_def)
  have "?p |` (- set ns) = pend |` (- set (n # ns))" by (auto simp: restrict_map_def)
  note e = e this
  have "event info pend n = (word_of_nat now, ud)" using Cons.prems(2) n by (simp add: event_def)
  note e = e this
  have "afire alog now (n # ns) (w, info, pend) = afire alog now ns (w @ [(word_of_nat now, ud)], info, ?p)"
    using n f by (simp add: Let_def alog_def)
  also have "\<dots> = ((w @ [(word_of_nat now, ud)]) @ map (event info ?p) ns, info, ?p |` (- set ns))"
    by (rule Cons.IH [OF d p c])
  finally show ?case by (simp only: e list.map append_assoc append_Cons append_Nil)
qed (auto simp: restrict_map_def)

lemma sorted_const: "\<forall>x\<in>set xs. f x = c \<Longrightarrow> sorted (map f xs)"
  by (induction xs) auto

lemma aticks_log:
  assumes "aticks alog now k (w, info, pend) s'" "with_callback info pend" "\<forall>E\<in>ran pend. now < E"
  shows "\<exists>ns. s' = (w @ map (event info pend) ns, info, pend |` (- set ns)) \<and> distinct ns \<and>
    set ns = {n. \<exists>E. pend n = Some E \<and> E \<le> now + k} \<and> sorted (map (the \<circ> pend) ns)"
  using assms
proof (induction k arbitrary: now w pend)
  case 0
  have "{n. \<exists>E. pend n = Some E \<and> E \<le> now} = {}"
    using 0(3) by (auto simp: ran_def)
  then show ?case using 0(1) by (intro exI [of _ "[]"]) (auto simp: restrict_map_def)
next
  case (Suc k)
  obtain due where due: "distinct due" "set due = {n. pend n = Some (now + 1)}"
    "aticks alog (now + 1) k (afire alog (now + 1) due (w, info, pend)) s'"
    using Suc(2) by (auto elim: aticks_SucE)
  let ?p = "pend |` (- set due)"
  have p: "?p n = Some E \<longleftrightarrow> pend n = Some E \<and> E \<noteq> now + 1" for n E
    using due(2) by (auto simp: restrict_map_def)
  have a: "aticks alog (now + 1) k (w @ map (event info pend) due, info, ?p) s'"
    using due(3) afire_log [OF due(1), of pend "now + 1" info w] due(2) Suc(3) by simp
  have "with_callback info ?p" by (rule with_callback_sub [OF Suc(3)]) auto
  moreover have "\<forall>E\<in>ran ?p. now + 1 < E"
  proof
    fix E assume "E \<in> ran ?p"
    then obtain n where "pend n = Some E" "E \<noteq> now + 1" using p by (auto simp: ran_def)
    moreover from this have "now < E" using Suc(4) by (auto simp: ran_def)
    ultimately show "now + 1 < E" by simp
  qed
  ultimately obtain ns where ns: "s' = ((w @ map (event info pend) due) @ map (event info ?p) ns, info, ?p |` (- set ns))"
    "distinct ns" "set ns = {n. \<exists>E. ?p n = Some E \<and> E \<le> now + 1 + k}" "sorted (map (the \<circ> ?p) ns)"
    using Suc(1) [OF a] by blast
  have disj: "set due \<inter> set ns = {}" using ns(3) by (auto simp: restrict_map_def)
  have same: "?p n = pend n" if "n \<in> set ns" for n using disj that by (auto simp: restrict_map_def)
  have m: "map (event info ?p) ns = map (event info pend) ns" "map (the \<circ> ?p) ns = map (the \<circ> pend) ns"
    using same by (simp_all add: event_def)
  show ?case
  proof (intro exI [of _ "due @ ns"] conjI)
    show "s' = (w @ map (event info pend) (due @ ns), info, pend |` (- set (due @ ns)))"
      unfolding ns(1) m(1) by (simp only: set_append Compl_Un restrict_restrict map_append append_assoc)
    show "distinct (due @ ns)" unfolding distinct_append using due(1) ns(2) disj by (intro conjI)
    show "set (due @ ns) = {n. \<exists>E. pend n = Some E \<and> E \<le> now + Suc k}"
    proof (rule set_eqI)
      fix n
      have "n \<in> set ns \<longleftrightarrow> (\<exists>E. (pend n = Some E \<and> E \<noteq> now + 1) \<and> E \<le> now + 1 + k)"
        unfolding ns(3) mem_Collect_eq p by (rule refl)
      moreover have "n \<in> set due \<longleftrightarrow> pend n = Some (now + 1)" using due(2) by blast
      ultimately show "n \<in> set (due @ ns) \<longleftrightarrow> n \<in> {n. \<exists>E. pend n = Some E \<and> E \<le> now + Suc k}"
        by (cases "pend n") (simp, simp, arith)
    qed
    have "now + 1 \<le> the (pend n)" if "n \<in> set ns" for n
    proof -
      have "n \<in> {n. \<exists>E. ?p n = Some E \<and> E \<le> now + 1 + k}" using that unfolding ns(3) .
      then obtain E where "?p n = Some E" by blast
      then have "pend n = Some E" using p [of n E] by simp
      then have "now < E" using Suc(4) by (auto intro: ranI)
      then show ?thesis using \<open>pend n = Some E\<close> by simp
    qed
    moreover have dn: "\<forall>n\<in>set due. the (pend n) = now + 1" unfolding due(2) by simp
    moreover have "sorted (map (the \<circ> pend) due)" by (rule sorted_const [of _ _ "now + 1"]) (use dn in simp)
    ultimately show "sorted (map (the \<circ> pend) (due @ ns))"
      using ns(4) unfolding m(2) by (simp add: sorted_append)
  qed
qed


section \<open>Properties\<close>

lemma wheel_node_init:
  assumes w: "wheel H P tw now info pend W" and n: "pend n = None"
  shows "wheel H P (cotw_node_init tw n cb ud) now (info(n := None)) pend W"
proof -
  note d = wheelD [OF w]
  let ?tw = "cotw_node_init tw n cb ud"
  have L: "tw_links ?tw = (tw_links tw)(Tnode n \<mapsto> \<lparr>cn_next = Null, cn_prev = Null\<rparr>)"
    by (simp add: cotw_node_init_def)
  have "n \<notin> members H W" using d(4) n by blast
  then have out: "n \<notin> set (W h)" if "h \<in> H" for h using that by (auto simp: members_def)
  have "coring (tw_links ?tw) h (map Tnode (W h))" if h: "h \<in> H" for h
  proof (rule coring_frame)
    show "coring (tw_links tw) h (map Tnode (W h))" using d(1) h by (simp add: rings_def)
    have "h \<noteq> Tnode n" using d(1) h by (auto simp: rings_def)
    then show "\<forall>a\<in>set (h # map Tnode (W h)). tw_links ?tw a = tw_links tw a"
      using out [OF h] by (auto simp: L)
  qed
  then have r: "rings H (tw_links ?tw) W" using d(1) by (simp add: rings_def)
  have ok: "node_ok ?tw m i (pend m)" if m: "(info(n := None)) m = Some i" for m i
  proof -
    have "m \<noteq> n" "info m = Some i" using m by (auto split: if_splits)
    moreover have "node_ok ?tw m i (pend m) \<longleftrightarrow> node_ok (tw\<lparr>tw_links := tw_links ?tw\<rparr>) m i (pend m)"
      using \<open>m \<noteq> n\<close> by (simp add: node_ok_def cotw_node_init_def cong: option.case_cong)
    ultimately show ?thesis using d(5) [of m i] node_ok_links [of tw m i "pend m" "tw_links ?tw"] by (simp add: L)
  qed
  have "tw_currtick ?tw = word_of_nat now" using d(2) by (simp add: cotw_node_init_def)
  moreover have "dom pend \<subseteq> dom (info(n := None))" using d(3) n by auto
  ultimately show ?thesis using r ok d(4,6) unfolding wheel_def by blast
qed

lemma wheel_start:
  assumes "wheel heads (slot_ok now) tw now info pend W" "pend n = None"
  shows "\<exists>tw' W'. cotw_add (cotw_node_init tw n cb ud) n ticks = Some tw' \<and>
    wheel heads (slot_ok now) tw' now (info(n \<mapsto> (cb, ud))) (pend(n \<mapsto> now + max 1 (unat ticks))) W' \<and>
    tw_interval tw' = tw_interval tw \<and> tw_lasttime tw' = tw_lasttime tw \<and> tw_remainder tw' = tw_remainder tw"
proof -
  obtain tw' W' where "cotw_add (cotw_node_init tw n cb ud) n ticks = Some tw'"
    "wheel heads (slot_ok now) tw' now (info(n \<mapsto> (cb, ud))) (pend(n \<mapsto> now + max 1 (unat ticks))) W'"
    using wheel_add [OF wheel_node_init [OF assms, of cb ud] order_refl assms(2),
        of "\<lparr>tn_userdata = ud, tn_callback = cb, tn_expire = 0\<rparr>" ticks]
    by (auto simp: cotw_node_init_def)
  moreover from this(1) have "tw_interval tw' = tw_interval tw" "tw_lasttime tw' = tw_lasttime tw"
    "tw_remainder tw' = tw_remainder tw"
    by (auto simp: cotw_add_def cotw_place_def cotw_node_init_def Let_def split: bind_splits option.splits)
  ultimately show ?thesis by blast
qed

text \<open>A wheel with two timers, due at the ticks 1 and 5, for the witnesses.\<close>

abbreviation two_info :: "nat \<Rightarrow> (unit option \<times> string) option" where
  "two_info \<equiv> [1 \<mapsto> (Some (), ''a''), 2 \<mapsto> (Some (), ''b'')]"

abbreviation two_pend :: "nat \<Rightarrow> nat option" where
  "two_pend \<equiv> [1 \<mapsto> 1, 2 \<mapsto> 5]"

lemma two_timers:
  "\<exists>tw W. wheel heads (slot_ok 0) tw 0 two_info two_pend W \<and>
     tw_interval tw = 10 \<and> tw_lasttime tw = 100 \<and> tw_remainder tw = 0"
proof -
  obtain tw0 :: "(unit, string) cotw" where 0: "wheel heads (slot_ok 0) tw0 0 Map.empty Map.empty (\<lambda>_. [])"
    "tw_interval tw0 = 10" "tw_lasttime tw0 = 100" "tw_remainder tw0 = 0"
    using cotw_init_wheel [of _ 10 100] by blast
  obtain tw1 W1 where 1: "wheel heads (slot_ok 0) tw1 0 [1 \<mapsto> (Some (), ''a'')] [1 \<mapsto> 1] W1"
    "tw_interval tw1 = 10" "tw_lasttime tw1 = 100" "tw_remainder tw1 = 0"
    using wheel_start [OF 0(1), of 1 "Some ()" "''a''" 1] 0(2-4) by auto
  show ?thesis using wheel_start [OF 1(1), of 2 "Some ()" "''b''" 5] 1(2-4) by auto
qed

text \<open>C13: adding a timer, new or known, that is not pending makes it due \<open>ticks\<close> ticks from now, at
  least one, whatever its 32-bit distance; every other timer keeps its tick.\<close>

theorem cotw_add_correct:
  assumes "wheel heads (slot_ok now) tw now info pend W" "pend n = None"
  shows "(\<exists>tw' W'. cotw_add (cotw_node_init tw n cb ud) n ticks = Some tw' \<and>
      wheel heads (slot_ok now) tw' now (info(n \<mapsto> (cb, ud))) (pend(n \<mapsto> now + max 1 (unat ticks))) W') \<and>
    (info n \<noteq> None \<longrightarrow> (\<exists>tw' W'. cotw_add tw n ticks = Some tw' \<and>
      wheel heads (slot_ok now) tw' now info (pend(n \<mapsto> now + max 1 (unat ticks))) W'))"
proof (intro conjI impI)
  show "\<exists>tw' W'. cotw_add (cotw_node_init tw n cb ud) n ticks = Some tw' \<and>
      wheel heads (slot_ok now) tw' now (info(n \<mapsto> (cb, ud))) (pend(n \<mapsto> now + max 1 (unat ticks))) W'"
    using wheel_start [OF assms, of cb ud ticks] by blast
  assume "info n \<noteq> None"
  then obtain i where i: "info n = Some i" by blast
  obtain nd where nd: "tw_nodes tw n = Some nd" "(tn_callback nd, tn_userdata nd) = i"
    "coring (tw_links tw) (Tnode n) []"
    using wheelD(5) [OF assms(1) i] assms(2) by (auto simp: node_ok_def)
  have "tw_links tw (Tnode n) \<noteq> None" using nd(3) coring_live [of "tw_links tw" "Tnode n" "[]"] by auto
  from wheel_add [OF assms(1) order_refl assms(2) this nd(1), of ticks]
  show "\<exists>tw' W'. cotw_add tw n ticks = Some tw' \<and>
      wheel heads (slot_ok now) tw' now info (pend(n \<mapsto> now + max 1 (unat ticks))) W'"
    using i nd(2) by (auto simp: fun_upd_idem)
qed

theorem cotw_add_correct_witness:
  "(\<exists>tw tw' W'. cotw_add (cotw_node_init tw 3 (Some ()) ''c'') 3 0 = Some tw' \<and>
     wheel heads (slot_ok 0) tw' 0 (two_info(3 \<mapsto> (Some (), ''c''))) [1 \<mapsto> 1, 3 \<mapsto> 1] W') \<and>
   (\<exists>tw tw' W'. cotw_add tw 2 7 = Some tw' \<and> wheel heads (slot_ok 0) tw' 0 two_info [1 \<mapsto> 1, 2 \<mapsto> 7] W')"
proof -
  obtain tw W where "wheel heads (slot_ok 0) tw 0 two_info two_pend W" using two_timers by blast
  then obtain tw W where w: "wheel heads (slot_ok 0) tw 0 two_info (two_pend(2 := None)) W"
    using wheel_del [of heads "slot_ok 0" tw 0 two_info two_pend W 2] by auto
  show ?thesis
    using cotw_add_correct [OF w, of 3 "Some ()" "''c''" 0] cotw_add_correct [OF w, of 2 "Some ()" "''b''" 7] by auto
qed

text \<open>Deleting a known timer reports whether it was pending and leaves it not pending; every
  other timer keeps its tick.\<close>

theorem cotw_del_correct:
  assumes "wheel heads (slot_ok now) tw now info pend W" "info n \<noteq> None"
  shows "\<exists>tw' W'. cotw_del tw n = Some (if pend n = None then 0 else 1, tw') \<and>
    wheel heads (slot_ok now) tw' now info (pend(n := None)) W'"
proof (cases "pend n")
  case None
  then have "pend(n := None) = pend" by auto
  then show ?thesis using wheel_del [OF assms] assms(1) None by auto
next
  case (Some E)
  then show ?thesis using wheel_del [OF assms] by auto
qed

theorem cotw_del_correct_witness:
  "\<exists>tw tw' W'. cotw_del tw 2 = Some (1, tw') \<and> wheel heads (slot_ok 0) tw' 0 two_info [1 \<mapsto> 1] W'"
proof -
  obtain tw W where w: "wheel heads (slot_ok 0) tw 0 two_info two_pend W" using two_timers by blast
  have "two_pend(2 := None) = [1 \<mapsto> 1]" by auto
  then show ?thesis using cotw_del_correct [OF w, of 2] by auto
qed

lemma wheel_later:
  assumes w: "wheel heads (slot_ok now) tw now info pend W" and n: "pend n = Some E"
  shows "now < E"
proof -
  have "n \<in> members heads W" using wheelD(4) [OF w] n by blast
  then obtain h where h: "h \<in> heads" "n \<in> set (W h)" unfolding members_def by blast
  then have "slot_ok now h E" using wheelD(6) [OF w h] n by simp
  then show "now < E" using h(1) mem_heads(3) by (cases h) auto
qed

text \<open>C12: an update fires exactly the timers that are due within the intervals that have passed,
  each once, at its tick and in the order of the ticks; it keeps the other timers and the rest of
  the time.\<close>

theorem cotw_update_fires:
  assumes "wheel heads (slot_ok now) tw now info pend W" "with_callback info pend"
    "tw_lasttime tw < currtime" "0 < tw_interval tw"
    "d = uint currtime - uint (tw_lasttime tw) + uint (tw_remainder tw)" "d < 2 ^ 31"
    "k = nat (d div uint (tw_interval tw))"
  shows "\<exists>ns tw' W'. cotw_update log_call currtime (w, tw) = Some (w @ map (event info pend) ns, tw') \<and>
    distinct ns \<and> set ns = {n. \<exists>E. pend n = Some E \<and> E \<le> now + k} \<and> sorted (map (the \<circ> pend) ns) \<and>
    wheel heads (slot_ok (now + k)) tw' (now + k) info (pend |` (- set ns)) W' \<and>
    tw_lasttime tw' = currtime \<and> uint (tw_remainder tw') = d mod uint (tw_interval tw)"
proof -
  have "\<forall>E\<in>ran pend. now < E" using wheel_later [OF assms(1)] by (auto simp: ran_def)
  note log = aticks_log [OF _ assms(2) this]
  obtain s' tw' W' where u: "cotw_update log_call currtime (w, tw) = Some (fst s', tw')"
    "aticks alog now k (w, info, pend) s'"
    "wheel heads (slot_ok (now + k)) tw' (now + k) (fst (snd s')) (snd (snd s')) W'"
    "tw_lasttime tw' = currtime" "uint (tw_remainder tw') = d mod uint (tw_interval tw)"
    using wlog.update_wheel [OF assms(1) TrueI assms(3,4), of w] assms(6) unfolding assms(5,7) by force
  from log [OF u(2)] obtain ns where
    "s' = (w @ map (event info pend) ns, info, pend |` (- set ns))" "distinct ns"
    "set ns = {n. \<exists>E. pend n = Some E \<and> E \<le> now + k}" "sorted (map (the \<circ> pend) ns)" by blast
  with u show ?thesis by (intro exI [of _ ns] exI [of _ tw'] exI [of _ W']) simp
qed

theorem cotw_update_fires_witness:
  "\<exists>tw tw' W. wheel heads (slot_ok 0) tw 0 two_info two_pend W \<and>
    cotw_update log_call 125 ([], tw) = Some ([(1, ''a'')], tw') \<and> uint (tw_remainder tw') = 5"
proof -
  obtain tw W where w: "wheel heads (slot_ok 0) tw 0 two_info two_pend W"
    "tw_interval tw = 10" "tw_lasttime tw = 100" "tw_remainder tw = 0" using two_timers by blast
  have c: "with_callback two_info two_pend" by (auto simp: with_callback_def)
  have h: "tw_lasttime tw < 125" "0 < tw_interval tw"
    "25 = uint (125 :: 64 word) - uint (tw_lasttime tw) + uint (tw_remainder tw)" "(25 :: int) < 2 ^ 31"
    "2 = nat (25 div uint (tw_interval tw))"
    by (simp_all add: w(2-4))
  obtain ns tw' where r: "cotw_update log_call 125 ([], tw) = Some ([] @ map (event two_info two_pend) ns, tw')"
    "distinct ns" "set ns = {n. \<exists>E. two_pend n = Some E \<and> E \<le> 0 + 2}"
    "uint (tw_remainder tw') = 25 mod uint (tw_interval tw)"
    using cotw_update_fires [OF w(1) c h, of "[]"] by blast
  have "set ns = {1}" unfolding r(3) by (auto split: if_splits)
  then have n: "ns = [1]" using r(2) distinct_length_2_or_more by (cases ns rule: remdups_adj.cases) auto
  have "cotw_update log_call 125 ([], tw) = Some ([(1, ''a'')], tw')" using r(1) by (simp add: n event_def)
  then show ?thesis using w(1) r(4) by (intro exI conjI) (assumption, assumption, simp add: w(2))
qed

text \<open>C14: The elapsed time goes through a 32-bit \<open>int\<close> \<open>e\<close>, whatever the gap since the last update.  When \<open>e\<close> is
  negative, as after a gap of 2^31 to 2^32 milliseconds, the update makes no tick; else it makes as many
  ticks as intervals fit in \<open>e\<close> and keeps the rest.  The time of a longer gap that \<open>e\<close> does not hold is lost.\<close>

theorem cotw_update_gap:
  assumes "tw_lasttime tw < currtime" "0 < tw_interval tw"
    "d = uint currtime - uint (tw_lasttime tw) + uint (tw_remainder tw)" "e = (d + 2 ^ 31) mod 2 ^ 32 - 2 ^ 31"
  shows "cotw_update call currtime (w, tw) =
    (if e < 0 then Some (w, tw\<lparr>tw_lasttime := currtime, tw_remainder := word_of_int e\<rparr>)
     else map_option (\<lambda>(w, tw'). (w, tw'\<lparr>tw_remainder := word_of_int (e mod uint (tw_interval tw))\<rparr>))
       (tick_n call (nat (e div uint (tw_interval tw))) (w, tw\<lparr>tw_lasttime := currtime\<rparr>)))"
proof -
  have e: "sint (ucast (currtime - tw_lasttime tw + ucast (tw_remainder tw)) :: 32 word) = e"
    unfolding assms(3,4) by (rule elapsed_mod)
  have i: "0 < uint (tw_interval tw)" using assms(2) by (simp add: word_less_def)
  show ?thesis
  proof (cases "e < 0")
    case True
    then have "e < uint (tw_interval tw)" using i by simp
    then show ?thesis using assms(1) True by (subst cotw_update_def) (simp add: Let_def e tick_loop.simps)
  next
    case False
    then have l: "tick_loop call (uint (tw_interval tw)) e s =
        map_option (\<lambda>s. (e mod uint (tw_interval tw), s)) (tick_n call (nat (e div uint (tw_interval tw))) s)" for s
      by (intro tick_loop_n [OF i]) simp
    show ?thesis using assms(1) False
      by (cases "tick_n call (nat (e div uint (tw_interval tw))) (w, tw\<lparr>tw_lasttime := currtime\<rparr>)")
        (auto simp: cotw_update_def Let_def e l)
  qed
qed

theorem cotw_update_gap_witness:
  "cotw_update log_call (2 ^ 31 + 100) ([] :: (32 word \<times> string) list, \<lparr>tw_links = Map.empty, tw_nodes = Map.empty,
     tw_lasttime = 100, tw_currtick = 7, tw_interval = 10, tw_remainder = 0\<rparr> :: (unit, string) cotw) =
   Some ([], \<lparr>tw_links = Map.empty, tw_nodes = Map.empty,
     tw_lasttime = 2 ^ 31 + 100, tw_currtick = 7, tw_interval = 10, tw_remainder = 0\<rparr>)"
  by (subst cotw_update_gap [where d = "2 ^ 31" and e = "- (2 ^ 31)"]) simp_all

text \<open>With the interval 0 every round of the loop starts from the state that so many ticks have made.\<close>

lemma tick_loop_rounds: "0 \<le> d \<Longrightarrow> tick_n call k s = Some s' \<Longrightarrow> tick_loop call 0 d s = tick_loop call 0 d s'"
proof (induction k arbitrary: s)
  case (Suc k)
  then obtain s1 where "cotw_tick call s = Some s1" "tick_n call k s1 = Some s'" by (auto split: bind_splits)
  then show ?case using Suc by (subst tick_loop.simps) simp
qed simp

text \<open>C15: With the interval 0 an update of a well-formed wheel that finds 0 to 2^31 - 1 milliseconds elapsed
  never returns, and not because anything is undefined: after any number of ticks, all of them
  defined, the loop is about to make another.\<close>

theorem cotw_update_interval_zero:
  assumes "wheel heads (slot_ok now) tw now info pend W" "tw_interval tw = 0" "tw_lasttime tw < currtime"
    "d = uint currtime - uint (tw_lasttime tw) + uint (tw_remainder tw)" "d < 2 ^ 31"
  shows "cotw_update log_call currtime (w, tw) = None \<and>
    (\<forall>k. \<exists>s. tick_n log_call k (w, tw\<lparr>tw_lasttime := currtime\<rparr>) = Some s \<and>
      tick_loop log_call 0 d (w, tw\<lparr>tw_lasttime := currtime\<rparr>) = tick_loop log_call 0 d s)"
proof -
  have d: "0 \<le> d" using assms(3,4) by (simp add: word_less_def)
  have e: "sint (ucast (currtime - tw_lasttime tw + ucast (tw_remainder tw)) :: 32 word) = d"
    using elapsed_int [of "tw_lasttime tw" currtime "tw_remainder tw"] assms(3-5) by simp
  have "wheel heads (slot_ok now) (tw\<lparr>tw_lasttime := currtime\<rparr>) now info pend W"
    using assms(1) wheel_fields [of "tw\<lparr>tw_lasttime := currtime\<rparr>" tw] by simp
  from wlog.tick_n_wheel [OF this TrueI] have "\<exists>s. tick_n log_call k (w, tw\<lparr>tw_lasttime := currtime\<rparr>) = Some s" for k by blast
  moreover have "cotw_update log_call currtime (w, tw) = None"
    using assms(2,3) by (simp add: cotw_update_def Let_def e tick_loop_zero [OF d])
  ultimately show ?thesis using tick_loop_rounds [OF d] by blast
qed

theorem cotw_update_interval_zero_witness:
  "\<exists>tw W. wheel heads (slot_ok 0) tw 0 two_info two_pend W \<and> tw_interval tw = 0 \<and> cotw_update log_call 125 ([], tw) = None \<and>
    (\<forall>k. \<exists>s. tick_n log_call k ([], tw\<lparr>tw_lasttime := 125\<rparr>) = Some s \<and>
      tick_loop log_call 0 25 ([], tw\<lparr>tw_lasttime := 125\<rparr>) = tick_loop log_call 0 25 s)"
proof -
  obtain tw W where w: "wheel heads (slot_ok 0) tw 0 two_info two_pend W" "tw_lasttime tw = 100" "tw_remainder tw = 0"
    using two_timers by blast
  define tz where "tz = tw\<lparr>tw_interval := 0\<rparr>"
  have z: "wheel heads (slot_ok 0) tz 0 two_info two_pend W" "tw_interval tz = 0"
    using w(1) wheel_fields [of tz tw] by (simp_all add: tz_def)
  have "tw_lasttime tz < 125" "25 = uint (125 :: 64 word) - uint (tw_lasttime tz) + uint (tw_remainder tz)" "(25 :: int) < 2 ^ 31"
    by (simp_all add: tz_def w(2,3))
  from cotw_update_interval_zero [OF z this, of "[]"] show ?thesis using z by blast
qed

end
