(* ===== verification/Falloc.thy ===== *)
theory Falloc
  imports Utils
begin

text \<open>
  The allocator of fixed-size items (\<open>src/co_falloc.c\<close>).  The heap holds the blocks that
  \<open>CO_MALLOC\<close> returned, with their size and their \<open>next\<close> field, and the header that every
  item carved from a block has at its start.  While an item is in use its header is the user's
  memory, so its fields may hold anything; the allocator reads them again in
  \<open>cofalloc_freeitem\<close>.
\<close>

section \<open>Data and operations\<close>

definition MAX_BLOCK_SIZE :: int where "MAX_BLOCK_SIZE = 16 * 1024"
definition MIN_BLOCK_SIZE :: int where "MIN_BLOCK_SIZE = 4096"
definition MIN_ITEM_SIZE :: int where "MIN_ITEM_SIZE = 16"
definition FREE_FLAG :: "32 word" where "FREE_FLAG = 0xC0C0C0C0"

record co_blockitem =
  bi_next :: nat
  bi_flag :: "32 word"

record co_memblock =
  mb_next :: nat
  mb_size :: int

record fheap =
  fh_block :: "nat \<Rightarrow> co_memblock option"
  fh_item :: "nat \<Rightarrow> co_blockitem option"

record cofalloc =
  fa_memblock :: nat
  fa_blocksize :: int
  fa_itemsize :: int
  fa_freeitem :: nat

definition cofalloc_init :: "int \<Rightarrow> int \<Rightarrow> cofalloc" where
  "cofalloc_init blocksize itemsize =
     \<lparr>fa_memblock = 0, fa_blocksize = CO_CLAMP blocksize MIN_BLOCK_SIZE MAX_BLOCK_SIZE,
      fa_itemsize = CO_MAX MIN_ITEM_SIZE itemsize, fa_freeitem = 0\<rparr>"

text \<open>Freeing a block frees the items in it.\<close>

definition free_block :: "fheap \<Rightarrow> nat \<Rightarrow> fheap" where
  "free_block h b =
     \<lparr>fh_block = (fh_block h)(b := None),
      fh_item = (\<lambda>a. case fh_block h b of None \<Rightarrow> fh_item h a
                   | Some mb \<Rightarrow> if b \<le> a \<and> int a < int b + mb_size mb then None else fh_item h a)\<rparr>"

partial_function (option) free_blocks :: "fheap \<Rightarrow> nat \<Rightarrow> fheap exec" where
  "free_blocks h block =
     (if block = 0 then Some h
      else do {
        mb \<leftarrow> fh_block h block;
        free_blocks (free_block h block) (mb_next mb)
      })"

definition cofalloc_free :: "cofalloc \<Rightarrow> fheap \<Rightarrow> fheap exec" where
  "cofalloc_free al h = free_blocks h (fa_memblock al)"

text \<open>
  The carving loop.  An item header is 16 bytes and is written inside the block, whose items start
  after the \<open>next\<close> field of 8 bytes.  The sizes are \<open>int\<close>s here: an item size of 2^31 or more
  is negative.
\<close>

partial_function (option) carve ::
  "nat \<Rightarrow> int \<Rightarrow> int \<Rightarrow> int \<Rightarrow> fheap \<Rightarrow> nat \<Rightarrow> (fheap \<times> nat) exec" where
  "carve block blocksize itemsize idx h freeitem =
     (if idx + itemsize \<le> blocksize then do {
        cassert (0 \<le> idx \<and> idx + 16 \<le> blocksize);
        let item = block + 8 + nat idx;
        let h = h\<lparr>fh_item := (fh_item h)(item \<mapsto> \<lparr>bi_next = freeitem, bi_flag = 0\<rparr>)\<rparr>;
        carve block blocksize itemsize (idx + itemsize) h item
      } else Some (h, freeitem))"

definition s32 :: "int \<Rightarrow> int" where
  "s32 x = (x + 2 ^ 31) mod 2 ^ 32 - 2 ^ 31"

text \<open>\<open>p\<close> is what \<open>CO_MALLOC\<close> returns if it is called; a null block is not checked for.\<close>

definition grow_block :: "cofalloc \<Rightarrow> fheap \<Rightarrow> nat \<Rightarrow> (cofalloc \<times> fheap) exec" where
  "grow_block al h p = do {
     cassert (p \<noteq> 0);
     let h = h\<lparr>fh_block := (fh_block h)(p \<mapsto> \<lparr>mb_next = fa_memblock al, mb_size = fa_blocksize al\<rparr>)\<rparr>;
     (h, freeitem) \<leftarrow> carve p (s32 (fa_blocksize al - 8)) (s32 (fa_itemsize al)) 0 h (fa_freeitem al);
     Some (al\<lparr>fa_memblock := p, fa_freeitem := freeitem\<rparr>, h)
   }"

definition cofalloc_newitem :: "cofalloc \<Rightarrow> fheap \<Rightarrow> nat \<Rightarrow> (nat \<times> cofalloc \<times> fheap) exec" where
  "cofalloc_newitem al h p = do {
     (al, h) \<leftarrow> (if fa_freeitem al = 0 then grow_block al h p else Some (al, h));
     let item = fa_freeitem al;
     bi \<leftarrow> fh_item h item;
     Some (item, al\<lparr>fa_freeitem := bi_next bi\<rparr>, h)
   }"

definition cofalloc_freeitem :: "cofalloc \<Rightarrow> fheap \<Rightarrow> nat \<Rightarrow> (bool \<times> cofalloc \<times> fheap) exec" where
  "cofalloc_freeitem al h item = do {
     bi \<leftarrow> fh_item h item;
     if bi_flag bi = FREE_FLAG then Some (False, al, h)
     else Some (True, al\<lparr>fa_freeitem := item\<rparr>,
       h\<lparr>fh_item := (fh_item h)(item \<mapsto> \<lparr>bi_next = fa_freeitem al, bi_flag = FREE_FLAG\<rparr>)\<rparr>)
   }"

definition cofalloc_isfree :: "fheap \<Rightarrow> nat \<Rightarrow> bool exec" where
  "cofalloc_isfree h item = map_option (\<lambda>bi. bi_flag bi = FREE_FLAG) (fh_item h item)"

text \<open>The user of an item writes to it.\<close>

definition write_item :: "fheap \<Rightarrow> nat \<Rightarrow> co_blockitem \<Rightarrow> fheap exec" where
  "write_item h item bi = do {
     _ \<leftarrow> fh_item h item;
     Some (h\<lparr>fh_item := (fh_item h)(item \<mapsto> bi)\<rparr>)
   }"

section \<open>The invariant\<close>

definition inext :: "fheap \<Rightarrow> nat \<Rightarrow> nat option" where
  "inext h a = map_option bi_next (fh_item h a)"

definition bnext :: "fheap \<Rightarrow> nat \<Rightarrow> nat option" where
  "bnext h b = map_option mb_next (fh_block h b)"

text \<open>The addresses of the items of a block.\<close>

definition slots :: "cofalloc \<Rightarrow> nat \<Rightarrow> nat set" where
  "slots al b = {b + 8 + i * nat (fa_itemsize al) | i. int (i + 1) * fa_itemsize al \<le> fa_blocksize al - 8}"

definition sizes_ok :: "cofalloc \<Rightarrow> bool" where
  "sizes_ok al \<longleftrightarrow> 16 \<le> fa_itemsize al \<and> fa_itemsize al \<le> fa_blocksize al - 8 \<and> fa_blocksize al \<le> 2 ^ 20"

text \<open>The block \<open>[p, p + n)\<close> does not meet the blocks \<open>bs\<close> of the allocator.\<close>

definition apart :: "cofalloc \<Rightarrow> nat \<Rightarrow> nat list \<Rightarrow> bool" where
  "apart al p bs \<longleftrightarrow> (\<forall>b\<in>set bs. int p + fa_blocksize al \<le> int b \<or> int b + fa_blocksize al \<le> int p)"

definition fa_ok :: "cofalloc \<Rightarrow> fheap \<Rightarrow> nat list \<Rightarrow> nat list \<Rightarrow> nat set \<Rightarrow> bool" where
  "fa_ok al h bs fs us \<longleftrightarrow> sizes_ok al \<and> lpath (bnext h) (fa_memblock al) bs \<and>
     lpath (inext h) (fa_freeitem al) fs \<and> distinct fs \<and> set fs \<inter> us = {} \<and>
     set fs \<union> us = (\<Union>b\<in>set bs. slots al b) \<and> (\<forall>a\<in>us. fh_item h a \<noteq> None) \<and>
     (\<forall>b\<in>set bs. \<exists>mb. fh_block h b = Some mb \<and> mb_size mb = fa_blocksize al) \<and>
     sorted_wrt (\<lambda>b c. apart al b [c]) bs"


lemma slots_image:
  assumes "sizes_ok al"
  shows "slots al b = (\<lambda>i. b + 8 + i * nat (fa_itemsize al)) ` {..<nat (fa_blocksize al - 8) div nat (fa_itemsize al)}"
proof -
  obtain s B where e: "fa_itemsize al = int s" "fa_blocksize al - 8 = int B" "0 < s"
    using assms unfolding sizes_ok_def by (intro that [of "nat (fa_itemsize al)" "nat (fa_blocksize al - 8)"]) auto
  have "int (i + 1) * int s \<le> int B \<longleftrightarrow> i < B div s" for i
  proof -
    have "int (i + 1) * int s \<le> int B \<longleftrightarrow> (i + 1) * s \<le> B"
      by (simp only: of_nat_mult [symmetric] of_nat_le_iff)
    also have "\<dots> \<longleftrightarrow> i + 1 \<le> B div s" using e(3) by (simp only: less_eq_div_iff_mult_less_eq)
    also have "\<dots> \<longleftrightarrow> i < B div s" by linarith
    finally show ?thesis .
  qed
  then show ?thesis by (auto simp: slots_def e simp del: of_nat_add of_nat_Suc)
qed

lemma slot_bounds:
  assumes "sizes_ok al" "a \<in> slots al b"
  shows "b + 8 \<le> a" "int a + fa_itemsize al \<le> int b + fa_blocksize al"
proof -
  let ?s = "nat (fa_itemsize al)"
  obtain i where i: "a = b + 8 + i * ?s" "int (i + 1) * fa_itemsize al \<le> fa_blocksize al - 8"
    using assms(2) by (auto simp: slots_def)
  have s: "int ?s = fa_itemsize al" using assms(1) by (simp add: sizes_ok_def)
  show "b + 8 \<le> a" using i(1) by simp
  have "int a = int b + 8 + int i * fa_itemsize al" using i(1) s by simp
  moreover have "int (i + 1) * fa_itemsize al = int i * fa_itemsize al + fa_itemsize al"
    by (simp add: distrib_right)
  ultimately show "int a + fa_itemsize al \<le> int b + fa_blocksize al" using i(2) by linarith
qed

text \<open>Two items do not overlap.\<close>

lemma slots_apart:
  assumes s: "sizes_ok al" and bs: "sorted_wrt (\<lambda>b c. apart al b [c]) bs"
    and a: "b \<in> set bs" "a \<in> slots al b" and c: "d \<in> set bs" "c \<in> slots al d" and ne: "a \<noteq> c"
  shows "int a + fa_itemsize al \<le> int c \<or> int c + fa_itemsize al \<le> int a"
proof (cases "b = d")
  case True
  let ?s = "nat (fa_itemsize al)"
  have e: "int ?s = fa_itemsize al" using s by (simp add: sizes_ok_def)
  obtain i j where ij: "a = b + 8 + i * ?s" "c = b + 8 + j * ?s"
    using a(2) c(2) True by (auto simp: slots_def)
  have "i \<noteq> j" using ij ne by auto
  then have "Suc i \<le> j \<or> Suc j \<le> i" by linarith
  then have "Suc i * ?s \<le> j * ?s \<or> Suc j * ?s \<le> i * ?s" using mult_le_mono1 by blast
  then have "a + ?s \<le> c \<or> c + ?s \<le> a" using ij by auto
  then show ?thesis using e by linarith
next
  case False
  have "apart al b [d] \<or> apart al d [b]" using bs a(1) c(1) False
    by (induction bs) auto
  then show ?thesis using slot_bounds [OF s a(2)] slot_bounds [OF s c(2)] s by (auto simp: apart_def)
qed

text \<open>The carving loop makes a list of the slots, the last first, in front of the list it is given.\<close>

lemma carve_spec:
  assumes "16 \<le> s" "B < 2 ^ 31" "lpath (inext h) f fs" "\<forall>j. i \<le> j \<and> j < B div s \<longrightarrow> p + 8 + j * s \<notin> set fs"
  shows "\<exists>h' f'. carve p (int B) (int s) (int (i * s)) h f = Some (h', f') \<and> fh_block h' = fh_block h \<and>
    (\<forall>a. a \<notin> (\<lambda>j. p + 8 + j * s) ` {i..<B div s} \<longrightarrow> fh_item h' a = fh_item h a) \<and>
    lpath (inext h') f' (rev (map (\<lambda>j. p + 8 + j * s) [i..<B div s]) @ fs)"
  using assms(3,4)
proof (induction "B div s - i" arbitrary: i h f fs)
  case 0
  then have "B div s < i + 1" by simp
  then have "B < (i + 1) * s" using assms(1) by (simp add: div_less_iff_less_mult)
  then have "\<not> int (i * s) + int s \<le> int B" by (simp add: add.commute flip: of_nat_add of_nat_mult)
  then show ?case using 0 by (subst carve.simps) auto
next
  case (Suc n)
  then have "i + 1 \<le> B div s" by simp
  then have "(i + 1) * s \<le> B" using assms(1) by (simp only: less_eq_div_iff_mult_less_eq)
  then have le: "i * s + s \<le> B" by simp
  let ?a = "p + 8 + i * s"
  let ?h = "h\<lparr>fh_item := (fh_item h)(?a \<mapsto> \<lparr>bi_next = f, bi_flag = 0\<rparr>)\<rparr>"
  have a: "?a \<notin> set fs" using Suc.prems(2) \<open>i + 1 \<le> B div s\<close> by simp
  have "inext ?h = (inext h)(?a := Some f)" by (auto simp: inext_def)
  then have "lpath (inext ?h) ?a (?a # fs)" using a Suc.prems(1) by simp
  moreover have "\<forall>j. i + 1 \<le> j \<and> j < B div s \<longrightarrow> p + 8 + j * s \<notin> set (?a # fs)"
    using Suc.prems(2) assms(1) by auto
  moreover have "n = B div s - (i + 1)" using Suc.hyps(2) by simp
  ultimately obtain h' f' where r: "carve p (int B) (int s) (int ((i + 1) * s)) ?h ?a = Some (h', f')"
    "fh_block h' = fh_block ?h" "\<forall>b. b \<notin> (\<lambda>j. p + 8 + j * s) ` {i + 1..<B div s} \<longrightarrow> fh_item h' b = fh_item ?h b"
    "lpath (inext h') f' (rev (map (\<lambda>j. p + 8 + j * s) [i + 1..<B div s]) @ ?a # fs)"
    using Suc.hyps(1) [of "i + 1" ?h ?a "?a # fs"] by blast
  have "[i..<B div s] = i # [i + 1..<B div s]" "{i..<B div s} = insert i {i + 1..<B div s}"
    using \<open>i + 1 \<le> B div s\<close> by (auto simp: upt_rec)
  note u = this
  have "carve p (int B) (int s) (int (i * s)) h f = Some (h', f')"
    using r(1) le assms(1) by (subst carve.simps) (simp add: cassert_def Let_def nat_mult_distrib add.commute flip: of_nat_mult)
  then show ?case using r(2-4) unfolding u by auto
qed

lemma slot_fresh:
  assumes "sizes_ok al" "apart al p bs" "a \<in> slots al p" "b \<in> set bs"
  shows "a \<notin> slots al b"
proof
  assume "a \<in> slots al b"
  with slot_bounds [OF assms(1,3)] slot_bounds [OF assms(1) this] assms(1,2,4) show False
    by (auto simp: apart_def sizes_ok_def)
qed

lemma apart_notin:
  assumes "sizes_ok al" "apart al p bs"
  shows "p \<notin> set bs"
proof
  assume "p \<in> set bs"
  with assms show False by (auto simp: apart_def sizes_ok_def)
qed

lemma grow_block_ok:
  assumes ok: "fa_ok al h bs [] us" and p: "p \<noteq> 0" "apart al p bs"
  shows "\<exists>al' h' fs. grow_block al h p = Some (al', h') \<and> fs \<noteq> [] \<and> fa_ok al' h' (p # bs) fs us \<and>
    (\<forall>u\<in>us. fh_item h' u = fh_item h u) \<and> fa_itemsize al' = fa_itemsize al \<and> fa_blocksize al' = fa_blocksize al"
proof -
  have s: "sizes_ok al" using ok by (simp add: fa_ok_def)
  obtain s B where e: "fa_itemsize al = int s" "fa_blocksize al = int B + 8" "16 \<le> s" "s \<le> B" "B < 2 ^ 31"
    using s unfolding sizes_ok_def
    by (intro that [of "nat (fa_itemsize al)" "nat (fa_blocksize al - 8)"]) auto
  let ?h = "h\<lparr>fh_block := (fh_block h)(p \<mapsto> \<lparr>mb_next = fa_memblock al, mb_size = fa_blocksize al\<rparr>)\<rparr>"
  let ?slot = "\<lambda>j. p + 8 + j * s"
  let ?fs = "rev (map ?slot [0..<B div s])"
  have f: "fa_freeitem al = 0" using ok by (simp add: fa_ok_def)
  have "s32 (int B) = int B" "s32 (int s) = int s" using e(3-5) by (simp_all add: s32_def)
  note sz = this
  obtain h' f' where c: "carve p (int B) (int s) 0 ?h 0 = Some (h', f')" "fh_block h' = fh_block ?h"
    "\<forall>a. a \<notin> ?slot ` {0..<B div s} \<longrightarrow> fh_item h' a = fh_item h a" "lpath (inext h') f' ?fs"
    using carve_spec [of s B ?h 0 "[]" 0 p] e(3,5) by auto
  let ?al = "al\<lparr>fa_memblock := p, fa_freeitem := f'\<rparr>"
  have g: "grow_block al h p = Some (?al, h')"
    using c(1) p(1) sz f by (simp add: grow_block_def cassert_def Let_def e)
  have slots: "slots al p = set ?fs" using slots_image [OF s, of p] by (simp add: e atLeast0LessThan)
  have sl: "slots ?al b = slots al b" for b by (simp add: slots_def)
  have us: "us = (\<Union>b\<in>set bs. slots al b)" "\<forall>a\<in>us. fh_item h a \<noteq> None"
    "lpath (bnext h) (fa_memblock al) bs" "\<forall>b\<in>set bs. \<exists>mb. fh_block h b = Some mb \<and> mb_size mb = fa_blocksize al"
    "sorted_wrt (\<lambda>b c. apart al b [c]) bs"
    using ok by (simp_all add: fa_ok_def)
  have out: "a \<notin> us" if "a \<in> slots al p" for a using slot_fresh [OF s p(2) that] us(1) by blast
  have pb: "p \<notin> set bs" by (rule apart_notin [OF s p(2)])
  have same: "fh_item h' u = fh_item h u" if "u \<in> us" for u
    using c(3) out that slots by (auto simp: atLeast0LessThan)
  have bn: "bnext h' = (bnext h)(p := Some (fa_memblock al))" using c(2) by (auto simp: bnext_def)
  have "fa_ok ?al h' (p # bs) ?fs us"
    unfolding fa_ok_def
  proof (intro conjI)
    show "sizes_ok ?al" using s by (simp add: sizes_ok_def)
    show "lpath (bnext h') (fa_memblock ?al) (p # bs)" using us(3) pb p(1) by (simp add: bn)
    show "lpath (inext h') (fa_freeitem ?al) ?fs" using c(4) by simp
    show "distinct ?fs" using e(3) by (auto simp: distinct_map inj_on_def)
    show "set ?fs \<inter> us = {}" using out slots by blast
    show "set ?fs \<union> us = (\<Union>b\<in>set (p # bs). slots ?al b)" using us(1) slots by (simp add: sl)
    show "\<forall>a\<in>us. fh_item h' a \<noteq> None" using us(2) same by simp
    show "\<forall>b\<in>set (p # bs). \<exists>mb. fh_block h' b = Some mb \<and> mb_size mb = fa_blocksize ?al"
      using us(4) pb c(2) by auto
    show "sorted_wrt (\<lambda>b c. apart ?al b [c]) (p # bs)" using us(5) p(2) by (simp add: apart_def)
  qed
  moreover have "0 < B div s" using e(3,4) by (simp add: div_greater_zero_iff)
  then have "?fs \<noteq> []" by simp
  ultimately show ?thesis using g same by (intro exI [of _ ?al] exI [of _ h'] exI [of _ ?fs]) simp
qed

lemma cofalloc_newitem_spec:
  assumes ok: "fa_ok al h bs fs us" and p: "fs = [] \<Longrightarrow> p \<noteq> 0 \<and> apart al p bs"
  shows "\<exists>a al' h' fs'. cofalloc_newitem al h p = Some (a, al', h') \<and> a \<notin> us \<and>
    fa_ok al' h' (if fs = [] then p # bs else bs) fs' (insert a us) \<and> (fs \<noteq> [] \<longrightarrow> fs = a # fs' \<and> h' = h) \<and>
    (\<forall>u\<in>us. fh_item h' u = fh_item h u) \<and> fa_itemsize al' = fa_itemsize al"
proof -
  have pop: "\<exists>a al' fs'. (do { let item = fa_freeitem al; bi \<leftarrow> fh_item h item;
      Some (item, al\<lparr>fa_freeitem := bi_next bi\<rparr>, h) }) = Some (a, al', h) \<and> a \<notin> us \<and> fs = a # fs' \<and>
      fa_ok al' h bs fs' (insert a us) \<and> fa_itemsize al' = fa_itemsize al"
    if ok: "fa_ok al h bs fs us" and ne: "fs \<noteq> []" for al h bs fs
  proof -
    obtain a fs' where fs: "fs = a # fs'" using ne by (cases fs) auto
    obtain bi where bi: "fh_item h a = Some bi" "fa_freeitem al = a" "lpath (inext h) (bi_next bi) fs'"
      using ok fs by (auto simp: fa_ok_def inext_def)
    let ?al = "al\<lparr>fa_freeitem := bi_next bi\<rparr>"
    have f: "sizes_ok ?al = sizes_ok al" "slots ?al = slots al" "apart ?al = apart al"
      by (auto simp: sizes_ok_def slots_def apart_def fun_eq_iff)
    have "a \<notin> us" "a \<notin> set fs'" "insert a (set fs') \<union> us = (\<Union>b\<in>set bs. slots al b)"
      using ok fs by (auto simp: fa_ok_def)
    moreover from this have "fa_ok ?al h bs fs' (insert a us)"
      using ok fs bi unfolding fa_ok_def f by auto
    ultimately show ?thesis using bi fs by (intro exI [of _ a] exI [of _ ?al] exI [of _ fs']) simp
  qed
  show ?thesis
  proof (cases "fs = []")
    case True
    obtain al1 h1 fs1 where g: "grow_block al h p = Some (al1, h1)" "fs1 \<noteq> []" "fa_ok al1 h1 (p # bs) fs1 us"
      "\<forall>u\<in>us. fh_item h1 u = fh_item h u" "fa_itemsize al1 = fa_itemsize al"
      using grow_block_ok [of al h bs us p] ok p True by blast
    have "fa_freeitem al = 0" using ok True by (simp add: fa_ok_def)
    then have "cofalloc_newitem al h p = (do { let item = fa_freeitem al1; bi \<leftarrow> fh_item h1 item;
        Some (item, al1\<lparr>fa_freeitem := bi_next bi\<rparr>, h1) })"
      by (simp add: cofalloc_newitem_def g(1))
    then show ?thesis using pop [OF g(3,2)] g(4,5) True by auto
  next
    case False
    then have "fa_freeitem al \<noteq> 0" using ok by (cases fs) (auto simp: fa_ok_def)
    then have "cofalloc_newitem al h p = (do { let item = fa_freeitem al; bi \<leftarrow> fh_item h item;
        Some (item, al\<lparr>fa_freeitem := bi_next bi\<rparr>, h) })"
      by (simp add: cofalloc_newitem_def)
    then show ?thesis using pop [OF ok False] False by auto
  qed
qed


lemma cofalloc_freeitem_spec:
  assumes ok: "fa_ok al h bs fs us" and a: "a \<in> us" "fh_item h a = Some bi" "bi_flag bi \<noteq> FREE_FLAG"
  shows "\<exists>al' h'. cofalloc_freeitem al h a = Some (True, al', h') \<and> fa_ok al' h' bs (a # fs) (us - {a}) \<and>
    map_option bi_flag (fh_item h' a) = Some FREE_FLAG \<and> fa_itemsize al' = fa_itemsize al \<and>
    (\<forall>u. u \<noteq> a \<longrightarrow> fh_item h' u = fh_item h u)"
proof -
  let ?al = "al\<lparr>fa_freeitem := a\<rparr>"
  let ?h = "h\<lparr>fh_item := (fh_item h)(a \<mapsto> \<lparr>bi_next = fa_freeitem al, bi_flag = FREE_FLAG\<rparr>)\<rparr>"
  have f: "sizes_ok ?al = sizes_ok al" "slots ?al = slots al" "apart ?al = apart al"
    by (auto simp: sizes_ok_def slots_def apart_def fun_eq_iff)
  have n: "inext ?h = (inext h)(a := Some (fa_freeitem al))" "bnext ?h = bnext h"
    by (auto simp: inext_def bnext_def)
  have "a \<notin> set fs" using ok a(1) by (auto simp: fa_ok_def)
  moreover obtain b where "b \<in> set bs" "a \<in> slots al b" using ok a(1) unfolding fa_ok_def by blast
  then have "a \<noteq> 0" using slot_bounds(1) [of al a b] ok by (auto simp: fa_ok_def)
  moreover have "insert a (set fs) \<union> (us - {a}) = set fs \<union> us" using a(1) by blast
  ultimately have "fa_ok ?al ?h bs (a # fs) (us - {a})"
    using ok unfolding fa_ok_def f n by auto
  then show ?thesis using a(2,3) by (simp add: cofalloc_freeitem_def)
qed

lemma free_blocks_spec:
  assumes "lpath (bnext h) b bs" "distinct bs"
  shows "\<exists>h'. free_blocks h b = Some h' \<and> (\<forall>c. fh_block h' c = (if c \<in> set bs then None else fh_block h c)) \<and>
    (\<forall>a. fh_item h' a = (if \<exists>c\<in>set bs. \<exists>mb. fh_block h c = Some mb \<and> c \<le> a \<and> int a < int c + mb_size mb
       then None else fh_item h a))"
  using assms
proof (induction bs arbitrary: b h)
  case Nil
  then show ?case by (subst free_blocks.simps) simp
next
  case (Cons c bs)
  obtain mb where mb: "b = c" "c \<noteq> 0" "fh_block h c = Some mb" "lpath (bnext h) (mb_next mb) bs"
    using Cons.prems(1) that by (auto simp: bnext_def [of h c])
  let ?h = "free_block h c"
  have "bnext ?h = (bnext h)(c := None)" by (auto simp: bnext_def free_block_def)
  then have "lpath (bnext ?h) (mb_next mb) bs" using mb(4) Cons.prems(2) by simp
  then obtain h' where r: "free_blocks ?h (mb_next mb) = Some h'"
    "\<forall>x. fh_block h' x = (if x \<in> set bs then None else fh_block ?h x)"
    "\<forall>a. fh_item h' a = (if \<exists>x\<in>set bs. \<exists>mb. fh_block ?h x = Some mb \<and> x \<le> a \<and> int a < int x + mb_size mb
       then None else fh_item ?h a)"
    using Cons.IH [of ?h "mb_next mb"] Cons.prems(2) by auto
  have "free_blocks h b = Some h'" using mb r(1) by (subst free_blocks.simps) simp
  moreover have "fh_block ?h x = fh_block h x" if "x \<in> set bs" for x
    using that Cons.prems(2) by (auto simp: free_block_def)
  ultimately show ?case using r(2,3) mb(1,3)
    by (intro exI [of _ h']) (auto simp: free_block_def)
qed

lemma cofalloc_init_ok:
  assumes "0 \<le> itemsize" "itemsize \<le> 4088"
  shows "fa_ok (cofalloc_init blocksize itemsize) h [] [] {}"
  using assms
  by (auto simp: fa_ok_def cofalloc_init_def sizes_ok_def CO_MAX_def CO_MIN_def CO_CLAMP_def
      MIN_BLOCK_SIZE_def MAX_BLOCK_SIZE_def MIN_ITEM_SIZE_def)

lemma write_item_ok:
  assumes "fa_ok al h bs fs us" "a \<in> us"
  shows "\<exists>h'. write_item h a bi = Some h' \<and> fa_ok al h' bs fs us \<and> fh_item h' a = Some bi"
proof -
  let ?h = "h\<lparr>fh_item := (fh_item h)(a \<mapsto> bi)\<rparr>"
  have n: "inext ?h = (inext h)(a := Some (bi_next bi))" "bnext ?h = bnext h" by (auto simp: inext_def bnext_def)
  have "a \<notin> set fs" "fh_item h a \<noteq> None" using assms by (auto simp: fa_ok_def)
  moreover from this(1) have "fa_ok al ?h bs fs us" using assms unfolding fa_ok_def n by auto
  ultimately show ?thesis by (auto simp: write_item_def)
qed

text \<open>An allocator with one item, written by its user, for the witnesses.\<close>

lemma one_item:
  "\<exists>a al h fs. fa_ok al h [1000] fs {a} \<and> fh_item h a = Some \<lparr>bi_next = 7, bi_flag = 1\<rparr>"
proof -
  obtain a al h fs where "fa_ok al h [1000] fs {a}"
    using cofalloc_newitem_spec [OF cofalloc_init_ok [of 24 4096 "\<lparr>fh_block = Map.empty, fh_item = Map.empty\<rparr>"], of 1000]
    by (auto simp: apart_def)
  then show ?thesis using write_item_ok [of al h "[1000]" fs "{a}" a] by blast
qed

section \<open>Properties\<close>

text \<open>C16: a new item is not in use, overlaps no item in use and leaves the items in use as they
  are; a block is taken from \<open>CO_MALLOC\<close> only when no item is free.\<close>

theorem cofalloc_newitem_correct:
  assumes "fa_ok al h bs fs us" "fs = [] \<Longrightarrow> p \<noteq> 0 \<and> apart al p bs"
  shows "\<exists>a al' h' fs'. cofalloc_newitem al h p = Some (a, al', h') \<and> a \<notin> us \<and>
    fa_ok al' h' (if fs = [] then p # bs else bs) fs' (insert a us) \<and> (fs \<noteq> [] \<longrightarrow> fs = a # fs' \<and> h' = h) \<and>
    (\<forall>u\<in>us. fh_item h' u = fh_item h u \<and> (int a + fa_itemsize al \<le> int u \<or> int u + fa_itemsize al \<le> int a))"
proof -
  obtain a al' h' fs' where r: "cofalloc_newitem al h p = Some (a, al', h')" "a \<notin> us"
    "fa_ok al' h' (if fs = [] then p # bs else bs) fs' (insert a us)" "fs \<noteq> [] \<longrightarrow> fs = a # fs' \<and> h' = h"
    "\<forall>u\<in>us. fh_item h' u = fh_item h u" "fa_itemsize al' = fa_itemsize al"
    using cofalloc_newitem_spec [OF assms] by blast
  have "int a + fa_itemsize al \<le> int u \<or> int u + fa_itemsize al \<le> int a" if "u \<in> us" for u
  proof -
    let ?bs = "if fs = [] then p # bs else bs"
    have U: "set fs' \<union> insert a us = (\<Union>b\<in>set ?bs. slots al' b)" and s: "sizes_ok al'"
      and w: "sorted_wrt (\<lambda>b c. apart al' b [c]) ?bs"
      using r(3) unfolding fa_ok_def by blast+
    have "a \<in> (\<Union>b\<in>set ?bs. slots al' b)" "u \<in> (\<Union>b\<in>set ?bs. slots al' b)"
      using that unfolding U [symmetric] by auto
    then obtain b d where bd: "b \<in> set ?bs" "a \<in> slots al' b" "d \<in> set ?bs" "u \<in> slots al' d"
      by (elim UN_E) (rule that)
    have "a \<noteq> u" using r(2) that by blast
    from slots_apart [OF s w bd this] show ?thesis unfolding r(6) .
  qed
  then show ?thesis using r(1-5) by (intro exI [of _ a] exI [of _ al'] exI [of _ h'] exI [of _ fs']) simp
qed

theorem cofalloc_newitem_correct_witness:
  "\<exists>a al' h' fs'. cofalloc_newitem (cofalloc_init 4096 24) \<lparr>fh_block = Map.empty, fh_item = Map.empty\<rparr> 1000 =
     Some (a, al', h') \<and> fa_ok al' h' [1000] fs' {a}"
  using cofalloc_newitem_correct [OF cofalloc_init_ok [of 24 4096 "\<lparr>fh_block = Map.empty, fh_item = Map.empty\<rparr>"], of 1000]
  by (auto simp: apart_def)

text \<open>Freeing an item in use whose header does not read as free releases it: it reads as free,
  the next new item is this one, and freeing it again is refused and changes nothing.\<close>

theorem cofalloc_freeitem_correct:
  assumes "fa_ok al h bs fs us" "a \<in> us" "fh_item h a = Some bi" "bi_flag bi \<noteq> FREE_FLAG"
  shows "\<exists>al' h'. cofalloc_freeitem al h a = Some (True, al', h') \<and> fa_ok al' h' bs (a # fs) (us - {a}) \<and>
    cofalloc_isfree h' a = Some True \<and> cofalloc_freeitem al' h' a = Some (False, al', h') \<and>
    (\<exists>al''. cofalloc_newitem al' h' p = Some (a, al'', h') \<and> fa_ok al'' h' bs fs us) \<and>
    (\<forall>u. u \<noteq> a \<longrightarrow> fh_item h' u = fh_item h u)"
proof -
  obtain al' h' where r: "cofalloc_freeitem al h a = Some (True, al', h')" "fa_ok al' h' bs (a # fs) (us - {a})"
    "map_option bi_flag (fh_item h' a) = Some FREE_FLAG" "\<forall>u. u \<noteq> a \<longrightarrow> fh_item h' u = fh_item h u"
    using cofalloc_freeitem_spec [OF assms] by blast
  have "insert a (us - {a}) = us" using assms(2) by blast
  then have "\<exists>al''. cofalloc_newitem al' h' p = Some (a, al'', h') \<and> fa_ok al'' h' bs fs us"
    using cofalloc_newitem_spec [OF r(2), of p] by auto
  then show ?thesis using r by (auto simp: cofalloc_isfree_def cofalloc_freeitem_def)
qed

theorem cofalloc_freeitem_correct_witness:
  "\<exists>a al h fs al' h'. fa_ok al h [1000] fs {a} \<and> cofalloc_freeitem al h a = Some (True, al', h') \<and>
     cofalloc_isfree h' a = Some True \<and> cofalloc_freeitem al' h' a = Some (False, al', h')"
proof -
  obtain a al h fs where o: "fa_ok al h [1000] fs {a}" "fh_item h a = Some \<lparr>bi_next = 7, bi_flag = 1\<rparr>"
    using one_item by blast
  show ?thesis
    using cofalloc_freeitem_correct [OF o(1) _ o(2), of 0] o(1) by (fastforce simp: FREE_FLAG_def)
qed

text \<open>A recycled item keeps its mark: when its user has not written over the header, freeing it
  is refused as a double free and the item is never available again.\<close>

theorem cofalloc_stale_flag:
  assumes "fa_ok al h bs fs us" "a \<in> us" "fh_item h a = Some bi" "bi_flag bi \<noteq> FREE_FLAG"
    "cofalloc_freeitem al h a = Some (r, al1, h1)" "cofalloc_newitem al1 h1 p = Some (b, al2, h2)"
  shows "b = a \<and> cofalloc_freeitem al2 h2 a = Some (False, al2, h2) \<and> fa_ok al2 h2 bs fs us"
proof -
  obtain al' h' where r: "cofalloc_freeitem al h a = Some (True, al', h')" "fa_ok al' h' bs (a # fs) (us - {a})"
    "map_option bi_flag (fh_item h' a) = Some FREE_FLAG"
    using cofalloc_freeitem_spec [OF assms(1-4)] by blast
  have e: "al1 = al'" "h1 = h'" using r(1) assms(5) by simp_all
  have u: "insert a (us - {a}) = us" using assms(2) by blast
  obtain c al3 h3 fs3 where n: "cofalloc_newitem al1 h1 p = Some (c, al3, h3)"
    "fa_ok al3 h3 bs fs3 (insert c (us - {a}))" "a # fs = c # fs3" "h3 = h1"
    using cofalloc_newitem_spec [OF r(2), of p] e by auto
  then have b: "b = a" "al2 = al3" "h2 = h3" "fs3 = fs" using assms(6) by auto
  then have "b = a" "fa_ok al2 h2 bs fs us" using n(2,3) u by auto
  moreover have "cofalloc_freeitem al2 h2 a = Some (False, al2, h2)"
    using r(3) e b(3) n(4) by (auto simp: cofalloc_freeitem_def)
  ultimately show ?thesis by simp
qed

theorem cofalloc_stale_flag_witness:
  "\<exists>a al h al1 h1 al2 h2. cofalloc_freeitem al h a = Some (True, al1, h1) \<and>
     cofalloc_newitem al1 h1 0 = Some (a, al2, h2) \<and> cofalloc_freeitem al2 h2 a = Some (False, al2, h2)"
proof -
  obtain a al h fs where o: "fa_ok al h [1000] fs {a}" "fh_item h a = Some \<lparr>bi_next = 7, bi_flag = 1\<rparr>"
    using one_item by blast
  have f: "bi_flag \<lparr>bi_next = 7, bi_flag = 1\<rparr> \<noteq> FREE_FLAG" by (simp add: FREE_FLAG_def)
  obtain al1 h1 where 1: "cofalloc_freeitem al h a = Some (True, al1, h1)" "fa_ok al1 h1 [1000] (a # fs) ({a} - {a})"
    using cofalloc_freeitem_spec [OF o(1) _ o(2) f] by blast
  obtain b al2 h2 where 2: "cofalloc_newitem al1 h1 0 = Some (b, al2, h2)"
    using cofalloc_newitem_spec [OF 1(2), of 0] by auto
  show ?thesis using cofalloc_stale_flag [OF o(1) _ o(2) f 1(1) 2] 1(1) 2 by blast
qed

text \<open>Freeing the allocator frees all of its blocks, with the items in use, and no other
  block.\<close>

theorem cofalloc_free_correct:
  assumes "fa_ok al h bs fs us"
  shows "\<exists>h'. cofalloc_free al h = Some h' \<and> (\<forall>c. fh_block h' c = (if c \<in> set bs then None else fh_block h c)) \<and>
    (\<forall>a\<in>set fs \<union> us. fh_item h' a = None)"
proof -
  have s: "sizes_ok al" and bs: "lpath (bnext h) (fa_memblock al) bs" and w: "sorted_wrt (\<lambda>b c. apart al b [c]) bs"
    and u: "set fs \<union> us = (\<Union>b\<in>set bs. slots al b)"
    and mb: "\<forall>b\<in>set bs. \<exists>mb. fh_block h b = Some mb \<and> mb_size mb = fa_blocksize al"
    using assms unfolding fa_ok_def by blast+
  have "distinct bs"
    using w apart_notin [OF s] by (induction bs) (auto simp: apart_def)
  from free_blocks_spec [OF bs this] obtain h' where h': "cofalloc_free al h = Some h'"
    "\<forall>c. fh_block h' c = (if c \<in> set bs then None else fh_block h c)"
    "\<forall>a. fh_item h' a = (if \<exists>c\<in>set bs. \<exists>mb. fh_block h c = Some mb \<and> c \<le> a \<and> int a < int c + mb_size mb
       then None else fh_item h a)"
    by (auto simp: cofalloc_free_def)
  have "fh_item h' a = None" if "a \<in> set fs \<union> us" for a
  proof -
    have "a \<in> (\<Union>b\<in>set bs. slots al b)" using that u by blast
    then obtain b where b: "b \<in> set bs" "a \<in> slots al b" by blast
    obtain m where m: "fh_block h b = Some m" "mb_size m = fa_blocksize al" using mb b(1) by blast
    have le: "b \<le> a" "int a < int b + fa_blocksize al"
      using slot_bounds [OF s b(2)] s by (auto simp: sizes_ok_def)
    show ?thesis using h'(3) b(1) m le by auto
  qed
  then show ?thesis using h' by blast
qed

theorem cofalloc_free_correct_witness:
  "\<exists>a al h h'. fh_item h a \<noteq> None \<and> cofalloc_free al h = Some h' \<and> fh_item h' a = None"
proof -
  obtain a al h fs where o: "fa_ok al h [1000] fs {a}" "fh_item h a = Some \<lparr>bi_next = 7, bi_flag = 1\<rparr>"
    using one_item by blast
  then show ?thesis using cofalloc_free_correct [OF o(1)] by force
qed

end
