(* ===== verification/TimerService.thy ===== *)
theory TimerService
  imports TimingWheel Falloc
begin

text \<open>
  Timers over the timing wheel (\<open>src/co_timerservice.c\<close>).  A timer is an item of the pool of
  \<open>Falloc\<close> with a wheel node inside; the item's address names both.  The first 16 bytes of an item
  are its \<open>sv\<close> and \<open>cb\<close> fields and, while the item is free, the header of the pool: the model keeps
  the header in step with \<open>sv\<close> and with the low half of \<open>cb\<close>, which the argument \<open>low\<close> reads off a
  function pointer.  \<open>app\<close> runs the application's callbacks.
\<close>

section \<open>Data and operations\<close>

record ('f, 'u) cotitem =
  it_cb :: "'f option"
  it_ud1 :: 'u
  it_ud2 :: 'u
  it_loop :: "32 word"

record ('f, 'u) cots =
  ts_self :: nat
  ts_alloc :: cofalloc
  ts_heap :: fheap
  ts_items :: "nat \<Rightarrow> ('f, 'u) cotitem option"

type_synonym twheel = "(unit, nat) cotw"
type_synonym ('f, 'u, 'w) app =
  "'f \<Rightarrow> nat \<Rightarrow> 'u \<Rightarrow> 'u \<Rightarrow> ('w \<times> ('f, 'u) cots) \<times> twheel \<Rightarrow> (('w \<times> ('f, 'u) cots) \<times> twheel) exec"

text \<open>\<open>self\<close> is the address of the service and \<open>tw\<close> the wheel's memory before it is initialised.\<close>

definition cots_new :: "nat \<Rightarrow> fheap \<Rightarrow> twheel \<Rightarrow> 16 word \<Rightarrow> 64 word \<Rightarrow> (('f, 'u) cots \<times> twheel) exec" where
  "cots_new self h tw interval currtime = do {
     cassert (self \<noteq> 0);
     let sv = \<lparr>ts_self = self, ts_alloc = cofalloc_init 4096 80, ts_heap = h, ts_items = Map.empty\<rparr>;
     tw \<leftarrow> cotw_init tw interval currtime;
     Some (sv, tw)
   }"

definition cots_free :: "('f, 'u) cots \<Rightarrow> fheap exec" where
  "cots_free sv = cofalloc_free (ts_alloc sv) (ts_heap sv)"

definition on_timer :: "('f, 'u, 'w) app \<Rightarrow> (unit, nat, 'w \<times> ('f, 'u) cots) callback" where
  "on_timer app u item s = do {
     it \<leftarrow> ts_items (snd (fst s)) item;
     tw \<leftarrow> (if it_loop it \<noteq> 0 then cotw_add (snd s) item (it_loop it) else Some (snd s));
     case it_cb it of
       None \<Rightarrow> Some (fst s, tw)
     | Some cb \<Rightarrow> app cb item (it_ud1 it) (it_ud2 it) (fst s, tw)
   }"

definition cots_add_timer :: "('f option \<Rightarrow> 32 word) \<Rightarrow> ('f, 'u) cots \<Rightarrow> twheel \<Rightarrow> nat \<Rightarrow> 32 word \<Rightarrow> 32 word \<Rightarrow>
    'f option \<Rightarrow> 'u \<Rightarrow> 'u \<Rightarrow> (nat \<times> ('f, 'u) cots \<times> twheel) exec" where
  "cots_add_timer low sv tw p delay loop cb ud1 ud2 = do {
     (item, al, h) \<leftarrow> cofalloc_newitem (ts_alloc sv) (ts_heap sv) p;
     h \<leftarrow> write_item h item \<lparr>bi_next = ts_self sv, bi_flag = low cb\<rparr>;
     let it = \<lparr>it_cb = cb, it_ud1 = ud1, it_ud2 = ud2, it_loop = loop\<rparr>;
     let tw = cotw_node_init tw item (Some ()) item;
     tw \<leftarrow> cotw_add tw item delay;
     Some (item, sv\<lparr>ts_alloc := al, ts_heap := h, ts_items := (ts_items sv)(item \<mapsto> it)\<rparr>, tw)
   }"

text \<open>\<open>handle\<close> is \<open>None\<close> for a null pointer to a handle and \<open>Some 0\<close> for a null handle.\<close>

definition cots_del_timer :: "('f, 'u) cots \<Rightarrow> twheel \<Rightarrow> nat option \<Rightarrow> (nat option \<times> ('f, 'u) cots \<times> twheel) exec" where
  "cots_del_timer sv tw handle =
     (case handle of
        None \<Rightarrow> Some (handle, sv, tw)
      | Some item \<Rightarrow>
          if item = 0 then Some (handle, sv, tw)
          else do {
            free \<leftarrow> cofalloc_isfree (ts_heap sv) item;
            if free then Some (handle, sv, tw)
            else do {
              (r, tw) \<leftarrow> cotw_del tw item;
              (b, al, h) \<leftarrow> cofalloc_freeitem (ts_alloc sv) (ts_heap sv) item;
              Some (Some 0, sv\<lparr>ts_alloc := al, ts_heap := h, ts_items := (ts_items sv)(item := None)\<rparr>, tw)
            }
          })"

definition cots_update :: "('f, 'u, 'w) app \<Rightarrow> 64 word \<Rightarrow> ('w \<times> ('f, 'u) cots) \<times> twheel \<Rightarrow>
    (('w \<times> ('f, 'u) cots) \<times> twheel) exec" where
  "cots_update app currtime s = cotw_update (on_timer app) currtime s"

section \<open>The invariant\<close>

text \<open>
  The timers that exist are the items in use, \<open>T\<close>; a timer may exist without being pending.
\<close>

definition tinfo :: "(nat \<Rightarrow> ('f, 'u) cotitem option) \<Rightarrow> nat \<Rightarrow> (unit option \<times> nat) option" where
  "tinfo T a = (if T a = None then None else Some (Some (), a))"

definition ts_ok :: "('f option \<Rightarrow> 32 word) \<Rightarrow> ('f, 'u) cots \<Rightarrow> twheel \<Rightarrow> nat \<Rightarrow> nat list \<Rightarrow>
    (nat \<Rightarrow> ('f, 'u) cotitem option) \<Rightarrow> (nat \<Rightarrow> nat option) \<Rightarrow> bool" where
  "ts_ok low sv tw now bs T pend \<longleftrightarrow> ts_items sv = T \<and>
     (\<exists>fs. fa_ok (ts_alloc sv) (ts_heap sv) bs fs (dom T)) \<and>
     (\<forall>a it. T a = Some it \<longrightarrow> map_option bi_flag (fh_item (ts_heap sv) a) = Some (low (it_cb it))) \<and>
     (\<exists>W. wheel heads (slot_ok now) tw now (tinfo T) pend W)"

lemma tinfo_upd: "tinfo (T(a \<mapsto> it)) = (tinfo T)(a \<mapsto> (Some (), a))" "tinfo (T(a := None)) = (tinfo T)(a := None)"
  by (auto simp: tinfo_def)

lemma wheel_forget:
  assumes "wheel H P tw now info pend W" "pend n = None"
  shows "wheel H P tw now (info(n := None)) pend W"
proof -
  note d = wheelD [OF assms(1)]
  show ?thesis
    unfolding wheel_def
  proof (intro conjI allI impI ballI)
    show "dom pend \<subseteq> dom (info(n := None))" using d(3) assms(2) by auto
    show "node_ok tw m i (pend m)" if "(info(n := None)) m = Some i" for m i
      using that d(5) [of m i] by (auto split: if_splits)
  qed (use d in auto)
qed

text \<open>A fresh timer: its flag is written, and it is due after its delay.\<close>

lemma cots_add_timer_spec:
  assumes ok: "ts_ok low sv tw now bs T pend" and p: "p \<noteq> 0" "apart (ts_alloc sv) p bs"
  shows "\<exists>a sv' tw' bs'. cots_add_timer low sv tw p delay loop cb ud1 ud2 = Some (a, sv', tw') \<and> T a = None \<and> a \<noteq> 0 \<and>
    ts_ok low sv' tw' now bs' (T(a \<mapsto> \<lparr>it_cb = cb, it_ud1 = ud1, it_ud2 = ud2, it_loop = loop\<rparr>))
      (pend(a \<mapsto> now + max 1 (unat delay))) \<and>
    tw_interval tw' = tw_interval tw \<and> tw_lasttime tw' = tw_lasttime tw \<and> tw_remainder tw' = tw_remainder tw"
proof -
  obtain fs W where o: "ts_items sv = T" "fa_ok (ts_alloc sv) (ts_heap sv) bs fs (dom T)"
    "\<forall>a it. T a = Some it \<longrightarrow> map_option bi_flag (fh_item (ts_heap sv) a) = Some (low (it_cb it))"
    "wheel heads (slot_ok now) tw now (tinfo T) pend W"
    using ok unfolding ts_ok_def by blast
  obtain a al h fs' where n: "cofalloc_newitem (ts_alloc sv) (ts_heap sv) p = Some (a, al, h)" "a \<notin> dom T"
    "fa_ok al h (if fs = [] then p # bs else bs) fs' (insert a (dom T))"
    "\<forall>u\<in>dom T. fh_item h u = fh_item (ts_heap sv) u"
    using cofalloc_newitem_spec [OF o(2), of p] p by blast
  let ?bs = "if fs = [] then p # bs else bs" and ?bi = "\<lparr>bi_next = ts_self sv, bi_flag = low cb\<rparr>"
  obtain h' where h': "write_item h a ?bi = Some h'" "fa_ok al h' ?bs fs' (insert a (dom T))" "fh_item h' a = Some ?bi"
    using write_item_ok [OF n(3), of a ?bi] by blast
  have h'_eq: "h' = h\<lparr>fh_item := (fh_item h)(a \<mapsto> ?bi)\<rparr>"
    using h'(1) by (auto simp: write_item_def split: bind_splits)
  have pa: "pend a = None"
  proof -
    have "dom pend \<subseteq> dom (tinfo T)" by (rule wheelD(3) [OF o(4)])
    moreover have "a \<notin> dom (tinfo T)" using n(2) by (auto simp: tinfo_def)
    ultimately show ?thesis by blast
  qed
  obtain tw' W' where w: "cotw_add (cotw_node_init tw a (Some ()) a) a delay = Some tw'"
    "wheel heads (slot_ok now) tw' now ((tinfo T)(a \<mapsto> (Some (), a))) (pend(a \<mapsto> now + max 1 (unat delay))) W'"
    "tw_interval tw' = tw_interval tw" "tw_lasttime tw' = tw_lasttime tw" "tw_remainder tw' = tw_remainder tw"
    using wheel_start [OF o(4) pa, of "Some ()" a delay] by blast
  let ?it = "\<lparr>it_cb = cb, it_ud1 = ud1, it_ud2 = ud2, it_loop = loop\<rparr>"
  let ?sv = "sv\<lparr>ts_alloc := al, ts_heap := h', ts_items := T(a \<mapsto> ?it)\<rparr>"
  have "cots_add_timer low sv tw p delay loop cb ud1 ud2 = Some (a, ?sv, tw')"
    using n(1) h'(1) w(1) o(1) by (simp add: cots_add_timer_def)
  moreover have "ts_ok low ?sv tw' now ?bs (T(a \<mapsto> ?it)) (pend(a \<mapsto> now + max 1 (unat delay)))"
    unfolding ts_ok_def tinfo_upd
  proof (intro conjI allI impI)
    show "\<exists>fs. fa_ok (ts_alloc ?sv) (ts_heap ?sv) ?bs fs (dom (T(a \<mapsto> ?it)))" using h'(2) by auto
    show "\<exists>W. wheel heads (slot_ok now) tw' now ((tinfo T)(a \<mapsto> (Some (), a))) (pend(a \<mapsto> now + max 1 (unat delay))) W"
      using w(2) by blast
    fix b it assume b: "(T(a \<mapsto> ?it)) b = Some it"
    show "map_option bi_flag (fh_item (ts_heap ?sv) b) = Some (low (it_cb it))"
    proof (cases "b = a")
      case False
      then have "T b = Some it" "fh_item h' b = fh_item (ts_heap sv) b" using b n(4) by (auto simp: h'_eq)
      then show ?thesis using o(3) by simp
    qed (use b in \<open>auto simp: h'_eq\<close>)
  qed simp
  moreover have "T a = None" using n(2) by blast
  moreover have "a \<noteq> 0"
  proof -
    have "a \<in> (\<Union>b\<in>set ?bs. slots al b)" "sizes_ok al" using n(3) unfolding fa_ok_def by blast+
    then show ?thesis using slot_bounds(1) [of al a] by fastforce
  qed
  ultimately show ?thesis using w(3-5)
    by (intro exI [of _ a] exI [of _ ?sv] exI [of _ tw'] exI [of _ ?bs] conjI)
qed

lemma cots_del_timer_spec:
  assumes ok: "ts_ok low sv tw now bs T pend" and a: "T a = Some it" "low (it_cb it) \<noteq> FREE_FLAG"
  shows "\<exists>sv' tw'. cots_del_timer sv tw (Some a) = Some (Some 0, sv', tw') \<and>
    ts_ok low sv' tw' now bs (T(a := None)) (pend(a := None)) \<and>
    cots_del_timer sv' tw' (Some a) = Some (Some a, sv', tw')"
proof -
  obtain fs W where o: "ts_items sv = T" "fa_ok (ts_alloc sv) (ts_heap sv) bs fs (dom T)"
    "\<forall>a it. T a = Some it \<longrightarrow> map_option bi_flag (fh_item (ts_heap sv) a) = Some (low (it_cb it))"
    "wheel heads (slot_ok now) tw now (tinfo T) pend W"
    using ok unfolding ts_ok_def by blast
  have "map_option bi_flag (fh_item (ts_heap sv) a) = Some (low (it_cb it))" using o(3) a(1) by blast
  then obtain bi where bi: "fh_item (ts_heap sv) a = Some bi" "bi_flag bi = low (it_cb it)"
    unfolding map_option_eq_Some by blast
  have da: "a \<in> dom T" using a(1) by blast
  have a0: "a \<noteq> 0"
  proof -
    have "a \<in> (\<Union>b\<in>set bs. slots (ts_alloc sv) b)" "sizes_ok (ts_alloc sv)"
      using o(2) da unfolding fa_ok_def by blast+
    then show ?thesis using slot_bounds(1) [of "ts_alloc sv" a] by fastforce
  qed
  obtain al h where f: "cofalloc_freeitem (ts_alloc sv) (ts_heap sv) a = Some (True, al, h)"
    "fa_ok al h bs (a # fs) (dom T - {a})" "map_option bi_flag (fh_item h a) = Some FREE_FLAG"
    "\<forall>u. u \<noteq> a \<longrightarrow> fh_item h u = fh_item (ts_heap sv) u"
    using cofalloc_freeitem_spec [OF o(2) da bi(1)] bi(2) a(2) by auto
  obtain r tw' W' where w: "cotw_del tw a = Some (r, tw')" "wheel heads (slot_ok now) tw' now (tinfo T) (pend(a := None)) W'"
  proof (cases "pend a")
    case None
    moreover from this have "pend(a := None) = pend" by auto
    ultimately show thesis using wheel_del [OF o(4), of a] o(4) a(1) by (intro that) (auto simp: tinfo_def)
  next
    case (Some E)
    then show thesis using wheel_del [OF o(4), of a] a(1) that by (auto simp: tinfo_def)
  qed
  let ?sv = "sv\<lparr>ts_alloc := al, ts_heap := h, ts_items := T(a := None)\<rparr>"
  have "cots_del_timer sv tw (Some a) = Some (Some 0, ?sv, tw')"
    using a0 bi a(2) w(1) f(1) o(1) by (simp add: cots_del_timer_def cofalloc_isfree_def)
  moreover have "ts_ok low ?sv tw' now bs (T(a := None)) (pend(a := None))"
    unfolding ts_ok_def tinfo_upd
  proof (intro conjI allI impI)
    have "dom (T(a := None)) = dom T - {a}" by auto
    then show "\<exists>fs. fa_ok (ts_alloc ?sv) (ts_heap ?sv) bs fs (dom (T(a := None)))" using f(2) by auto
    show "\<exists>W. wheel heads (slot_ok now) tw' now ((tinfo T)(a := None)) (pend(a := None)) W"
      using wheel_forget [OF w(2), of a] by auto
    fix b it assume b: "(T(a := None)) b = Some it"
    then have "b \<noteq> a" "T b = Some it" by (auto split: if_splits)
    then show "map_option bi_flag (fh_item (ts_heap ?sv) b) = Some (low (it_cb it))" using o(3) f(4) by simp
  qed simp
  moreover have "cots_del_timer ?sv tw' (Some a) = Some (Some a, ?sv, tw')"
    using a0 f(3) by (auto simp: cots_del_timer_def cofalloc_isfree_def)
  ultimately show ?thesis by blast
qed


section \<open>An application that records its callbacks\<close>

text \<open>The world is the log: the tick and the timer of every callback.\<close>

type_synonym tlog = "(32 word \<times> nat) list"

definition log_app :: "('f, 'u, tlog) app" where
  "log_app f item ud1 ud2 s = Some ((fst (fst s) @ [(tw_currtick (snd s), item)], snd (fst s)), snd s)"

definition fired_pend :: "nat \<Rightarrow> ('f, 'u) cots \<Rightarrow> nat \<Rightarrow> (nat \<Rightarrow> nat option) \<Rightarrow> nat \<Rightarrow> nat option" where
  "fired_pend now sv a pend = (case ts_items sv a of
     Some it \<Rightarrow> if it_loop it \<noteq> 0 then pend(a \<mapsto> now + unat (it_loop it)) else pend
   | None \<Rightarrow> pend)"

definition has_cb :: "('f, 'u) cots \<Rightarrow> nat \<Rightarrow> bool" where
  "has_cb sv a \<longleftrightarrow> (\<exists>it. ts_items sv a = Some it \<and> it_cb it \<noteq> None)"

definition atimer :: "nat \<Rightarrow> unit \<Rightarrow> nat \<Rightarrow> (unit, nat, tlog \<times> ('f, 'u) cots) astate \<Rightarrow>
    (unit, nat, tlog \<times> ('f, 'u) cots) astate" where
  "atimer now u a s = (case s of ((w, sv), info, pend) \<Rightarrow>
     ((w @ (if has_cb sv a then [(word_of_nat now, a)] else []), sv), info, fired_pend now sv a pend))"

definition tinv :: "tlog \<times> ('f, 'u) cots \<Rightarrow> (nat \<Rightarrow> (unit option \<times> nat) option) \<Rightarrow> bool" where
  "tinv ws info \<longleftrightarrow> info = tinfo (ts_items (snd ws))"

lemma tinfo_Some: "tinfo T a = Some i \<Longrightarrow> (\<exists>it. T a = Some it) \<and> i = (Some (), a)"
  unfolding tinfo_def by (cases "T a") simp_all

interpretation tsw: wheel_client "on_timer log_app" atimer tinv
proof (unfold_locales, goal_cases)
  case (1 now tw info pend W ws n cb ud)
  obtain w sv where ws: "ws = (w, sv)" by (cases ws)
  have info: "info = tinfo (ts_items sv)" using 1(2) by (simp add: tinv_def ws)
  have "(\<exists>it. ts_items sv n = Some it) \<and> (Some cb, ud) = (Some (), n)"
    by (rule tinfo_Some) (rule 1(3) [unfolded info])
  then obtain it where it: "ts_items sv n = Some it" "ud = n" by blast
  have ct: "tw_currtick tw = word_of_nat now" by (rule wheelD(2) [OF 1(1)])
  obtain nd where nd: "tw_nodes tw n = Some nd" "(tn_callback nd, tn_userdata nd) = (Some cb, ud)"
    "coring (tw_links tw) (Tnode n) []"
    using wheelD(5) [OF 1(1,3)] 1(4) by (auto simp: node_ok_def)
  have live: "tw_links tw (Tnode n) \<noteq> None" using nd(3) coring_live [of "tw_links tw" "Tnode n" "[]"] by auto
  obtain tw' W' where a: "(if it_loop it \<noteq> 0 then cotw_add tw n (it_loop it) else Some tw) = Some tw'"
    "wheel (insert Head heads) (slot_ok now) tw' now info (fired_pend now sv n pend) W'" "W' Head = W Head"
    "tw_interval tw' = tw_interval tw" "tw_lasttime tw' = tw_lasttime tw" "tw_currtick tw' = tw_currtick tw"
  proof (cases "it_loop it = 0")
    case True
    then show thesis using that [of tw W] 1(1) it(1) by (simp add: fired_pend_def)
  next
    case False
    have m: "max 1 (unat (it_loop it)) = unat (it_loop it)"
      using False unat_gt_0 [of "it_loop it"] by (simp add: max_def)
    have i: "info(n \<mapsto> (tn_callback nd, tn_userdata nd)) = info" using nd(2) 1(3) by auto
    obtain tw' W' where r: "cotw_add tw n (it_loop it) = Some tw'"
      "wheel (insert Head heads) (slot_ok now) tw' now info (pend(n \<mapsto> now + unat (it_loop it))) W'" "W' Head = W Head"
      using wheel_add [OF 1(1) subset_insertI 1(4) live nd(1), of "it_loop it"] unfolding m i by blast
    moreover have "tw_interval tw' = tw_interval tw" "tw_lasttime tw' = tw_lasttime tw" "tw_currtick tw' = tw_currtick tw"
      using r(1) by (auto simp: cotw_add_def cotw_place_def Let_def split: bind_splits option.splits)
    ultimately show thesis using that False it(1) by (simp add: fired_pend_def)
  qed
  let ?w = "w @ (if has_cb sv n then [(word_of_nat now, n)] else [])"
  have "on_timer log_app cb ud (ws, tw) = Some ((?w, sv), tw')"
    using it a(1,6) ct by (cases "it_cb it") (auto simp: on_timer_def log_app_def ws has_cb_def split: if_splits)
  moreover have "W' Head = filter (\<lambda>m. fired_pend now sv n pend m = Some now) (W Head)"
    using head_due [OF a(2)] a(3) by simp
  ultimately show ?case using a(2,4,5) 1(2) it(2)
    by (intro exI [of _ "(?w, sv)"] exI [of _ info] exI [of _ "fired_pend now sv n pend"] exI [of _ tw'] exI [of _ W'])
      (simp add: atimer_def tinv_def ws)
qed


section \<open>When a periodic timer fires\<close>

text \<open>A timer due at \<open>E\<close> with the period \<open>l\<close>, 0 for none, fires at the tick \<open>t\<close>; after the tick
  \<open>t\<close> it is due at \<open>next_due\<close>.\<close>

definition fires_at :: "nat \<Rightarrow> nat \<Rightarrow> nat \<Rightarrow> bool" where
  "fires_at E l t \<longleftrightarrow> t = E \<or> 0 < l \<and> E \<le> t \<and> l dvd t - E"

definition next_due :: "nat \<Rightarrow> nat \<Rightarrow> nat \<Rightarrow> nat option" where
  "next_due l t E = (if t < E then Some E else if l = 0 then None else Some (E + l * ((t - E) div l + 1)))"

definition ticks_of :: "nat option \<Rightarrow> nat \<Rightarrow> nat \<Rightarrow> nat \<Rightarrow> nat list" where
  "ticks_of p l now k = (case p of None \<Rightarrow> [] | Some E \<Rightarrow> filter (fires_at E l) [now + 1..<now + k + 1])"

text \<open>What one tick does to a timer.\<close>

definition tick_due :: "nat \<Rightarrow> nat \<Rightarrow> nat option \<Rightarrow> nat option" where
  "tick_due l t p = (if p = Some t then (if l = 0 then None else Some (t + l)) else p)"

lemma fires_at_next:
  assumes "E < t" "0 < l"
  shows "fires_at E l t \<longleftrightarrow> fires_at (E + l) l t"
proof (cases "E + l \<le> t")
  case True
  then have "t - E = (t - (E + l)) + l" by simp
  then have "l dvd t - E \<longleftrightarrow> l dvd t - (E + l)" by (metis dvd_add_triv_right_iff)
  then show ?thesis using assms True by (auto simp: fires_at_def)
next
  case False
  then have "\<not> l dvd t - E" using assms nat_dvd_not_less [of "t - E" l] by simp
  then show ?thesis using assms False by (auto simp: fires_at_def)
qed

lemma ticks_of_Suc:
  assumes "\<forall>E. p = Some E \<longrightarrow> now < E"
  shows "ticks_of p l now (Suc k) =
    (if p = Some (now + 1) then [now + 1] else []) @ ticks_of (tick_due l (now + 1) p) l (now + 1) k"
proof (cases p)
  case None
  then show ?thesis by (simp add: ticks_of_def tick_due_def)
next
  case (Some E)
  have u: "[now + 1..<now + Suc k + 1] = (now + 1) # [now + 1 + 1..<now + 1 + k + 1]"
    by (subst upt_rec) simp
  show ?thesis
  proof (cases "E = now + 1")
    case True
    have f: "fires_at E l (now + 1)" using True by (simp add: fires_at_def)
    show ?thesis
    proof (cases "l = 0")
      case True
      have "filter (fires_at E l) [now + 1 + 1..<now + 1 + k + 1] = []"
        using True \<open>E = now + 1\<close> by (auto simp: filter_empty_conv fires_at_def)
      then show ?thesis
        using f Some True \<open>E = now + 1\<close> unfolding ticks_of_def tick_due_def u by simp
    next
      case False
      have "filter (fires_at E l) [now + 1 + 1..<now + 1 + k + 1] =
          filter (fires_at (E + l) l) [now + 1 + 1..<now + 1 + k + 1]"
        using False True fires_at_next [of E _ l] by (intro filter_cong) auto
      then show ?thesis
        using f Some False True unfolding ticks_of_def tick_due_def u by simp
    qed
  next
    case False
    then have "\<not> fires_at E l (now + 1)" using assms Some by (auto simp: fires_at_def)
    then show ?thesis using Some False unfolding ticks_of_def tick_due_def u by simp
  qed
qed

lemma next_due_Suc:
  assumes "now < E"
  shows "Option.bind (tick_due l (now + 1) (Some E)) (next_due l (now + 1 + k)) = next_due l (now + Suc k) E"
proof (cases "E = now + 1 \<and> 0 < l")
  case True
  show ?thesis
  proof (cases "k < l")
    case True
    then show ?thesis using \<open>E = now + 1 \<and> 0 < l\<close> by (simp add: tick_due_def next_due_def)
  next
    case False
    then have "k = (k - l) + l" by simp
    then have "k div l = (k - l) div l + 1" using True by (metis div_add_self2 less_irrefl)
    then show ?thesis using True False by (simp add: tick_due_def next_due_def)
  qed
next
  case False
  then show ?thesis using assms by (auto simp: tick_due_def next_due_def)
qed

section \<open>Runs of the recording application\<close>

definition period :: "('f, 'u) cots \<Rightarrow> nat \<Rightarrow> nat" where
  "period sv a = (case ts_items sv a of None \<Rightarrow> 0 | Some it \<Rightarrow> unat (it_loop it))"

lemma fired_pend_due:
  "fired_pend now sv a (pend(a := None)) = pend(a := (if period sv a = 0 then None else Some (now + period sv a)))"
  by (cases "ts_items sv a") (auto simp: fired_pend_def period_def unat_eq_0)

lemma afire_timer:
  assumes "distinct ns" "\<forall>n\<in>set ns. pend n = Some now \<and> info n = Some (Some (), n)"
  shows "afire atimer now ns ((w, sv), info, pend) =
    ((w @ map (\<lambda>n. (word_of_nat now, n)) (filter (has_cb sv) ns), sv), info,
     \<lambda>a. if a \<in> set ns then tick_due (period sv a) now (pend a) else pend a)"
  using assms
proof (induction ns arbitrary: w pend)
  case (Cons n ns)
  let ?p = "pend(n := (if period sv n = 0 then None else Some (now + period sv n)))"
  let ?w = "w @ (if has_cb sv n then [(word_of_nat now, n)] else [])"
  have d: "distinct ns" using Cons.prems(1) by simp
  have p: "\<forall>m\<in>set ns. ?p m = Some now \<and> info m = Some (Some (), m)" using Cons.prems by auto
  then have f: "filter (\<lambda>m. ?p m = Some now) ns = ns" by (simp add: filter_id_conv)
  have n: "info n = Some (Some (), n)" "pend n = Some now" using Cons.prems(2) by auto
  have "afire atimer now (n # ns) ((w, sv), info, pend) = afire atimer now ns ((?w, sv), info, ?p)"
    unfolding afire.simps Let_def n(1) atimer_def fired_pend_due option.case prod.case snd_conv f ..
  also have "\<dots> = ((?w @ map (\<lambda>n. (word_of_nat now, n)) (filter (has_cb sv) ns), sv), info,
     \<lambda>a. if a \<in> set ns then tick_due (period sv a) now (?p a) else ?p a)"
    by (rule Cons.IH [OF d p])
  also have "(\<lambda>a. if a \<in> set ns then tick_due (period sv a) now (?p a) else ?p a) =
      (\<lambda>a. if a \<in> set (n # ns) then tick_due (period sv a) now (pend a) else pend a)"
    using Cons.prems(1) n(2) by (auto simp: tick_due_def fun_eq_iff)
  finally show ?case by simp
qed simp

text \<open>The events of a run: the ticks of each timer are those of its period.\<close>

lemma aticks_timer:
  assumes "aticks atimer now k ((w, sv), tinfo (ts_items sv), pend) s'"
    "\<forall>a E. pend a = Some E \<longrightarrow> now < E" "dom pend \<subseteq> dom (ts_items sv)"
  shows "\<exists>es. s' = ((w @ map (\<lambda>(t, a). (word_of_nat t, a)) es, sv), tinfo (ts_items sv),
      \<lambda>a. Option.bind (pend a) (next_due (period sv a) (now + k))) \<and> sorted (map fst es) \<and>
    (\<forall>t\<in>set (map fst es). now < t) \<and>
    (\<forall>a. map fst (filter (\<lambda>e. snd e = a) es) = (if has_cb sv a then ticks_of (pend a) (period sv a) now k else []))"
  using assms
proof (induction k arbitrary: now w pend)
  case 0
  have "(\<lambda>a. Option.bind (pend a) (next_due (period sv a) now)) = pend"
    using 0(2) by (auto simp: fun_eq_iff next_due_def split: Option.bind_split)
  moreover have "ticks_of p l now 0 = []" for p l by (auto simp: ticks_of_def split: option.split)
  ultimately show ?case using 0(1) by (intro exI [of _ "[]"]) simp
next
  case (Suc k)
  obtain due where due: "distinct due" "set due = {n. pend n = Some (now + 1)}"
    "aticks atimer (now + 1) k (afire atimer (now + 1) due ((w, sv), tinfo (ts_items sv), pend)) s'"
    using Suc(2) by (auto elim: aticks_SucE)
  let ?p = "\<lambda>a. tick_due (period sv a) (now + 1) (pend a)"
  let ?ev = "map (\<lambda>n. (now + 1, n)) (filter (has_cb sv) due)"
  let ?out = "map (\<lambda>(t, a). (word_of_nat t, a)) :: (nat \<times> nat) list \<Rightarrow> tlog"
  have di: "pend n = Some (now + 1) \<and> tinfo (ts_items sv) n = Some (Some (), n)" if "n \<in> set due" for n
  proof -
    have "pend n = Some (now + 1)" using that due(2) by blast
    moreover from this have "ts_items sv n \<noteq> None" using Suc(4) by blast
    ultimately show ?thesis by (simp add: tinfo_def)
  qed
  have pe: "(\<lambda>a. if a \<in> set due then tick_due (period sv a) (now + 1) (pend a) else pend a) = ?p"
    unfolding due(2) by (auto simp: fun_eq_iff tick_due_def)
  have eq: "map (\<lambda>n. (word_of_nat (now + 1), n)) (filter (has_cb sv) due) = ?out ?ev" by simp
  have "afire atimer (now + 1) due ((w, sv), tinfo (ts_items sv), pend) =
      ((w @ ?out ?ev, sv), tinfo (ts_items sv), ?p)"
    unfolding eq [symmetric] pe [symmetric] by (rule afire_timer [OF due(1)]) (use di in blast)
  then have a: "aticks atimer (now + 1) k ((w @ ?out ?ev, sv), tinfo (ts_items sv), ?p) s'"
    using due(3) by (simp only:)
  have p1: "now + 1 < E" if "?p a = Some E" for a E
    
    using that Suc(3) [rule_format, of a] by (cases "pend a") (auto simp: tick_due_def split: if_splits)
  have p2: "dom ?p \<subseteq> dom (ts_items sv)"
  proof
    fix a assume "a \<in> dom ?p"
    then have "pend a \<noteq> None" by (auto simp: tick_due_def split: if_splits)
    then show "a \<in> dom (ts_items sv)" using Suc(4) by blast
  qed
  obtain es where es: "s' = (((w @ ?out ?ev) @ ?out es, sv), tinfo (ts_items sv),
      \<lambda>a. Option.bind (?p a) (next_due (period sv a) (now + 1 + k)))" "sorted (map fst es)"
    "\<forall>t\<in>set (map fst es). now + 1 < t"
    "\<forall>a. map fst (filter (\<lambda>e. snd e = a) es) = (if has_cb sv a then ticks_of (?p a) (period sv a) (now + 1) k else [])"
    using Suc(1) [OF a _ p2] p1 by blast
  have nd: "Option.bind (?p a) (next_due (period sv a) (now + 1 + k)) =
      Option.bind (pend a) (next_due (period sv a) (now + Suc k))" for a
  proof (cases "pend a")
    case (Some E)
    then show ?thesis using next_due_Suc [of now E "period sv a" k] Suc(3) by simp
  qed (simp add: tick_due_def)
  have evs: "map fst (filter (\<lambda>e. snd e = a) ?ev) = (if has_cb sv a \<and> pend a = Some (now + 1) then [now + 1] else [])" for a
  proof -
    have "filter (\<lambda>e. snd e = a) ?ev = map (\<lambda>n. (now + 1, n)) (filter (\<lambda>n. has_cb sv n \<and> n = a) due)"
      by (simp add: filter_map o_def)
    also have "filter (\<lambda>n. has_cb sv n \<and> n = a) due = (if a \<in> set due \<and> has_cb sv a then [a] else [])"
      using due(1) by (induction due) auto
    finally show ?thesis unfolding due(2) by auto
  qed
  show ?case
  proof (intro exI [of _ "?ev @ es"] conjI allI)
    show "s' = ((w @ ?out (?ev @ es), sv), tinfo (ts_items sv), \<lambda>a. Option.bind (pend a) (next_due (period sv a) (now + Suc k)))"
      unfolding es(1) nd by (simp only: map_append append_assoc)
    have "sorted (map fst ?ev)" by (rule sorted_const [of _ _ "now + 1"]) simp
    then show "sorted (map fst (?ev @ es))" using es(2,3) by (auto simp: sorted_append)
    show "\<forall>t\<in>set (map fst (?ev @ es)). now < t" using es(3) by auto
    fix a
    show "map fst (filter (\<lambda>e. snd e = a) (?ev @ es)) =
        (if has_cb sv a then ticks_of (pend a) (period sv a) now (Suc k) else [])"
      unfolding filter_append map_append evs es(4) [rule_format]
      using ticks_of_Suc [of "pend a" now "period sv a" k] Suc(3) by auto
  qed
qed


section \<open>Properties\<close>

lemma ts_okD:
  assumes "ts_ok low sv tw now bs T pend"
  shows "ts_items sv = T" "\<exists>W. wheel heads (slot_ok now) tw now (tinfo T) pend W"
    "\<And>tw' now' pend' W'. wheel heads (slot_ok now') tw' now' (tinfo T) pend' W' \<Longrightarrow> ts_ok low sv tw' now' bs T pend'"
  using assms unfolding ts_ok_def by blast+

lemma cots_new_spec:
  assumes "self \<noteq> 0"
  shows "\<exists>sv tw'. cots_new self h tw interval currtime = Some (sv, tw') \<and> ts_ok low sv tw' 0 [] Map.empty Map.empty \<and>
    tw_interval tw' = interval \<and> tw_lasttime tw' = currtime \<and> tw_remainder tw' = 0 \<and>
    cots_free (sv :: ('f, 'u) cots) = Some h"
proof -
  obtain tw' where w: "cotw_init tw interval currtime = Some tw'"
    "wheel heads (slot_ok 0) tw' 0 Map.empty Map.empty (\<lambda>_. [])"
    "tw_interval tw' = interval" "tw_lasttime tw' = currtime" "tw_remainder tw' = 0"
    using cotw_init_wheel [of tw interval currtime] by blast
  let ?sv = "\<lparr>ts_self = self, ts_alloc = cofalloc_init 4096 80, ts_heap = h, ts_items = Map.empty\<rparr> :: ('f, 'u) cots"
  have i: "tinfo Map.empty = Map.empty" by (auto simp: tinfo_def)
  have "ts_ok low ?sv tw' 0 [] Map.empty Map.empty"
    using w(2) cofalloc_init_ok [of 80 4096 h] unfolding ts_ok_def i by auto
  moreover have "cots_free ?sv = Some h"
    by (simp add: cots_free_def cofalloc_free_def cofalloc_init_def free_blocks.simps)
  ultimately show ?thesis using w assms by (simp add: cots_new_def cassert_def)
qed

text \<open>A service with one periodic timer, for the witnesses.\<close>

lemma one_timer:
  "\<exists>a sv tw bs. ts_ok (\<lambda>_. 1) sv tw 0 bs [a \<mapsto> \<lparr>it_cb = Some (), it_ud1 = (), it_ud2 = (), it_loop = 3\<rparr>] [a \<mapsto> 2] \<and>
     tw_interval tw = 10 \<and> tw_lasttime tw = 100 \<and> tw_remainder tw = 0"
proof -
  obtain sv :: "(unit, unit) cots" and tw where s: "ts_ok (\<lambda>_. 1) sv tw 0 [] Map.empty Map.empty"
    "tw_interval tw = 10" "tw_lasttime tw = 100" "tw_remainder tw = 0"
    using cots_new_spec [of 7 _ _ 10 100 "\<lambda>_. 1"] by fastforce
  have "apart (ts_alloc sv) 1000 []" by (simp add: apart_def)
  from cots_add_timer_spec [OF s(1) _ this, of 2 3 "Some ()" "()" "()"] s(2-4) show ?thesis
    by (simp add: max_def numeral_2_eq_2 [symmetric]) fast
qed

text \<open>A new service is well-formed and has no timer; freeing it frees what it took.\<close>

theorem cots_new_free_correct:
  assumes "self \<noteq> 0"
  shows "\<exists>sv tw'. cots_new self h tw interval currtime = Some (sv, tw') \<and> ts_ok low sv tw' 0 [] Map.empty Map.empty \<and>
    tw_interval tw' = interval \<and> tw_lasttime tw' = currtime \<and> tw_remainder tw' = 0 \<and>
    cots_free (sv :: ('f, 'u) cots) = Some h"
  using cots_new_spec [OF assms] .

theorem cots_new_free_correct_witness:
  "\<forall>h tw. \<exists>sv tw'. cots_new 7 h tw 10 100 = Some (sv :: (unit, unit) cots, tw') \<and> tw_interval tw' = 10"
proof (intro allI)
  fix h tw
  show "\<exists>sv tw'. cots_new 7 h tw 10 100 = Some (sv :: (unit, unit) cots, tw') \<and> tw_interval tw' = 10"
    using cots_new_free_correct [of 7 h tw 10 100 "\<lambda>_. 1"] by auto
qed

text \<open>Adding a timer returns a handle that no existing timer has, makes it due after its delay,
  and leaves every other timer as it was.\<close>

theorem cots_add_timer_correct:
  assumes "ts_ok low sv tw now bs T pend" "p \<noteq> 0" "apart (ts_alloc sv) p bs"
  shows "\<exists>a sv' tw' bs'. cots_add_timer low sv tw p delay loop cb ud1 ud2 = Some (a, sv', tw') \<and> T a = None \<and> a \<noteq> 0 \<and>
    ts_ok low sv' tw' now bs' (T(a \<mapsto> \<lparr>it_cb = cb, it_ud1 = ud1, it_ud2 = ud2, it_loop = loop\<rparr>))
      (pend(a \<mapsto> now + max 1 (unat delay)))"
  using cots_add_timer_spec [OF assms, of delay loop cb ud1 ud2] by blast

theorem cots_add_timer_correct_witness:
  "\<exists>sv tw a sv' tw' bs'. cots_add_timer (\<lambda>_. 1) sv tw 1000 0 0 (Some ()) () () = Some (a, sv', tw') \<and>
     ts_ok (\<lambda>_. 1) sv' tw' 0 bs' [a \<mapsto> \<lparr>it_cb = Some (), it_ud1 = (), it_ud2 = (), it_loop = 0\<rparr>] [a \<mapsto> 1]"
proof -
  obtain sv :: "(unit, unit) cots" and tw where s: "ts_ok (\<lambda>_. 1) sv tw 0 [] Map.empty Map.empty"
    using cots_new_spec [of 7 _ _ 10 100 "\<lambda>_. 1"] by fastforce
  have "apart (ts_alloc sv) 1000 []" by (simp add: apart_def)
  from cots_add_timer_correct [OF s _ this, of 0 0 "Some ()" "()" "()"] show ?thesis
    by simp blast
qed

text \<open>Deleting a timer clears the handle, stops the timer and releases it, whether it is pending
  or has already fired; deleting it again through a stale handle changes nothing.\<close>

theorem cots_del_timer_correct:
  assumes "ts_ok low sv tw now bs T pend" "T a = Some it" "low (it_cb it) \<noteq> FREE_FLAG"
  shows "\<exists>sv' tw'. cots_del_timer sv tw (Some a) = Some (Some 0, sv', tw') \<and>
    ts_ok low sv' tw' now bs (T(a := None)) (pend(a := None)) \<and>
    cots_del_timer sv' tw' (Some a) = Some (Some a, sv', tw')"
  using cots_del_timer_spec [OF assms] .

theorem cots_del_timer_correct_witness:
  "\<exists>a sv tw bs sv' tw'. cots_del_timer sv tw (Some a) = Some (Some 0, sv', tw') \<and>
     ts_ok (\<lambda>_. 1) (sv' :: (unit, unit) cots) tw' 0 bs Map.empty Map.empty"
proof -
  obtain a sv tw bs where s:
    "ts_ok (\<lambda>_. 1) sv tw 0 bs [a \<mapsto> \<lparr>it_cb = Some (), it_ud1 = (), it_ud2 = (), it_loop = 3\<rparr>] [a \<mapsto> 2]"
    using one_timer by blast
  have m: "(Map.empty(a \<mapsto> y))(a := None) = Map.empty" for y :: "(unit, unit) cotitem" by auto
  have m2: "(Map.empty(a \<mapsto> y))(a := None) = Map.empty" for y :: nat by auto
  obtain sv' tw' where "cots_del_timer sv tw (Some a) = Some (Some 0, sv', tw')"
    "ts_ok (\<lambda>_. 1) sv' tw' 0 bs Map.empty Map.empty"
    using cots_del_timer_correct [OF s, of a] unfolding m m2 by (auto simp: FREE_FLAG_def)
  then show ?thesis by blast
qed

text \<open>C17: an update calls every timer with a callback exactly at its ticks (its delay, then every
  \<open>loop\<close> ticks), in tick order; afterwards a periodic timer is due at its next tick, a timer
  without period is not pending any more but still exists.\<close>

theorem cots_update_periodic:
  fixes w :: tlog
  assumes "ts_ok low sv tw now bs T pend"
    "tw_lasttime tw < currtime" "0 < tw_interval tw"
    "d = uint currtime - uint (tw_lasttime tw) + uint (tw_remainder tw)" "d < 2 ^ 31"
    "k = nat (d div uint (tw_interval tw))"
  shows "\<exists>es tw'. cots_update log_app currtime ((w, sv), tw) =
      Some ((w @ map (\<lambda>(t, a). (word_of_nat t, a)) es, sv), tw') \<and> sorted (map fst es) \<and>
    (\<forall>a. map fst (filter (\<lambda>e. snd e = a) es) =
      (if has_cb sv a then ticks_of (pend a) (period sv a) now k else [])) \<and>
    ts_ok low sv tw' (now + k) bs T (\<lambda>a. Option.bind (pend a) (next_due (period sv a) (now + k)))"
proof -
  have T: "ts_items sv = T" by (rule ts_okD(1) [OF assms(1)])
  obtain W where w: "wheel heads (slot_ok now) tw now (tinfo T) pend W" using ts_okD(2) [OF assms(1)] by blast
  have inv: "tinv (w, sv) (tinfo T)" by (simp add: tinv_def T)
  obtain s' tw' W' where u: "cotw_update (on_timer log_app) currtime ((w, sv), tw) = Some (fst s', tw')"
    "aticks atimer now k ((w, sv), tinfo T, pend) s'"
    "wheel heads (slot_ok (now + k)) tw' (now + k) (fst (snd s')) (snd (snd s')) W'"
    using tsw.update_wheel [OF w inv assms(2,3)] assms(5) unfolding assms(4,6) by force
  have later: "\<forall>a E. pend a = Some E \<longrightarrow> now < E" using wheel_later [OF w] by blast
  have dom: "dom pend \<subseteq> dom (ts_items sv)"
    using wheelD(3) [OF w] unfolding T by (auto simp: tinfo_def split: if_splits)
  obtain es where es: "s' = ((w @ map (\<lambda>(t, a). (word_of_nat t, a)) es, sv), tinfo (ts_items sv),
      \<lambda>a. Option.bind (pend a) (next_due (period sv a) (now + k)))" "sorted (map fst es)"
    "\<forall>a. map fst (filter (\<lambda>e. snd e = a) es) = (if has_cb sv a then ticks_of (pend a) (period sv a) now k else [])"
    using aticks_timer [OF u(2) [folded T] later dom] by blast
  have "wheel heads (slot_ok (now + k)) tw' (now + k) (tinfo T)
      (\<lambda>a. Option.bind (pend a) (next_due (period sv a) (now + k))) W'"
    using u(3) unfolding es(1) T by simp
  then have "ts_ok low sv tw' (now + k) bs T (\<lambda>a. Option.bind (pend a) (next_due (period sv a) (now + k)))"
    by (rule ts_okD(3) [OF assms(1)])
  moreover have "cots_update log_app currtime ((w, sv), tw) =
      Some ((w @ map (\<lambda>(t, a). (word_of_nat t, a)) es, sv), tw')"
    using u(1) unfolding es(1) by (simp add: cots_update_def)
  ultimately show ?thesis using es(2,3) by blast
qed

theorem cots_update_periodic_witness:
  "\<exists>a sv tw es tw'. cots_update log_app 165 (([], sv :: (unit, unit) cots), tw) =
      Some ((map (\<lambda>(t, a). (word_of_nat t, a)) es, sv), tw') \<and> map fst (filter (\<lambda>e. snd e = a) es) = [2, 5]"
proof -
  obtain a sv tw bs where s:
    "ts_ok (\<lambda>_. 1) sv tw 0 bs [a \<mapsto> \<lparr>it_cb = Some (), it_ud1 = (), it_ud2 = (), it_loop = 3\<rparr>] [a \<mapsto> 2]"
    "tw_interval tw = 10" "tw_lasttime tw = 100" "tw_remainder tw = 0"
    using one_timer by blast
  have h: "tw_lasttime tw < 165" "0 < tw_interval tw"
    "65 = uint (165 :: 64 word) - uint (tw_lasttime tw) + uint (tw_remainder tw)" "(65 :: int) < 2 ^ 31"
    "6 = nat (65 div uint (tw_interval tw))"
    by (simp_all add: s(2-4))
  have p: "has_cb sv a" "period sv a = 3"
    by (simp_all add: has_cb_def period_def ts_okD(1) [OF s(1)])
  have "ticks_of (Some 2) 3 0 6 = [2, 5]"
    by (simp add: ticks_of_def fires_at_def upt_rec numeral_2_eq_2 [symmetric])
  then have t: "ticks_of ([a \<mapsto> 2] a) (period sv a) 0 6 = [2, 5]" using p by simp
  obtain es tw' where u: "cots_update log_app 165 (([], sv), tw) = Some (([] @ map (\<lambda>(t, a). (word_of_nat t, a)) es, sv), tw')"
    "\<forall>b. map fst (filter (\<lambda>e. snd e = b) es) =
       (if has_cb sv b then ticks_of ([a \<mapsto> 2] b) (period sv b) 0 6 else [])"
    using cots_update_periodic [OF s(1) h, of "[]"] by blast
  have "map fst (filter (\<lambda>e. snd e = a) es) = [2, 5]" using u(2) p(1) t by simp
  then show ?thesis using u(1) unfolding append_Nil
    by (intro exI [of _ a] exI [of _ sv] exI [of _ tw] exI [of _ es] exI [of _ tw'] conjI)
qed

end
