(* ===== verification/Dict.thy ===== *)
theory Dict
  imports Links
begin

text \<open>
  The hash dictionary (\<open>src/co_dict.c\<close>).  Every node is in two linked structures: the chain of its
  bucket (field \<open>next\<close>) and the doubly linked list of all nodes in insertion order (\<open>listprev\<close>,
  \<open>listnext\<close>), which iteration and rehashing follow.  The heap maps the address of a node to its
  fields; keys and values are the contents that \<open>memcpy\<close> copies into the node.
\<close>

unbundle bit_operations_syntax

section \<open>Data and operations\<close>

record ('k, 'v) codict_node =
  dn_next :: nat
  dn_listprev :: nat
  dn_listnext :: nat
  dn_key :: 'k
  dn_value :: 'v
  dn_hash :: "64 word"

type_synonym ('k, 'v) dheap = "nat \<Rightarrow> ('k, 'v) codict_node option"

record 'k codict =
  d_buckets :: "nat list"
  d_listhead :: nat
  d_listtail :: nat
  d_hash :: "'k \<Rightarrow> 64 word"
  d_equal :: "'k \<Rightarrow> 'k \<Rightarrow> bool"
  d_cap :: nat
  d_count :: nat

definition s_bucketsizes :: "nat list" where
  "s_bucketsizes = [61, 113, 251, 509, 1021, 2039, 4093, 8191, 16381, 32749, 65521, 126727, 262063,
     522713, 1046429, 2090867, 4186067, 8363639, 16777207, 33489353]"

definition next_cap :: "nat \<Rightarrow> nat" where
  "next_cap cap = (case find (\<lambda>s. s > cap) s_bucketsizes of None \<Rightarrow> last s_bucketsizes | Some s \<Rightarrow> s)"

definition dn_upd :: "('k, 'v) dheap \<Rightarrow> nat \<Rightarrow> (('k, 'v) codict_node \<Rightarrow> ('k, 'v) codict_node) \<Rightarrow>
    ('k, 'v) dheap exec" where
  "dn_upd h a f = map_option (\<lambda>n. h(a \<mapsto> f n)) (h a)"

text \<open>A bucket is read and written inside the array.\<close>

definition bucket :: "nat list \<Rightarrow> nat \<Rightarrow> nat exec" where
  "bucket bs i = (if i < length bs then Some (bs ! i) else None)"

definition bucket_idx :: "64 word \<Rightarrow> nat \<Rightarrow> nat exec" where
  "bucket_idx hash cap = (if cap = 0 then None else Some (unat hash mod cap))"

partial_function (option) rehash :: "('k, 'v) dheap \<Rightarrow> nat \<Rightarrow> nat list \<Rightarrow> nat \<Rightarrow> (('k, 'v) dheap \<times> nat list) exec" where
  "rehash h cap bs cur =
     (if cur = 0 then Some (h, bs)
      else do {
        n \<leftarrow> h cur;
        idx \<leftarrow> bucket_idx (dn_hash n) cap;
        b \<leftarrow> bucket bs idx;
        rehash (h(cur \<mapsto> n\<lparr>dn_next := b\<rparr>)) cap (bs[idx := cur]) (dn_listnext n)
      })"

text \<open>\<open>count >= cap * 0.75\<close> is exact on doubles: both sides are below 2^53 as multiples of a quarter.\<close>

definition check_and_resize :: "'k codict \<Rightarrow> ('k, 'v) dheap \<Rightarrow> ('k codict \<times> ('k, 'v) dheap) exec" where
  "check_and_resize d h =
     (if 3 * d_cap d \<le> 4 * d_count d then do {
        let cap = next_cap (d_cap d);
        (h, bs) \<leftarrow> rehash h cap (replicate cap 0) (d_listhead d);
        Some (d\<lparr>d_cap := cap, d_buckets := bs\<rparr>, h)
      } else Some (d, h))"

definition codict_new :: "('k \<Rightarrow> 64 word) \<Rightarrow> ('k \<Rightarrow> 'k \<Rightarrow> bool) \<Rightarrow> ('k, 'v) dheap \<Rightarrow> ('k codict \<times> ('k, 'v) dheap) exec" where
  "codict_new hash eq h =
     check_and_resize \<lparr>d_buckets = [], d_listhead = 0, d_listtail = 0, d_hash = hash, d_equal = eq,
       d_cap = 0, d_count = 0\<rparr> h"

partial_function (option) find_node :: "('k \<Rightarrow> 'k \<Rightarrow> bool) \<Rightarrow> ('k, 'v) dheap \<Rightarrow> 64 word \<Rightarrow> 'k \<Rightarrow> nat \<Rightarrow> nat exec" where
  "find_node eq h hash key node =
     (if node = 0 then Some 0
      else do {
        n \<leftarrow> h node;
        if dn_hash n = hash \<and> eq (dn_key n) key then Some node
        else find_node eq h hash key (dn_next n)
      })"

definition codict_get :: "'k codict \<Rightarrow> ('k, 'v) dheap \<Rightarrow> 'k \<Rightarrow> nat exec" where
  "codict_get d h key = do {
     let hash = d_hash d key;
     idx \<leftarrow> bucket_idx hash (d_cap d);
     node \<leftarrow> bucket (d_buckets d) idx;
     find_node (d_equal d) h hash key node
   }"

text \<open>\<open>p\<close> is what \<open>CO_MALLOC\<close> returns for a new node.\<close>

definition codict_set :: "'k codict \<Rightarrow> ('k, 'v) dheap \<Rightarrow> nat \<Rightarrow> 'k \<Rightarrow> 'v \<Rightarrow> (nat \<times> 'k codict \<times> ('k, 'v) dheap) exec" where
  "codict_set d h p key val = do {
     node \<leftarrow> codict_get d h key;
     if node \<noteq> 0 then do {
       h \<leftarrow> dn_upd h node (dn_value_update (\<lambda>_. val));
       Some (node, d, h)
     } else do {
       (d, h) \<leftarrow> check_and_resize d h;
       let hash = d_hash d key;
       idx \<leftarrow> bucket_idx hash (d_cap d);
       cassert (p \<noteq> 0 \<and> h p = None);
       b \<leftarrow> bucket (d_buckets d) idx;
       let h = h(p \<mapsto> \<lparr>dn_next = b, dn_listprev = 0, dn_listnext = 0, dn_key = key, dn_value = val, dn_hash = hash\<rparr>);
       let d = d\<lparr>d_buckets := (d_buckets d)[idx := p]\<rparr>;
       (d, h) \<leftarrow>
         (if d_listhead d = 0 then Some (d\<lparr>d_listhead := p, d_listtail := p\<rparr>, h)
          else do {
            h \<leftarrow> dn_upd h (d_listtail d) (dn_listnext_update (\<lambda>_. p));
            h \<leftarrow> dn_upd h p (dn_listprev_update (\<lambda>_. d_listtail d));
            h \<leftarrow> dn_upd h p (dn_listnext_update (\<lambda>_. 0));
            Some (d\<lparr>d_listtail := p\<rparr>, h)
          });
       Some (p, d\<lparr>d_count := (d_count d + 1) mod 2 ^ 32\<rparr>, h)
     }
   }"

text \<open>The loop of \<open>codict_del\<close>: \<open>prev\<close> is not set while \<open>cur\<close> is the first node.\<close>

partial_function (option) find_prev :: "('k \<Rightarrow> 'k \<Rightarrow> bool) \<Rightarrow> ('k, 'v) dheap \<Rightarrow> 64 word \<Rightarrow> 'k \<Rightarrow> nat option \<Rightarrow> nat \<Rightarrow>
    (nat option \<times> nat) exec" where
  "find_prev eq h hash key prev cur =
     (if cur = 0 then Some (prev, 0)
      else do {
        n \<leftarrow> h cur;
        if dn_hash n = hash \<and> eq (dn_key n) key then Some (prev, cur)
        else find_prev eq h hash key (Some cur) (dn_next n)
      })"

text \<open>Taking a node out of the list of all nodes, in \<open>codict_del\<close>.\<close>

definition list_unlink :: "'k codict \<Rightarrow> ('k, 'v) dheap \<Rightarrow> nat \<Rightarrow> ('k codict \<times> ('k, 'v) dheap) exec" where
  "list_unlink d h cur = do {
     n \<leftarrow> h cur;
     let d = (if d_listhead d = cur then d\<lparr>d_listhead := dn_listnext n\<rparr> else d);
     let d = (if d_listtail d = cur then d\<lparr>d_listtail := dn_listprev n\<rparr> else d);
     h \<leftarrow> (if dn_listprev n \<noteq> 0 then dn_upd h (dn_listprev n) (dn_listnext_update (\<lambda>_. dn_listnext n)) else Some h);
     n \<leftarrow> h cur;
     h \<leftarrow> (if dn_listnext n \<noteq> 0 then dn_upd h (dn_listnext n) (dn_listprev_update (\<lambda>_. dn_listprev n)) else Some h);
     Some (d, h)
   }"

definition codict_del :: "'k codict \<Rightarrow> ('k, 'v) dheap \<Rightarrow> 'k \<Rightarrow> (bool \<times> 'k codict \<times> ('k, 'v) dheap) exec" where
  "codict_del d h key = do {
     let hash = d_hash d key;
     idx \<leftarrow> bucket_idx hash (d_cap d);
     node \<leftarrow> bucket (d_buckets d) idx;
     (prev, cur) \<leftarrow> find_prev (d_equal d) h hash key None node;
     if cur = 0 then Some (False, d, h)
     else do {
       n \<leftarrow> h cur;
       (d, h) \<leftarrow>
         (if cur = node then Some (d\<lparr>d_buckets := (d_buckets d)[idx := dn_next n]\<rparr>, h)
          else do { pr \<leftarrow> prev; h \<leftarrow> dn_upd h pr (dn_next_update (\<lambda>_. dn_next n)); Some (d, h) });
       (d, h) \<leftarrow> list_unlink d h cur;
       Some (True, d\<lparr>d_count := (d_count d + 2 ^ 32 - 1) mod 2 ^ 32\<rparr>, h(cur := None))
     }
   }"

partial_function (option) free_chain :: "('k, 'v) dheap \<Rightarrow> nat \<Rightarrow> ('k, 'v) dheap exec" where
  "free_chain h e =
     (if e = 0 then Some h
      else do { n \<leftarrow> h e; free_chain (h(e := None)) (dn_next n) })"

primrec clear_buckets :: "nat list \<Rightarrow> ('k, 'v) dheap \<Rightarrow> ('k, 'v) dheap exec" where
  "clear_buckets [] h = Some h"
| "clear_buckets (b # bs) h = do { h \<leftarrow> free_chain h b; clear_buckets bs h }"

definition codict_clear :: "'k codict \<Rightarrow> ('k, 'v) dheap \<Rightarrow> ('k codict \<times> ('k, 'v) dheap) exec" where
  "codict_clear d h = do {
     cassert (d_cap d \<le> length (d_buckets d));
     h \<leftarrow> clear_buckets (take (d_cap d) (d_buckets d)) h;
     Some (d\<lparr>d_buckets := replicate (d_cap d) 0 @ drop (d_cap d) (d_buckets d), d_listhead := 0, d_listtail := 0,
       d_count := 0\<rparr>, h)
   }"

definition codict_free :: "'k codict \<Rightarrow> ('k, 'v) dheap \<Rightarrow> ('k, 'v) dheap exec" where
  "codict_free d h = map_option snd (codict_clear d h)"

definition codict_move :: "'k codict \<Rightarrow> ('k, 'v) dheap \<Rightarrow> nat \<Rightarrow> bool \<Rightarrow> ('k codict \<times> ('k, 'v) dheap) exec" where
  "codict_move d h node head =
     (if head then
        if d_listhead d \<noteq> node then do {
          n \<leftarrow> h node;
          let d = (if d_listtail d = node then d\<lparr>d_listtail := dn_listprev n\<rparr> else d);
          h \<leftarrow> (if dn_listprev n \<noteq> 0 then dn_upd h (dn_listprev n) (dn_listnext_update (\<lambda>_. dn_listnext n)) else Some h);
          n \<leftarrow> h node;
          h \<leftarrow> (if dn_listnext n \<noteq> 0 then dn_upd h (dn_listnext n) (dn_listprev_update (\<lambda>_. dn_listprev n)) else Some h);
          h \<leftarrow> dn_upd h node (dn_listprev_update (\<lambda>_. 0));
          h \<leftarrow> dn_upd h node (dn_listnext_update (\<lambda>_. d_listhead d));
          h \<leftarrow> dn_upd h (d_listhead d) (dn_listprev_update (\<lambda>_. node));
          Some (d\<lparr>d_listhead := node\<rparr>, h)
        } else Some (d, h)
      else
        if d_listtail d \<noteq> node then do {
          n \<leftarrow> h node;
          let d = (if d_listhead d = node then d\<lparr>d_listhead := dn_listnext n\<rparr> else d);
          h \<leftarrow> (if dn_listprev n \<noteq> 0 then dn_upd h (dn_listprev n) (dn_listnext_update (\<lambda>_. dn_listnext n)) else Some h);
          n \<leftarrow> h node;
          h \<leftarrow> (if dn_listnext n \<noteq> 0 then dn_upd h (dn_listnext n) (dn_listprev_update (\<lambda>_. dn_listprev n)) else Some h);
          h \<leftarrow> dn_upd h node (dn_listnext_update (\<lambda>_. 0));
          h \<leftarrow> dn_upd h node (dn_listprev_update (\<lambda>_. d_listtail d));
          h \<leftarrow> dn_upd h (d_listtail d) (dn_listnext_update (\<lambda>_. node));
          Some (d\<lparr>d_listtail := node\<rparr>, h)
        } else Some (d, h))"

definition codict_count :: "'k codict \<Rightarrow> nat" where "codict_count d = d_count d"
definition codict_begin :: "'k codict \<Rightarrow> nat" where "codict_begin d = d_listhead d"
definition codict_end :: "'k codict \<Rightarrow> nat" where "codict_end d = d_listtail d"
definition codict_next :: "('k, 'v) dheap \<Rightarrow> nat \<Rightarrow> nat exec" where "codict_next h a = map_option dn_listnext (h a)"
definition codict_prev :: "('k, 'v) dheap \<Rightarrow> nat \<Rightarrow> nat exec" where "codict_prev h a = map_option dn_listprev (h a)"

section \<open>Hash functions and equalities of the usual keys\<close>

definition fnv64_prime :: "64 word" where "fnv64_prime = 1099511628211"
definition fnv64_offset :: "64 word" where "fnv64_offset = 14695981039346656037"

definition codict_fnv1a64_hash :: "byte list \<Rightarrow> 64 word" where
  "codict_fnv1a64_hash key = foldl (\<lambda>hash b. (hash XOR ucast b) * fnv64_prime) fnv64_offset key"

text \<open>A C string is the bytes up to the first 0.\<close>

definition c_str :: "byte list \<Rightarrow> byte list" where
  "c_str s = takeWhile (\<lambda>b. b \<noteq> 0) s"

definition codict_str_equal :: "byte list \<Rightarrow> byte list \<Rightarrow> bool" where
  "codict_str_equal a b \<longleftrightarrow> c_str a = c_str b"

definition codict_int_equal :: "32 word \<Rightarrow> 32 word \<Rightarrow> bool" where
  "codict_int_equal a b \<longleftrightarrow> a = b"

definition codict_ptr_equal :: "64 word \<Rightarrow> 64 word \<Rightarrow> bool" where
  "codict_ptr_equal a b \<longleftrightarrow> a = b"

definition codict_str_hash :: "byte list \<Rightarrow> 64 word" where
  "codict_str_hash key = codict_fnv1a64_hash (c_str key)"

definition codict_int_hash :: "32 word \<Rightarrow> 64 word" where
  "codict_int_hash key = scast key"

definition codict_ptr_hash :: "64 word \<Rightarrow> 64 word" where
  "codict_ptr_hash key = key"


section \<open>Well-formed dictionaries\<close>

text \<open>The fields of the two structures; the list of all nodes is a cycle through the address 0, the
  dictionary itself.\<close>

definition dlx :: "'k codict \<Rightarrow> ('k, 'v) dheap \<Rightarrow> nat field" where
  "dlx d h a = (if a = 0 then Some (d_listhead d) else map_option dn_listnext (h a))"

definition dlp :: "'k codict \<Rightarrow> ('k, 'v) dheap \<Rightarrow> nat field" where
  "dlp d h a = (if a = 0 then Some (d_listtail d) else map_option dn_listprev (h a))"

definition dnx :: "('k, 'v) dheap \<Rightarrow> nat field" where
  "dnx h a = map_option dn_next (h a)"

definition dlist :: "'k codict \<Rightarrow> ('k, 'v) dheap \<Rightarrow> nat list \<Rightarrow> bool" where
  "dlist d h ns \<longleftrightarrow> cycle (dlx d h) (dlp d h) (0 # ns)"

definition dkey :: "('k, 'v) dheap \<Rightarrow> nat \<Rightarrow> 'k" where "dkey h n = dn_key (the (h n))"
definition dval :: "('k, 'v) dheap \<Rightarrow> nat \<Rightarrow> 'v" where "dval h n = dn_value (the (h n))"
definition dhash :: "('k, 'v) dheap \<Rightarrow> nat \<Rightarrow> 64 word" where "dhash h n = dn_hash (the (h n))"

text \<open>The bucket \<open>i\<close> chains the nodes \<open>P\<close> whose hash falls on it.\<close>

definition buckets_ok :: "('k, 'v) dheap \<Rightarrow> nat list \<Rightarrow> nat set \<Rightarrow> bool" where
  "buckets_ok h bs P \<longleftrightarrow> (\<forall>i<length bs. \<exists>ps. lpath (dnx h) (bs ! i) ps \<and> distinct ps \<and>
     set ps = {n \<in> P. unat (dhash h n) mod length bs = i})"

definition fns_ok :: "('k \<Rightarrow> 64 word) \<Rightarrow> ('k \<Rightarrow> 'k \<Rightarrow> bool) \<Rightarrow> bool" where
  "fns_ok hash eq \<longleftrightarrow> equivp eq \<and> (\<forall>a b. eq a b \<longrightarrow> hash a = hash b)"

definition keys_ok :: "'k codict \<Rightarrow> ('k, 'v) dheap \<Rightarrow> nat set \<Rightarrow> bool" where
  "keys_ok d h P \<longleftrightarrow> (\<forall>n\<in>P. dhash h n = d_hash d (dkey h n)) \<and>
     (\<forall>m\<in>P. \<forall>n\<in>P. d_equal d (dkey h m) (dkey h n) \<longrightarrow> m = n)"

definition dict_ok :: "'k codict \<Rightarrow> ('k, 'v) dheap \<Rightarrow> nat list \<Rightarrow> bool" where
  "dict_ok d h ns \<longleftrightarrow> fns_ok (d_hash d) (d_equal d) \<and> dlist d h ns \<and> d_cap d = length (d_buckets d) \<and>
     0 < d_cap d \<and> buckets_ok h (d_buckets d) (set ns) \<and> keys_ok d h (set ns) \<and> d_count d = length ns"

definition entries :: "('k, 'v) dheap \<Rightarrow> nat list \<Rightarrow> ('k \<times> 'v) list" where
  "entries h ns = map (\<lambda>n. (dkey h n, dval h n)) ns"

lemma dlistD:
  assumes "dlist d h ns"
  shows "distinct ns" "0 \<notin> set ns" "d_listhead d = hd (ns @ [0])" "d_listtail d = last (0 # ns)"
  using assms cycle_head [of "dlx d h" "dlp d h" 0 ns] by (auto simp: dlist_def cycle_def dlx_def dlp_def)

lemma dlist_at:
  assumes "dlist d h (xs @ x # ys)"
  obtains n where "h x = Some n" "x \<noteq> 0" "dn_listnext n = hd (ys @ [0])" "dn_listprev n = last (0 # xs)"
  using nlist_at [of "dlx d h" "dlp d h" 0 xs x ys] assms that by (auto simp: dlist_def dlx_def dlp_def)

lemma dlist_live: "dlist d h ns \<Longrightarrow> n \<in> set ns \<Longrightarrow> n \<noteq> 0 \<and> (\<exists>k. h n = Some k)"
  by (metis in_set_conv_decomp dlist_at)

text \<open>Iteration follows the list.\<close>

lemma chain_lpath:
  "chain nx pv (a # ns @ [0]) \<Longrightarrow> 0 \<notin> set ns \<Longrightarrow> \<exists>b. nx a = Some b \<and> lpath nx b ns"
proof (induction ns arbitrary: a)
  case (Cons n ns)
  then show ?case by (auto simp: linked_def)
qed (simp add: linked_def)

lemma dlist_lpath:
  assumes "dlist d h ns"
  shows "lpath (\<lambda>a. map_option dn_listnext (h a)) (d_listhead d) ns"
proof -
  have "chain (dlx d h) (dlp d h) (0 # ns @ [0])" "0 \<notin> set ns" using assms by (auto simp: dlist_def cycle_def)
  then have "lpath (dlx d h) (d_listhead d) ns" using chain_lpath [of "dlx d h" "dlp d h" 0 ns] by (simp add: dlx_def)
  moreover have "lpath (\<lambda>a. map_option dn_listnext (h a)) (d_listhead d) ns = lpath (dlx d h) (d_listhead d) ns"
    by (rule lpath_cong) (use \<open>0 \<notin> set ns\<close> in \<open>auto simp: dlx_def\<close>)
  ultimately show ?thesis by simp
qed

section \<open>Lookup\<close>

definition opt0 :: "nat option \<Rightarrow> nat" where
  "opt0 r = (case r of None \<Rightarrow> 0 | Some n \<Rightarrow> n)"

lemma find_node_spec:
  "lpath (dnx h) a ps \<Longrightarrow>
   find_node eq h hash key a = Some (opt0 (find (\<lambda>n. dhash h n = hash \<and> eq (dkey h n) key) ps))"
proof (induction ps arbitrary: a)
  case Nil
  then show ?case by (subst find_node.simps) (simp add: opt0_def)
next
  case (Cons p ps)
  then obtain n where "a = p" "p \<noteq> 0" "h p = Some n" "lpath (dnx h) (dn_next n) ps"
    by (auto simp: dnx_def [of h p])
  then show ?case using Cons.IH [of "dn_next n"] by (subst find_node.simps) (simp add: opt0_def dhash_def dkey_def)
qed

lemma find_unique:
  assumes "\<And>x. x \<in> set ps \<and> P x \<longleftrightarrow> x \<in> set ns \<and> Q x"
    "\<And>x y. x \<in> set ns \<Longrightarrow> Q x \<Longrightarrow> y \<in> set ns \<Longrightarrow> Q y \<Longrightarrow> x = y"
  shows "find P ps = find Q ns"
proof (cases "find Q ns")
  case None
  then have "find P ps = None" using assms(1) unfolding find_None_iff by blast
  then show ?thesis using None by simp
next
  case (Some x)
  then have x: "x \<in> set ns" "Q x" by (auto simp: find_Some_iff)
  then obtain y where y: "find P ps = Some y" using assms(1) [of x] find_None_iff [of P ps] by (cases "find P ps") auto
  then have "y \<in> set ps" "P y" by (auto simp: find_Some_iff)
  then have "y = x" using assms x by blast
  then show ?thesis using Some y by simp
qed

text \<open>The node of a key, if any.\<close>

definition dfind :: "'k codict \<Rightarrow> ('k, 'v) dheap \<Rightarrow> nat list \<Rightarrow> 'k \<Rightarrow> nat option" where
  "dfind d h ns key = find (\<lambda>n. d_equal d (dkey h n) key) ns"

lemma dfind_Some: "dfind d h ns key = Some n \<Longrightarrow> n \<in> set ns \<and> d_equal d (dkey h n) key"
  by (auto simp: dfind_def find_Some_iff)

lemma fns_okD:
  assumes "fns_ok hash eq"
  shows "eq a a" "eq a b \<Longrightarrow> eq b a" "eq a b \<Longrightarrow> eq b c \<Longrightarrow> eq a c" "eq a b \<Longrightarrow> hash a = hash b"
  using assms equivp_reflp equivp_symp equivp_transp unfolding fns_ok_def by metis+

text \<open>The nodes of a bucket whose key is the one looked for are those of the dictionary.\<close>

lemma bucket_find:
  assumes ok: "dict_ok d h ns"
    and ps: "set ps = {n \<in> set ns. unat (dhash h n) mod d_cap d = unat (d_hash d key) mod d_cap d}"
  shows "find (\<lambda>n. dhash h n = d_hash d key \<and> d_equal d (dkey h n) key) ps = dfind d h ns key"
  unfolding dfind_def
proof (rule find_unique)
  have f: "fns_ok (d_hash d) (d_equal d)" and k: "keys_ok d h (set ns)" using ok by (simp_all add: dict_ok_def)
  have "dhash h x = d_hash d key" if "x \<in> set ns" "d_equal d (dkey h x) key" for x
    using k that fns_okD(4) [OF f] by (auto simp: keys_ok_def)
  then show "x \<in> set ps \<and> dhash h x = d_hash d key \<and> d_equal d (dkey h x) key \<longleftrightarrow>
      x \<in> set ns \<and> d_equal d (dkey h x) key" for x
    unfolding ps by auto
  show "x = y" if "x \<in> set ns" "d_equal d (dkey h x) key" "y \<in> set ns" "d_equal d (dkey h y) key" for x y
    using k that fns_okD(2,3) [OF f] unfolding keys_ok_def by blast
qed

lemma bucket_of:
  assumes ok: "dict_ok d h ns"
  obtains i ps where "bucket_idx (d_hash d key) (d_cap d) = Some i" "bucket (d_buckets d) i = Some (d_buckets d ! i)"
    "i = unat (d_hash d key) mod d_cap d" "i < d_cap d" "lpath (dnx h) (d_buckets d ! i) ps" "distinct ps"
    "set ps = {n \<in> set ns. unat (dhash h n) mod d_cap d = i}"
proof -
  let ?i = "unat (d_hash d key) mod d_cap d"
  have c: "0 < d_cap d" "d_cap d = length (d_buckets d)" "buckets_ok h (d_buckets d) (set ns)"
    using ok unfolding dict_ok_def by blast+
  then have i: "?i < d_cap d" by simp
  then obtain ps where "lpath (dnx h) (d_buckets d ! ?i) ps" "distinct ps"
    "set ps = {n \<in> set ns. unat (dhash h n) mod d_cap d = ?i}"
    using c(3) unfolding buckets_ok_def c(2) [symmetric] by blast
  moreover have "bucket_idx (d_hash d key) (d_cap d) = Some ?i" using c(1) by (simp add: bucket_idx_def)
  moreover have "bucket (d_buckets d) ?i = Some (d_buckets d ! ?i)" using i c(2) by (simp add: bucket_def)
  ultimately show thesis using that i by blast
qed

lemma codict_get_spec:
  assumes ok: "dict_ok d h ns"
  shows "codict_get d h key = Some (opt0 (dfind d h ns key))"
proof -
  obtain i ps where b: "bucket_idx (d_hash d key) (d_cap d) = Some i" "bucket (d_buckets d) i = Some (d_buckets d ! i)"
    "i = unat (d_hash d key) mod d_cap d" "lpath (dnx h) (d_buckets d ! i) ps"
    "set ps = {n \<in> set ns. unat (dhash h n) mod d_cap d = i}"
    by (rule bucket_of [OF ok, of key])
  show ?thesis
    unfolding codict_get_def
    using b(1,2) find_node_spec [OF b(4), of "d_equal d" "d_hash d key" key] bucket_find [OF ok b(5) [unfolded b(3)]]
    by simp
qed


section \<open>Frames\<close>

text \<open>Heaps that differ in the chain fields only, or in the list fields only.\<close>

definition same_but_next :: "('k, 'v) dheap \<Rightarrow> ('k, 'v) dheap \<Rightarrow> bool" where
  "same_but_next h h' \<longleftrightarrow> (\<forall>a. map_option (dn_next_update (\<lambda>_. 0)) (h' a) = map_option (dn_next_update (\<lambda>_. 0)) (h a))"

definition same_but_list :: "('k, 'v) dheap \<Rightarrow> ('k, 'v) dheap \<Rightarrow> bool" where
  "same_but_list h h' \<longleftrightarrow> (\<forall>a. map_option (dn_listprev_update (\<lambda>_. 0) \<circ> dn_listnext_update (\<lambda>_. 0)) (h' a) =
     map_option (dn_listprev_update (\<lambda>_. 0) \<circ> dn_listnext_update (\<lambda>_. 0)) (h a))"

lemma map_option_through:
  assumes "map_option g x = map_option g y" "\<And>n. f (g n) = f n"
  shows "map_option f x = map_option f y"
proof -
  have "map_option f z = map_option f (map_option g z)" for z using assms(2) by (simp add: option.map_comp o_def)
  then show ?thesis using assms(1) by metis
qed

lemma same_but_nextD:
  assumes "same_but_next h h'"
  shows "map_option dn_listnext (h' a) = map_option dn_listnext (h a)"
    "map_option dn_listprev (h' a) = map_option dn_listprev (h a)"
    "map_option dn_key (h' a) = map_option dn_key (h a)" "map_option dn_value (h' a) = map_option dn_value (h a)"
    "map_option dn_hash (h' a) = map_option dn_hash (h a)"
  by (rule map_option_through [of "dn_next_update (\<lambda>_. 0)"], use assms in \<open>simp_all add: same_but_next_def\<close>)+

lemma same_but_listD:
  assumes "same_but_list h h'"
  shows "map_option dn_next (h' a) = map_option dn_next (h a)"
    "map_option dn_key (h' a) = map_option dn_key (h a)" "map_option dn_value (h' a) = map_option dn_value (h a)"
    "map_option dn_hash (h' a) = map_option dn_hash (h a)"
  by (rule map_option_through [of "dn_listprev_update (\<lambda>_. 0) \<circ> dn_listnext_update (\<lambda>_. 0)"],
      use assms in \<open>simp_all add: same_but_list_def\<close>)+

lemma map_option_the: "map_option f x = map_option f y \<Longrightarrow> y \<noteq> None \<Longrightarrow> f (the x) = f (the y)"
  by (cases x; cases y) auto

lemma same_contents:
  assumes "map_option dn_key (h' n) = map_option dn_key (h n)" "map_option dn_value (h' n) = map_option dn_value (h n)"
    "map_option dn_hash (h' n) = map_option dn_hash (h n)" "h n \<noteq> None"
  shows "dkey h' n = dkey h n" "dval h' n = dval h n" "dhash h' n = dhash h n"
  using assms map_option_the unfolding dkey_def dval_def dhash_def by blast+

lemma dlist_cong:
  assumes "\<And>a. map_option dn_listnext (h' a) = map_option dn_listnext (h a)"
    "\<And>a. map_option dn_listprev (h' a) = map_option dn_listprev (h a)"
    "d_listhead d' = d_listhead d" "d_listtail d' = d_listtail d"
  shows "dlist d' h' ns = dlist d h ns"
proof -
  have "dlx d' h' = dlx d h" "dlp d' h' = dlp d h" using assms by (auto simp: dlx_def dlp_def fun_eq_iff)
  then show ?thesis by (simp add: dlist_def)
qed

lemma same_but_next_dlist: "same_but_next h h' \<Longrightarrow> dlist d h' ns = dlist d h ns"
  by (rule dlist_cong) (simp_all add: same_but_nextD)

lemma keys_ok_cong:
  "\<forall>n\<in>P. dkey h' n = dkey h n \<and> dhash h' n = dhash h n \<Longrightarrow> d_hash d' = d_hash d \<Longrightarrow> d_equal d' = d_equal d \<Longrightarrow>
   keys_ok d' h' P = keys_ok d h P"
  by (simp add: keys_ok_def)

lemma buckets_ok_cong:
  assumes "\<forall>n\<in>P. dnx h' n = dnx h n \<and> dhash h' n = dhash h n"
  shows "buckets_ok h bs P \<Longrightarrow> buckets_ok h' bs P"
  unfolding buckets_ok_def
proof (intro allI impI)
  fix i assume "\<forall>i<length bs. \<exists>ps. lpath (dnx h) (bs ! i) ps \<and> distinct ps \<and>
    set ps = {n \<in> P. unat (dhash h n) mod length bs = i}" "i < length bs"
  then obtain ps where ps: "lpath (dnx h) (bs ! i) ps" "distinct ps" "set ps = {n \<in> P. unat (dhash h n) mod length bs = i}"
    by blast
  have "lpath (dnx h') (bs ! i) ps" using ps(1,3) assms by (subst lpath_cong [of _ "dnx h'" "dnx h"]) auto
  moreover have "set ps = {n \<in> P. unat (dhash h' n) mod length bs = i}" using ps(3) assms by auto
  ultimately show "\<exists>ps. lpath (dnx h') (bs ! i) ps \<and> distinct ps \<and> set ps = {n \<in> P. unat (dhash h' n) mod length bs = i}"
    using ps(2) by blast
qed

text \<open>A new node at the front of its bucket.\<close>

lemma buckets_ok_insert:
  assumes b: "buckets_ok h bs P" and x: "x \<notin> P" "x \<noteq> 0" "unat (dhash h' x) mod length bs = i" "i < length bs"
    and n: "dnx h' x = Some (bs ! i)" and same: "\<forall>n\<in>P. dnx h' n = dnx h n \<and> dhash h' n = dhash h n"
  shows "buckets_ok h' (bs[i := x]) (insert x P)"
  unfolding buckets_ok_def length_list_update
proof (intro allI impI)
  fix j assume j: "j < length bs"
  have "buckets_ok h' bs P" by (rule buckets_ok_cong [OF same b])
  then obtain ps where ps: "lpath (dnx h') (bs ! j) ps" "distinct ps" "set ps = {n \<in> P. unat (dhash h' n) mod length bs = j}"
    using j unfolding buckets_ok_def by blast
  show "\<exists>ps. lpath (dnx h') (bs[i := x] ! j) ps \<and> distinct ps \<and> set ps = {n \<in> insert x P. unat (dhash h' n) mod length bs = j}"
  proof (cases "j = i")
    case True
    have "lpath (dnx h') (bs[i := x] ! j) (x # ps)" using ps(1) True j n x(2) by simp
    moreover have "distinct (x # ps)" using ps(2,3) x(1) by auto
    moreover have "set (x # ps) = {n \<in> insert x P. unat (dhash h' n) mod length bs = j}"
      using ps(3) x(3) True by auto
    ultimately show ?thesis by blast
  next
    case False
    moreover have "{n \<in> insert x P. unat (dhash h' n) mod length bs = j} = {n \<in> P. unat (dhash h' n) mod length bs = j}"
      using x(3) False by auto
    ultimately show ?thesis using ps by auto
  qed
qed

section \<open>Rehashing\<close>

lemma rehash_spec:
  assumes "lpath (\<lambda>a. map_option dn_listnext (h a)) cur rest" "distinct rest" "0 < length bs"
    "buckets_ok h bs P" "set rest \<inter> P = {}" "\<forall>n\<in>P. h n \<noteq> None"
  shows "\<exists>h' bs'. rehash h (length bs) bs cur = Some (h', bs') \<and> length bs' = length bs \<and>
    buckets_ok h' bs' (P \<union> set rest) \<and> same_but_next h h' \<and> (\<forall>a. a \<notin> set rest \<longrightarrow> h' a = h a)"
  using assms
proof (induction rest arbitrary: cur h bs P)
  case Nil
  then show ?case by (subst rehash.simps) (simp add: same_but_next_def)
next
  case (Cons x rest)
  obtain n where n: "cur = x" "x \<noteq> 0" "h x = Some n" "lpath (\<lambda>a. map_option dn_listnext (h a)) (dn_listnext n) rest"
    using Cons.prems(1) by auto
  let ?i = "unat (dn_hash n) mod length bs"
  let ?h = "h(x \<mapsto> n\<lparr>dn_next := bs ! ?i\<rparr>)" and ?bs = "bs[?i := x]"
  have i: "?i < length bs" using Cons.prems(3) by simp
  have s: "same_but_next h ?h" using n(3) by (simp add: same_but_next_def)
  have xP: "x \<notin> P" "x \<notin> set rest" using Cons.prems(2,5) by auto
  have "buckets_ok ?h ?bs (insert x P)"
  proof (rule buckets_ok_insert [OF Cons.prems(4) xP(1) n(2) _ i])
    show "unat (dhash ?h x) mod length bs = ?i" "dnx ?h x = Some (bs ! ?i)" by (simp_all add: dhash_def dnx_def)
    show "\<forall>m\<in>P. dnx ?h m = dnx h m \<and> dhash ?h m = dhash h m" using xP(1) by (auto simp: dnx_def dhash_def)
  qed
  moreover have "(\<lambda>a. map_option dn_listnext (?h a)) = (\<lambda>a. map_option dn_listnext (h a))" using n(3) by (auto simp: fun_eq_iff)
  then have "lpath (\<lambda>a. map_option dn_listnext (?h a)) (dn_listnext n) rest" using n(4) by simp
  moreover have "\<forall>m\<in>insert x P. ?h m \<noteq> None" using Cons.prems(6) by auto
  moreover have "set rest \<inter> insert x P = {}" using Cons.prems(5) xP by auto
  moreover have "distinct rest" "0 < length ?bs" using Cons.prems(2,3) by simp_all
  ultimately obtain h' bs' where r: "rehash ?h (length ?bs) ?bs (dn_listnext n) = Some (h', bs')" "length bs' = length ?bs"
    "buckets_ok h' bs' (insert x P \<union> set rest)" "same_but_next ?h h'" "\<forall>a. a \<notin> set rest \<longrightarrow> h' a = ?h a"
    using Cons.IH [of ?h "dn_listnext n" ?bs "insert x P"] by blast
  have "rehash h (length bs) bs cur = Some (h', bs')"
    using r(1) n(1-3) i Cons.prems(3) by (subst rehash.simps) (auto simp: bucket_idx_def bucket_def)
  moreover have "same_but_next h h'" using s r(4) by (simp add: same_but_next_def)
  ultimately show ?case using r(2,3,5) by (intro exI [of _ h'] exI [of _ bs']) auto
qed

lemma next_cap_pos: "0 < next_cap c"
  by (auto simp: next_cap_def s_bucketsizes_def split: option.split if_splits)

lemma buckets_ok_empty: "buckets_ok h (replicate n 0) {}"
  by (simp add: buckets_ok_def)

lemma check_and_resize_spec:
  assumes "fns_ok (d_hash d) (d_equal d)" "dlist d h ns" "d_cap d = length (d_buckets d)"
    "0 < d_cap d \<or> ns = []" "buckets_ok h (d_buckets d) (set ns)" "keys_ok d h (set ns)" "d_count d = length ns"
  shows "\<exists>d' h'. check_and_resize d h = Some (d', h') \<and> dict_ok d' h' ns \<and> same_but_next h h' \<and>
    d_hash d' = d_hash d \<and> d_equal d' = d_equal d \<and> d_listhead d' = d_listhead d \<and> d_listtail d' = d_listtail d \<and>
    (\<forall>a. a \<notin> set ns \<longrightarrow> h' a = h a)"
proof (cases "3 * d_cap d \<le> 4 * d_count d")
  case True
  let ?c = "next_cap (d_cap d)"
  obtain h' bs' where r: "rehash h ?c (replicate ?c 0) (d_listhead d) = Some (h', bs')" "length bs' = ?c"
    "buckets_ok h' bs' (set ns)" "same_but_next h h'" "\<forall>a. a \<notin> set ns \<longrightarrow> h' a = h a"
    using rehash_spec [OF dlist_lpath [OF assms(2)] dlistD(1) [OF assms(2)], of "replicate ?c 0" "{}"]
      next_cap_pos [of "d_cap d"] buckets_ok_empty by auto
  let ?d = "d\<lparr>d_cap := ?c, d_buckets := bs'\<rparr>"
  have "dlist ?d h' ns = dlist d h ns" by (rule dlist_cong) (simp_all add: same_but_nextD [OF r(4)])
  then have "dlist ?d h' ns" using assms(2) by blast
  moreover have "keys_ok ?d h' (set ns) = keys_ok d h (set ns)"
  proof (rule keys_ok_cong)
    show "\<forall>n\<in>set ns. dkey h' n = dkey h n \<and> dhash h' n = dhash h n"
    proof
      fix n assume "n \<in> set ns"
      then have "h n \<noteq> None" using dlist_live [OF assms(2)] by blast
      then show "dkey h' n = dkey h n \<and> dhash h' n = dhash h n"
        using same_contents [of h' n h] same_but_nextD(3-5) [OF r(4)] by simp
    qed
  qed simp_all
  ultimately have "dict_ok ?d h' ns" using assms r(2,3) next_cap_pos [of "d_cap d"] by (simp add: dict_ok_def)
  moreover have "check_and_resize d h = Some (?d, h')" using True r(1) by (simp add: check_and_resize_def Let_def)
  ultimately show ?thesis using r(4,5) by auto
next
  case False
  then have "0 < d_cap d" by simp
  then show ?thesis using assms False by (auto simp: check_and_resize_def dict_ok_def same_but_next_def)
qed

lemma codict_new_spec:
  assumes "fns_ok hash eq"
  shows "\<exists>d. codict_new hash eq h = Some (d, h) \<and> dict_ok d h [] \<and> d_hash d = hash \<and> d_equal d = eq"
proof -
  let ?d = "\<lparr>d_buckets = [], d_listhead = 0, d_listtail = 0, d_hash = hash, d_equal = eq, d_cap = 0, d_count = 0\<rparr>"
  have "dlist ?d h []" by (simp add: dlist_def dlx_def dlp_def)
  moreover have "buckets_ok h [] {}" "keys_ok ?d h {}" by (simp_all add: buckets_ok_def keys_ok_def)
  ultimately obtain d' h' where "check_and_resize ?d h = Some (d', h')" "dict_ok d' h' []" "\<forall>a. h' a = h a"
    "d_hash d' = hash" "d_equal d' = eq"
    using check_and_resize_spec [of ?d h "[]"] assms by auto
  moreover from this(3) have "h' = h" by auto
  ultimately show ?thesis by (auto simp: codict_new_def)
qed


section \<open>Setting\<close>

text \<open>The reference: an association list in insertion order, up to the dictionary's equality.\<close>

definition aset :: "('k \<Rightarrow> 'k \<Rightarrow> bool) \<Rightarrow> 'k \<Rightarrow> 'v \<Rightarrow> ('k \<times> 'v) list \<Rightarrow> ('k \<times> 'v) list" where
  "aset eq k v es =
     (if \<exists>e\<in>set es. eq (fst e) k then map (\<lambda>e. if eq (fst e) k then (fst e, v) else e) es else es @ [(k, v)])"

definition adel :: "('k \<Rightarrow> 'k \<Rightarrow> bool) \<Rightarrow> 'k \<Rightarrow> ('k \<times> 'v) list \<Rightarrow> ('k \<times> 'v) list" where
  "adel eq k es = filter (\<lambda>e. \<not> eq (fst e) k) es"

definition aget :: "('k \<Rightarrow> 'k \<Rightarrow> bool) \<Rightarrow> 'k \<Rightarrow> ('k \<times> 'v) list \<Rightarrow> 'v option" where
  "aget eq k es = map_option snd (find (\<lambda>e. eq (fst e) k) es)"

lemma entries_cong: "\<forall>n\<in>set ns. dkey h' n = dkey h n \<and> dval h' n = dval h n \<Longrightarrow> entries h' ns = entries h ns"
  by (simp add: entries_def)

lemma aget_entries: "aget (d_equal d) key (entries h ns) = map_option (dval h) (dfind d h ns key)"
  unfolding entries_def dfind_def aget_def by (induction ns) auto

lemma dict_live: "dict_ok d h ns \<Longrightarrow> n \<in> set ns \<Longrightarrow> n \<noteq> 0 \<and> (\<exists>k. h n = Some k)"
  using dlist_live by (auto simp: dict_ok_def)

lemma dfind_none: "dfind d h ns key = None \<longleftrightarrow> (\<forall>n\<in>set ns. \<not> d_equal d (dkey h n) key)"
  by (auto simp: dfind_def find_None_iff)

text \<open>Appending a node to the list of all nodes.\<close>

lemma set_existing:
  assumes ok: "dict_ok d h ns" and f: "dfind d h ns key = Some n"
  shows "\<exists>h'. dn_upd h n (dn_value_update (\<lambda>_. val)) = Some h' \<and> dict_ok d h' ns \<and>
    entries h' ns = aset (d_equal d) key val (entries h ns) \<and> (\<forall>a. a \<noteq> n \<longrightarrow> h' a = h a)"
proof -
  have n: "n \<in> set ns" "d_equal d (dkey h n) key" using dfind_Some [OF f] by blast+
  then obtain k where k: "h n = Some k" using dict_live [OF ok] by blast
  let ?h = "h(n \<mapsto> k\<lparr>dn_value := val\<rparr>)"
  have fn: "fns_ok (d_hash d) (d_equal d)" and ko: "keys_ok d h (set ns)" using ok by (simp_all add: dict_ok_def)
  have c: "dkey ?h m = dkey h m" "dhash ?h m = dhash h m" "dnx ?h m = dnx h m" for m
    using k by (simp_all add: dkey_def dhash_def dnx_def)
  have "dlist d ?h ns = dlist d h ns" using k by (intro dlist_cong) auto
  moreover have "keys_ok d ?h (set ns) = keys_ok d h (set ns)" by (rule keys_ok_cong) (simp_all add: c)
  moreover have "buckets_ok ?h (d_buckets d) (set ns)"
    by (rule buckets_ok_cong [of _ ?h h]) (use ok in \<open>simp_all add: c dict_ok_def\<close>)
  ultimately have "dict_ok d ?h ns" using ok unfolding dict_ok_def by blast
  moreover have "entries ?h ns = aset (d_equal d) key val (entries h ns)"
  proof -
    have v: "(dkey ?h m, dval ?h m) = (if d_equal d (dkey h m) key then (dkey h m, val) else (dkey h m, dval h m))"
      if "m \<in> set ns" for m
    proof (cases "m = n")
      case False
      then have "\<not> d_equal d (dkey h m) key"
        using ko n that fns_okD(2,3) [OF fn] unfolding keys_ok_def by blast
      then show ?thesis using False c(1) [of m] by (simp add: dval_def)
    qed (use n(2) c(1) [of n] in \<open>simp add: dval_def\<close>)
    have "\<exists>e\<in>set (entries h ns). d_equal d (fst e) key" using n by (auto simp: entries_def)
    then show ?thesis using v by (simp add: aset_def entries_def)
  qed
  ultimately show ?thesis using k by (intro exI [of _ ?h]) (simp add: dn_upd_def)
qed

lemma set_new:
  assumes ok: "dict_ok d h ns" and f: "dfind d h ns key = None" and p: "p \<noteq> 0" "h p = None"
    and l: "length ns + 1 < 2 ^ 32"
  shows "\<exists>d' h'. do {
       idx \<leftarrow> bucket_idx (d_hash d key) (d_cap d);
       cassert (p \<noteq> 0 \<and> h p = None);
       b \<leftarrow> bucket (d_buckets d) idx;
       let h = h(p \<mapsto> \<lparr>dn_next = b, dn_listprev = 0, dn_listnext = 0, dn_key = key, dn_value = val, dn_hash = d_hash d key\<rparr>);
       let d = d\<lparr>d_buckets := (d_buckets d)[idx := p]\<rparr>;
       (d, h) \<leftarrow>
         (if d_listhead d = 0 then Some (d\<lparr>d_listhead := p, d_listtail := p\<rparr>, h)
          else do {
            h \<leftarrow> dn_upd h (d_listtail d) (dn_listnext_update (\<lambda>_. p));
            h \<leftarrow> dn_upd h p (dn_listprev_update (\<lambda>_. d_listtail d));
            h \<leftarrow> dn_upd h p (dn_listnext_update (\<lambda>_. 0));
            Some (d\<lparr>d_listtail := p\<rparr>, h)
          });
       Some (p, d\<lparr>d_count := (d_count d + 1) mod 2 ^ 32\<rparr>, h)
     } = Some (p, d', h') \<and> dict_ok d' h' (ns @ [p]) \<and>
     entries h' (ns @ [p]) = aset (d_equal d) key val (entries h ns) \<and>
     d_hash d' = d_hash d \<and> d_equal d' = d_equal d \<and> (\<forall>a. a \<notin> set ns \<longrightarrow> a \<noteq> p \<longrightarrow> h' a = h a)"
proof -
  obtain i where b: "bucket_idx (d_hash d key) (d_cap d) = Some i" "bucket (d_buckets d) i = Some (d_buckets d ! i)"
    "i = unat (d_hash d key) mod d_cap d" "i < d_cap d"
    by (rule bucket_of [OF ok, of key])
  have o: "fns_ok (d_hash d) (d_equal d)" "dlist d h ns" "d_cap d = length (d_buckets d)"
    "buckets_ok h (d_buckets d) (set ns)" "keys_ok d h (set ns)" "d_count d = length ns"
    using ok unfolding dict_ok_def by blast+
  have pn: "p \<notin> set ns" using p(2) dict_live [OF ok, of p] by auto
  let ?t = "last (0 # ns)"
  let ?new = "\<lparr>dn_next = d_buckets d ! i, dn_listprev = ?t, dn_listnext = 0, dn_key = key, dn_value = val, dn_hash = d_hash d key\<rparr>"
  let ?h = "\<lambda>a. if a = p then Some ?new else if ns \<noteq> [] \<and> a = ?t then map_option (dn_listnext_update (\<lambda>_. p)) (h a) else h a"
  let ?d = "d\<lparr>d_buckets := (d_buckets d)[i := p], d_listhead := hd (ns @ [p]), d_listtail := p, d_count := length ns + 1\<rparr>"
  have t: "?t \<noteq> p" using pn p(1) by (cases "ns = []") auto
  have list: "dlist ?d ?h (ns @ [p])"
  proof -
    have "cycle (dlx d h) (dlp d h) (0 # ns @ [])" using o(2) by (simp add: dlist_def)
    from nlist_insert [OF this, of p ?t 0] pn p(1)
    have "cycle ((dlx d h)(p \<mapsto> 0, ?t \<mapsto> p)) ((dlp d h)(p \<mapsto> ?t, 0 \<mapsto> p)) (0 # ns @ [p])" by simp
    moreover have "dlx ?d ?h = (dlx d h)(p \<mapsto> 0, ?t \<mapsto> p)"
    proof (cases "ns = []")
      case True
      then show ?thesis using p(1) by (auto simp: dlx_def fun_eq_iff)
    next
      case False
      then have "?t \<in> set ns" "?t = last ns" by simp_all
      then have "?t \<noteq> 0" "\<exists>k. h ?t = Some k" using dict_live [OF ok] by auto
      then show ?thesis using False p(1) t dlistD(3) [OF o(2)] by (auto simp: dlx_def fun_eq_iff)
    qed
    moreover have "dlp ?d ?h = (dlp d h)(p \<mapsto> ?t, 0 \<mapsto> p)"
      using p(1) by (auto simp: dlp_def fun_eq_iff option.map_comp o_def)
    ultimately show ?thesis by (simp add: dlist_def)
  qed
  have same: "dkey ?h n = dkey h n \<and> dval ?h n = dval h n \<and> dhash ?h n = dhash h n \<and> dnx ?h n = dnx h n" if "n \<in> set ns" for n
  proof -
    have "\<exists>k. h n = Some k" using dict_live [OF ok that] by blast
    then obtain k where "h n = Some k" by blast
    moreover have "n \<noteq> p" using that pn by blast
    ultimately show ?thesis by (cases "n = ?t") (auto simp: dkey_def dval_def dhash_def dnx_def)
  qed
  have new: "dkey ?h p = key" "dval ?h p = val" "dhash ?h p = d_hash d key" "dnx ?h p = Some (d_buckets d ! i)"
    by (simp_all add: dkey_def dval_def dhash_def dnx_def)
  have "buckets_ok ?h ((d_buckets d)[i := p]) (insert p (set ns))"
    by (rule buckets_ok_insert [OF o(4) pn p(1)]) (use b(3,4) o(3) new same in auto)
  moreover have "keys_ok ?d ?h (insert p (set ns))"
  proof -
    have ko: "keys_ok ?d ?h (set ns)" using o(5) same by (subst keys_ok_cong [of _ ?h h]) auto
    have "\<not> d_equal d (dkey h n) key" "\<not> d_equal d key (dkey h n)" if "n \<in> set ns" for n
      using f that fns_okD(2) [OF o(1)] unfolding dfind_none by blast+
    then show ?thesis using ko new same unfolding keys_ok_def by auto
  qed
  ultimately have "dict_ok ?d ?h (ns @ [p])"
    using o(1,3) list ok by (auto simp: dict_ok_def)
  moreover have "entries ?h (ns @ [p]) = aset (d_equal d) key val (entries h ns)"
  proof -
    have "\<not> (\<exists>e\<in>set (entries h ns). d_equal d (fst e) key)" using f unfolding dfind_none by (auto simp: entries_def)
    moreover have "entries ?h ns = entries h ns" using same by (intro entries_cong) blast
    ultimately show ?thesis using new(1,2) by (simp add: aset_def entries_def)
  qed
  moreover have "do {
       idx \<leftarrow> bucket_idx (d_hash d key) (d_cap d);
       cassert (p \<noteq> 0 \<and> h p = None);
       b \<leftarrow> bucket (d_buckets d) idx;
       let h = h(p \<mapsto> \<lparr>dn_next = b, dn_listprev = 0, dn_listnext = 0, dn_key = key, dn_value = val, dn_hash = d_hash d key\<rparr>);
       let d = d\<lparr>d_buckets := (d_buckets d)[idx := p]\<rparr>;
       (d, h) \<leftarrow>
         (if d_listhead d = 0 then Some (d\<lparr>d_listhead := p, d_listtail := p\<rparr>, h)
          else do {
            h \<leftarrow> dn_upd h (d_listtail d) (dn_listnext_update (\<lambda>_. p));
            h \<leftarrow> dn_upd h p (dn_listprev_update (\<lambda>_. d_listtail d));
            h \<leftarrow> dn_upd h p (dn_listnext_update (\<lambda>_. 0));
            Some (d\<lparr>d_listtail := p\<rparr>, h)
          });
       Some (p, d\<lparr>d_count := (d_count d + 1) mod 2 ^ 32\<rparr>, h)
     } = Some (p, ?d, ?h)"
  proof (cases ns)
    case Nil
    then have "d_listhead d = 0" using dlistD(3) [OF o(2)] by simp
    moreover have "h(p \<mapsto> \<lparr>dn_next = d_buckets d ! i, dn_listprev = 0, dn_listnext = 0, dn_key = key, dn_value = val,
        dn_hash = d_hash d key\<rparr>) = ?h" using Nil by (auto simp: fun_eq_iff)
    ultimately show ?thesis using b(1,2) p o(6) l Nil by (simp add: cassert_def Let_def)
  next
    case (Cons q qs)
    then have "?t \<in> set ns" by simp
    then obtain k where k: "h ?t = Some k" "?t \<noteq> 0" using dict_live [OF ok] by blast
    have "d_listhead d = q" "q \<noteq> 0" "d_listtail d = ?t"
      using dlistD(2-4) [OF o(2)] Cons by auto
    note hd = this
    have "h(p \<mapsto> \<lparr>dn_next = d_buckets d ! i, dn_listprev = ?t, dn_listnext = 0, dn_key = key, dn_value = val,
        dn_hash = d_hash d key\<rparr>, ?t \<mapsto> k\<lparr>dn_listnext := p\<rparr>) = ?h" using Cons k t by (auto simp: fun_eq_iff)
    then show ?thesis using b(1,2) p o(6) l Cons hd k(1) t
      by (simp add: cassert_def Let_def dn_upd_def fun_upd_twist)
  qed
  ultimately show ?thesis using t by (intro exI [of _ ?d] exI [of _ ?h]) auto
qed

lemma codict_set_spec:
  assumes ok: "dict_ok d h ns" and p: "p \<noteq> 0" "h p = None" and l: "length ns + 1 < 2 ^ 32"
  shows "\<exists>n d' h'. codict_set d h p key val = Some (n, d', h') \<and>
    dict_ok d' h' (if dfind d h ns key = None then ns @ [p] else ns) \<and>
    n = (case dfind d h ns key of None \<Rightarrow> p | Some n \<Rightarrow> n) \<and>
    entries h' (if dfind d h ns key = None then ns @ [p] else ns) = aset (d_equal d) key val (entries h ns) \<and>
    d_hash d' = d_hash d \<and> d_equal d' = d_equal d \<and> (\<forall>a. a \<notin> set ns \<longrightarrow> a \<noteq> p \<longrightarrow> h' a = h a)"
proof (cases "dfind d h ns key")
  case None
  have o: "fns_ok (d_hash d) (d_equal d)" "dlist d h ns" "d_cap d = length (d_buckets d)" "0 < d_cap d"
    "buckets_ok h (d_buckets d) (set ns)" "keys_ok d h (set ns)" "d_count d = length ns"
    using ok unfolding dict_ok_def by blast+
  obtain d1 h1 where 1: "check_and_resize d h = Some (d1, h1)" "dict_ok d1 h1 ns" "same_but_next h h1"
    "d_hash d1 = d_hash d" "d_equal d1 = d_equal d" "\<forall>a. a \<notin> set ns \<longrightarrow> h1 a = h a"
    using check_and_resize_spec [OF o(1-3) _ o(5-7)] o(4) by blast
  have pn: "p \<notin> set ns" using p(2) dict_live [OF ok, of p] by auto
  have c: "dkey h1 n = dkey h n" "dval h1 n = dval h n" if "n \<in> set ns" for n
    using same_contents [of h1 n h] same_but_nextD(3-5) [OF 1(3)] dict_live [OF ok that] by auto
  have "dfind d1 h1 ns key = None" using None c(1) 1(5) unfolding dfind_none by simp
  moreover have "entries h1 ns = entries h ns" using c by (intro entries_cong) blast
  moreover have "h1 p = None" using 1(6) pn p(2) by simp
  ultimately show ?thesis
    using set_new [OF 1(2) _ p(1) _ l, of key val] codict_get_spec [OF ok, of key] None 1(1,4-6)
    by (fastforce simp: codict_set_def opt0_def)
next
  case (Some n)
  then have "n \<noteq> 0" using dfind_Some [OF Some] dict_live [OF ok] by blast
  then show ?thesis
    using set_existing [OF ok Some, of val] codict_get_spec [OF ok, of key] Some dfind_Some [OF Some]
    by (auto simp: codict_set_def opt0_def)
qed


section \<open>Unlinking, deleting, moving\<close>

lemma dlist_ends:
  assumes "dlist d h (xs @ x # ys)"
  shows "d_listhead d = x \<longleftrightarrow> xs = []" "d_listtail d = x \<longleftrightarrow> ys = []" "last (0 # xs) \<noteq> x" "hd (ys @ [0]) \<noteq> x"
    "last (0 # xs) = 0 \<longleftrightarrow> xs = []" "hd (ys @ [0]) = 0 \<longleftrightarrow> ys = []"
    "xs \<noteq> [] \<Longrightarrow> last (0 # xs) \<in> set xs" "ys \<noteq> [] \<Longrightarrow> hd (ys @ [0]) \<in> set ys"
    "xs \<noteq> [] \<Longrightarrow> last (0 # xs) \<noteq> hd (ys @ [0])"
proof -
  note d = dlistD [OF assms]
  have l: "xs \<noteq> [] \<Longrightarrow> last xs \<in> set xs" by simp
  have t: "last (x # ys) = (if ys = [] then x else last ys)" by simp
  show "d_listhead d = x \<longleftrightarrow> xs = []" using d(1,3) by (cases xs) auto
  show "d_listtail d = x \<longleftrightarrow> ys = []" using d(1,4) by (cases ys rule: rev_cases) auto
  show "last (0 # xs) \<noteq> x" "last (0 # xs) = 0 \<longleftrightarrow> xs = []" "xs \<noteq> [] \<Longrightarrow> last (0 # xs) \<in> set xs"
    using d(1,2) by (cases xs rule: rev_cases; auto)+
  show "hd (ys @ [0]) \<noteq> x" "hd (ys @ [0]) = 0 \<longleftrightarrow> ys = []" "ys \<noteq> [] \<Longrightarrow> hd (ys @ [0]) \<in> set ys"
    using d(1,2) by (cases ys; auto)+
  show "xs \<noteq> [] \<Longrightarrow> last (0 # xs) \<noteq> hd (ys @ [0])"
    using d(1,2) by (cases ys; cases xs rule: rev_cases) auto
qed

lemma list_unlink_spec:
  assumes ok: "dlist d h (xs @ x # ys)"
  shows "\<exists>d' h'. list_unlink d h x = Some (d', h') \<and> dlist d' h' (xs @ ys) \<and> same_but_list h h' \<and> h' x = h x \<and>
    (\<forall>q. q \<notin> set (xs @ ys) \<longrightarrow> h' q = h q) \<and>
    (\<exists>hd tl. d' = d\<lparr>d_listhead := hd, d_listtail := tl\<rparr>)"
proof -
  obtain n where n: "h x = Some n" "x \<noteq> 0" "dn_listnext n = hd (ys @ [0])" "dn_listprev n = last (0 # xs)"
    by (rule dlist_at [OF ok])
  define a b where ab: "a = last (0 # xs)" "b = hd (ys @ [0])"
  note e = dlist_ends [OF ok, folded ab] and n = n [folded ab]
  have la: "\<exists>k. h a = Some k" if "xs \<noteq> []" using dlist_live [OF ok, of a] e(7) [OF that] by auto
  have lb: "\<exists>k. h b = Some k" if "ys \<noteq> []" using dlist_live [OF ok, of b] e(8) [OF that] by auto
  let ?h1 = "if xs \<noteq> [] then h(a := map_option (dn_listnext_update (\<lambda>_. b)) (h a)) else h"
  let ?h = "if ys \<noteq> [] then ?h1(b := map_option (dn_listprev_update (\<lambda>_. a)) (?h1 b)) else ?h1"
  let ?d = "d\<lparr>d_listhead := (if xs = [] then b else d_listhead d), d_listtail := (if ys = [] then a else d_listtail d)\<rparr>"
  have fx: "map_option dn_listnext (?h q) = (if xs \<noteq> [] \<and> q = a then Some b else map_option dn_listnext (h q))" for q
    using la by (auto simp: option.map_comp o_def)
  have fp: "map_option dn_listprev (?h q) = (if ys \<noteq> [] \<and> q = b then Some a else map_option dn_listprev (h q))" for q
    using lb e(9) by (auto simp: option.map_comp o_def)
  have "dlist ?d ?h (xs @ ys)"
    unfolding dlist_def
  proof (rule nlist_remove [of "dlx d h" "dlp d h" 0 xs x ys a b])
    show "cycle (dlx d h) (dlp d h) (0 # xs @ x # ys)" using ok by (simp add: dlist_def)
    show "dlx ?d ?h q = ((dlx d h)(a \<mapsto> b)) q" if "q \<noteq> x" for q
      unfolding dlx_def fx using e(5) by (cases "q = 0") auto
    show "dlp ?d ?h q = ((dlp d h)(b \<mapsto> a)) q" if "q \<noteq> x" for q
      unfolding dlp_def fp using e(6) by (cases "q = 0") auto
  qed (simp_all add: ab)
  moreover have "same_but_list h ?h"
    by (auto simp: same_but_list_def option.map_comp o_def)
  moreover have hx: "?h1 x = h x" "?h x = h x" using e(3,4) by auto
  moreover have "\<forall>q. q \<notin> set (xs @ ys) \<longrightarrow> ?h q = h q" using e(7,8) by auto
  moreover have "list_unlink d h x = Some (?d, ?h)"
  proof -
    have 1: "(if dn_listprev n \<noteq> 0 then dn_upd h (dn_listprev n) (dn_listnext_update (\<lambda>_. dn_listnext n)) else Some h) = Some ?h1"
      using n(3,4) e(5) la by (auto simp: dn_upd_def)
    have 2: "(if dn_listnext n \<noteq> 0 then dn_upd ?h1 (dn_listnext n) (dn_listprev_update (\<lambda>_. dn_listprev n)) else Some ?h1) = Some ?h"
    proof (cases "ys = []")
      case False
      have "?h1 b = h b" using e(9) by auto
      then obtain k where "?h1 b = Some k" using lb [OF False] by (auto simp del: fun_upd_apply)
      then show ?thesis using n(3,4) e(6) False by (simp add: dn_upd_def)
    qed (use n(3) e(6) in simp)
    have 3: "(let d = (if d_listhead d = x then d\<lparr>d_listhead := dn_listnext n\<rparr> else d) in
        if d_listtail d = x then d\<lparr>d_listtail := dn_listprev n\<rparr> else d) = ?d"
      using e(1,2) n(3,4) by simp
    have 4: "?h1 x = Some n" using hx(1) n(1) by simp
    show ?thesis
      unfolding list_unlink_def n(1) Option.bind_lunit 1 4 2 using 3 by (simp only: Let_def)
  qed
  ultimately show ?thesis by (intro exI [of _ ?d] exI [of _ ?h] conjI) (assumption | rule refl exI)+
qed

lemma same_but_list_contents:
  assumes "same_but_list h h'" "h n \<noteq> None"
  shows "dkey h' n = dkey h n" "dval h' n = dval h n" "dhash h' n = dhash h n" "dnx h' n = dnx h n"
  using same_contents [of h' n h] same_but_listD [OF assms(1), of n] assms(2) by (simp_all add: dnx_def)

text \<open>The search with the previous node, and the chain without a node.\<close>

lemma find_prev_spec:
  "lpath (dnx h) a ps \<Longrightarrow>
   (case find (\<lambda>n. dhash h n = hash \<and> eq (dkey h n) key) ps of
      None \<Rightarrow> \<exists>p. find_prev eq h hash key prev a = Some (p, 0)
    | Some x \<Rightarrow> \<exists>us vs. ps = us @ x # vs \<and>
        find_prev eq h hash key prev a = Some (if us = [] then prev else Some (last us), x))"
proof (induction ps arbitrary: a prev)
  case Nil
  then show ?case by (subst find_prev.simps) simp
next
  case (Cons p ps)
  then obtain n where n: "a = p" "p \<noteq> 0" "h p = Some n" "lpath (dnx h) (dn_next n) ps" by (auto simp: dnx_def [of h p])
  show ?case
  proof (cases "dhash h p = hash \<and> eq (dkey h p) key")
    case True
    then have "find_prev eq h hash key prev a = Some (prev, p)"
      using n by (subst find_prev.simps) (simp add: dhash_def dkey_def)
    then show ?thesis using True by (auto intro!: exI [of _ "[]"])
  next
    case False
    then have r: "find_prev eq h hash key prev a = find_prev eq h hash key (Some p) (dn_next n)"
      using n by (subst find_prev.simps) (auto simp: dhash_def dkey_def)
    have f: "find (\<lambda>n. dhash h n = hash \<and> eq (dkey h n) key) (p # ps) = find (\<lambda>n. dhash h n = hash \<and> eq (dkey h n) key) ps"
      using False by auto
    show ?thesis
      unfolding f
    proof (cases "find (\<lambda>n. dhash h n = hash \<and> eq (dkey h n) key) ps")
      case None
      then show "case find (\<lambda>n. dhash h n = hash \<and> eq (dkey h n) key) ps of
          None \<Rightarrow> \<exists>p. find_prev eq h hash key prev a = Some (p, 0)
        | Some x \<Rightarrow> \<exists>us vs. p # ps = us @ x # vs \<and>
            find_prev eq h hash key prev a = Some (if us = [] then prev else Some (last us), x)"
        using Cons.IH [OF n(4), of "Some p"] r by simp
    next
      case (Some x)
      obtain us vs where "ps = us @ x # vs"
        "find_prev eq h hash key (Some p) (dn_next n) = Some (if us = [] then Some p else Some (last us), x)"
        using Cons.IH [OF n(4), of "Some p"] Some by auto
      then have "\<exists>us vs. p # ps = us @ x # vs \<and>
          find_prev eq h hash key prev a = Some (if us = [] then prev else Some (last us), x)"
        using r by (intro exI [of _ "p # us"] exI [of _ vs]) simp
      then show "case find (\<lambda>n. dhash h n = hash \<and> eq (dkey h n) key) ps of
          None \<Rightarrow> \<exists>p. find_prev eq h hash key prev a = Some (p, 0)
        | Some x \<Rightarrow> \<exists>us vs. p # ps = us @ x # vs \<and>
            find_prev eq h hash key prev a = Some (if us = [] then prev else Some (last us), x)"
        unfolding Some option.case .
    qed
  qed
qed

lemma lpath_remove:
  "lpath nx a (us @ x # vs) \<Longrightarrow> distinct (us @ x # vs) \<Longrightarrow> us \<noteq> [] \<Longrightarrow> nx x = Some b \<Longrightarrow>
   lpath (nx(last us \<mapsto> b)) a (us @ vs)"
proof (induction us arbitrary: a)
  case (Cons u us)
  show ?case
  proof (cases "us = []")
    case True
    have "lpath (nx(u \<mapsto> b)) b vs = lpath nx b vs" by (rule lpath_upd) (use Cons.prems(2) in auto)
    then show ?thesis using Cons.prems True by (auto simp del: fun_upd_apply simp: fun_upd_same)
  next
    case False
    then have "u \<noteq> last us" using Cons.prems(2) by auto
    then show ?thesis using Cons False by auto
  qed
qed simp

lemma lpath_tail: "lpath nx a (x # vs) \<Longrightarrow> nx x = Some b \<Longrightarrow> lpath nx b vs"
  by auto


lemma dlist_frame:
  assumes "dlist d h ns" "\<forall>n\<in>set ns. h' n = h n" "d_listhead d' = d_listhead d" "d_listtail d' = d_listtail d"
  shows "dlist d' h' ns"
  using assms cycle_frame [of "dlx d h" "dlp d h" "0 # ns" "dlx d' h'" "dlp d' h'"]
  by (auto simp: dlist_def dlx_def dlp_def)

lemma buckets_ok_remove:
  assumes b: "buckets_ok h bs P" and i: "i < length bs" and us: "lpath (dnx h) (bs ! i) (us @ x # vs)" "distinct (us @ x # vs)"
    "set (us @ x # vs) = {n \<in> P. unat (dhash h n) mod length bs = i}" and n: "h x = Some n"
    and h1: "h1 = (if us = [] then h else h(last us := map_option (dn_next_update (\<lambda>_. dn_next n)) (h (last us))))"
    and bs1: "bs1 = (if us = [] then bs[i := dn_next n] else bs)"
  shows "buckets_ok h1 bs1 (P - {x})" "same_but_next h h1" "h1 x = h x"
proof -
  show s: "same_but_next h h1" unfolding h1 by (auto simp: same_but_next_def option.map_comp o_def)
  have lx: "us \<noteq> [] \<Longrightarrow> last us \<noteq> x" using us(2) by auto
  then show "h1 x = h x" unfolding h1 by auto
  have live: "h m \<noteq> None" if "m \<in> set (us @ x # vs)" for m
    using lpath_dom [OF us(1) that] by (auto simp: dnx_def)
  have dh: "dhash h1 m = dhash h m" for m
  proof (cases "us \<noteq> [] \<and> m = last us")
    case True
    then have "h m \<noteq> None" using live by auto
    then show ?thesis using True by (auto simp: h1 dhash_def)
  qed (auto simp: h1 dhash_def)
  have nx: "dnx h x = Some (dn_next n)" using n by (simp add: dnx_def)
  have dnx1: "dnx h1 = (if us = [] then dnx h else (dnx h)(last us \<mapsto> dn_next n))"
  proof (cases "us = []")
    case False
    then have "h (last us) \<noteq> None" using live by simp
    then show ?thesis using False by (auto simp: h1 dnx_def fun_eq_iff)
  qed (simp add: h1)
  have len: "length bs1 = length bs" by (simp add: bs1)
  show "buckets_ok h1 bs1 (P - {x})"
    unfolding buckets_ok_def len
  proof (intro allI impI)
    fix j assume j: "j < length bs"
    show "\<exists>ps. lpath (dnx h1) (bs1 ! j) ps \<and> distinct ps \<and> set ps = {n \<in> P - {x}. unat (dhash h1 n) mod length bs = j}"
    proof (cases "j = i")
      case True
      have "lpath (dnx h1) (bs1 ! j) (us @ vs)"
      proof (cases "us = []")
        case True
        then show ?thesis using us(1) nx i \<open>j = i\<close> by (simp add: dnx1 bs1)
      next
        case False
        then show ?thesis using lpath_remove [OF us(1,2) False nx] \<open>j = i\<close> by (simp add: dnx1 bs1)
      qed
      moreover have "distinct (us @ vs)" using us(2) by simp
      moreover have "set (us @ vs) = set (us @ x # vs) - {x}" using us(2) by auto
      then have "set (us @ vs) = {n \<in> P - {x}. unat (dhash h1 n) mod length bs = j}"
        unfolding us(3) dh True by blast
      ultimately show ?thesis by blast
    next
      case False
      obtain ps where ps: "lpath (dnx h) (bs ! j) ps" "distinct ps" "set ps = {n \<in> P. unat (dhash h n) mod length bs = j}"
        using b j unfolding buckets_ok_def by blast
      have "set ps \<inter> set (us @ x # vs) = {}" unfolding ps(3) us(3) using False by blast
      then have out: "x \<notin> set ps" "us \<noteq> [] \<Longrightarrow> last us \<notin> set ps" by (auto dest: last_in_set)
      have "lpath (dnx h1) (bs ! j) ps = lpath (dnx h) (bs ! j) ps"
        by (rule lpath_cong) (use out(2) in \<open>auto simp: dnx1\<close>)
      moreover have "bs1 ! j = bs ! j" using False by (simp add: bs1)
      moreover have "set ps = {n \<in> P - {x}. unat (dhash h1 n) mod length bs = j}" using ps(3) out(1) unfolding dh by blast
      ultimately show ?thesis using ps(1,2) by auto
    qed
  qed
qed

lemma codict_del_spec:
  assumes ok: "dict_ok d h ns" and l: "length ns < 2 ^ 32"
  shows "case dfind d h ns key of
      None \<Rightarrow> codict_del d h key = Some (False, d, h)
    | Some x \<Rightarrow> \<exists>d' h'. codict_del d h key = Some (True, d', h') \<and> dict_ok d' h' (remove1 x ns) \<and>
        entries h' (remove1 x ns) = adel (d_equal d) key (entries h ns) \<and> h' x = None \<and>
        d_hash d' = d_hash d \<and> d_equal d' = d_equal d \<and> (\<forall>a. a \<notin> set ns \<longrightarrow> h' a = h a)"
proof -
  have o: "fns_ok (d_hash d) (d_equal d)" "dlist d h ns" "d_cap d = length (d_buckets d)" "0 < d_cap d"
    "buckets_ok h (d_buckets d) (set ns)" "keys_ok d h (set ns)" "d_count d = length ns"
    using ok unfolding dict_ok_def by blast+
  obtain i ps where b: "bucket_idx (d_hash d key) (d_cap d) = Some i" "bucket (d_buckets d) i = Some (d_buckets d ! i)"
    "i = unat (d_hash d key) mod d_cap d" "i < d_cap d" "lpath (dnx h) (d_buckets d ! i) ps" "distinct ps"
    "set ps = {n \<in> set ns. unat (dhash h n) mod d_cap d = i}"
    by (rule bucket_of [OF ok, of key])
  have f: "find (\<lambda>n. dhash h n = d_hash d key \<and> d_equal d (dkey h n) key) ps = dfind d h ns key"
    by (rule bucket_find [OF ok b(7) [unfolded b(3)]])
  note fp = find_prev_spec [OF b(5), of "d_equal d" "d_hash d key" key None, unfolded f]
  show ?thesis
  proof (cases "dfind d h ns key")
    case None
    then obtain p where "find_prev (d_equal d) h (d_hash d key) key None (d_buckets d ! i) = Some (p, 0)"
      using fp by auto
    then show ?thesis using None b(1,2) by (simp add: codict_del_def)
  next
    case (Some x)
    have x: "x \<in> set ns" "d_equal d (dkey h x) key" using dfind_Some [OF Some] by blast+
    obtain n where n: "h x = Some n" "x \<noteq> 0" using dict_live [OF ok x(1)] by blast
    obtain us vs where uv: "ps = us @ x # vs"
      "find_prev (d_equal d) h (d_hash d key) key None (d_buckets d ! i) = Some (if us = [] then None else Some (last us), x)"
      using fp Some by auto
    define h1 where "h1 = (if us = [] then h else h(last us := map_option (dn_next_update (\<lambda>_. dn_next n)) (h (last us))))"
    define bs1 where "bs1 = (if us = [] then (d_buckets d)[i := dn_next n] else d_buckets d)"
    have i: "i < length (d_buckets d)" using b(4) o(3) by simp
    note rem = buckets_ok_remove [OF o(5) i b(5,6,7) [unfolded uv(1) o(3)] n(1) h1_def bs1_def]
    let ?d1 = "d\<lparr>d_buckets := bs1\<rparr>"
    have step: "(if x = d_buckets d ! i then Some (d\<lparr>d_buckets := (d_buckets d)[i := dn_next n]\<rparr>, h)
          else do { pr \<leftarrow> (if us = [] then None else Some (last us));
            h \<leftarrow> dn_upd h pr (dn_next_update (\<lambda>_. dn_next n)); Some (d, h) }) = Some (?d1, h1)"
    proof (cases us)
      case Nil
      then have "d_buckets d ! i = x" using b(5) uv(1) by simp
      then show ?thesis using Nil by (simp add: h1_def bs1_def)
    next
      case (Cons u us')
      then have "d_buckets d ! i = u" "u \<noteq> x" using b(5,6) uv(1) by auto
      moreover have "last us \<in> set ps" using uv(1) Cons by auto
      then have "h (last us) \<noteq> None" using lpath_dom [OF b(5)] by (auto simp: dnx_def)
      then obtain k where "h (last us) = Some k" by blast
      ultimately show ?thesis using Cons by (simp add: h1_def bs1_def dn_upd_def)
    qed
    obtain xs ys where ns: "ns = xs @ x # ys" "x \<notin> set xs" using x(1) by (auto dest: split_list_first)
    have dist: "distinct ns" by (rule dlistD(1) [OF o(2)])
    have rm: "remove1 x ns = xs @ ys" using ns by (simp add: remove1_append)
    have xn: "x \<notin> set (xs @ ys)" "set (xs @ ys) = set ns - {x}" using ns dist by auto
    have l1: "dlist ?d1 h1 (xs @ x # ys)"
      using o(2) ns(1) dlist_cong [of h1 h ?d1 d "xs @ x # ys"] same_but_nextD(1,2) [OF rem(2)] by simp
    obtain d2 h2 hd2 tl2 where u: "list_unlink ?d1 h1 x = Some (d2, h2)" "dlist d2 h2 (xs @ ys)" "same_but_list h1 h2"
      "h2 x = h1 x" "\<forall>q. q \<notin> set (xs @ ys) \<longrightarrow> h2 q = h1 q" "d2 = ?d1\<lparr>d_listhead := hd2, d_listtail := tl2\<rparr>"
      using list_unlink_spec [OF l1] by blast
    let ?d = "d2\<lparr>d_count := length (xs @ ys)\<rparr>" and ?h = "h2(x := None)"
    have cnt: "(d_count d2 + 2 ^ 32 - 1) mod 2 ^ 32 = length (xs @ ys)"
      using l ns(1) o(7) by (simp add: u(6))
    have run: "codict_del d h key = Some (True, ?d, ?h)"
      using b(1,2) uv(2) n step u(1) cnt by (simp add: codict_del_def)
    have same: "dkey ?h m = dkey h m \<and> dval ?h m = dval h m \<and> dhash ?h m = dhash h m \<and> dnx ?h m = dnx h1 m \<and> dhash h1 m = dhash h m"
      if m: "m \<in> set (xs @ ys)" for m
    proof -
      have "m \<in> set ns" "m \<noteq> x" using m xn by auto
      then have hm: "h m \<noteq> None" using dict_live [OF ok] by blast
      then have h1m: "h1 m \<noteq> None" using same_but_nextD(3) [OF rem(2), of m] by (cases "h1 m"; cases "h m") auto
      have "?h m = h2 m" using \<open>m \<noteq> x\<close> by simp
      then have "dkey ?h m = dkey h2 m" "dval ?h m = dval h2 m" "dhash ?h m = dhash h2 m" "dnx ?h m = dnx h2 m"
        by (simp_all add: dkey_def dval_def dhash_def dnx_def)
      moreover have "dkey h1 m = dkey h m" "dval h1 m = dval h m" "dhash h1 m = dhash h m"
        using same_contents [of h1 m h] same_but_nextD(3-5) [OF rem(2)] hm by simp_all
      ultimately show ?thesis using same_but_list_contents [OF u(3) h1m] by simp
    qed
    have "dlist ?d ?h (xs @ ys)" by (rule dlist_frame [OF u(2)]) (use xn(1) in auto)
    moreover have "buckets_ok ?h bs1 (set (xs @ ys))"
    proof (rule buckets_ok_cong)
      show "\<forall>m\<in>set (xs @ ys). dnx ?h m = dnx h1 m \<and> dhash ?h m = dhash h1 m" using same by simp
      show "buckets_ok h1 bs1 (set (xs @ ys))" using rem(1) unfolding xn(2) .
    qed
    moreover have "keys_ok ?d ?h (set (xs @ ys)) = keys_ok d h (set (xs @ ys))"
      by (rule keys_ok_cong) (use same in \<open>simp_all add: u(6)\<close>)
    then have "keys_ok ?d ?h (set (xs @ ys))" using o(6) xn(2) by (auto simp: keys_ok_def)
    moreover have "d_cap ?d = length bs1" "d_buckets ?d = bs1" "0 < d_cap ?d" "d_hash ?d = d_hash d" "d_equal ?d = d_equal d"
      using o(3,4) by (simp_all add: u(6) bs1_def)
    ultimately have "dict_ok ?d ?h (xs @ ys)" using o(1) by (simp add: dict_ok_def)
    moreover have "entries ?h (xs @ ys) = adel (d_equal d) key (entries h ns)"
    proof -
      have "\<not> d_equal d (dkey h m) key" if "m \<in> set (xs @ ys)" for m
      proof
        assume "d_equal d (dkey h m) key"
        moreover have "m \<in> set ns" using that xn(2) by blast
        ultimately have "m = x" using o(6) x fns_okD(2,3) [OF o(1)] unfolding keys_ok_def by blast
        then show False using that xn(1) by blast
      qed
      then have "adel (d_equal d) key (entries h ns) = entries h (xs @ ys)"
        using x(2) by (auto simp: adel_def entries_def ns(1) filter_map filter_id_conv intro!: filter_True)
      also have "entries h (xs @ ys) = entries ?h (xs @ ys)" by (rule sym, rule entries_cong) (use same in blast)
      finally show ?thesis by simp
    qed
    moreover have "?h a = h a" if "a \<notin> set ns" for a
    proof -
      have "a \<noteq> x" "a \<notin> set (xs @ ys)" using that ns(1) by auto
      moreover have "us \<noteq> [] \<Longrightarrow> a \<noteq> last us"
      proof
        assume "us \<noteq> []" "a = last us"
        then have "a \<in> set ps" using uv(1) by auto
        then show False using b(7) that by auto
      qed
      ultimately show ?thesis using u(5) by (auto simp: h1_def)
    qed
    ultimately show ?thesis using run Some rm by (auto simp: u(6))
  qed
qed


section \<open>Clearing and moving\<close>

lemma free_chain_spec:
  assumes "lpath (dnx h) a ps" "distinct ps"
  shows "free_chain h a = Some (\<lambda>q. if q \<in> set ps then None else h q)"
  using assms
proof (induction ps arbitrary: h a)
  case Nil
  then show ?case by (subst free_chain.simps) simp
next
  case (Cons p ps)
  obtain n where n: "a = p" "p \<noteq> 0" "h p = Some n" "lpath (dnx h) (dn_next n) ps"
    using Cons.prems(1) by (auto simp: dnx_def [of h p])
  have "dnx (h(p := None)) = (dnx h)(p := None)" by (auto simp: dnx_def fun_eq_iff)
  then have "lpath (dnx (h(p := None))) (dn_next n) ps" using n(4) Cons.prems(2) by simp
  then have "free_chain (h(p := None)) (dn_next n) = Some (\<lambda>q. if q \<in> set ps then None else (h(p := None)) q)"
    using Cons.IH Cons.prems(2) by simp
  moreover have "(\<lambda>q. if q \<in> set ps then None else (h(p := None)) q) = (\<lambda>q. if q \<in> set (p # ps) then None else h q)"
    by auto
  ultimately show ?case using n(1-3) by (subst free_chain.simps) simp
qed

lemma clear_buckets_spec:
  assumes "\<forall>j<length bs. lpath (dnx h) (bs ! j) (f j) \<and> distinct (f j)"
    "\<forall>i<length bs. \<forall>j<length bs. i \<noteq> j \<longrightarrow> set (f i) \<inter> set (f j) = {}"
  shows "clear_buckets bs h = Some (\<lambda>q. if \<exists>j<length bs. q \<in> set (f j) then None else h q)"
  using assms
proof (induction bs arbitrary: h f)
  case (Cons b bs)
  let ?h = "\<lambda>q. if q \<in> set (f 0) then None else h q"
  have b: "lpath (dnx h) b (f 0)" "distinct (f 0)" using Cons.prems(1) by force+
  have "lpath (dnx ?h) (bs ! j) (f (Suc j)) \<and> distinct (f (Suc j))" if j: "j < length bs" for j
  proof -
    have "lpath (dnx h) (bs ! j) (f (Suc j))" "distinct (f (Suc j))" using Cons.prems(1) j by force+
    moreover have "set (f 0) \<inter> set (f (Suc j)) = {}" using Cons.prems(2) [rule_format, of 0 "Suc j"] j by simp
    then have "lpath (dnx ?h) (bs ! j) (f (Suc j)) = lpath (dnx h) (bs ! j) (f (Suc j))"
      by (intro lpath_cong) (auto simp: dnx_def)
    ultimately show ?thesis by simp
  qed
  moreover have "set (f (Suc i)) \<inter> set (f (Suc j)) = {}" if "i < length bs" "j < length bs" "i \<noteq> j" for i j
    using Cons.prems(2) [rule_format, of "Suc i" "Suc j"] that by simp
  ultimately have "clear_buckets bs ?h = Some (\<lambda>q. if \<exists>j<length bs. q \<in> set (f (Suc j)) then None else ?h q)"
    using Cons.IH [of ?h "\<lambda>j. f (Suc j)"] by blast
  moreover have "(\<lambda>q. if \<exists>j<length bs. q \<in> set (f (Suc j)) then None else ?h q) =
      (\<lambda>q. if \<exists>j<length (b # bs). q \<in> set (f j) then None else h q)"
    by (auto simp: fun_eq_iff Ex_less_Suc2)
  ultimately show ?case using free_chain_spec [OF b] by simp
qed simp

lemma codict_clear_spec:
  assumes ok: "dict_ok d h ns"
  shows "\<exists>d'. codict_clear d h = Some (d', \<lambda>q. if q \<in> set ns then None else h q) \<and>
    dict_ok d' (\<lambda>q. if q \<in> set ns then None else h q) [] \<and> d_hash d' = d_hash d \<and> d_equal d' = d_equal d"
proof -
  have o: "fns_ok (d_hash d) (d_equal d)" "d_cap d = length (d_buckets d)" "0 < d_cap d" "buckets_ok h (d_buckets d) (set ns)"
    using ok unfolding dict_ok_def by blast+
  let ?bs = "d_buckets d"
  let ?Q = "\<lambda>j ps. lpath (dnx h) (?bs ! j) ps \<and> distinct ps \<and> set ps = {n \<in> set ns. unat (dhash h n) mod length ?bs = j}"
  define f where "f j = (SOME ps. ?Q j ps)" for j
  have f: "\<forall>j<length ?bs. ?Q j (f j)"
  proof (intro allI impI)
    fix j assume "j < length ?bs"
    then have "\<exists>ps. ?Q j ps" using o(4) unfolding buckets_ok_def by blast
    then show "?Q j (f j)" unfolding f_def by (rule someI_ex)
  qed
  have "clear_buckets ?bs h = Some (\<lambda>q. if \<exists>j<length ?bs. q \<in> set (f j) then None else h q)"
    by (rule clear_buckets_spec) (use f in auto)
  moreover have "(\<exists>j<length ?bs. q \<in> set (f j)) \<longleftrightarrow> q \<in> set ns" for q
  proof
    assume "q \<in> set ns"
    moreover have "unat (dhash h q) mod length ?bs < length ?bs" using o(2,3) by simp
    ultimately show "\<exists>j<length ?bs. q \<in> set (f j)" using f by blast
  qed (use f in auto)
  ultimately have c: "clear_buckets ?bs h = Some (\<lambda>q. if q \<in> set ns then None else h q)" by simp
  let ?d = "d\<lparr>d_buckets := replicate (d_cap d) 0 @ drop (d_cap d) ?bs, d_listhead := 0, d_listtail := 0, d_count := 0\<rparr>"
  let ?h = "\<lambda>q. if q \<in> set ns then None else h q"
  have "codict_clear d h = Some (?d, ?h)" using c o(2) by (simp add: codict_clear_def cassert_def)
  moreover have "dlist ?d ?h []" by (simp add: dlist_def dlx_def dlp_def)
  then have "dict_ok ?d ?h []" using o buckets_ok_empty [of ?h "length ?bs"] by (auto simp: dict_ok_def keys_ok_def)
  ultimately show ?thesis by (intro exI [of _ ?d]) simp
qed

text \<open>Both branches of \<open>codict_move\<close> unlink the node first.\<close>

lemma codict_move_unlink:
  "codict_move d h x True = (if d_listhead d = x then Some (d, h) else do {
     (d, h) \<leftarrow> list_unlink d h x;
     h \<leftarrow> dn_upd h x (dn_listprev_update (\<lambda>_. 0));
     h \<leftarrow> dn_upd h x (dn_listnext_update (\<lambda>_. d_listhead d));
     h \<leftarrow> dn_upd h (d_listhead d) (dn_listprev_update (\<lambda>_. x));
     Some (d\<lparr>d_listhead := x\<rparr>, h) })"
  "codict_move d h x False = (if d_listtail d = x then Some (d, h) else do {
     (d, h) \<leftarrow> list_unlink d h x;
     h \<leftarrow> dn_upd h x (dn_listnext_update (\<lambda>_. 0));
     h \<leftarrow> dn_upd h x (dn_listprev_update (\<lambda>_. d_listtail d));
     h \<leftarrow> dn_upd h (d_listtail d) (dn_listnext_update (\<lambda>_. x));
     Some (d\<lparr>d_listtail := x\<rparr>, h) })"
  by (cases "d_listhead d = x"; cases "d_listtail d = x"; simp add: codict_move_def list_unlink_def Let_def)+

lemma same_but_list_upd:
  assumes "same_but_list h h1" "h1 x = Some n" "n'\<lparr>dn_listnext := 0, dn_listprev := 0\<rparr> = n\<lparr>dn_listnext := 0, dn_listprev := 0\<rparr>"
  shows "same_but_list h (h1(x \<mapsto> n'))"
  unfolding same_but_list_def
proof
  fix a
  show "map_option (dn_listprev_update (\<lambda>_. 0) \<circ> dn_listnext_update (\<lambda>_. 0)) ((h1(x \<mapsto> n')) a) =
      map_option (dn_listprev_update (\<lambda>_. 0) \<circ> dn_listnext_update (\<lambda>_. 0)) (h a)"
    using assms(1) [unfolded same_but_list_def, rule_format, of a] assms(2,3) by (cases "a = x") auto
qed

lemma dict_ok_list:
  assumes ok: "dict_ok d h ns" and s: "same_but_list h h'" and l: "dlist d' h' ns'" and e: "set ns' = set ns" "length ns' = length ns"
    and d': "d' = d\<lparr>d_listhead := hd0, d_listtail := tl0\<rparr>"
  shows "dict_ok d' h' ns' \<and> (\<forall>n\<in>set ns. dkey h' n = dkey h n \<and> dval h' n = dval h n)"
proof -
  have c: "dkey h' n = dkey h n \<and> dval h' n = dval h n \<and> dhash h' n = dhash h n \<and> dnx h' n = dnx h n" if "n \<in> set ns" for n
    using same_but_list_contents [OF s, of n] dict_live [OF ok that] by auto
  have "buckets_ok h' (d_buckets d) (set ns)"
    by (rule buckets_ok_cong [of _ h' h]) (use c ok in \<open>auto simp: dict_ok_def\<close>)
  moreover have "keys_ok d' h' (set ns) = keys_ok d h (set ns)" by (rule keys_ok_cong) (use c in \<open>auto simp: d'\<close>)
  ultimately show ?thesis using ok l e c unfolding dict_ok_def d' by auto
qed

lemma codict_move_spec:
  assumes ok: "dict_ok d h (xs @ x # ys)"
  shows "\<exists>d' h'. codict_move d h x head = Some (d', h') \<and>
    dict_ok d' h' (if head then x # xs @ ys else xs @ ys @ [x]) \<and>
    (\<forall>n\<in>set (xs @ x # ys). dkey h' n = dkey h n \<and> dval h' n = dval h n) \<and>
    (\<forall>q. q \<notin> set (xs @ x # ys) \<longrightarrow> h' q = h q)"
proof -
  have l: "dlist d h (xs @ x # ys)" using ok by (simp add: dict_ok_def)
  obtain d1 h1 hd1 tl1 where u: "list_unlink d h x = Some (d1, h1)" "dlist d1 h1 (xs @ ys)" "same_but_list h h1" "h1 x = h x"
    "\<forall>q. q \<notin> set (xs @ ys) \<longrightarrow> h1 q = h q" "d1 = d\<lparr>d_listhead := hd1, d_listtail := tl1\<rparr>"
    using list_unlink_spec [OF l] by blast
  obtain n where n: "h1 x = Some n" "x \<noteq> 0" using dlist_live [OF l, of x] u(4) by auto
  have x: "x \<notin> set (0 # xs @ ys)" using dlistD(1) [OF l] n(2) by auto
  note e = dlist_ends [OF l]
  show ?thesis
  proof (cases head)
    case True
    show ?thesis
    proof (cases "xs = []")
      case True
      then show ?thesis using e(1) ok \<open>head\<close> by (simp add: codict_move_unlink)
    next
      case False
      define b where "b = hd (xs @ ys @ [0])"
      have b: "b \<in> set (xs @ ys)" "d_listhead d1 = b" using False dlistD(3) [OF u(2)] by (simp_all add: b_def)
      then obtain k where k: "h1 b = Some k" "b \<noteq> 0" using dlist_live [OF u(2)] by blast
      have bx: "b \<noteq> x" using b(1) x by auto
      let ?h = "h1(x \<mapsto> n\<lparr>dn_listprev := 0, dn_listnext := b\<rparr>, b \<mapsto> k\<lparr>dn_listprev := x\<rparr>)" and ?d = "d1\<lparr>d_listhead := x\<rparr>"
      have run: "codict_move d h x head = Some (?d, ?h)"
        using \<open>head\<close> e(1) False u(1) n(1) b(2) k(1) bx by (simp add: codict_move_unlink dn_upd_def)
      have l2: "dlist ?d ?h (x # xs @ ys)"
      proof -
        have "cycle (dlx d1 h1) (dlp d1 h1) (0 # [] @ (xs @ ys))" using u(2) by (simp add: dlist_def)
        from nlist_insert [OF this, of x 0 b] x
        have "cycle ((dlx d1 h1)(x \<mapsto> b, 0 \<mapsto> x)) ((dlp d1 h1)(x \<mapsto> 0, b \<mapsto> x)) (0 # x # xs @ ys)" by (simp add: b_def)
        moreover have "dlx ?d ?h = (dlx d1 h1)(x \<mapsto> b, 0 \<mapsto> x)" "dlp ?d ?h = (dlp d1 h1)(x \<mapsto> 0, b \<mapsto> x)"
          using n k bx by (auto simp: dlx_def dlp_def fun_eq_iff)
        ultimately show ?thesis by (simp add: dlist_def)
      qed
      have sb: "same_but_list h ?h"
        using k(1) bx by (intro same_but_list_upd [OF same_but_list_upd [OF u(3) n(1)]]) auto
      have de: "?d = d\<lparr>d_listhead := x, d_listtail := tl1\<rparr>" by (simp add: u(6))
      have se: "set (x # xs @ ys) = set (xs @ x # ys)" "length (x # xs @ ys) = length (xs @ x # ys)" by auto
      have fr: "\<forall>q. q \<notin> set (xs @ x # ys) \<longrightarrow> ?h q = h q" using u(5) b(1) by auto
      note D = dict_ok_list [OF ok sb l2 se de]
      show ?thesis unfolding if_P [OF \<open>head\<close>]
        by (rule exI [of _ ?d], rule exI [of _ ?h],
            rule conjI [OF run conjI [OF conjunct1 [OF D] conjI [OF conjunct2 [OF D] fr]]])
    qed
  next
    case False
    show ?thesis
    proof (cases "ys = []")
      case True
      then show ?thesis using e(2) ok \<open>\<not> head\<close> by (simp add: codict_move_unlink)
    next
      case ys: False
      define a where "a = last (0 # xs @ ys)"
      have a: "a \<in> set (xs @ ys)" "d_listtail d1 = a" using ys dlistD(4) [OF u(2)] by (simp_all add: a_def)
      then obtain k where k: "h1 a = Some k" "a \<noteq> 0" using dlist_live [OF u(2)] by blast
      have ax: "a \<noteq> x" using a(1) x by auto
      let ?h = "h1(x \<mapsto> n\<lparr>dn_listnext := 0, dn_listprev := a\<rparr>, a \<mapsto> k\<lparr>dn_listnext := x\<rparr>)" and ?d = "d1\<lparr>d_listtail := x\<rparr>"
      have run: "codict_move d h x head = Some (?d, ?h)"
        using \<open>\<not> head\<close> e(2) ys u(1) n(1) a(2) k(1) ax by (simp add: codict_move_unlink dn_upd_def)
      have l2: "dlist ?d ?h (xs @ ys @ [x])"
      proof -
        have "cycle (dlx d1 h1) (dlp d1 h1) (0 # (xs @ ys) @ [])" using u(2) by (simp add: dlist_def)
        from nlist_insert [OF this, of x a 0] x
        have "cycle ((dlx d1 h1)(x \<mapsto> 0, a \<mapsto> x)) ((dlp d1 h1)(x \<mapsto> a, 0 \<mapsto> x)) (0 # xs @ ys @ [x])" by (simp add: a_def)
        moreover have "dlx ?d ?h = (dlx d1 h1)(x \<mapsto> 0, a \<mapsto> x)" "dlp ?d ?h = (dlp d1 h1)(x \<mapsto> a, 0 \<mapsto> x)"
          using n k ax by (auto simp: dlx_def dlp_def fun_eq_iff)
        ultimately show ?thesis by (simp add: dlist_def)
      qed
      have sb: "same_but_list h ?h"
        using k(1) ax by (intro same_but_list_upd [OF same_but_list_upd [OF u(3) n(1)]]) auto
      have de: "?d = d\<lparr>d_listhead := hd1, d_listtail := x\<rparr>" by (simp add: u(6))
      have se: "set (xs @ ys @ [x]) = set (xs @ x # ys)" "length (xs @ ys @ [x]) = length (xs @ x # ys)" by auto
      have fr: "\<forall>q. q \<notin> set (xs @ x # ys) \<longrightarrow> ?h q = h q" using u(5) a(1) by auto
      note D = dict_ok_list [OF ok sb l2 se de]
      show ?thesis unfolding if_not_P [OF \<open>\<not> head\<close>]
        by (rule exI [of _ ?d], rule exI [of _ ?h],
            rule conjI [OF run conjI [OF conjunct1 [OF D] conjI [OF conjunct2 [OF D] fr]]])
    qed
  qed
qed


section \<open>A dictionary as a store of associations\<close>

text \<open>What a client of a store relies on: lookups agree with the reference, an update or a deletion
  is one on the reference, and the addresses that are free stay free.\<close>

locale assoc_store =
  fixes rep :: "'s \<Rightarrow> ('k \<times> 'v) list \<Rightarrow> bool" and eq :: "'k \<Rightarrow> 'k \<Rightarrow> bool" and limit :: nat
    and free :: "'s \<Rightarrow> nat \<Rightarrow> bool" and get :: "'s \<Rightarrow> 'k \<Rightarrow> 'v option exec"
    and put :: "'s \<Rightarrow> nat \<Rightarrow> 'k \<Rightarrow> 'v \<Rightarrow> 's exec" and del :: "'s \<Rightarrow> 'k \<Rightarrow> (bool \<times> 's) exec"
  assumes get_law: "rep s es \<Longrightarrow> get s k = Some (aget eq k es)"
    and put_law: "rep s es \<Longrightarrow> free s p \<Longrightarrow> length es + 1 < limit \<Longrightarrow>
      \<exists>s'. put s p k v = Some s' \<and> rep s' (aset eq k v es) \<and> (\<forall>q. free s q \<longrightarrow> q \<noteq> p \<longrightarrow> free s' q)"
    and del_law: "rep s es \<Longrightarrow> length es < limit \<Longrightarrow>
      \<exists>s'. del s k = Some (\<exists>e\<in>set es. eq (fst e) k, s') \<and> rep s' (adel eq k es) \<and> (\<forall>q. free s q \<longrightarrow> free s' q)"

text \<open>A script of updates, each with the address of its allocation, and deletions.\<close>

datatype ('k, 'v) store_op = Put nat 'k 'v | Del 'k

primrec op_addrs :: "('k, 'v) store_op \<Rightarrow> nat list" where
  "op_addrs (Put p k v) = [p]"
| "op_addrs (Del k) = []"

primrec op_ref :: "('k \<Rightarrow> 'k \<Rightarrow> bool) \<Rightarrow> ('k, 'v) store_op \<Rightarrow> ('k \<times> 'v) list \<Rightarrow> ('k \<times> 'v) list" where
  "op_ref eq (Put p k v) es = aset eq k v es"
| "op_ref eq (Del k) es = adel eq k es"

fun run_ops :: "('s \<Rightarrow> nat \<Rightarrow> 'k \<Rightarrow> 'v \<Rightarrow> 's exec) \<Rightarrow> ('s \<Rightarrow> 'k \<Rightarrow> (bool \<times> 's) exec) \<Rightarrow> 's \<Rightarrow>
    ('k, 'v) store_op list \<Rightarrow> 's exec" where
  "run_ops put del s [] = Some s"
| "run_ops put del s (Put p k v # ops) = do { s \<leftarrow> put s p k v; run_ops put del s ops }"
| "run_ops put del s (Del k # ops) = do { (b, s) \<leftarrow> del s k; run_ops put del s ops }"

lemma length_aset: "length (aset eq k v es) \<le> length es + 1"
  by (simp add: aset_def)

lemma length_adel: "length (adel eq k es) \<le> length es"
  by (simp add: adel_def)

context assoc_store begin

lemma run_refines:
  assumes "rep s es" "distinct (concat (map op_addrs ops))" "\<forall>p\<in>set (concat (map op_addrs ops)). free s p"
    "length es + length ops < limit"
  shows "\<exists>s'. run_ops put del s ops = Some s' \<and> rep s' (fold (op_ref eq) ops es) \<and>
    get s' k = Some (aget eq k (fold (op_ref eq) ops es))"
  using assms
proof (induction ops arbitrary: s es)
  case Nil
  then show ?case using get_law by simp
next
  case (Cons x ops)
  show ?case
  proof (cases x)
    case (Put p k v)
    obtain s1 where 1: "put s p k v = Some s1" "rep s1 (aset eq k v es)" "\<forall>q. free s q \<longrightarrow> q \<noteq> p \<longrightarrow> free s1 q"
      using put_law [OF Cons.prems(1), of p k v] Cons.prems(3,4) Put by auto
    have "length (aset eq k v es) + length ops < limit"
      using length_aset [of eq k v es] Cons.prems(4) by simp
    moreover have "\<forall>q\<in>set (concat (map op_addrs ops)). free s1 q" using 1(3) Cons.prems(2,3) Put by auto
    ultimately show ?thesis using Cons.IH [OF 1(2)] 1(1) Cons.prems(2) Put by simp
  next
    case (Del k)
    obtain s1 where 1: "del s k = Some (\<exists>e\<in>set es. eq (fst e) k, s1)" "rep s1 (adel eq k es)" "\<forall>q. free s q \<longrightarrow> free s1 q"
      using del_law [OF Cons.prems(1), of k] Cons.prems(4) by auto
    have "length (adel eq k es) + length ops < limit"
      using length_adel [of eq k es] Cons.prems(4) by simp
    moreover have "\<forall>q\<in>set (concat (map op_addrs ops)). free s1 q" using 1(3) Cons.prems(3) Del by auto
    ultimately show ?thesis using Cons.IH [OF 1(2)] 1(1) Cons.prems(2) Del by simp
  qed
qed

end

text \<open>The dictionary is such a store, for any pair of functions that fit.\<close>

type_synonym ('k, 'v) dstate = "'k codict \<times> ('k, 'v) dheap"

definition dict_rep :: "('k \<Rightarrow> 64 word) \<Rightarrow> ('k \<Rightarrow> 'k \<Rightarrow> bool) \<Rightarrow> ('k, 'v) dstate \<Rightarrow> ('k \<times> 'v) list \<Rightarrow> bool" where
  "dict_rep hash eq s es \<longleftrightarrow> (\<exists>ns. dict_ok (fst s) (snd s) ns \<and> entries (snd s) ns = es) \<and>
     d_hash (fst s) = hash \<and> d_equal (fst s) = eq"

definition dict_free :: "('k, 'v) dstate \<Rightarrow> nat \<Rightarrow> bool" where
  "dict_free s p \<longleftrightarrow> p \<noteq> 0 \<and> snd s p = None"

definition dict_lookup :: "('k, 'v) dstate \<Rightarrow> 'k \<Rightarrow> 'v option exec" where
  "dict_lookup s key = do {
     n \<leftarrow> codict_get (fst s) (snd s) key;
     if n = 0 then Some None else map_option (Some \<circ> dn_value) (snd s n)
   }"

definition dict_put :: "('k, 'v) dstate \<Rightarrow> nat \<Rightarrow> 'k \<Rightarrow> 'v \<Rightarrow> ('k, 'v) dstate exec" where
  "dict_put s p key val = map_option snd (codict_set (fst s) (snd s) p key val)"

definition dict_del :: "('k, 'v) dstate \<Rightarrow> 'k \<Rightarrow> (bool \<times> ('k, 'v) dstate) exec" where
  "dict_del s key = codict_del (fst s) (snd s) key"

lemma entries_match: "(\<exists>e\<in>set (entries h ns). d_equal d (fst e) key) \<longleftrightarrow> dfind d h ns key \<noteq> None"
  by (auto simp: entries_def dfind_none)

interpretation dict: assoc_store "dict_rep hash eq" eq "2 ^ 32" dict_free dict_lookup dict_put dict_del
proof (unfold_locales, goal_cases)
  case (1 s es k)
  then obtain ns where ok: "dict_ok (fst s) (snd s) ns" "entries (snd s) ns = es" "d_equal (fst s) = eq"
    by (auto simp: dict_rep_def)
  have a: "aget eq k es = map_option (dval (snd s)) (dfind (fst s) (snd s) ns k)"
    unfolding ok(2,3) [symmetric] by (rule aget_entries)
  show ?case
  proof (cases "dfind (fst s) (snd s) ns k")
    case None
    then show ?thesis using codict_get_spec [OF ok(1), of k] a by (simp add: dict_lookup_def opt0_def)
  next
    case (Some n)
    then obtain m where "n \<noteq> 0" "snd s n = Some m" using dfind_Some [OF Some] dict_live [OF ok(1)] by blast
    then show ?thesis using codict_get_spec [OF ok(1), of k] a Some by (simp add: dict_lookup_def opt0_def dval_def)
  qed
next
  case (2 s es p k v)
  then obtain ns where ok: "dict_ok (fst s) (snd s) ns" "entries (snd s) ns = es" "d_equal (fst s) = eq" "d_hash (fst s) = hash"
    by (auto simp: dict_rep_def)
  have p: "p \<noteq> 0" "snd s p = None" using 2(2) by (simp_all add: dict_free_def)
  have "length ns + 1 < 2 ^ 32" using 2(3) ok(2) by (auto simp: entries_def)
  from codict_set_spec [OF ok(1) p this, of k v] obtain n d' h' ns' where
    r: "codict_set (fst s) (snd s) p k v = Some (n, d', h')" "dict_ok d' h' ns'" "entries h' ns' = aset eq k v es"
    "d_hash d' = hash" "d_equal d' = eq" "\<forall>a. a \<notin> set ns \<longrightarrow> a \<noteq> p \<longrightarrow> h' a = snd s a"
    unfolding ok(2-4) by blast
  have f: "h' q = None" if q: "snd s q = None" "q \<noteq> p" for q
  proof -
    have "q \<notin> set ns" using dict_live [OF ok(1), of q] q(1) by auto
    then show ?thesis using r(6) q by simp
  qed
  have "dict_put s p k v = Some (d', h')" using r(1) by (simp add: dict_put_def)
  moreover have "dict_rep hash eq (d', h') (aset eq k v es)" using r(2-5) by (auto simp: dict_rep_def)
  moreover have "\<forall>q. dict_free s q \<longrightarrow> q \<noteq> p \<longrightarrow> dict_free (d', h') q" using f by (simp add: dict_free_def)
  ultimately show ?case by blast
next
  case (3 s es k)
  then obtain ns where ok: "dict_ok (fst s) (snd s) ns" "entries (snd s) ns = es" "d_equal (fst s) = eq" "d_hash (fst s) = hash"
    by (auto simp: dict_rep_def)
  have l: "length ns < 2 ^ 32" using 3(2) ok(2) by (auto simp: entries_def)
  note del = codict_del_spec [OF ok(1) l, of k]
  have m: "(\<exists>e\<in>set es. eq (fst e) k) \<longleftrightarrow> dfind (fst s) (snd s) ns k \<noteq> None"
    using entries_match [of "snd s" ns "fst s" k] ok(2,3) by simp
  show ?case
  proof (cases "dfind (fst s) (snd s) ns k")
    case None
    then have "adel eq k es = es" using m by (auto simp: adel_def filter_id_conv)
    then show ?thesis using del None m 3(1) by (intro exI [of _ s]) (simp add: dict_del_def)
  next
    case (Some x)
    obtain d' h' where r: "codict_del (fst s) (snd s) k = Some (True, d', h')" "dict_ok d' h' (remove1 x ns)"
      "entries h' (remove1 x ns) = adel eq k es" "h' x = None" "d_hash d' = hash" "d_equal d' = eq"
      "\<forall>a. a \<notin> set ns \<longrightarrow> h' a = snd s a"
      using del Some ok(2-4) by auto
    have f: "h' q = None" if q: "snd s q = None" for q
    proof -
      have "q \<notin> set ns" using dict_live [OF ok(1), of q] q by auto
      then show ?thesis using r(7) q by simp
    qed
    have "dict_del s k = Some (\<exists>e\<in>set es. eq (fst e) k, d', h')" using r(1) m Some by (simp add: dict_del_def)
    moreover have "dict_rep hash eq (d', h') (adel eq k es)" using r(2,3,5,6) by (auto simp: dict_rep_def)
    moreover have "\<forall>q. dict_free s q \<longrightarrow> dict_free (d', h') q" using f by (simp add: dict_free_def)
    ultimately show ?thesis by blast
  qed
qed

section \<open>Properties\<close>

lemma key_functions_ok:
  "fns_ok codict_str_hash codict_str_equal" "fns_ok codict_int_hash codict_int_equal" "fns_ok codict_ptr_hash codict_ptr_equal"
  by (auto simp: fns_ok_def codict_str_hash_def codict_str_equal_def codict_int_equal_def codict_ptr_equal_def
      equivp_def fun_eq_iff intro: sym)

text \<open>C18: a dictionary behaves as a finite map: after any script of updates and deletions the node
  found for a key holds the value of the reference association list, which is also the list in
  iteration order, across the rehashings.\<close>

theorem codict_script_correct:
  assumes "dict_ok d h ns" "distinct (concat (map op_addrs ops))" "\<forall>p\<in>set (concat (map op_addrs ops)). p \<noteq> 0 \<and> h p = None"
    "length ns + length ops < 2 ^ 32"
  shows "\<exists>d' h' ns'. run_ops dict_put dict_del (d, h) ops = Some (d', h') \<and> dict_ok d' h' ns' \<and>
    entries h' ns' = fold (op_ref (d_equal d)) ops (entries h ns) \<and>
    dict_lookup (d', h') key = Some (aget (d_equal d) key (entries h' ns'))"
proof -
  have "dict_rep (d_hash d) (d_equal d) (d, h) (entries h ns)" using assms(1) by (auto simp: dict_rep_def)
  moreover have "\<forall>p\<in>set (concat (map op_addrs ops)). dict_free (d, h) p" using assms(3) by (simp add: dict_free_def)
  moreover have "length (entries h ns) + length ops < 2 ^ 32" using assms(4) by (simp add: entries_def)
  ultimately obtain s' where "run_ops dict_put dict_del (d, h) ops = Some s'"
    "dict_rep (d_hash d) (d_equal d) s' (fold (op_ref (d_equal d)) ops (entries h ns))"
    "dict_lookup s' key = Some (aget (d_equal d) key (fold (op_ref (d_equal d)) ops (entries h ns)))"
    using dict.run_refines [of "d_hash d" "d_equal d" "(d, h)" "entries h ns" ops key] assms(2) by blast
  then show ?thesis unfolding dict_rep_def by (cases s') auto
qed

theorem codict_script_correct_witness:
  "\<exists>d d' h'. codict_new codict_int_hash codict_int_equal (Map.empty :: (32 word, string) dheap) = Some (d, Map.empty) \<and>
     run_ops dict_put dict_del (d, Map.empty) [Put 10 1 ''a'', Put 20 62 ''b'', Put 30 1 ''c'', Del 62] = Some (d', h') \<and>
     dict_lookup (d', h') 1 = Some (Some ''c'')"
proof -
  obtain d where d: "codict_new codict_int_hash codict_int_equal (Map.empty :: (32 word, string) dheap) = Some (d, Map.empty)"
    "dict_ok d (Map.empty :: (32 word, string) dheap) []" "d_equal d = codict_int_equal"
    using codict_new_spec [OF key_functions_ok(2), of Map.empty] by blast
  let ?ops = "[Put 10 1 ''a'', Put 20 62 ''b'', Put 30 1 ''c'', Del 62] :: (32 word, string) store_op list"
  have f: "fold (op_ref codict_int_equal) ?ops [] = [(1, ''c'')]"
    by (simp add: aset_def adel_def codict_int_equal_def)
  have "distinct (concat (map op_addrs ?ops))"
    "\<forall>p\<in>set (concat (map op_addrs ?ops)). p \<noteq> 0 \<and> (Map.empty :: (32 word, string) dheap) p = None"
    "length ([] :: nat list) + length ?ops < 2 ^ 32" by simp_all
  from codict_script_correct [OF d(2) this, of 1] obtain d' h' ns' where
    r: "run_ops dict_put dict_del (d, Map.empty) ?ops = Some (d', h')"
    "entries h' ns' = fold (op_ref codict_int_equal) ?ops []"
    "dict_lookup (d', h') 1 = Some (aget codict_int_equal 1 (entries h' ns'))"
    unfolding d(3) by (auto simp only: entries_def list.map)
  have "dict_lookup (d', h') 1 = Some (Some ''c'')"
    using r(3) unfolding r(2) f by (simp add: aget_def codict_int_equal_def)
  with r(1) d(1) show ?thesis by blast
qed

text \<open>Moving a node to the head or the tail of the iteration order moves its entry there, keeps
  the order of the others and every lookup.\<close>

theorem codict_move_correct:
  assumes "dict_ok d h (xs @ x # ys)"
  shows "\<exists>d' h'. codict_move d h x head = Some (d', h') \<and>
    dict_ok d' h' (if head then x # xs @ ys else xs @ ys @ [x]) \<and>
    lpath (\<lambda>a. map_option dn_listnext (h' a)) (codict_begin d') (if head then x # xs @ ys else xs @ ys @ [x]) \<and>
    (\<forall>n\<in>set (xs @ x # ys). dkey h' n = dkey h n \<and> dval h' n = dval h n)"
proof -
  obtain d' h' where r: "codict_move d h x head = Some (d', h')" "dict_ok d' h' (if head then x # xs @ ys else xs @ ys @ [x])"
    "\<forall>n\<in>set (xs @ x # ys). dkey h' n = dkey h n \<and> dval h' n = dval h n"
    using codict_move_spec [OF assms, of head] by blast
  from r(2) have "dlist d' h' (if head then x # xs @ ys else xs @ ys @ [x])" unfolding dict_ok_def by blast
  from dlist_lpath [OF this] r show ?thesis unfolding codict_begin_def by blast
qed

lemma two_nodes:
  "\<exists>d h. dict_ok d h [10, 20] \<and> entries h [10, 20] = [(1 :: 32 word, ''a''), (62, ''b'')]"
proof -
  obtain d where d: "dict_ok d (Map.empty :: (32 word, string) dheap) []" "d_equal d = codict_int_equal"
    using codict_new_spec [OF key_functions_ok(2), of Map.empty] by blast
  have n: "dfind d (Map.empty :: (32 word, string) dheap) [] 1 = None" by (simp add: dfind_def)
  obtain d1 and h1 :: "(32 word, string) dheap" where 1: "dict_ok d1 h1 [10]" "entries h1 [10] = [(1, ''a'')]" "d_equal d1 = codict_int_equal"
    "\<forall>a. a \<noteq> 10 \<longrightarrow> h1 a = None"
    using codict_set_spec [OF d(1), of 10 1 "''a''"] n d(2) by (auto simp: entries_def aset_def)
  have "dfind d1 h1 [10] 62 = None" using 1(2,3) by (simp add: dfind_def entries_def codict_int_equal_def)
  then show ?thesis using codict_set_spec [OF 1(1), of 20 62 "''b''"] 1
    by (fastforce simp: aset_def codict_int_equal_def)
qed

theorem codict_move_correct_witness:
  "\<exists>d h d' h'. dict_ok d h [10, 20] \<and> codict_move d h 20 True = Some (d', h') \<and>
     dict_ok d' h' [20, 10] \<and> entries h' [20, 10] = [(62 :: 32 word, ''b''), (1, ''a'')]"
proof -
  obtain d h where d: "dict_ok d h [10, 20]" "entries h [10, 20] = [(1 :: 32 word, ''a''), (62, ''b'')]"
    using two_nodes by blast
  then show ?thesis using codict_move_correct [of d h "[10]" 20 "[]" True] by (fastforce simp: entries_def)
qed

text \<open>Clearing a dictionary frees every one of its nodes and nothing else, and leaves it empty
  and usable.\<close>

theorem codict_clear_correct:
  assumes "dict_ok d h ns"
  shows "\<exists>d'. codict_clear d h = Some (d', \<lambda>q. if q \<in> set ns then None else h q) \<and>
    dict_ok d' (\<lambda>q. if q \<in> set ns then None else h q) [] \<and> codict_count d' = 0 \<and>
    codict_free d h = Some (\<lambda>q. if q \<in> set ns then None else h q)"
  using codict_clear_spec [OF assms] by (auto simp: codict_count_def codict_free_def dict_ok_def)

theorem codict_clear_correct_witness:
  "\<exists>d h. dict_ok d h [10, 20] \<and> codict_free d h = Some (\<lambda>q. if q = 10 \<or> q = 20 then None else h q) \<and>
     entries h [10, 20] = [(1 :: 32 word, ''a''), (62, ''b'')]"
proof -
  obtain d h where d: "dict_ok d h [10, 20]" "entries h [10, 20] = [(1 :: 32 word, ''a''), (62, ''b'')]"
    using two_nodes by blast
  then show ?thesis using codict_clear_correct [OF d(1)] by auto
qed

end
