(* ===== verification/Ctx.thy ===== *)
theory Ctx
  imports CPrelude
begin

text \<open>
  Switching between execution contexts on x86-64 (\<open>src/co_ctx.c\<close>, \<open>src/coctx_swap.S\<close>).  The
  assembly is a list of instructions, one per line of the source, run by a small interpreter; memory
  maps the address of an aligned quadword to its contents.
\<close>

unbundle bit_operations_syntax

section \<open>The machine\<close>

datatype reg = RAX | RBX | RBP | RCX | RDX | RSI | RDI | RSP | R8 | R9 | R12 | R13 | R14 | R15

type_synonym quad = "64 word"
type_synonym qmem = "quad \<Rightarrow> quad option"

record machine =
  mregs :: "reg \<Rightarrow> quad"
  mrip :: quad
  mfcw :: "16 word"
  mmxcsr :: "32 word"
  mmem :: qmem

text \<open>The operand order is that of the assembler: source first; a memory operand is a displacement
  and a base register.\<close>

datatype instr =
    Store reg nat reg
  | Load nat reg reg
  | Move reg reg
  | Lea nat reg reg
  | Fnstcw nat reg
  | Stmxcsr nat reg
  | Fldcw nat reg
  | Ldmxcsr nat reg
  | Push reg
  | Clear_eax
  | Ret

definition quad_load :: "qmem \<Rightarrow> quad \<Rightarrow> quad exec" where
  "quad_load m a = (if a AND 7 = 0 then m a else None)"

definition quad_store :: "qmem \<Rightarrow> quad \<Rightarrow> quad \<Rightarrow> qmem exec" where
  "quad_store m a q = (if a AND 7 = 0 \<and> m a \<noteq> None then Some (m(a \<mapsto> q)) else None)"

definition ea :: "machine \<Rightarrow> nat \<Rightarrow> reg \<Rightarrow> quad" where
  "ea s disp base = mregs s base + of_nat disp"

definition set_reg :: "reg \<Rightarrow> quad \<Rightarrow> machine \<Rightarrow> machine" where
  "set_reg r q s = s\<lparr>mregs := (mregs s)(r := q)\<rparr>"

text \<open>\<open>fnstcw\<close> accesses the low 16 bits of a quadword, \<open>stmxcsr\<close> at an offset of 4 its high 32 bits.\<close>

definition fcw_part :: "quad \<Rightarrow> 16 word" where "fcw_part q = ucast q"
definition mxcsr_part :: "quad \<Rightarrow> 32 word" where "mxcsr_part q = ucast (drop_bit 32 q)"

definition with_fcw :: "quad \<Rightarrow> 16 word \<Rightarrow> quad" where
  "with_fcw q w = (q AND 0xFFFFFFFFFFFF0000) OR ucast w"

definition with_mxcsr :: "quad \<Rightarrow> 32 word \<Rightarrow> quad" where
  "with_mxcsr q w = (q AND 0xFFFFFFFF) OR push_bit 32 (ucast w)"

fun step :: "instr \<Rightarrow> machine \<Rightarrow> machine exec" where
  "step (Store src disp base) s = map_option (\<lambda>m. s\<lparr>mmem := m\<rparr>) (quad_store (mmem s) (ea s disp base) (mregs s src))"
| "step (Load disp base dst) s = map_option (\<lambda>q. set_reg dst q s) (quad_load (mmem s) (ea s disp base))"
| "step (Move src dst) s = Some (set_reg dst (mregs s src) s)"
| "step (Lea disp base dst) s = Some (set_reg dst (ea s disp base) s)"
| "step (Fnstcw disp base) s = do {
     q \<leftarrow> quad_load (mmem s) (ea s disp base);
     m \<leftarrow> quad_store (mmem s) (ea s disp base) (with_fcw q (mfcw s));
     Some (s\<lparr>mmem := m\<rparr>)
   }"
| "step (Stmxcsr disp base) s = do {
     q \<leftarrow> quad_load (mmem s) (ea s disp base - 4);
     m \<leftarrow> quad_store (mmem s) (ea s disp base - 4) (with_mxcsr q (mmxcsr s));
     Some (s\<lparr>mmem := m\<rparr>)
   }"
| "step (Fldcw disp base) s = map_option (\<lambda>q. s\<lparr>mfcw := fcw_part q\<rparr>) (quad_load (mmem s) (ea s disp base))"
| "step (Ldmxcsr disp base) s = map_option (\<lambda>q. s\<lparr>mmxcsr := mxcsr_part q\<rparr>) (quad_load (mmem s) (ea s disp base - 4))"
| "step (Push r) s = do {
     let sp = mregs s RSP - 8;
     m \<leftarrow> quad_store (mmem s) sp (mregs s r);
     Some (set_reg RSP sp (s\<lparr>mmem := m\<rparr>))
   }"
| "step Clear_eax s = Some (set_reg RAX 0 s)"
| "step Ret s = do {
     q \<leftarrow> quad_load (mmem s) (mregs s RSP);
     Some (set_reg RSP (mregs s RSP + 8) (s\<lparr>mrip := q\<rparr>))
   }"

primrec exec_code :: "instr list \<Rightarrow> machine \<Rightarrow> machine exec" where
  "exec_code [] s = Some s"
| "exec_code (i # is) s = do { s \<leftarrow> step i s; exec_code is s }"

lemma exec_code_append: "exec_code (xs @ ys) s = do { s \<leftarrow> exec_code xs s; exec_code ys s }"
  by (induction xs arbitrary: s) (auto split: option.splits bind_split)

section \<open>The program\<close>

text \<open>The two halves of \<open>coctx_swap\<close>: the current context is saved at \<open>rdi\<close>, the one at \<open>rsi\<close> is
  loaded.\<close>

definition save_code :: "instr list" where
  "save_code =
     [Store RBX 0 RDI, Store RBP 8 RDI, Store R12 16 RDI, Store R13 24 RDI, Store R14 32 RDI,
      Store R15 40 RDI, Store RDI 48 RDI, Store RSI 56 RDI, Store RDX 64 RDI, Store RCX 72 RDI,
      Store R8 80 RDI, Store R9 88 RDI,
      Load 0 RSP RCX, Store RCX 96 RDI, Lea 8 RSP RCX, Store RCX 104 RDI,
      Fnstcw 112 RDI, Stmxcsr 116 RDI]"

definition load_code :: "instr list" where
  "load_code =
     [Move RSI RAX,
      Load 0 RAX RBX, Load 8 RAX RBP, Load 16 RAX R12, Load 24 RAX R13, Load 32 RAX R14,
      Load 40 RAX R15, Load 48 RAX RDI, Load 56 RAX RSI, Load 64 RAX RDX, Load 80 RAX R8,
      Load 88 RAX R9, Fldcw 112 RAX, Ldmxcsr 116 RAX,
      Load 104 RAX RSP, Load 96 RAX RCX, Push RCX, Load 72 RAX RCX, Clear_eax, Ret]"

definition coctx_swap_code :: "instr list" where
  "coctx_swap_code = save_code @ load_code"

record coctx =
  ctx_regs :: "quad list"
  ctx_ss_size :: quad
  ctx_ss_sp :: quad

definition coctx_make :: "coctx \<Rightarrow> quad \<Rightarrow> 32 word \<Rightarrow> 32 word \<Rightarrow> coctx exec" where
  "coctx_make ctx fn p1 p2 = do {
     let sp = ctx_ss_sp ctx + ctx_ss_size ctx;
     let sp = sp AND (- 16);
     cassert (length (ctx_regs ctx) = 16);
     Some (ctx\<lparr>ctx_regs := (((replicate 16 0)[6 := ucast p1])[7 := ucast p2])[12 := fn, 13 := sp - 8]\<rparr>)
   }"

text \<open>How the argument of a coroutine travels through two 32-bit parameters: the casts in
  \<open>cort_new\<close> and the first line of \<open>cofunc\<close>.\<close>

definition split_ptr :: "quad \<Rightarrow> 32 word \<times> 32 word" where
  "split_ptr p = (ucast p, ucast (drop_bit 32 p))"

definition join_ptr :: "32 word \<Rightarrow> 32 word \<Rightarrow> quad" where
  "join_ptr low32 hi32 = ucast low32 OR push_bit 32 (ucast hi32)"

section \<open>Contexts in memory\<close>

definition area :: "quad \<Rightarrow> quad set" where
  "area a = (\<lambda>i. a + 8 * of_nat i) ` {..<16}"

definition ctx_at :: "qmem \<Rightarrow> quad \<Rightarrow> quad list \<Rightarrow> bool" where
  "ctx_at m a qs \<longleftrightarrow> a AND 7 = 0 \<and> length qs = 16 \<and> (\<forall>i<16. m (a + 8 * of_nat i) = Some (qs ! i))"

lemma ctx_atD:
  assumes "ctx_at m a qs"
  shows "m a = Some (qs ! 0)" "m (a + 8) = Some (qs ! 1)" "m (a + 16) = Some (qs ! 2)" "m (a + 24) = Some (qs ! 3)"
    "m (a + 32) = Some (qs ! 4)" "m (a + 40) = Some (qs ! 5)" "m (a + 48) = Some (qs ! 6)" "m (a + 56) = Some (qs ! 7)"
    "m (a + 64) = Some (qs ! 8)" "m (a + 72) = Some (qs ! 9)" "m (a + 80) = Some (qs ! 10)" "m (a + 88) = Some (qs ! 11)"
    "m (a + 96) = Some (qs ! 12)" "m (a + 104) = Some (qs ! 13)" "m (a + 112) = Some (qs ! 14)" "m (a + 120) = Some (qs ! 15)"
proof -
  have all: "m (a + 8 * of_nat i) = Some (qs ! i)" if "i < 16" for i using assms that by (auto simp: ctx_at_def)
  show "m a = Some (qs ! 0)" "m (a + 8) = Some (qs ! 1)" "m (a + 16) = Some (qs ! 2)" "m (a + 24) = Some (qs ! 3)"
    "m (a + 32) = Some (qs ! 4)" "m (a + 40) = Some (qs ! 5)" "m (a + 48) = Some (qs ! 6)" "m (a + 56) = Some (qs ! 7)"
    "m (a + 64) = Some (qs ! 8)" "m (a + 72) = Some (qs ! 9)" "m (a + 80) = Some (qs ! 10)" "m (a + 88) = Some (qs ! 11)"
    "m (a + 96) = Some (qs ! 12)" "m (a + 104) = Some (qs ! 13)" "m (a + 112) = Some (qs ! 14)" "m (a + 120) = Some (qs ! 15)"
    using all [of 0] all [of 1] all [of 2] all [of 3] all [of 4] all [of 5] all [of 6] all [of 7] all [of 8] all [of 9] all [of 10] all [of 11] all [of 12] all [of 13] all [of 14] all [of 15] by simp_all
qed

lemma aligned_add:
  fixes a k :: quad
  assumes "a AND 7 = 0" "k AND 7 = 0"
  shows "(a + k) AND 7 = 0"
proof -
  have m: "x AND 7 = take_bit 3 x" for x :: quad by (simp add: take_bit_eq_mask mask_eq_exp_minus_1)
  have z: "take_bit 3 (uint a) = 0" "take_bit 3 (uint k) = 0"
    using assms unfolding m by (simp_all flip: unsigned_take_bit_eq)
  have u: "uint (a + k) = take_bit 64 (uint a + uint k)" by (simp add: uint_word_ariths take_bit_eq_mod)
  have "uint (take_bit 3 (a + k)) = take_bit 3 (take_bit 3 (uint a) + take_bit 3 (uint k))"
    unfolding unsigned_take_bit_eq u by (simp add: take_bit_add)
  then have "take_bit 3 (a + k) = 0" unfolding z by (simp add: word_uint_eq_iff)
  then show ?thesis by (simp add: m)
qed


text \<open>Every quadword of a context is aligned, and its addresses are apart from those of another.\<close>

lemma aligned_offsets:
  fixes a :: quad
  assumes "a AND 7 = 0"
  shows "(a + 8) AND 7 = 0" "(a + 16) AND 7 = 0" "(a + 24) AND 7 = 0" "(a + 32) AND 7 = 0" "(a + 40) AND 7 = 0"
    "(a + 48) AND 7 = 0" "(a + 56) AND 7 = 0" "(a + 64) AND 7 = 0" "(a + 72) AND 7 = 0" "(a + 80) AND 7 = 0"
    "(a + 88) AND 7 = 0" "(a + 96) AND 7 = 0" "(a + 104) AND 7 = 0" "(a + 112) AND 7 = 0" "(a + 120) AND 7 = 0"
  by (rule aligned_add [OF assms]; simp)+

lemma ctx_atI:
  assumes "a AND 7 = 0" "length qs = 16"
    "m a = Some (qs ! 0)" "m (a + 8) = Some (qs ! 1)" "m (a + 16) = Some (qs ! 2)" "m (a + 24) = Some (qs ! 3)" "m (a + 32) = Some (qs ! 4)" "m (a + 40) = Some (qs ! 5)" "m (a + 48) = Some (qs ! 6)" "m (a + 56) = Some (qs ! 7)" "m (a + 64) = Some (qs ! 8)" "m (a + 72) = Some (qs ! 9)" "m (a + 80) = Some (qs ! 10)" "m (a + 88) = Some (qs ! 11)" "m (a + 96) = Some (qs ! 12)" "m (a + 104) = Some (qs ! 13)" "m (a + 112) = Some (qs ! 14)" "m (a + 120) = Some (qs ! 15)"
  shows "ctx_at m a qs"
proof -
  have "list_all (\<lambda>i. m (a + 8 * of_nat i) = Some (qs ! i)) [0..<16]"
    using assms by (simp add: upt_rec) (simp add: numeral_eq_Suc)
  then have "\<forall>i<16. m (a + 8 * of_nat i) = Some (qs ! i)" by (simp add: list_all_iff)
  then show ?thesis by (simp add: ctx_at_def assms)
qed

definition saved_ctx :: "machine \<Rightarrow> quad \<Rightarrow> quad \<Rightarrow> quad list" where
  "saved_ctx s ret env =
     [mregs s RBX, mregs s RBP, mregs s R12, mregs s R13, mregs s R14, mregs s R15, mregs s RDI, mregs s RSI,
      mregs s RDX, mregs s RCX, mregs s R8, mregs s R9, ret, mregs s RSP + 8,
      with_mxcsr (with_fcw env (mfcw s)) (mmxcsr s)]"

lemma save_code_mem:
  assumes c: "ctx_at (mmem s) o1 qs" and o1: "mregs s RDI = o1"
    and sp: "mregs s RSP AND 7 = 0" "mmem s (mregs s RSP) = Some ret" "mregs s RSP \<notin> area o1"
  shows "\<exists>m. exec_code save_code s = Some (s\<lparr>mmem := m, mregs := (mregs s)(RCX := mregs s RSP + 8)\<rparr>) \<and>
    ctx_at m o1 (saved_ctx s ret (qs ! 14) @ [qs ! 15]) \<and> (\<forall>a. a \<notin> area o1 \<longrightarrow> m a = mmem s a)"
proof -
  have a: "o1 AND 7 = 0" using c by (simp add: ctx_at_def)
  have ne: "mregs s RSP \<noteq> o1 + 8 * of_nat i" if "i < 16" for i using sp(3) that by (auto simp: area_def)
  have ne': "mregs s RSP \<noteq> o1" "mregs s RSP \<noteq> o1 + 8" "mregs s RSP \<noteq> o1 + 16" "mregs s RSP \<noteq> o1 + 24"
    "mregs s RSP \<noteq> o1 + 32" "mregs s RSP \<noteq> o1 + 40" "mregs s RSP \<noteq> o1 + 48" "mregs s RSP \<noteq> o1 + 56" "mregs s RSP \<noteq> o1 + 64"
    "mregs s RSP \<noteq> o1 + 72" "mregs s RSP \<noteq> o1 + 80" "mregs s RSP \<noteq> o1 + 88"
    using ne [of 0] ne [of 1] ne [of 2] ne [of 3] ne [of 4] ne [of 5] ne [of 6] ne [of 7] ne [of 8] ne [of 9] ne [of 10] ne [of 11]
    by simp_all
  define m where "m = (mmem s)(o1 \<mapsto> mregs s RBX, o1 + 8 \<mapsto> mregs s RBP, o1 + 16 \<mapsto> mregs s R12, o1 + 24 \<mapsto> mregs s R13,
    o1 + 32 \<mapsto> mregs s R14, o1 + 40 \<mapsto> mregs s R15, o1 + 48 \<mapsto> mregs s RDI, o1 + 56 \<mapsto> mregs s RSI, o1 + 64 \<mapsto> mregs s RDX,
    o1 + 72 \<mapsto> mregs s RCX, o1 + 80 \<mapsto> mregs s R8, o1 + 88 \<mapsto> mregs s R9, o1 + 96 \<mapsto> ret, o1 + 104 \<mapsto> mregs s RSP + 8,
    o1 + 112 \<mapsto> with_mxcsr (with_fcw (qs ! 14) (mfcw s)) (mmxcsr s))"
  have "exec_code save_code s = Some (s\<lparr>mmem := m, mregs := (mregs s)(RCX := mregs s RSP + 8)\<rparr>)"
    unfolding save_code_def m_def
    by (simp add: o1 ea_def quad_store_def quad_load_def set_reg_def a aligned_offsets [OF a] sp ctx_atD [OF c] ne' ne' [symmetric] add.commute [of 112 o1])
  moreover have "ctx_at m o1 (saved_ctx s ret (qs ! 14) @ [qs ! 15])"
    unfolding m_def saved_ctx_def by (rule ctx_atI) (simp_all add: a ctx_atD [OF c] o1)
  moreover have "m x = mmem s x" if "x \<notin> area o1" for x
  proof -
    have "x \<noteq> o1 + 8 * of_nat i" if "i < 16" for i using \<open>x \<notin> area o1\<close> that by (auto simp: area_def)
    from this [of 0] this [of 1] this [of 2] this [of 3] this [of 4] this [of 5] this [of 6] this [of 7] this [of 8] this [of 9]
      this [of 10] this [of 11] this [of 12] this [of 13] this [of 14]
    show ?thesis by (simp add: m_def)
  qed
  ultimately show ?thesis by blast
qed

lemma area_iff: "x \<in> area a \<longleftrightarrow> (\<exists>i<16. x = a + 8 * of_nat i)"
  by (auto simp: area_def)

text \<open>Loading a context restores every register it holds and jumps to its return address, with the stack
  pointer just above it.\<close>

definition loaded :: "quad list \<Rightarrow> reg \<Rightarrow> quad" where
  "loaded qs r = (case r of RAX \<Rightarrow> 0 | RBX \<Rightarrow> qs ! 0 | RBP \<Rightarrow> qs ! 1 | R12 \<Rightarrow> qs ! 2 | R13 \<Rightarrow> qs ! 3 | R14 \<Rightarrow> qs ! 4 | R15 \<Rightarrow> qs ! 5
     | RDI \<Rightarrow> qs ! 6 | RSI \<Rightarrow> qs ! 7 | RDX \<Rightarrow> qs ! 8 | RCX \<Rightarrow> qs ! 9 | R8 \<Rightarrow> qs ! 10 | R9 \<Rightarrow> qs ! 11 | RSP \<Rightarrow> qs ! 13)"

lemma load_code_correct:
  assumes c: "ctx_at (mmem s) c1 qs" and c1: "mregs s RSI = c1"
    and sp: "(qs ! 13) AND 7 = 0" "mmem s (qs ! 13 - 8) \<noteq> None" "qs ! 13 - 8 \<notin> area c1"
  shows "exec_code load_code s = Some (s\<lparr>mmem := (mmem s)(qs ! 13 - 8 \<mapsto> qs ! 12), mregs := loaded qs, mrip := qs ! 12,
    mfcw := fcw_part (qs ! 14), mmxcsr := mxcsr_part (qs ! 14)\<rparr>)"
proof -
  have a: "c1 AND 7 = 0" using c by (simp add: ctx_at_def)
  have r: "c1 + 72 \<in> area c1" unfolding area_def by (rule image_eqI [of _ _ 9]) simp_all
  have ne: "qs ! 13 - 8 \<noteq> c1 + 72"
  proof
    assume e: "qs ! 13 - 8 = c1 + 72"
    from sp(3) r show False unfolding e by simp
  qed
  have s8: "(qs ! 13 - 8) AND 7 = 0" using aligned_add [OF sp(1), of "- 8"] by simp
  show ?thesis
    unfolding load_code_def
    by (simp add: Let_def c1 ea_def quad_store_def quad_load_def set_reg_def a aligned_offsets [OF a] sp(1,2) [simplified] s8 ctx_atD [OF c]
        ne ne [symmetric] add.commute [of 112 c1] loaded_def fun_eq_iff split: reg.splits)
qed


section \<open>Switching\<close>

lemma fp_masks: "(0xFFFFFFFFFFFF0000 :: quad) = NOT (mask 16)" "(0xFFFFFFFF :: quad) = mask 32"
  by (simp_all add: mask_eq_exp_minus_1)

lemma fp_parts [simp]:
  "fcw_part (with_mxcsr (with_fcw q w) x) = w" "mxcsr_part (with_mxcsr q x) = x"
  by (rule bit_word_eqI; auto simp: fcw_part_def mxcsr_part_def with_mxcsr_def with_fcw_def fp_masks bit_simps)+

text \<open>When a switch from the context at \<open>rdi\<close> to the one at \<open>rsi\<close> is possible.\<close>

definition can_swap :: "machine \<Rightarrow> quad list \<Rightarrow> quad list \<Rightarrow> quad \<Rightarrow> bool" where
  "can_swap s q1 q2 ret \<longleftrightarrow>
     ctx_at (mmem s) (mregs s RDI) q1 \<and> ctx_at (mmem s) (mregs s RSI) q2 \<and>
     area (mregs s RDI) \<inter> area (mregs s RSI) = {} \<and>
     mregs s RSP AND 7 = 0 \<and> mmem s (mregs s RSP) = Some ret \<and> mregs s RSP \<notin> area (mregs s RDI) \<and>
     (q2 ! 13) AND 7 = 0 \<and> mmem s (q2 ! 13 - 8) \<noteq> None \<and> q2 ! 13 - 8 \<notin> area (mregs s RDI) \<union> area (mregs s RSI)"

lemma ctx_at_cong: "(\<And>x. x \<in> area a \<Longrightarrow> m' x = m x) \<Longrightarrow> ctx_at m' a qs = ctx_at m a qs"
  by (auto simp: ctx_at_def area_def)

lemma swap_spec:
  assumes "can_swap s q1 q2 ret"
  shows "\<exists>m. exec_code coctx_swap_code s = Some (s\<lparr>mmem := m, mregs := loaded q2, mrip := q2 ! 12,
      mfcw := fcw_part (q2 ! 14), mmxcsr := mxcsr_part (q2 ! 14)\<rparr>) \<and>
    ctx_at m (mregs s RDI) (saved_ctx s ret (q1 ! 14) @ [q1 ! 15]) \<and>
    (\<forall>a. a \<notin> area (mregs s RDI) \<longrightarrow> a \<noteq> q2 ! 13 - 8 \<longrightarrow> m a = mmem s a)"
proof -
  note c = assms [unfolded can_swap_def]
  obtain m where m: "exec_code save_code s = Some (s\<lparr>mmem := m, mregs := (mregs s)(RCX := mregs s RSP + 8)\<rparr>)"
    "ctx_at m (mregs s RDI) (saved_ctx s ret (q1 ! 14) @ [q1 ! 15])" "\<forall>a. a \<notin> area (mregs s RDI) \<longrightarrow> m a = mmem s a"
    using save_code_mem [of s "mregs s RDI" q1 ret] c by auto
  let ?s = "s\<lparr>mmem := m, mregs := (mregs s)(RCX := mregs s RSP + 8)\<rparr>"
  have "ctx_at (mmem ?s) (mregs s RSI) q2"
    using c m(3) by (subst ctx_at_cong [of "mregs s RSI" _ "mmem s"]) auto
  then have l: "exec_code load_code ?s = Some (?s\<lparr>mmem := m(q2 ! 13 - 8 \<mapsto> q2 ! 12), mregs := loaded q2, mrip := q2 ! 12,
      mfcw := fcw_part (q2 ! 14), mmxcsr := mxcsr_part (q2 ! 14)\<rparr>)"
    using load_code_correct [of ?s "mregs s RSI" q2] c m(3) by simp
  have "ctx_at (m(q2 ! 13 - 8 \<mapsto> q2 ! 12)) (mregs s RDI) (saved_ctx s ret (q1 ! 14) @ [q1 ! 15])"
    using m(2) c by (subst ctx_at_cong [of "mregs s RDI" _ m]) auto
  then show ?thesis using m l
    by (intro exI [of _ "m(q2 ! 13 - 8 \<mapsto> q2 ! 12)"]) (simp add: coctx_swap_code_def exec_code_append)
qed

section \<open>Properties\<close>

definition callee_saved :: "reg set" where
  "callee_saved = {RBX, RBP, R12, R13, R14, R15}"

text \<open>C19: a context switched away from and back to later sees its \<open>coctx_swap\<close> return 0: the
  registers a C function must preserve, the stack pointer, the return address and the floating point
  environment are those of the call, whatever ran in between, as long as it left the saved context alone.\<close>

theorem coctx_swap_roundtrip:
  assumes "can_swap s q1 q2 ret" "exec_code coctx_swap_code s = Some s1"
    and "ctx_at (mmem t) (mregs s RDI) q" "ctx_at (mmem s1) (mregs s RDI) q"
    and "can_swap t q3 q ret'" "mregs t RSI = mregs s RDI"
  shows "\<exists>t'. exec_code coctx_swap_code t = Some t' \<and> (\<forall>r\<in>callee_saved. mregs t' r = mregs s r) \<and>
    mregs t' RAX = 0 \<and> mregs t' RSP = mregs s RSP + 8 \<and> mrip t' = ret \<and> mfcw t' = mfcw s \<and> mmxcsr t' = mmxcsr s"
proof -
  have "ctx_at (mmem s1) (mregs s RDI) (saved_ctx s ret (q1 ! 14) @ [q1 ! 15])"
    using swap_spec [OF assms(1)] assms(2) by auto
  moreover have "x = y" if "ctx_at m a x" "ctx_at m a y" for m a x y
    using that by (auto simp: ctx_at_def intro!: nth_equalityI)
  ultimately have q: "q = saved_ctx s ret (q1 ! 14) @ [q1 ! 15]" using assms(4) by blast
  from swap_spec [OF assms(5)] show ?thesis
    by (auto simp: q saved_ctx_def loaded_def callee_saved_def)
qed

text \<open>A machine with two contexts and two stacks, for the witnesses.\<close>

definition two_contexts :: "quad list \<Rightarrow> machine" where
  "two_contexts c = \<lparr>mregs = (\<lambda>_. 0)(RDI := 0x1000, RSI := 0x2000, RSP := 0x8000, RBX := 7), mrip = 0, mfcw = 0x37F, mmxcsr = 0x1F80,
     mmem = (\<lambda>a. if a \<in> area 0x2000 then Some (c ! unat ((a - 0x2000) div 8)) else Some 5)\<rparr>"

lemma area_enum: "area a = {a, a + 8, a + 16, a + 24, a + 32, a + 40, a + 48, a + 56, a + 64, a + 72, a + 80, a + 88, a + 96,
    a + 104, a + 112, a + 120}"
proof -
  have "area a = set (map (\<lambda>i. a + 8 * of_nat i) [0..<16])" by (auto simp: area_def)
  also have "\<dots> = set [a, a + 8, a + 16, a + 24, a + 32, a + 40, a + 48, a + 56, a + 64, a + 72, a + 80, a + 88, a + 96,
    a + 104, a + 112, a + 120]"
    by (rule arg_cong [of _ _ set]) (simp add: upt_rec)
  finally show ?thesis by simp
qed

lemma two_contexts_can_swap:
  assumes "length c = 16" "c ! 13 AND 7 = 0" "c ! 13 - 8 \<notin> area 0x1000 \<union> area 0x2000"
  shows "can_swap (two_contexts c) (replicate 16 5) c 5"
proof -
  have "ctx_at (mmem (two_contexts c)) 0x1000 (replicate 16 5)"
    by (rule ctx_atI) (simp_all add: two_contexts_def area_enum)
  moreover have "ctx_at (mmem (two_contexts c)) 0x2000 c"
    by (rule ctx_atI) (simp_all add: two_contexts_def area_enum assms(1))
  moreover have "mmem (two_contexts c) (c ! 13 - 8) \<noteq> None" by (simp add: two_contexts_def)
  ultimately show ?thesis using assms by (simp add: can_swap_def two_contexts_def) (simp add: area_enum)
qed

theorem coctx_swap_roundtrip_witness:
  "\<exists>s1 t'. exec_code coctx_swap_code (two_contexts ((replicate 16 0)[13 := 0x9000])) = Some s1 \<and>
     exec_code coctx_swap_code (s1\<lparr>mregs := (\<lambda>_. 0)(RDI := 0x2000, RSI := 0x1000, RSP := 0x9000)\<rparr>) = Some t' \<and>
     mregs t' RBX = 7 \<and> mregs t' RSP = 0x8008 \<and> mrip t' = 5 \<and> mmxcsr t' = 0x1F80"
proof -
  let ?c = "(replicate 16 0)[13 := 0x9000] :: quad list"
  let ?s = "two_contexts ?c"
  have s: "can_swap ?s (replicate 16 5) ?c 5" by (rule two_contexts_can_swap) (simp_all add: area_enum)
  have d: "mregs ?s RDI = 0x1000" "mregs ?s RSI = 0x2000" "mregs ?s RSP = 0x8000" by (simp_all add: two_contexts_def)
  obtain s1 where s1: "exec_code coctx_swap_code ?s = Some s1"
    "ctx_at (mmem s1) 0x1000 (saved_ctx ?s 5 (replicate 16 5 ! 14) @ [replicate 16 5 ! 15])"
    "\<forall>a. a \<notin> area 0x1000 \<longrightarrow> a \<noteq> 0x8FF8 \<longrightarrow> mmem s1 a = mmem ?s a"
    using swap_spec [OF s] d by auto
  define q where "q = saved_ctx ?s 5 (replicate 16 5 ! 14) @ [replicate 16 5 ! 15 :: quad]"
  define t where "t = s1\<lparr>mregs := (\<lambda>_. 0)(RDI := 0x2000, RSI := 0x1000, RSP := 0x9000)\<rparr>"
  have "ctx_at (mmem s1) 0x2000 ?c"
    using s s1(3) d by (subst ctx_at_cong [of "0x2000" _ "mmem ?s"]) (auto simp: can_swap_def area_enum)
  moreover have "mmem s1 0x9000 = Some 5" "mmem s1 0x8000 = Some 5"
    using s1(3) by (simp_all add: area_enum two_contexts_def)
  moreover have "q ! 13 = 0x8008" by (simp add: q_def saved_ctx_def d)
  ultimately have t: "can_swap t ?c q 5"
    using s1(2) [folded q_def] by (simp add: can_swap_def t_def) (simp add: area_enum)
  have "mregs t RSI = mregs ?s RDI" "ctx_at (mmem t) (mregs ?s RDI) q" "ctx_at (mmem s1) (mregs ?s RDI) q"
    using s1(2) by (simp_all add: t_def d q_def)
  from coctx_swap_roundtrip [OF s s1(1) this(2,3) t this(1)] s1(1) show ?thesis
    by (auto simp: t_def two_contexts_def callee_saved_def)
qed

text \<open>C20: switching to a context made by \<open>coctx_make\<close> enters its function with the two parameters in
  the argument registers and the stack aligned as the calling convention demands, and \<open>cofunc\<close> joins the
  parameters to the pointer they came from; the floating point control words are 0, which leaves every
  floating point exception unmasked.\<close>

theorem coctx_make_entry:
  assumes "coctx_make ctx fn (fst (split_ptr p)) (snd (split_ptr p)) = Some ctx'"
    and "can_swap s q (ctx_regs ctx') ret"
  shows "\<exists>s'. exec_code coctx_swap_code s = Some s' \<and> mrip s' = fn \<and>
    join_ptr (ucast (mregs s' RDI)) (ucast (mregs s' RSI)) = p \<and> (mregs s' RSP + 8) AND 15 = 0 \<and>
    mmxcsr s' = 0 \<and> mfcw s' = 0"
proof -
  let ?sp = "(ctx_ss_sp ctx + ctx_ss_size ctx) AND (- 16)"
  have r: "ctx_regs ctx' = (((replicate 16 0)[6 := ucast (fst (split_ptr p))])[7 := ucast (snd (split_ptr p))])[12 := fn, 13 := ?sp - 8]"
    using assms(1) by (auto simp: coctx_make_def Let_def cassert_def split: if_splits)
  have "join_ptr (fst (split_ptr p)) (snd (split_ptr p)) = p"
    by (rule bit_word_eqI) (auto simp: join_ptr_def split_ptr_def bit_simps)
  moreover have "?sp AND 15 = 0" by (simp add: and.assoc)
  moreover have "ucast (ucast w :: quad) = w" for w :: "32 word" by (rule bit_word_eqI) (auto simp: bit_simps)
  moreover have "fcw_part 0 = 0" "mxcsr_part 0 = 0" by (simp_all add: fcw_part_def mxcsr_part_def)
  ultimately show ?thesis using swap_spec [OF assms(2)] unfolding r by (auto simp: loaded_def)
qed

theorem coctx_make_entry_witness:
  "\<exists>ctx' s'. coctx_make \<lparr>ctx_regs = replicate 16 1, ctx_ss_size = 0x808, ctx_ss_sp = 0x8800\<rparr> 0x4000 0x2345 0x1 = Some ctx' \<and>
     exec_code coctx_swap_code (two_contexts (ctx_regs ctx')) = Some s' \<and> mrip s' = 0x4000 \<and>
     join_ptr (ucast (mregs s' RDI)) (ucast (mregs s' RSI)) = 0x100002345 \<and> mmxcsr s' = 0"
proof -
  define ctx :: coctx where "ctx = \<lparr>ctx_regs = replicate 16 1, ctx_ss_size = 0x808, ctx_ss_sp = 0x8800\<rparr>"
  have p: "split_ptr 0x100002345 = (0x2345, 0x1)" by (simp add: split_ptr_def)
  define c where "c = (((replicate 16 0)[6 := ucast (0x2345 :: 32 word)])[7 := ucast (1 :: 32 word)])[12 := 0x4000 :: quad, 13 := 0x8FF8]"
  have m: "coctx_make ctx 0x4000 (fst (split_ptr 0x100002345)) (snd (split_ptr 0x100002345)) = Some (ctx\<lparr>ctx_regs := c\<rparr>)"
    by (simp add: p coctx_make_def ctx_def cassert_def c_def Let_def)
  have "can_swap (two_contexts c) (replicate 16 5) c 5"
    by (rule two_contexts_can_swap) (simp_all add: c_def area_enum)
  then show ?thesis using coctx_make_entry [OF m, of "two_contexts c" "replicate 16 5" 5] m p
    by (auto simp: ctx_def)
qed

end
