(* ===== verification/Routine.thy ===== *)
theory Routine
  imports Utils Ctx
begin

text \<open>
  The coroutine scheduler (\<open>src/co_routine.c\<close>).  The array \<open>co\<close> holds a coroutine or a null pointer in
  each slot.  What \<open>coctx_swap\<close> saves and loads is modelled by the coroutine whose execution was saved
  and the point at which it goes on: at the start of \<open>cofunc\<close>, after the switch of \<open>cort_resume\<close> or
  after the switch of \<open>cort_yield\<close>.  A step of the scheduler is what the running coroutine does up to
  its next call of an operation that switches.
\<close>

section \<open>Data\<close>

datatype co_status = CO_STATUS_DEAD | CO_STATUS_SUSPEND | CO_STATUS_RUNNING | CO_STATUS_NORMAL

datatype point = At_entry | In_resume | In_yield

record 'f cort =
  co_func :: "'f option"
  co_ud :: nat
  co_pco :: nat
  co_ctx :: "(nat \<times> point) option"
  co_status :: co_status
  co_stack :: nat

record 'f cosched =
  s_stsize :: int
  s_nco :: int
  s_cap :: nat
  s_running :: nat
  s_co :: "'f cort option list"

definition MIN_STACK_SIZE :: int where "MIN_STACK_SIZE = 128 * 1024"
definition MAX_STACK_SIZE :: int where "MAX_STACK_SIZE = 1024 * 1024"
definition DEFAULT_COROUTINE :: nat where "DEFAULT_COROUTINE = 128"
definition MAIN_CO_ID :: nat where "MAIN_CO_ID = 0"

text \<open>Reading a slot of the array, and reading the coroutine it points to.\<close>

definition co_slot :: "'f cosched \<Rightarrow> nat \<Rightarrow> 'f cort option exec" where
  "co_slot S i = (if i < length (s_co S) then Some (s_co S ! i) else None)"

definition co_at :: "'f cosched \<Rightarrow> nat \<Rightarrow> 'f cort exec" where
  "co_at S i = do { c \<leftarrow> co_slot S i; c }"

definition co_put :: "'f cosched \<Rightarrow> nat \<Rightarrow> 'f cort \<Rightarrow> 'f cosched" where
  "co_put S i c = S\<lparr>s_co := (s_co S)[i := Some c]\<rparr>"

definition set_status :: "'f cosched \<Rightarrow> nat \<Rightarrow> co_status \<Rightarrow> 'f cosched exec" where
  "set_status S i st = do { c \<leftarrow> co_at S i; Some (co_put S i (c\<lparr>co_status := st\<rparr>)) }"

section \<open>Operations\<close>

text \<open>A free slot is empty or holds a dead coroutine; \<open>p\<close> is the block \<open>CO_MALLOC\<close> gives for a stack.
  The result \<open>None\<close> is the id -1.\<close>

definition slot_free :: "'f cosched \<Rightarrow> nat \<Rightarrow> bool" where
  "slot_free S cid = (case s_co S ! cid of None \<Rightarrow> True | Some c \<Rightarrow> co_status c = CO_STATUS_DEAD)"

definition find_slot :: "'f cosched \<Rightarrow> nat option" where
  "find_slot S = find (slot_free S) (map (\<lambda>i. (i + nat (s_nco S)) mod s_cap S) [0..<s_cap S])"

definition cort_new :: "'f cosched \<Rightarrow> nat \<Rightarrow> 'f option \<Rightarrow> nat \<Rightarrow> (nat option \<times> 'f cosched) exec" where
  "cort_new S p func ud = do {
     (cid, S) \<leftarrow>
       (if int (s_cap S) \<le> s_nco S then do {
          cassert (s_cap S * 2 < 2 ^ 31);
          Some (Some (s_cap S), S\<lparr>s_co := s_co S @ replicate (s_cap S) None, s_cap := s_cap S * 2\<rparr>)
        } else Some (find_slot S, S));
     (case cid of
        None \<Rightarrow> Some (None, S)
      | Some cid \<Rightarrow> do {
          old \<leftarrow> co_slot S cid;
          let co = (case old of Some c \<Rightarrow> c
                    | None \<Rightarrow> \<lparr>co_func = None, co_ud = 0, co_pco = 0, co_ctx = None, co_status = CO_STATUS_DEAD,
                               co_stack = (if cid \<noteq> MAIN_CO_ID then p else 0)\<rparr>);
          let S = (co_put S cid co)\<lparr>s_nco := s_nco S + 1\<rparr>;
          let co = co\<lparr>co_func := func, co_ud := ud, co_status := CO_STATUS_SUSPEND\<rparr>;
          let S = co_put S cid co;
          S \<leftarrow> (if func \<noteq> None then do {
                 curco \<leftarrow> co_slot S (s_running S);
                 cassert (curco \<noteq> None);
                 Some (co_put S cid (co\<lparr>co_ctx := Some (cid, At_entry)\<rparr>))
               } else Some S);
          Some (Some cid, S)
        })
   }"

definition cort_open :: "int \<Rightarrow> nat \<Rightarrow> 'f cosched exec" where
  "cort_open stsize p = do {
     let S = \<lparr>s_stsize = CO_MIN (CO_MAX stsize MIN_STACK_SIZE) MAX_STACK_SIZE, s_nco = 0, s_cap = DEFAULT_COROUTINE,
              s_running = 0, s_co = replicate DEFAULT_COROUTINE None\<rparr>;
     (cid, S) \<leftarrow> cort_new S p None 0;
     cassert (cid = Some MAIN_CO_ID);
     S \<leftarrow> set_status S MAIN_CO_ID CO_STATUS_RUNNING;
     Some (S\<lparr>s_running := MAIN_CO_ID\<rparr>)
   }"

text \<open>Closing returns the stacks it frees; freeing the null stack of the main coroutine has no effect.\<close>

primrec free_stacks :: "'f cort option list \<Rightarrow> nat list" where
  "free_stacks [] = []"
| "free_stacks (x # xs) =
     (case x of None \<Rightarrow> [] | Some c \<Rightarrow> if co_stack c \<noteq> 0 then [co_stack c] else []) @ free_stacks xs"

definition cort_close :: "'f cosched \<Rightarrow> nat list exec" where
  "cort_close S = do {
     cassert (s_running S = MAIN_CO_ID);
     Some (free_stacks (take (s_cap S) (s_co S)))
   }"

text \<open>A switch saves the executing coroutine \<open>cpu\<close> in the context of \<open>from\<close> and goes on where the context
  of \<open>target\<close> says; a context that was never made or saved is undefined behaviour.\<close>

definition swap_ctx :: "'f cosched \<Rightarrow> nat \<Rightarrow> nat \<Rightarrow> point \<Rightarrow> nat \<Rightarrow> ('f cosched \<times> nat \<times> point) exec" where
  "swap_ctx S cpu from pt target = do {
     c \<leftarrow> co_at S from;
     let S = co_put S from (c\<lparr>co_ctx := Some (cpu, pt)\<rparr>);
     d \<leftarrow> co_at S target;
     x \<leftarrow> co_ctx d;
     Some (S, x)
   }"

text \<open>An operation returns a value to the running coroutine, or another one goes on.\<close>

datatype outcome = Returns int | Goes_on nat point

definition cort_resume :: "'f cosched \<Rightarrow> nat \<Rightarrow> nat \<Rightarrow> ('f cosched \<times> outcome) exec" where
  "cort_resume S cpu cid = do {
     cassert (cid < s_cap S);
     co \<leftarrow> co_slot S cid;
     curco \<leftarrow> co_slot S (s_running S);
     (case (co, curco) of
        (Some c, Some _) \<Rightarrow>
          if co_status c = CO_STATUS_SUSPEND then do {
            let cur = s_running S;
            S \<leftarrow> set_status S cur CO_STATUS_NORMAL;
            c \<leftarrow> co_at S cid;
            let S = co_put S cid (c\<lparr>co_pco := s_running S\<rparr>);
            S \<leftarrow> set_status S cid CO_STATUS_RUNNING;
            let S = S\<lparr>s_running := cid\<rparr>;
            (S, cpu, pt) \<leftarrow> swap_ctx S cpu cur In_resume cid;
            Some (S, Goes_on cpu pt)
          } else Some (S, Returns (- 1))
      | _ \<Rightarrow> Some (S, Returns (- 1)))
   }"

definition cort_yield :: "'f cosched \<Rightarrow> nat \<Rightarrow> ('f cosched \<times> outcome) exec" where
  "cort_yield S cpu = do {
     let cid = s_running S;
     if cid = MAIN_CO_ID then Some (S, Returns (- 1))
     else do {
       co \<leftarrow> co_at S cid;
       S \<leftarrow> set_status S cid CO_STATUS_SUSPEND;
       S \<leftarrow> set_status S (co_pco co) CO_STATUS_RUNNING;
       let S = S\<lparr>s_running := co_pco co\<rparr>;
       (S, cpu, pt) \<leftarrow> swap_ctx S cpu cid In_yield (co_pco co);
       Some (S, Goes_on cpu pt)
     }
   }"

text \<open>The two halves of \<open>cofunc\<close>: calling the function of the coroutine, and what follows its return;
  the context that switch saves is a dummy.\<close>

definition cofunc_call :: "'f cosched \<Rightarrow> (nat \<times> 'f \<times> nat) exec" where
  "cofunc_call S = do {
     co \<leftarrow> co_at S (s_running S);
     f \<leftarrow> co_func co;
     Some (s_running S, f, co_ud co)
   }"

definition cofunc_exit :: "'f cosched \<Rightarrow> nat \<Rightarrow> ('f cosched \<times> outcome) exec" where
  "cofunc_exit S cid = do {
     S \<leftarrow> set_status S cid CO_STATUS_DEAD;
     let S = S\<lparr>s_nco := s_nco S - 1\<rparr>;
     co \<leftarrow> co_at S cid;
     S \<leftarrow> set_status S (co_pco co) CO_STATUS_RUNNING;
     let S = S\<lparr>s_running := co_pco co\<rparr>;
     pco \<leftarrow> co_at S (co_pco co);
     (cpu, pt) \<leftarrow> co_ctx pco;
     Some (S, Goes_on cpu pt)
   }"

definition cort_status :: "'f cosched \<Rightarrow> nat \<Rightarrow> co_status exec" where
  "cort_status S cid = do {
     cassert (cid < s_cap S);
     co \<leftarrow> co_slot S cid;
     (case co of None \<Rightarrow> Some CO_STATUS_DEAD | Some c \<Rightarrow> Some (co_status c))
   }"

definition cort_running :: "'f cosched \<Rightarrow> nat" where "cort_running S = s_running S"
definition cort_ismain :: "nat \<Rightarrow> bool" where "cort_ismain co \<longleftrightarrow> co = MAIN_CO_ID"

section \<open>The scheduler as a transition system\<close>

text \<open>A state is the scheduler and the coroutine that executes; an event is the operation it performs and
  what it observes.  \<open>CO_MALLOC\<close> gives a block that is not in use.  A coroutine ends by returning from the function that \<open>cofunc\<close> called with its id.\<close>

definition slot :: "'f cosched \<Rightarrow> nat \<Rightarrow> 'f cort option" where
  "slot S i = (if i < length (s_co S) then s_co S ! i else None)"

definition fresh_stack :: "'f cosched \<Rightarrow> nat \<Rightarrow> bool" where
  "fresh_stack S p \<longleftrightarrow> p \<noteq> 0 \<and> (\<forall>i c. slot S i = Some c \<longrightarrow> co_stack c \<noteq> p)"

datatype 'f event = New nat 'f nat nat | Resume nat point | Resume_refused nat | Yield point | Yield_refused | Exit

type_synonym 'f rt = "'f cosched \<times> nat"

inductive cort_step :: "'f rt \<Rightarrow> 'f event \<Rightarrow> 'f rt \<Rightarrow> bool" where
  step_new: "fresh_stack S p \<Longrightarrow> cort_new S p (Some f) ud = Some (Some cid, S') \<Longrightarrow> cort_step (S, cpu) (New p f ud cid) (S', cpu)"
| step_resume: "cort_resume S cpu cid = Some (S', Goes_on cpu' pt) \<Longrightarrow> cort_step (S, cpu) (Resume cid pt) (S', cpu')"
| step_resume_refused: "cort_resume S cpu cid = Some (S', Returns r) \<Longrightarrow> cort_step (S, cpu) (Resume_refused cid) (S', cpu)"
| step_yield: "cort_yield S cpu = Some (S', Goes_on cpu' pt) \<Longrightarrow> cort_step (S, cpu) (Yield pt) (S', cpu')"
| step_yield_refused: "cort_yield S cpu = Some (S', Returns r) \<Longrightarrow> cort_step (S, cpu) Yield_refused (S', cpu)"
| step_exit: "cpu \<noteq> MAIN_CO_ID \<Longrightarrow> cofunc_exit S cpu = Some (S', Goes_on cpu' pt) \<Longrightarrow> cort_step (S, cpu) Exit (S', cpu')"

inductive_cases cort_step_newE: "cort_step s (New p f ud cid) s'"
inductive_cases cort_step_resumeE: "cort_step s (Resume cid pt) s'"
inductive_cases cort_step_yieldE: "cort_step s (Yield pt) s'"
inductive_cases cort_step_exitE: "cort_step s Exit s'"


section \<open>The state of a scheduler\<close>

text \<open>A coroutine is on the stack of activations, whose head runs and whose others each wait in
  \<open>cort_resume\<close> for the one above, or it is suspended at a point, or its slot is free.\<close>

definition co_ok :: "nat list \<Rightarrow> (nat \<Rightarrow> point option) \<Rightarrow> nat \<Rightarrow> 'f cort \<Rightarrow> bool" where
  "co_ok stk susp i c \<longleftrightarrow>
     (co_status c = CO_STATUS_RUNNING \<longleftrightarrow> i = hd stk) \<and>
     (co_status c = CO_STATUS_NORMAL \<longleftrightarrow> i \<in> set (tl stk)) \<and>
     (co_status c = CO_STATUS_SUSPEND \<longleftrightarrow> susp i \<noteq> None) \<and>
     (i \<in> set (tl stk) \<longrightarrow> co_ctx c = Some (i, In_resume)) \<and>
     (\<forall>pt. susp i = Some pt \<longrightarrow> co_ctx c = Some (i, pt)) \<and>
     (co_stack c = 0 \<longleftrightarrow> i = MAIN_CO_ID)"

fun pchain :: "(nat \<Rightarrow> 'f cort option) \<Rightarrow> nat list \<Rightarrow> bool" where
  "pchain f (a # b # xs) \<longleftrightarrow> map_option co_pco (f a) = Some b \<and> pchain f (b # xs)"
| "pchain f [a] \<longleftrightarrow> a = MAIN_CO_ID"
| "pchain f [] \<longleftrightarrow> False"

definition stacks_apart :: "(nat \<Rightarrow> 'f cort option) \<Rightarrow> bool" where
  "stacks_apart f \<longleftrightarrow> (\<forall>i j c d. f i = Some c \<longrightarrow> f j = Some d \<longrightarrow> co_stack c = co_stack d \<longrightarrow> i = j)"

definition slots_ok :: "(nat \<Rightarrow> 'f cort option) \<Rightarrow> nat list \<Rightarrow> (nat \<Rightarrow> point option) \<Rightarrow> bool" where
  "slots_ok f stk susp \<longleftrightarrow>
     distinct stk \<and> pchain f stk \<and> (\<forall>i c. f i = Some c \<longrightarrow> co_ok stk susp i c) \<and>
     set stk \<union> dom susp \<subseteq> dom f \<and> stacks_apart f"

definition sched_ok :: "'f rt \<Rightarrow> nat list \<Rightarrow> (nat \<Rightarrow> point option) \<Rightarrow> bool" where
  "sched_ok s stk susp \<longleftrightarrow>
     length (s_co (fst s)) = s_cap (fst s) \<and> 0 < s_cap (fst s) \<and>
     s_nco (fst s) = int (length stk + card (dom susp)) \<and>
     s_running (fst s) = hd stk \<and> snd s = hd stk \<and> slots_ok (slot (fst s)) stk susp"

lemma pchain_cong: "(\<And>x. x \<in> set (butlast xs) \<Longrightarrow> map_option co_pco (g x) = map_option co_pco (f x)) \<Longrightarrow> pchain g xs = pchain f xs"
  by (induction f xs rule: pchain.induct) auto

lemma pchain_ne [simp]: "\<not> pchain f []"
  by simp

lemma slot_put [simp]: "i < length (s_co S) \<Longrightarrow> slot (co_put S i c) = (slot S)(i \<mapsto> c)"
  by (auto simp: slot_def co_put_def fun_eq_iff)

lemma co_put_fields [simp]:
  "length (s_co (co_put S i c)) = length (s_co S)" "s_cap (co_put S i c) = s_cap S" "s_nco (co_put S i c) = s_nco S"
  "s_running (co_put S i c) = s_running S" "s_stsize (co_put S i c) = s_stsize S"
  by (simp_all add: co_put_def)

lemma slot_upd [simp]:
  "slot (S\<lparr>s_running := r\<rparr>) = slot S" "slot (S\<lparr>s_nco := n\<rparr>) = slot S"
  by (simp_all add: slot_def fun_eq_iff)

lemma co_at_slot: "co_at S i = slot S i"
  by (simp add: co_at_def co_slot_def slot_def)

lemma co_slot_in: "i < length (s_co S) \<Longrightarrow> co_slot S i = Some (slot S i)"
  by (simp add: co_slot_def slot_def)

lemma slot_length: "slot S i = Some c \<Longrightarrow> i < length (s_co S)"
  by (auto simp: slot_def split: if_splits)

lemma set_status_slot: "slot S i = Some c \<Longrightarrow> set_status S i st = Some (co_put S i (c\<lparr>co_status := st\<rparr>))"
  by (simp add: set_status_def co_at_slot)

lemma sched_okD:
  assumes "sched_ok (S, cpu) stk susp"
  shows "length (s_co S) = s_cap S" "stk \<noteq> []" "cpu = hd stk" "s_running S = cpu" "slots_ok (slot S) stk susp"
    "s_nco S = int (length stk + card (dom susp))" "finite (dom susp)"
    "distinct stk" "set stk \<inter> dom susp = {}" "last stk = MAIN_CO_ID" "MAIN_CO_ID \<in> set stk"
proof -
  show 1: "length (s_co S) = s_cap S" "cpu = hd stk" "s_running S = cpu" "slots_ok (slot S) stk susp"
    "s_nco S = int (length stk + card (dom susp))"
    using assms by (auto simp: sched_ok_def)
  then have p: "pchain (slot S) stk" and d: "set stk \<union> dom susp \<subseteq> dom (slot S)"
    and ok: "\<And>i c. slot S i = Some c \<Longrightarrow> co_ok stk susp i c" by (auto simp: slots_ok_def)
  show 2: "stk \<noteq> []" using p by auto
  have "dom (slot S) \<subseteq> {..<s_cap S}" using 1(1) slot_length [of S] by auto
  then show "finite (dom susp)" using d by (meson finite_lessThan finite_subset le_sup_iff)
  show "distinct stk" using 1(4) by (simp add: slots_ok_def)
  show "set stk \<inter> dom susp = {}"
  proof (rule ccontr)
    assume "set stk \<inter> dom susp \<noteq> {}"
    then obtain i pt where i: "i \<in> set stk" "susp i = Some pt" by blast
    then obtain c where c: "slot S i = Some c" using d by blast
    have "i = hd stk \<or> i \<in> set (tl stk)" using i(1) 2 by (cases stk) auto
    then show False using ok [OF c] i(2) by (auto simp: co_ok_def)
  qed
  show l: "last stk = MAIN_CO_ID" using p by (induction "slot S" stk rule: pchain.induct) auto
  show "MAIN_CO_ID \<in> set stk" using 2 l last_in_set by metis
qed

lemma sched_ok_slot:
  assumes "sched_ok (S, cpu) stk susp" "i \<in> set stk \<or> susp i \<noteq> None"
  obtains c where "slot S i = Some c" "co_ok stk susp i c" "i < s_cap S"
proof -
  have "i \<in> dom (slot S)" using sched_okD(5) [OF assms(1)] assms(2) by (auto simp: slots_ok_def)
  then obtain c where c: "slot S i = Some c" by blast
  then show thesis using that sched_okD(1,5) [OF assms(1)] slot_length [OF c] by (auto simp: slots_ok_def)
qed

section \<open>The switching operations\<close>

lemma slots_ok_resume:
  assumes f: "slots_ok f stk susp" and stk: "stk = cpu # rest" and susp: "susp i = Some pt"
    and c: "f cpu = Some c" and d: "f i = Some d"
  shows "slots_ok (f(cpu \<mapsto> c\<lparr>co_status := CO_STATUS_NORMAL, co_ctx := Some (cpu, In_resume)\<rparr>,
      i \<mapsto> d\<lparr>co_pco := cpu, co_status := CO_STATUS_RUNNING\<rparr>)) (i # stk) (susp(i := None))" (is "slots_ok ?g _ _")
proof -
  have ok: "co_ok stk susp j x" if "f j = Some x" for j x using f that by (simp add: slots_ok_def)
  have i: "i \<notin> set stk" using ok [OF d] susp stk by (auto simp: co_ok_def)
  have "pchain ?g stk = pchain f stk" using i stk c by (intro pchain_cong) (auto dest: in_set_butlastD split: if_splits)
  then have "pchain ?g (i # stk)" using f stk i by (auto simp: slots_ok_def)
  moreover have "co_ok (i # stk) (susp(i := None)) j x" if "?g j = Some x" for j x
    using that i stk ok [OF d] ok [OF c] ok [of j x] susp by (auto simp: co_ok_def split: if_splits)
  moreover have "set (i # stk) \<union> dom (susp(i := None)) \<subseteq> dom ?g" using f d by (auto simp: slots_ok_def)
  moreover have "stacks_apart ?g" using f c d by (auto simp: slots_ok_def stacks_apart_def split: if_splits)
  ultimately show ?thesis using f i by (auto simp: slots_ok_def)
qed


lemma slots_ok_pop:
  assumes f: "slots_ok f stk susp" and stk: "stk = cpu # p # rest"
    and c: "f cpu = Some c" and e: "f p = Some e"
    and c': "co_stack c' = co_stack c"
      "co_status c' = CO_STATUS_SUSPEND \<and> co_ctx c' = Some (cpu, pt) \<and> susp' = susp(cpu \<mapsto> pt) \<or>
       co_status c' = CO_STATUS_DEAD \<and> susp' = susp"
  shows "slots_ok (f(cpu \<mapsto> c', p \<mapsto> e\<lparr>co_status := CO_STATUS_RUNNING\<rparr>)) (p # rest) susp'" (is "slots_ok ?g _ _")
proof -
  have ok: "co_ok stk susp j x" if "f j = Some x" for j x using f that by (simp add: slots_ok_def)
  have d: "distinct (cpu # p # rest)" using f stk by (simp add: slots_ok_def)
  have s: "susp cpu = None" "susp p = None" using ok [OF c] ok [OF e] stk by (auto simp: co_ok_def)
  have "pchain ?g (p # rest) = pchain f (p # rest)" using d e by (intro pchain_cong) (auto dest: in_set_butlastD split: if_splits)
  then have "pchain ?g (p # rest)" using f stk by (auto simp: slots_ok_def)
  moreover have "co_ok (p # rest) susp' j x" if "?g j = Some x" for j x
    using that d stk s c' ok [OF c] ok [OF e] ok [of j x] by (auto simp: co_ok_def split: if_splits)
  moreover have "set (p # rest) \<union> dom susp' \<subseteq> dom ?g"
  proof -
    have "dom susp' \<subseteq> insert cpu (dom susp)" using c'(2) by auto
    moreover have "set (p # rest) \<union> insert cpu (dom susp) \<subseteq> dom f" using f c stk by (auto simp: slots_ok_def)
    ultimately have "set (p # rest) \<union> dom susp' \<subseteq> dom f" by blast
    then show ?thesis by (simp add: subset_insertI2)
  qed
  moreover have "stacks_apart ?g" using f c e c'(1) by (auto simp: slots_ok_def stacks_apart_def split: if_splits)
  ultimately show ?thesis using d by (simp add: slots_ok_def)
qed

lemma cort_resume_spec:
  assumes "sched_ok (S, cpu) stk susp" "susp i = Some pt"
  shows "\<exists>S'. cort_resume S cpu i = Some (S', Goes_on i pt) \<and> sched_ok (S', i) (i # stk) (susp(i := None))"
proof -
  note D = sched_okD [OF assms(1)]
  obtain rest where stk: "stk = cpu # rest" using D(2,3) by (cases stk) auto
  obtain d where d: "slot S i = Some d" "co_ok stk susp i d" "i < s_cap S" using assms sched_ok_slot by blast
  obtain c where c: "slot S cpu = Some c" "co_ok stk susp cpu c" "cpu < s_cap S"
    using sched_ok_slot [OF assms(1), of cpu] stk by auto
  have st: "co_status d = CO_STATUS_SUSPEND" "co_ctx d = Some (i, pt)" "i \<noteq> cpu"
    using d(2) c(2) assms(2) stk by (auto simp: co_ok_def)
  let ?f = "(slot S)(cpu \<mapsto> c\<lparr>co_status := CO_STATUS_NORMAL, co_ctx := Some (cpu, In_resume)\<rparr>,
      i \<mapsto> d\<lparr>co_pco := cpu, co_status := CO_STATUS_RUNNING\<rparr>)"
  have e: "\<exists>S'. cort_resume S cpu i = Some (S', Goes_on i pt) \<and> slot S' = ?f \<and> length (s_co S') = length (s_co S) \<and>
      s_cap S' = s_cap S \<and> s_nco S' = s_nco S \<and> s_running S' = i"
    using c(1,3) d(1,3) st D(1,4)
    by (simp add: cort_resume_def cassert_def co_slot_in set_status_slot co_at_slot swap_ctx_def fun_upd_twist [OF st(3)])
  have "slots_ok ?f (i # stk) (susp(i := None))" by (rule slots_ok_resume [OF D(5) stk assms(2) c(1) d(1)])
  moreover have "int (length (i # stk) + card (dom (susp(i := None)))) = int (length stk + card (dom susp))"
    using card.remove [OF D(7) domI [of susp, OF assms(2)]] by simp
  ultimately show ?thesis using e D(1,6) assms(1) by (auto simp: sched_ok_def)
qed

lemma cort_resume_refused_spec:
  assumes "sched_ok (S, cpu) stk susp" "i < s_cap S" "susp i = None"
  shows "cort_resume S cpu i = Some (S, Returns (- 1))"
proof -
  note D = sched_okD [OF assms(1)]
  have "cpu \<in> set stk" using D(2,3) by simp
  then have "cpu < s_cap S" using sched_ok_slot [OF assms(1), of cpu] by auto
  then show ?thesis using D(1,4,5) assms(2,3)
    by (auto simp: cort_resume_def cassert_def co_slot_in slots_ok_def co_ok_def split: option.splits)
qed

lemma sched_ok_below:
  assumes "sched_ok (S, cpu) stk susp" "cpu \<noteq> MAIN_CO_ID"
  obtains p rest c e where "stk = cpu # p # rest" "slot S cpu = Some c" "slot S p = Some e" "co_pco c = p"
    "co_ctx e = Some (p, In_resume)" "cpu \<noteq> p" "cpu < s_cap S" "p < s_cap S"
proof -
  note D = sched_okD [OF assms(1)]
  obtain rest where "stk = cpu # rest" using D(2,3) by (cases stk) auto
  then obtain p rest where stk: "stk = cpu # p # rest" using D(10) assms(2) by (cases rest) auto
  obtain c where c: "slot S cpu = Some c" "cpu < s_cap S" using sched_ok_slot [OF assms(1), of cpu] stk by auto
  obtain e where e: "slot S p = Some e" "co_ok stk susp p e" "p < s_cap S" using sched_ok_slot [OF assms(1), of p] stk by auto
  show thesis using that [OF stk c(1) e(1)] c e D(5,8) stk by (auto simp: slots_ok_def co_ok_def)
qed

lemma cort_yield_spec:
  assumes "sched_ok (S, cpu) stk susp" "cpu \<noteq> MAIN_CO_ID"
  shows "\<exists>S'. cort_yield S cpu = Some (S', Goes_on (hd (tl stk)) In_resume) \<and>
    sched_ok (S', hd (tl stk)) (tl stk) (susp(cpu \<mapsto> In_yield))"
proof -
  note D = sched_okD [OF assms(1)]
  obtain p rest c e where b: "stk = cpu # p # rest" "slot S cpu = Some c" "slot S p = Some e" "co_pco c = p"
    "co_ctx e = Some (p, In_resume)" "cpu \<noteq> p" "cpu < s_cap S" "p < s_cap S"
    using sched_ok_below [OF assms] .
  let ?f = "(slot S)(cpu \<mapsto> c\<lparr>co_status := CO_STATUS_SUSPEND, co_ctx := Some (cpu, In_yield)\<rparr>,
      p \<mapsto> e\<lparr>co_status := CO_STATUS_RUNNING\<rparr>)"
  have "\<exists>S'. cort_yield S cpu = Some (S', Goes_on p In_resume) \<and> slot S' = ?f \<and> length (s_co S') = length (s_co S) \<and>
      s_cap S' = s_cap S \<and> s_nco S' = s_nco S \<and> s_running S' = p"
    using b D(1,4) assms(2)
    by (simp add: cort_yield_def co_at_slot set_status_slot swap_ctx_def fun_upd_twist [OF b(6) [symmetric]])
  moreover have "slots_ok ?f (p # rest) (susp(cpu \<mapsto> In_yield))"
    by (rule slots_ok_pop [OF D(5) b(1-3)]) auto
  moreover have "cpu \<notin> dom susp" using D(9) b(1) by auto
  ultimately show ?thesis using D(1,6,7) assms(1) b(1) by (auto simp: sched_ok_def)
qed

lemma cort_yield_main:
  assumes "sched_ok (S, MAIN_CO_ID) stk susp"
  shows "cort_yield S MAIN_CO_ID = Some (S, Returns (- 1))"
  using sched_okD(4) [OF assms] by (simp add: cort_yield_def)

lemma cofunc_exit_spec:
  assumes "sched_ok (S, cpu) stk susp" "cpu \<noteq> MAIN_CO_ID"
  shows "\<exists>S'. cofunc_exit S cpu = Some (S', Goes_on (hd (tl stk)) In_resume) \<and>
    sched_ok (S', hd (tl stk)) (tl stk) susp \<and> cort_status S' cpu = Some CO_STATUS_DEAD"
proof -
  note D = sched_okD [OF assms(1)]
  obtain p rest c e where b: "stk = cpu # p # rest" "slot S cpu = Some c" "slot S p = Some e" "co_pco c = p"
    "co_ctx e = Some (p, In_resume)" "cpu \<noteq> p" "cpu < s_cap S" "p < s_cap S"
    using sched_ok_below [OF assms] .
  let ?f = "(slot S)(cpu \<mapsto> c\<lparr>co_status := CO_STATUS_DEAD\<rparr>, p \<mapsto> e\<lparr>co_status := CO_STATUS_RUNNING\<rparr>)"
  have r: "\<exists>S'. cofunc_exit S cpu = Some (S', Goes_on p In_resume) \<and> slot S' = ?f \<and> length (s_co S') = length (s_co S) \<and>
      s_cap S' = s_cap S \<and> s_nco S' = s_nco S - 1 \<and> s_running S' = p"
    using b D(1,4) assms(2)
    by (simp add: cofunc_exit_def co_at_slot set_status_slot)
  moreover have "slots_ok ?f (p # rest) susp"
    by (rule slots_ok_pop [OF D(5) b(1-3)]) auto
  ultimately show ?thesis using D(1,6,7) assms(1) b
    by (auto simp: sched_ok_def cort_status_def cassert_def co_slot_in)
qed


section \<open>Creating, opening and closing\<close>

lemma slots_ok_new:
  assumes f: "slots_ok f stk susp" and i: "i \<notin> set stk" "susp i = None" "i \<noteq> MAIN_CO_ID"
    and c': "co_status c' = CO_STATUS_SUSPEND" "co_ctx c' = Some (i, pt)"
      "case f i of Some c \<Rightarrow> co_stack c' = co_stack c | None \<Rightarrow> co_stack c' \<noteq> 0 \<and> (\<forall>j d. f j = Some d \<longrightarrow> co_stack d \<noteq> co_stack c')"
  shows "slots_ok (f(i \<mapsto> c')) stk (susp(i \<mapsto> pt))"
proof -
  have ok: "co_ok stk susp j x" if "f j = Some x" for j x using f that by (simp add: slots_ok_def)
  have ne: "stk \<noteq> []" using f by (auto simp: slots_ok_def)
  then have h: "i \<noteq> hd stk" "i \<notin> set (tl stk)" using i(1) by (auto dest: list.set_sel(2))
  have "pchain (f(i \<mapsto> c')) stk = pchain f stk" using i(1) by (intro pchain_cong) (auto dest: in_set_butlastD)
  moreover have "co_ok stk (susp(i \<mapsto> pt)) j x" if "(f(i \<mapsto> c')) j = Some x" for j x
    using that ok [of j] h i(3) c' ok [of i] by (auto simp: co_ok_def split: if_splits option.splits)
  moreover have "stacks_apart (f(i \<mapsto> c'))"
    unfolding stacks_apart_def
  proof (intro allI impI)
    fix j k x y assume j: "(f(i \<mapsto> c')) j = Some x" "(f(i \<mapsto> c')) k = Some y" "co_stack x = co_stack y"
    show "j = k"
    proof (cases "f i")
      case None
      then show ?thesis using j f c'(3) by (auto simp: slots_ok_def stacks_apart_def split: if_splits)
    next
      case (Some c)
      then show ?thesis using j f c'(3) by (auto simp: slots_ok_def stacks_apart_def split: if_splits)
    qed
  qed
  ultimately show ?thesis using f by (auto simp: slots_ok_def)
qed

lemma find_slot_spec:
  assumes "sched_ok (S, cpu) stk susp" "s_nco S < int (s_cap S)"
  shows "\<exists>i. find_slot S = Some i \<and> i < s_cap S \<and> i \<notin> set stk \<and> susp i = None"
proof -
  note D = sched_okD [OF assms(1)]
  let ?n = "nat (s_nco S)" and ?L = "set stk \<union> dom susp"
  have card: "card ?L = ?n" "finite ?L"
    using D(6,7,8,9) by (simp_all add: card_Un_disjoint distinct_card)
  have free: "slot_free S i \<longleftrightarrow> i \<notin> ?L" if "i < s_cap S" for i
  proof (cases "s_co S ! i")
    case None
    then have "i \<notin> ?L" using D(1,5) that by (auto simp: slots_ok_def slot_def dom_def)
    then show ?thesis using None by (simp add: slot_free_def)
  next
    case (Some c)
    then have "co_ok stk susp i c" using D(1,5) that by (auto simp: slots_ok_def slot_def)
    moreover have "i \<in> set stk \<longleftrightarrow> i = hd stk \<or> i \<in> set (tl stk)" using D(2) by (cases stk) auto
    ultimately have "i \<in> ?L \<longleftrightarrow> co_status c \<noteq> CO_STATUS_DEAD"
      by (cases "co_status c") (auto simp: co_ok_def)
    then show ?thesis using Some by (simp add: slot_free_def)
  qed
  have n: "?n < s_cap S" using assms(2) D(6) by (simp add: nat_less_iff)
  then have "\<not> {..<s_cap S} \<subseteq> ?L" using card card_mono [OF card(2), of "{..<s_cap S}"] by auto
  then obtain j where j: "j < s_cap S" "j \<notin> ?L" by auto
  have "\<exists>i. i < s_cap S \<and> (i + ?n) mod s_cap S = j"
  proof (cases "?n \<le> j")
    case True
    then show ?thesis using j(1) by (intro exI [of _ "j - ?n"]) auto
  next
    case False
    then show ?thesis using j(1) n by (intro exI [of _ "j + s_cap S - ?n"]) (auto simp: mod_add_self2)
  qed
  then have "find_slot S \<noteq> None" using free j by (auto simp: find_slot_def find_None_iff)
  then obtain i where i: "find_slot S = Some i" by blast
  then have "slot_free S i" "i < s_cap S" using n by (auto simp: find_slot_def find_Some_iff)
  then show ?thesis using i free by auto
qed

lemma slot_grow: "slot (S\<lparr>s_co := s_co S @ replicate n None, s_cap := m\<rparr>) = slot S"
  by (auto simp: slot_def fun_eq_iff nth_append)

lemma cort_new_spec:
  assumes ok: "sched_ok (S, cpu) stk susp" and p: "fresh_stack S p" and cap: "int (s_cap S) \<le> s_nco S \<Longrightarrow> s_cap S * 2 < 2 ^ 31"
  shows "\<exists>i S' c. cort_new S p (Some f) ud = Some (Some i, S') \<and> i \<notin> set stk \<and> susp i = None \<and>
    sched_ok (S', cpu) stk (susp(i \<mapsto> At_entry)) \<and> slot S' = (slot S)(i \<mapsto> c) \<and> co_func c = Some f \<and> co_ud c = ud"
proof -
  note D = sched_okD [OF ok]
  obtain i T where T: "(if int (s_cap S) \<le> s_nco S
      then do { cassert (s_cap S * 2 < 2 ^ 31); Some (Some (s_cap S), S\<lparr>s_co := s_co S @ replicate (s_cap S) None, s_cap := s_cap S * 2\<rparr>) }
      else Some (find_slot S, S)) = Some (Some i, T)"
    and i: "i < s_cap T" "i \<notin> set stk" "susp i = None" and okT: "sched_ok (T, cpu) stk susp" and slT: "slot T = slot S"
  proof (cases "int (s_cap S) \<le> s_nco S")
    case True
    let ?T = "S\<lparr>s_co := s_co S @ replicate (s_cap S) None, s_cap := s_cap S * 2\<rparr>"
    have "sched_ok (?T, cpu) stk susp" using ok by (simp add: sched_ok_def slot_grow)
    moreover have "slot S (s_cap S) = None" using D(1) by (simp add: slot_def)
    then have "s_cap S \<notin> set stk" "susp (s_cap S) = None" using D(5) by (auto simp: slots_ok_def)
    ultimately show thesis using that [of "s_cap S" ?T] True cap ok
      by (simp add: cassert_def slot_grow) (simp add: sched_ok_def)
  next
    case False
    then obtain i where "find_slot S = Some i" "i < s_cap S" "i \<notin> set stk" "susp i = None"
      using find_slot_spec [OF ok] by auto
    then show thesis using that [of i S] False ok by simp
  qed
  note DT = sched_okD [OF okT]
  have i0: "i \<noteq> MAIN_CO_ID" using i(2) D(11) by metis
  have run: "slot T cpu \<noteq> None" using sched_ok_slot [OF okT, of cpu] DT(2,3) by fastforce
  then have run': "cpu < s_cap T" using DT(1) slot_length by fastforce
  define c where "c = (case slot T i of Some c \<Rightarrow> c
      | None \<Rightarrow> \<lparr>co_func = None, co_ud = 0, co_pco = 0, co_ctx = None, co_status = CO_STATUS_DEAD, co_stack = (if i \<noteq> MAIN_CO_ID then p else 0)\<rparr>)"
  define c' where "c' = c\<lparr>co_func := Some f, co_ud := ud, co_status := CO_STATUS_SUSPEND, co_ctx := Some (i, At_entry)\<rparr>"
  have "\<exists>S'. cort_new S p (Some f) ud = Some (Some i, S') \<and> slot S' = (slot T)(i \<mapsto> c') \<and> length (s_co S') = length (s_co T) \<and>
      s_cap S' = s_cap T \<and> s_nco S' = s_nco T + 1 \<and> s_running S' = s_running T"
    unfolding cort_new_def T using i(1) DT(1,4) run run' i0
    by (auto simp: co_slot_in c_def c'_def cassert_def Let_def)
  moreover have "slots_ok ((slot T)(i \<mapsto> c')) stk (susp(i \<mapsto> At_entry))"
    using p i0 by (intro slots_ok_new [OF DT(5) i(2,3) i0])
      (auto simp: c'_def c_def slT fresh_stack_def split: option.splits)
  moreover have "int (length stk + card (dom (susp(i \<mapsto> At_entry)))) = s_nco T + 1"
    using DT(6,7) i(3) by (simp add: domIff)
  moreover have "0 < s_cap T" using okT by (simp add: sched_ok_def)
  ultimately show ?thesis using i(2,3) DT(1,3,4) slT
    by (fastforce simp: sched_ok_def c'_def)
qed


lemma cort_open_spec:
  "\<exists>S. cort_open n p = Some S \<and> sched_ok (S, MAIN_CO_ID) [MAIN_CO_ID] Map.empty \<and> s_cap S = DEFAULT_COROUTINE \<and>
    s_stsize S = max MIN_STACK_SIZE (min n MAX_STACK_SIZE) \<and> (\<forall>i c. slot S i = Some c \<longrightarrow> co_stack c = 0)"
proof -
  let ?T = "\<lparr>s_stsize = CO_MIN (CO_MAX n MIN_STACK_SIZE) MAX_STACK_SIZE, s_nco = 0, s_cap = DEFAULT_COROUTINE,
              s_running = 0, s_co = replicate DEFAULT_COROUTINE None\<rparr> :: 'a cosched"
  have f: "find_slot ?T = Some MAIN_CO_ID"
    by (simp add: find_slot_def DEFAULT_COROUTINE_def upt_conv_Cons slot_free_def MAIN_CO_ID_def)
  have sl: "slot ?T = Map.empty" by (auto simp: slot_def fun_eq_iff)
  let ?c = "\<lparr>co_func = None, co_ud = 0, co_pco = 0, co_ctx = None, co_status = CO_STATUS_RUNNING, co_stack = 0\<rparr> :: 'a cort"
  have d: "MAIN_CO_ID < DEFAULT_COROUTINE" "0 < DEFAULT_COROUTINE" by (simp_all add: MAIN_CO_ID_def DEFAULT_COROUTINE_def)
  have "\<exists>S. cort_open n p = Some S \<and> slot S = [MAIN_CO_ID \<mapsto> ?c] \<and> length (s_co S) = DEFAULT_COROUTINE \<and>
    s_cap S = DEFAULT_COROUTINE \<and> s_nco S = 1 \<and> s_running S = MAIN_CO_ID \<and> s_stsize S = s_stsize ?T"
    unfolding cort_open_def Let_def cort_new_def using f sl d
    by (simp add: co_slot_in cassert_def set_status_slot)
  moreover have "slots_ok [MAIN_CO_ID \<mapsto> ?c] [MAIN_CO_ID] Map.empty"
    by (auto simp: slots_ok_def co_ok_def stacks_apart_def)
  moreover have "MIN_STACK_SIZE \<le> MAX_STACK_SIZE" by (simp add: MIN_STACK_SIZE_def MAX_STACK_SIZE_def)
  ultimately show ?thesis using d by (auto simp: sched_ok_def min_max_distrib2 max_def min_def)
qed

lemma free_stacks_append: "free_stacks (xs @ ys) = free_stacks xs @ free_stacks ys"
  by (induction xs) auto

lemma free_stacks_set: "set (free_stacks xs) = {co_stack c |c. Some c \<in> set xs \<and> co_stack c \<noteq> 0}"
  by (induction xs) (auto split: option.splits)

lemma free_stacks_distinct:
  assumes "\<And>i j c d. i < length xs \<Longrightarrow> j < length xs \<Longrightarrow> xs ! i = Some c \<Longrightarrow> xs ! j = Some d \<Longrightarrow> co_stack c = co_stack d \<Longrightarrow> i = j"
  shows "distinct (free_stacks xs)"
  using assms
proof (induction xs rule: rev_induct)
  case (snoc x xs)
  have "distinct (free_stacks xs)"
  proof (rule snoc.IH)
    fix i j c d assume "i < length xs" "j < length xs" "xs ! i = Some c" "xs ! j = Some d" "co_stack c = co_stack d"
    then show "i = j" using snoc.prems [of i j c d] by (simp add: nth_append)
  qed
  moreover have "co_stack c \<notin> set (free_stacks xs)" if "x = Some c" for c
  proof
    assume "co_stack c \<in> set (free_stacks xs)"
    then obtain d where "Some d \<in> set xs" "co_stack d = co_stack c" by (auto simp: free_stacks_set)
    then obtain j where "j < length xs" "xs ! j = Some d" by (metis in_set_conv_nth)
    then show False using snoc.prems [of j "length xs" d c] that \<open>co_stack d = co_stack c\<close> by (simp add: nth_append)
  qed
  ultimately show ?case by (auto simp: free_stacks_append split: option.splits)
qed simp

lemma cort_close_spec:
  assumes ok: "sched_ok (S, MAIN_CO_ID) stk susp"
  shows "\<exists>ps. cort_close S = Some ps \<and> distinct ps \<and>
    set ps = {co_stack c |i c. slot S i = Some c \<and> i \<noteq> MAIN_CO_ID}"
proof -
  note D = sched_okD [OF ok]
  have s: "\<And>i c. slot S i = Some c \<Longrightarrow> co_stack c = 0 \<longleftrightarrow> i = MAIN_CO_ID"
    using D(5) by (auto simp: slots_ok_def co_ok_def)
  have "distinct (free_stacks (s_co S))"
    by (rule free_stacks_distinct) (use D(5) in \<open>auto simp: slots_ok_def stacks_apart_def slot_def\<close>)
  moreover have "Some c \<in> set (s_co S) \<and> co_stack c \<noteq> 0 \<longleftrightarrow> (\<exists>i. slot S i = Some c \<and> i \<noteq> MAIN_CO_ID)" for c
  proof -
    have "slot S i = Some c \<longleftrightarrow> i < length (s_co S) \<and> s_co S ! i = Some c" for i by (auto simp: slot_def)
    then show ?thesis using s [of _ c] unfolding in_set_conv_nth by metis
  qed
  then have "set (free_stacks (s_co S)) = {co_stack c |i c. slot S i = Some c \<and> i \<noteq> MAIN_CO_ID}"
    unfolding free_stacks_set by blast
  ultimately show ?thesis using D(1,4) by (simp add: cort_close_def cassert_def)
qed

section \<open>Simulation\<close>

text \<open>A run is a sequence of labelled steps.  A system whose steps are simulated by an abstract one
  keeps the abstraction along every run.\<close>

inductive runs :: "('c \<Rightarrow> 'e \<Rightarrow> 'c \<Rightarrow> bool) \<Rightarrow> 'c \<Rightarrow> 'e list \<Rightarrow> 'c \<Rightarrow> bool" for st where
  runs_Nil: "runs st c [] c"
| runs_Cons: "st c e d \<Longrightarrow> runs st d es f \<Longrightarrow> runs st c (e # es) f"

inductive_simps runs_Nil_iff [simp]: "runs st c [] d"
inductive_simps runs_Cons_iff: "runs st c (e # es) f"

primrec arun :: "('e \<Rightarrow> 'a \<Rightarrow> 'a option) \<Rightarrow> 'e list \<Rightarrow> 'a \<Rightarrow> 'a option" where
  "arun astep [] a = Some a"
| "arun astep (e # es) a = do { a \<leftarrow> astep e a; arun astep es a }"

locale simulation =
  fixes cstep :: "'c \<Rightarrow> 'e \<Rightarrow> 'c \<Rightarrow> bool" and astep :: "'e \<Rightarrow> 'a \<Rightarrow> 'a option" and rep :: "'c \<Rightarrow> 'a \<Rightarrow> bool"
  assumes step_law: "rep c a \<Longrightarrow> cstep c e d \<Longrightarrow> \<exists>b. astep e a = Some b \<and> rep d b"

context simulation begin

lemma runs_simulate: "runs cstep c es d \<Longrightarrow> rep c a \<Longrightarrow> \<exists>b. arun astep es a = Some b \<and> rep d b"
proof (induction arbitrary: a rule: runs.induct)
  case (runs_Cons c e d es f)
  then obtain b where "astep e a = Some b" "rep d b" using step_law by blast
  with runs_Cons.IH show ?case by auto
qed auto

end

text \<open>The abstract scheduler: the stack of activations and the suspended coroutines.\<close>

type_synonym asched = "nat list \<times> (nat \<Rightarrow> point option)"

fun a_step :: "'f event \<Rightarrow> asched \<Rightarrow> asched option" where
  "a_step (New p f ud i) (stk, susp) = (if i \<notin> set stk \<and> susp i = None then Some (stk, susp(i \<mapsto> At_entry)) else None)"
| "a_step (Resume i pt) (stk, susp) = (if susp i = Some pt then Some (i # stk, susp(i := None)) else None)"
| "a_step (Resume_refused i) (stk, susp) = (if susp i = None then Some (stk, susp) else None)"
| "a_step (Yield pt) (stk, susp) =
     (if tl stk \<noteq> [] \<and> pt = In_resume then Some (tl stk, susp(hd stk \<mapsto> In_yield)) else None)"
| "a_step Yield_refused (stk, susp) = (if tl stk = [] then Some (stk, susp) else None)"
| "a_step Exit (stk, susp) = (if tl stk \<noteq> [] then Some (tl stk, susp) else None)"

definition sched_rep :: "'f rt \<Rightarrow> asched \<Rightarrow> bool" where
  "sched_rep s a \<longleftrightarrow> sched_ok s (fst a) (snd a)"

lemma main_last:
  assumes "sched_ok (S, cpu) stk susp"
  shows "tl stk = [] \<longleftrightarrow> cpu = MAIN_CO_ID"
proof -
  note D = sched_okD [OF assms]
  obtain rest where "stk = cpu # rest" using D(2,3) by (cases stk) auto
  then show ?thesis using D(8,10) by (cases "rest = []") (auto, metis last_in_set)
qed

interpretation scheduler: simulation cort_step a_step sched_rep
proof (unfold_locales, goal_cases)
  case (1 c a e d)
  obtain stk susp where a: "a = (stk, susp)" by (cases a)
  show ?case
    using 1(2,1)
  proof cases
    case (step_new S p f ud i S' cpu)
    then have ok: "sched_ok (S, cpu) stk susp" using 1(1) a by (simp add: sched_rep_def)
    have "s_cap S * 2 < 2 ^ 31" if "int (s_cap S) \<le> s_nco S"
      using step_new(5) that by (auto simp: cort_new_def cassert_def split: if_splits)
    from cort_new_spec [OF ok step_new(4) this, of f ud] show ?thesis using step_new a by (auto simp: sched_rep_def)
  next
    case (step_resume S cpu i S' cpu' pt)
    then have ok: "sched_ok (S, cpu) stk susp" using 1(1) a by (simp add: sched_rep_def)
    show ?thesis
    proof (cases "susp i")
      case None
      have "i < s_cap S" using step_resume(4) by (auto simp: cort_resume_def cassert_def split: if_splits)
      then show ?thesis using cort_resume_refused_spec [OF ok _ None] step_resume by simp
    next
      case (Some q)
      then show ?thesis using cort_resume_spec [OF ok Some] step_resume a by (auto simp: sched_rep_def)
    qed
  next
    case (step_resume_refused S cpu i S' r)
    then have ok: "sched_ok (S, cpu) stk susp" using 1(1) a by (simp add: sched_rep_def)
    have i: "i < s_cap S" using step_resume_refused(4) by (auto simp: cort_resume_def cassert_def split: if_splits)
    have "susp i = None" using cort_resume_spec [OF ok, of i] step_resume_refused(4) by (cases "susp i") auto
    then show ?thesis using cort_resume_refused_spec [OF ok i] step_resume_refused a 1(1) by (auto simp: sched_rep_def)
  next
    case (step_yield S cpu S' cpu' pt)
    then have ok: "sched_ok (S, cpu) stk susp" using 1(1) a by (simp add: sched_rep_def)
    have "cpu \<noteq> MAIN_CO_ID" using cort_yield_main [of S] ok step_yield(4) by auto
    then show ?thesis using cort_yield_spec [OF ok] main_last [OF ok] step_yield a sched_okD(3) [OF ok]
      by (auto simp: sched_rep_def)
  next
    case (step_yield_refused S cpu S' r)
    then have ok: "sched_ok (S, cpu) stk susp" using 1(1) a by (simp add: sched_rep_def)
    have m: "cpu = MAIN_CO_ID" using cort_yield_spec [OF ok] step_yield_refused(4) by (cases "cpu = MAIN_CO_ID") auto
    then show ?thesis using cort_yield_main [of S stk susp] ok main_last [OF ok] step_yield_refused a 1(1)
      by (auto simp: sched_rep_def)
  next
    case (step_exit cpu S S' cpu' pt)
    then have ok: "sched_ok (S, cpu) stk susp" using 1(1) a by (simp add: sched_rep_def)
    then show ?thesis using cofunc_exit_spec [OF ok] main_last [OF ok] step_exit a by (auto simp: sched_rep_def)
  qed
qed


section \<open>Properties\<close>

definition reachable :: "'f event list \<Rightarrow> 'f rt \<Rightarrow> bool" where
  "reachable es s \<longleftrightarrow> (\<exists>n p S. cort_open n p = Some S \<and> runs cort_step (S, MAIN_CO_ID) es s)"

lemma reachable_rep:
  assumes "reachable (es :: 'a event list) s"
  shows "\<exists>a. arun a_step es ([MAIN_CO_ID], Map.empty) = Some a \<and> sched_rep s a"
proof -
  obtain n p S where S: "cort_open n p = Some S" "runs cort_step (S, MAIN_CO_ID) es s"
    using assms by (auto simp: reachable_def)
  have "sched_rep (S, MAIN_CO_ID) ([MAIN_CO_ID], Map.empty)"
    using cort_open_spec [where ?'a = 'a, of n p] S(1) by (auto simp: sched_rep_def)
  then show ?thesis by (rule scheduler.runs_simulate [OF S(2)])
qed

lemma reachable_step: "reachable es s \<Longrightarrow> cort_step s e t \<Longrightarrow> reachable (es @ [e]) t"
proof -
  have "runs st a (es @ [e]) t" if "runs st a es s" "st s e t" for st :: "'f rt \<Rightarrow> 'f event \<Rightarrow> 'f rt \<Rightarrow> bool" and a es s e t
    using that by (induction rule: runs.induct) (auto intro: runs.intros)
  then show "reachable es s \<Longrightarrow> cort_step s e t \<Longrightarrow> reachable (es @ [e]) t"
    unfolding reachable_def by blast
qed

text \<open>The scripts of the witnesses: main creates a coroutine, resumes it, it yields, is resumed again and ends.\<close>

lemma demo_run:
  "\<exists>S i S1 S2 S3 S4 S5. cort_open 0 7 = Some S \<and> cort_step (S, 0) (New 5 ''f'' 0 i) (S1, 0) \<and>
     cort_step (S1, 0) (Resume i At_entry) (S2, i) \<and> cort_step (S2, i) (Yield In_resume) (S3, 0) \<and>
     cort_step (S3, 0) (Resume i In_yield) (S4, i) \<and> cort_step (S4, i) Exit (S5, 0) \<and> i \<noteq> 0"
proof -
  obtain S :: "string cosched" where S: "cort_open 0 7 = Some S" "sched_ok (S, 0) [0] Map.empty" "s_cap S = 128"
    "\<forall>i c. slot S i = Some c \<longrightarrow> co_stack c = 0"
    using cort_open_spec [of 0 7] by (auto simp: DEFAULT_COROUTINE_def MAIN_CO_ID_def)
  have f: "fresh_stack S 5" using S(4) by (fastforce simp: fresh_stack_def)
  obtain i S1 where 1: "cort_new S 5 (Some ''f'') 0 = Some (Some i, S1)" "sched_ok (S1, 0) [0] (Map.empty(i \<mapsto> At_entry))" "i \<noteq> 0"
    using cort_new_spec [OF S(2) f, of "''f''" 0] S(3) by auto
  obtain S2 where 2: "cort_resume S1 0 i = Some (S2, Goes_on i At_entry)" "sched_ok (S2, i) [i, 0] Map.empty"
    using cort_resume_spec [OF 1(2), of i At_entry] by auto
  obtain S3 where 3: "cort_yield S2 i = Some (S3, Goes_on 0 In_resume)" "sched_ok (S3, 0) [0] (Map.empty(i \<mapsto> In_yield))"
    using cort_yield_spec [OF 2(2)] 1(3) by (auto simp: MAIN_CO_ID_def)
  obtain S4 where 4: "cort_resume S3 0 i = Some (S4, Goes_on i In_yield)" "sched_ok (S4, i) [i, 0] Map.empty"
    using cort_resume_spec [OF 3(2), of i In_yield] by auto
  obtain S5 where 5: "cofunc_exit S4 i = Some (S5, Goes_on 0 In_resume)"
    using cofunc_exit_spec [OF 4(2)] 1(3) by (auto simp: MAIN_CO_ID_def)
  show ?thesis
    using S(1) cort_step.step_new [OF f 1(1), of 0] cort_step.step_resume [OF 2(1)] cort_step.step_yield [OF 3(1)]
      cort_step.step_resume [OF 4(1)] cort_step.step_exit [OF _ 5] 1(3)
    by (auto simp: MAIN_CO_ID_def) blast
qed

text \<open>C21: the scheduler refines a stack: whatever its coroutines do, creating, resuming, yielding and
  ending are pushing, popping and suspending on the abstract scheduler, and a resumed coroutine goes on
  exactly where it was suspended.\<close>

theorem cort_refines_stack:
  assumes "cort_open n p = Some S" "runs cort_step (S, MAIN_CO_ID) es s"
  shows "\<exists>a. arun a_step es ([MAIN_CO_ID], Map.empty) = Some a \<and> sched_rep s a"
  using reachable_rep [of es s] assms by (auto simp: reachable_def)

theorem cort_refines_stack_witness:
  "\<exists>S s i. cort_open 0 7 = Some S \<and> runs cort_step (S, 0) [New 5 ''f'' 0 i, Resume i At_entry, Yield In_resume] s \<and>
     sched_rep s ([0], [i \<mapsto> In_yield])"
proof -
  obtain S i S1 S2 S3 where d: "cort_open 0 7 = Some S" "cort_step (S, 0) (New 5 ''f'' 0 i) (S1, 0)"
    "cort_step (S1, 0) (Resume i At_entry) (S2, i)" "cort_step (S2, i) (Yield In_resume) (S3, 0)" "i \<noteq> 0"
    using demo_run by blast
  then have r: "runs cort_step (S, MAIN_CO_ID) [New 5 ''f'' 0 i, Resume i At_entry, Yield In_resume] (S3, 0)"
    by (auto simp: MAIN_CO_ID_def intro!: runs.intros)
  from cort_refines_stack [OF d(1) this] have "sched_rep (S3, 0) ([0], [i \<mapsto> In_yield])"
    using d(5) by (auto simp: MAIN_CO_ID_def)
  with d(1) r show ?thesis by (auto simp: MAIN_CO_ID_def)
qed

text \<open>C22: in every reachable state exactly one coroutine is running, the one that executes; the count
  is the number of coroutines that are not dead; and no two coroutines share a stack.\<close>

theorem cort_one_running:
  assumes "reachable es (S, cpu)"
  shows "(\<forall>i. cort_status S i = Some CO_STATUS_RUNNING \<longleftrightarrow> i = cort_running S) \<and> cort_running S = cpu \<and>
    s_nco S = int (card {i. i < s_cap S \<and> cort_status S i \<noteq> Some CO_STATUS_DEAD}) \<and> stacks_apart (slot S)"
proof -
  obtain stk susp where ok: "sched_ok (S, cpu) stk susp" using reachable_rep [OF assms] by (auto simp: sched_rep_def)
  note D = sched_okD [OF ok]
  have st: "cort_status S i = Some (case slot S i of None \<Rightarrow> CO_STATUS_DEAD | Some c \<Rightarrow> co_status c)" if "i < s_cap S" for i
    using that D(1) by (auto simp: cort_status_def cassert_def co_slot_in split: option.splits)
  have c: "\<And>i c. slot S i = Some c \<Longrightarrow> co_ok stk susp i c" using D(5) by (simp add: slots_ok_def)
  have cap: "i < s_cap S" if "i \<in> set stk \<union> dom susp" for i using sched_ok_slot [OF ok, of i] that by blast
  have "cort_status S i = Some CO_STATUS_RUNNING \<longleftrightarrow> i = cpu" for i
  proof (cases "i < s_cap S")
    case True
    have "slot S cpu \<noteq> None" using sched_ok_slot [OF ok, of cpu] D(2,3) by fastforce
    then show ?thesis using st [OF True] c [of i] D(3) by (cases "slot S i") (auto simp: co_ok_def)
  next
    case False
    then show ?thesis using cap [of cpu] D(2,3) by (auto simp: cort_status_def cassert_def)
  qed
  moreover have "cort_status S i \<noteq> Some CO_STATUS_DEAD \<longleftrightarrow> i \<in> set stk \<union> dom susp" if "i < s_cap S" for i
  proof (cases "slot S i")
    case None
    then show ?thesis using st [OF that] D(5) by (auto simp: slots_ok_def dom_def)
  next
    case (Some x)
    have "i \<in> set stk \<longleftrightarrow> i = hd stk \<or> i \<in> set (tl stk)" using D(2) by (cases stk) auto
    then show ?thesis using st [OF that] Some c [OF Some] by (cases "co_status x") (auto simp: co_ok_def)
  qed
  then have "{i. i < s_cap S \<and> cort_status S i \<noteq> Some CO_STATUS_DEAD} = set stk \<union> dom susp" using cap by blast
  ultimately show ?thesis using D(4,5,6,7,8,9)
    by (simp add: cort_running_def slots_ok_def card_Un_disjoint distinct_card)
qed

theorem cort_one_running_witness:
  "\<exists>es S i. reachable es (S, i) \<and> i \<noteq> 0 \<and> cort_status S i = Some CO_STATUS_RUNNING \<and> length es = 2 \<and>
     (\<exists>f :: string. es ! 0 = New 5 f 0 i)"
proof -
  obtain S i S1 S2 where d: "cort_open 0 7 = Some S" "cort_step (S, 0) (New 5 ''f'' 0 i) (S1, 0)"
    "cort_step (S1, 0) (Resume i At_entry) (S2, i)" "i \<noteq> 0" using demo_run by blast
  then have r: "reachable [New 5 ''f'' 0 i, Resume i At_entry] (S2, i)"
    by (auto simp: reachable_def MAIN_CO_ID_def intro!: runs.intros)
  have "cort_status S2 i = Some CO_STATUS_RUNNING" using cort_one_running [OF r] by simp
  then show ?thesis using r d(4) by (intro exI [of _ "[New 5 ''f'' 0 i, Resume i At_entry]"]) auto
qed

text \<open>When control comes back to where a coroutine was resumed from: events are counted as pushes and
  pops of the stack.\<close>

fun returns_at :: "nat \<Rightarrow> 'f event list \<Rightarrow> bool" where
  "returns_at n [] = False"
| "returns_at n (Resume i pt # es) = returns_at (Suc n) es"
| "returns_at n (Yield pt # es) = (case n of 0 \<Rightarrow> es = [] | Suc m \<Rightarrow> returns_at m es)"
| "returns_at n (Exit # es) = (case n of 0 \<Rightarrow> es = [] | Suc m \<Rightarrow> returns_at m es)"
| "returns_at n (New p f ud i # es) = returns_at n es"
| "returns_at n (Resume_refused i # es) = returns_at n es"
| "returns_at n (Yield_refused # es) = returns_at n es"

lemma arun_returns:
  "returns_at n es \<Longrightarrow> length pre = Suc n \<Longrightarrow> arun a_step es (pre @ stk, susp) = Some b \<Longrightarrow> fst b = stk"
proof (induction n es arbitrary: pre susp rule: returns_at.induct)
  case (2 n i pt es)
  from 2(1) [of "i # pre"] 2(2-) show ?case by (auto split: if_splits)
next
  case (3 n pt es)
  then show ?case by (cases pre; cases n) (auto split: if_splits)
next
  case (4 n es)
  then show ?case by (cases pre; cases n) (auto split: if_splits)
qed (auto split: if_splits)

text \<open>C23: control returns to the resumer: once a coroutine has been resumed, whatever it and the
  coroutines it resumes do, when the number of yields and ends first exceeds that of the resumes, it is
  the resumer that runs again, with its activations as they were.\<close>

theorem cort_resume_returns:
  assumes "reachable es (S, cpu)" "cort_step (S, cpu) (Resume i pt) s" "runs cort_step s es' (S', cpu')" "returns_at 0 es'"
  shows "cpu' = cpu \<and> cort_status S' cpu = Some CO_STATUS_RUNNING \<and>
    (\<exists>stk susp susp'. sched_rep (S, cpu) (stk, susp) \<and> sched_rep (S', cpu') (stk, susp'))"
proof -
  obtain stk susp where a: "sched_rep (S, cpu) (stk, susp)" using reachable_rep [OF assms(1)] by auto
  obtain b where b: "a_step (Resume i pt :: 'a event) (stk, susp) = Some b" "sched_rep s b"
    using scheduler.step_law [OF a assms(2)] by blast
  obtain c where c: "arun a_step es' b = Some c" "sched_rep (S', cpu') c"
    using scheduler.runs_simulate [OF assms(3) b(2)] by blast
  have "fst c = stk" using arun_returns [OF assms(4), of "[i]" stk "susp(i := None)" c] b(1) c(1) by (simp split: if_splits)
  then obtain susp' where c': "sched_rep (S', cpu') (stk, susp')" using c(2) by (cases c) auto
  have ok: "sched_ok (S, cpu) stk susp" "sched_ok (S', cpu') stk susp'" using a c' by (simp_all add: sched_rep_def)
  note D = sched_okD [OF ok(1)] and D' = sched_okD [OF ok(2)]
  have "cpu' \<in> set stk" using D'(2,3) by simp
  then obtain x where "slot S' cpu' = Some x" "co_ok stk susp' cpu' x" "cpu' < s_cap S'"
    using sched_ok_slot [OF ok(2), of cpu'] by blast
  then have "cort_status S' cpu' = Some CO_STATUS_RUNNING"
    using D'(1,3) by (simp add: cort_status_def cassert_def co_slot_in co_ok_def)
  moreover have "cpu' = cpu" using D(3) D'(3) by simp
  ultimately show ?thesis using a c' by blast
qed

theorem cort_resume_returns_witness:
  "\<exists>es S i s S'. reachable es (S, 0) \<and> cort_step (S, 0) (Resume i In_yield) s \<and>
     runs cort_step s ([Exit] :: string event list) (S', 0) \<and> cort_status S' 0 = Some CO_STATUS_RUNNING"
proof -
  obtain S i S1 S2 S3 S4 S5 where d: "cort_open 0 7 = Some S" "cort_step (S, 0) (New 5 ''f'' 0 i) (S1, 0)"
    "cort_step (S1, 0) (Resume i At_entry) (S2, i)" "cort_step (S2, i) (Yield In_resume) (S3, 0)"
    "cort_step (S3, 0) (Resume i In_yield) (S4, i)" "cort_step (S4, i) Exit (S5, 0)"
    using demo_run by blast
  then have r: "reachable [New 5 ''f'' 0 i, Resume i At_entry, Yield In_resume] (S3, 0)"
    by (auto simp: reachable_def MAIN_CO_ID_def intro!: runs.intros)
  have e: "runs cort_step (S4, i) [Exit] (S5, 0)" using d(6) by (auto intro!: runs.intros)
  have "cort_status S5 0 = Some CO_STATUS_RUNNING" using cort_resume_returns [OF r d(5) e] by simp
  then show ?thesis using r d(5) e by blast
qed

text \<open>C24: closing frees the stack of every coroutine that ever used a slot, each exactly once.\<close>

theorem cort_close_correct:
  assumes "reachable es (S, MAIN_CO_ID)"
  shows "\<exists>ps. cort_close S = Some ps \<and> distinct ps \<and> 0 \<notin> set ps \<and>
    set ps = {co_stack c |i c. slot S i = Some c \<and> i \<noteq> MAIN_CO_ID}"
proof -
  obtain stk susp where ok: "sched_ok (S, MAIN_CO_ID) stk susp" using reachable_rep [OF assms] by (auto simp: sched_rep_def)
  have "\<And>i c. slot S i = Some c \<Longrightarrow> i \<noteq> MAIN_CO_ID \<Longrightarrow> co_stack c \<noteq> 0"
    using sched_okD(5) [OF ok] by (auto simp: slots_ok_def co_ok_def)
  with cort_close_spec [OF ok] show ?thesis by fastforce
qed

theorem cort_close_correct_witness:
  "\<exists>es S ps. reachable (es :: string event list) (S, MAIN_CO_ID) \<and> cort_close S = Some ps \<and> distinct ps \<and> es \<noteq> []"
proof -
  obtain S i S1 where d: "cort_open 0 7 = Some S" "cort_step (S, 0) (New 5 ''f'' 0 i) (S1, 0)" using demo_run by blast
  then have r: "reachable [New 5 ''f'' 0 i] (S1, MAIN_CO_ID)"
    by (auto simp: reachable_def MAIN_CO_ID_def intro!: runs.intros)
  from cort_close_correct [OF this] obtain ps where "cort_close S1 = Some ps" "distinct ps" by blast
  with r show ?thesis by blast
qed

end
