(* ===== verification/SetTree.thy ===== *)
theory SetTree
  imports CPrelude "HOL-Library.Tree"
begin

text \<open>
  The ordered set (\<open>src/co_set.c\<close>): a red-black tree of nodes with parent pointers on a heap.  The
  empty tree is the address of \<open>nilnode\<close>, a node of the set itself that is always black.  The color 0
  is red and 1 is black.  Where the code has two mirrored branches for the left and the right side the
  model has one, with a side as parameter: \<open>child True\<close> is the left child.  The theory holds the code,
  the abstraction of the heap to a tree with a context and what a rotation does to it; \<open>SetRepair\<close> holds
  the repair loops and \<open>CoSet\<close> the operations.  The data of a node is a value: \<open>datasize\<close>, the
  copying of its bytes and the argument \<open>ud\<close> of the comparison are not in the model.
\<close>

section \<open>Data\<close>

record 'a coset_node =
  sn_parent :: nat
  sn_left :: nat
  sn_right :: nat
  sn_data :: "'a option"
  sn_color :: int

type_synonym 'a sheap = "nat \<Rightarrow> 'a coset_node option"

record 'a coset =
  st_root :: nat
  st_nil :: nat
  st_comp :: "'a \<Rightarrow> 'a \<Rightarrow> int"
  st_size :: int

definition sn_upd :: "'a sheap \<Rightarrow> nat \<Rightarrow> ('a coset_node \<Rightarrow> 'a coset_node) \<Rightarrow> 'a sheap exec" where
  "sn_upd h a f = map_option (\<lambda>n. h(a \<mapsto> f n)) (h a)"

definition child :: "bool \<Rightarrow> 'a coset_node \<Rightarrow> nat" where
  "child b n = (if b then sn_left n else sn_right n)"

definition set_child :: "bool \<Rightarrow> nat \<Rightarrow> 'a coset_node \<Rightarrow> 'a coset_node" where
  "set_child b q n = (if b then n\<lparr>sn_left := q\<rparr> else n\<lparr>sn_right := q\<rparr>)"

definition set_parent :: "nat \<Rightarrow> 'a coset_node \<Rightarrow> 'a coset_node" where
  "set_parent q n = n\<lparr>sn_parent := q\<rparr>"

definition set_color :: "int \<Rightarrow> 'a coset_node \<Rightarrow> 'a coset_node" where
  "set_color k n = n\<lparr>sn_color := k\<rparr>"

definition coset_nil :: "'a coset \<Rightarrow> nat" where "coset_nil s = st_nil s"
definition coset_size :: "'a coset \<Rightarrow> int" where "coset_size s = st_size s"

text \<open>\<open>nil\<close> is the address of the new set's \<open>nilnode\<close>.\<close>

definition coset_new :: "('a \<Rightarrow> 'a \<Rightarrow> int) \<Rightarrow> 'a sheap \<Rightarrow> nat \<Rightarrow> ('a coset \<times> 'a sheap) exec" where
  "coset_new fn h nil = do {
     cassert (nil \<noteq> 0 \<and> h nil = None);
     let s = \<lparr>st_root = nil, st_nil = nil, st_comp = fn, st_size = 0\<rparr>;
     let h = h(nil \<mapsto> \<lparr>sn_parent = 0, sn_left = 0, sn_right = 0, sn_data = None, sn_color = 1\<rparr>);
     h \<leftarrow> sn_upd h (st_root s) (set_parent nil);
     Some (s, h)
   }"

section \<open>Searching and walking\<close>

partial_function (option) search_loop :: "'a coset \<Rightarrow> 'a sheap \<Rightarrow> 'a \<Rightarrow> nat \<Rightarrow> nat exec" where
  "search_loop s h data cur =
     (if cur = st_nil s then Some cur
      else do {
        n \<leftarrow> h cur;
        d \<leftarrow> sn_data n;
        let ret = st_comp s data d;
        if ret < 0 then search_loop s h data (sn_left n)
        else if ret > 0 then search_loop s h data (sn_right n)
        else Some cur
      })"

definition coset_search :: "'a coset \<Rightarrow> 'a sheap \<Rightarrow> 'a \<Rightarrow> nat exec" where
  "coset_search s h data = search_loop s h data (st_root s)"

text \<open>The smallest node below \<open>cur\<close> for the side \<open>True\<close>, the largest for \<open>False\<close>.\<close>

partial_function (option) coset_outer :: "bool \<Rightarrow> 'a coset \<Rightarrow> 'a sheap \<Rightarrow> nat \<Rightarrow> nat exec" where
  "coset_outer b s h cur = do {
     n \<leftarrow> h cur;
     if child b n \<noteq> st_nil s then coset_outer b s h (child b n) else Some cur
   }"

definition coset_smallest :: "'a coset \<Rightarrow> 'a sheap \<Rightarrow> nat \<Rightarrow> nat exec" where
  "coset_smallest = coset_outer True"

definition coset_largest :: "'a coset \<Rightarrow> 'a sheap \<Rightarrow> nat \<Rightarrow> nat exec" where
  "coset_largest = coset_outer False"

text \<open>Walking up while \<open>cur\<close> is the child of that side.\<close>

partial_function (option) climb :: "bool \<Rightarrow> 'a coset \<Rightarrow> 'a sheap \<Rightarrow> nat \<Rightarrow> nat \<Rightarrow> nat exec" where
  "climb b s h cur up =
     (if up = st_nil s then Some up
      else do {
        n \<leftarrow> h up;
        if cur = child b n then climb b s h up (sn_parent n) else Some up
      })"

text \<open>The next node in the order for the side \<open>False\<close> (first the right subtree), the previous one for
  \<open>True\<close>.\<close>

definition coset_neighbour :: "bool \<Rightarrow> 'a coset \<Rightarrow> 'a sheap \<Rightarrow> nat \<Rightarrow> nat exec" where
  "coset_neighbour b s h cur = do {
     n \<leftarrow> h cur;
     if child b n \<noteq> st_nil s then coset_outer (\<not> b) s h (child b n)
     else climb b s h cur (sn_parent n)
   }"

definition coset_successor :: "'a coset \<Rightarrow> 'a sheap \<Rightarrow> nat \<Rightarrow> nat exec" where
  "coset_successor = coset_neighbour False"

definition coset_predecessor :: "'a coset \<Rightarrow> 'a sheap \<Rightarrow> nat \<Rightarrow> nat exec" where
  "coset_predecessor = coset_neighbour True"

section \<open>Rotations\<close>

definition coset_rot :: "bool \<Rightarrow> 'a coset \<Rightarrow> 'a sheap \<Rightarrow> nat \<Rightarrow> ('a coset \<times> 'a sheap) exec" where
  "coset_rot b s h x = do {
     nx \<leftarrow> h x;
     let y = child (\<not> b) nx;
     ny \<leftarrow> h y;
     h \<leftarrow> sn_upd h x (set_child (\<not> b) (child b ny));
     ny \<leftarrow> h y;
     h \<leftarrow> (if child b ny \<noteq> st_nil s then sn_upd h (child b ny) (set_parent x) else Some h);
     nx \<leftarrow> h x;
     h \<leftarrow> sn_upd h y (set_parent (sn_parent nx));
     nx \<leftarrow> h x;
     (s, h) \<leftarrow>
       (if sn_parent nx = st_nil s then Some (s\<lparr>st_root := y\<rparr>, h)
        else do {
          p \<leftarrow> h (sn_parent nx);
          h \<leftarrow> sn_upd h (sn_parent nx) (set_child (x = sn_left p) y);
          Some (s, h)
        });
     h \<leftarrow> sn_upd h y (set_child b x);
     h \<leftarrow> sn_upd h x (set_parent y);
     Some (s, h)
   }"

definition coset_leftrot :: "'a coset \<Rightarrow> 'a sheap \<Rightarrow> nat \<Rightarrow> ('a coset \<times> 'a sheap) exec" where
  "coset_leftrot = coset_rot True"

definition coset_rightrot :: "'a coset \<Rightarrow> 'a sheap \<Rightarrow> nat \<Rightarrow> ('a coset \<times> 'a sheap) exec" where
  "coset_rightrot = coset_rot False"

section \<open>Adding\<close>

text \<open>Cases 2 and 3, for an uncle that is black: \<open>b\<close> is the side of the parent below the grandparent.\<close>

definition insert_case2 :: "bool \<Rightarrow> 'a coset \<Rightarrow> 'a sheap \<Rightarrow> nat \<Rightarrow> ('a coset \<times> 'a sheap \<times> nat) exec" where
  "insert_case2 b s h cur = do {
     n \<leftarrow> h cur;
     p \<leftarrow> h (sn_parent n);
     if cur = child (\<not> b) p then do {
       let cur = sn_parent n;
       (s, h) \<leftarrow> (if b then coset_leftrot s h cur else coset_rightrot s h cur);
       Some (s, h, cur)
     } else Some (s, h, cur)
   }"

definition insert_case3 :: "bool \<Rightarrow> 'a coset \<Rightarrow> 'a sheap \<Rightarrow> nat \<Rightarrow> ('a coset \<times> 'a sheap) exec" where
  "insert_case3 b s h cur = do {
     n \<leftarrow> h cur;
     h \<leftarrow> sn_upd h (sn_parent n) (set_color 1);
     p \<leftarrow> h (sn_parent n);
     h \<leftarrow> sn_upd h (sn_parent p) (set_color 0);
     if b then coset_rightrot s h (sn_parent p) else coset_leftrot s h (sn_parent p)
   }"

partial_function (option) insert_fixup :: "'a coset \<Rightarrow> 'a sheap \<Rightarrow> nat \<Rightarrow> ('a coset \<times> 'a sheap) exec" where
  "insert_fixup s h cur = do {
     n \<leftarrow> h cur;
     p \<leftarrow> h (sn_parent n);
     if sn_color p = 0 then do {
       g \<leftarrow> h (sn_parent p);
       let b = (sn_parent n = sn_left g);
       let uncle = child (\<not> b) g;
       u \<leftarrow> h uncle;
       if sn_color u = 0 then do {
         h \<leftarrow> sn_upd h (sn_parent n) (set_color 1);
         h \<leftarrow> sn_upd h uncle (set_color 1);
         h \<leftarrow> sn_upd h (sn_parent p) (set_color 0);
         insert_fixup s h (sn_parent p)
       } else do {
         (s, h, cur) \<leftarrow> insert_case2 b s h cur;
         (s, h) \<leftarrow> insert_case3 b s h cur;
         insert_fixup s h cur
       }
     } else do {
       h \<leftarrow> sn_upd h (st_root s) (set_color 1);
       Some (s, h)
     }
   }"

text \<open>The place of a new value: \<open>None\<close> when an equal one is in the set, else the parent and the last
  comparison.\<close>

partial_function (option) add_place :: "'a coset \<Rightarrow> 'a sheap \<Rightarrow> 'a \<Rightarrow> nat \<Rightarrow> nat \<Rightarrow> int \<Rightarrow> (nat \<times> int) option exec" where
  "add_place s h data parent cur ret =
     (if cur = st_nil s then Some (Some (parent, ret))
      else do {
        n \<leftarrow> h cur;
        d \<leftarrow> sn_data n;
        let ret = st_comp s data d;
        if ret < 0 then add_place s h data cur (sn_left n) ret
        else if ret > 0 then add_place s h data cur (sn_right n) ret
        else Some None
      })"

text \<open>\<open>p\<close> is what \<open>CO_MALLOC\<close> returns.\<close>

definition coset_add :: "'a coset \<Rightarrow> 'a sheap \<Rightarrow> nat \<Rightarrow> 'a \<Rightarrow> ('a coset \<times> 'a sheap) exec" where
  "coset_add s h p data = do {
     place \<leftarrow> add_place s h data (st_nil s) (st_root s) 0;
     (case place of
        None \<Rightarrow> Some (s, h)
      | Some (parent, ret) \<Rightarrow> do {
          cassert (p \<noteq> 0 \<and> h p = None);
          let h = h(p \<mapsto> \<lparr>sn_parent = parent, sn_left = st_nil s, sn_right = st_nil s, sn_data = Some data, sn_color = 0\<rparr>);
          size \<leftarrow> i32 (st_size s + 1);
          let s = s\<lparr>st_size := size\<rparr>;
          (s, h) \<leftarrow>
            (if parent = st_nil s then Some (s\<lparr>st_root := p\<rparr>, h)
             else do { h \<leftarrow> sn_upd h parent (set_child (ret < 0) p); Some (s, h) });
          insert_fixup s h p
        })
   }"

section \<open>Deleting\<close>

text \<open>The steps of a turn of the loop: \<open>b\<close> is the side of the node that lacks a black, and each step
  gives the sibling the next one starts from.  A red sibling is rotated up.\<close>

definition delete_case1 :: "bool \<Rightarrow> 'a coset \<Rightarrow> 'a sheap \<Rightarrow> nat \<Rightarrow> ('a coset \<times> 'a sheap \<times> nat) exec" where
  "delete_case1 b s h cur = do {
     n \<leftarrow> h cur;
     p \<leftarrow> h (sn_parent n);
     let sibling = child (\<not> b) p;
     w \<leftarrow> h sibling;
     if sn_color w = 0 then do {
       h \<leftarrow> sn_upd h sibling (set_color 1);
       h \<leftarrow> sn_upd h (sn_parent n) (set_color 0);
       (s, h) \<leftarrow> coset_rot b s h (sn_parent n);
       n \<leftarrow> h cur;
       p \<leftarrow> h (sn_parent n);
       Some (s, h, child (\<not> b) p)
     } else Some (s, h, sibling)
   }"

text \<open>Whether both children of the sibling are black.\<close>

definition both_black :: "'a sheap \<Rightarrow> nat \<Rightarrow> bool exec" where
  "both_black h sibling = do {
     w \<leftarrow> h sibling;
     wl \<leftarrow> h (sn_left w);
     if sn_color wl = 1 then do { wr \<leftarrow> h (sn_right w); Some (sn_color wr = 1) } else Some False
   }"

text \<open>A sibling whose far child is black is rotated away.\<close>

definition delete_case3 :: "bool \<Rightarrow> 'a coset \<Rightarrow> 'a sheap \<Rightarrow> nat \<Rightarrow> nat \<Rightarrow> ('a coset \<times> 'a sheap \<times> nat) exec" where
  "delete_case3 b s h cur sibling = do {
     w \<leftarrow> h sibling;
     far \<leftarrow> h (child (\<not> b) w);
     if sn_color far = 1 then do {
       h \<leftarrow> sn_upd h (child b w) (set_color 1);
       h \<leftarrow> sn_upd h sibling (set_color 0);
       (s, h) \<leftarrow> coset_rot (\<not> b) s h sibling;
       n \<leftarrow> h cur;
       p \<leftarrow> h (sn_parent n);
       Some (s, h, child (\<not> b) p)
     } else Some (s, h, sibling)
   }"

definition delete_case4 :: "bool \<Rightarrow> 'a coset \<Rightarrow> 'a sheap \<Rightarrow> nat \<Rightarrow> nat \<Rightarrow> ('a coset \<times> 'a sheap) exec" where
  "delete_case4 b s h cur sibling = do {
     n \<leftarrow> h cur;
     p \<leftarrow> h (sn_parent n);
     h \<leftarrow> sn_upd h sibling (set_color (sn_color p));
     h \<leftarrow> sn_upd h (sn_parent n) (set_color 1);
     w \<leftarrow> h sibling;
     h \<leftarrow> sn_upd h (child (\<not> b) w) (set_color 1);
     coset_rot b s h (sn_parent n)
   }"

partial_function (option) delete_fixup :: "'a coset \<Rightarrow> 'a sheap \<Rightarrow> nat \<Rightarrow> ('a coset \<times> 'a sheap) exec" where
  "delete_fixup s h cur = do {
     n \<leftarrow> h cur;
     if cur \<noteq> st_root s \<and> sn_color n = 1 then do {
       p \<leftarrow> h (sn_parent n);
       let b = (cur = sn_left p);
       (s, h, sibling) \<leftarrow> delete_case1 b s h cur;
       both \<leftarrow> both_black h sibling;
       n \<leftarrow> h cur;
       if both then do {
         h \<leftarrow> sn_upd h sibling (set_color 0);
         delete_fixup s h (sn_parent n)
       } else do {
         (s, h, sibling) \<leftarrow> delete_case3 b s h cur sibling;
         (s, h) \<leftarrow> delete_case4 b s h cur sibling;
         delete_fixup s h (st_root s)
       }
     } else do {
       h \<leftarrow> sn_upd h cur (set_color 1);
       Some (s, h)
     }
   }"

text \<open>The child \<open>ch\<close> of a node takes its place.\<close>

definition coset_unlink :: "'a coset \<Rightarrow> 'a sheap \<Rightarrow> nat \<Rightarrow> nat \<Rightarrow> ('a coset \<times> 'a sheap) exec" where
  "coset_unlink s h dnode ch = do {
     d \<leftarrow> h dnode;
     h \<leftarrow> sn_upd h ch (set_parent (sn_parent d));
     if sn_parent d = st_nil s then Some (s\<lparr>st_root := ch\<rparr>, h)
     else do {
       p \<leftarrow> h (sn_parent d);
       h \<leftarrow> sn_upd h (sn_parent d) (set_child (dnode = sn_left p) ch);
       Some (s, h)
     }
   }"

definition coset_delete :: "'a coset \<Rightarrow> 'a sheap \<Rightarrow> 'a \<Rightarrow> ('a coset \<times> 'a sheap) exec" where
  "coset_delete s h data = do {
     cur \<leftarrow> coset_search s h data;
     if cur = st_nil s then Some (s, h)
     else do {
       n \<leftarrow> h cur;
       dnode \<leftarrow> (if sn_left n = st_nil s \<or> sn_right n = st_nil s then Some cur else coset_smallest s h (sn_right n));
       d \<leftarrow> h dnode;
       let ch = (if sn_left d \<noteq> st_nil s then sn_left d else sn_right d);
       (s, h) \<leftarrow> coset_unlink s h dnode ch;
       h \<leftarrow> (if dnode \<noteq> cur then sn_upd h cur (sn_data_update (\<lambda>_. sn_data d)) else Some h);
       size \<leftarrow> i32 (st_size s - 1);
       let s = s\<lparr>st_size := size\<rparr>;
       (s, h) \<leftarrow> (if sn_color d = 1 then delete_fixup s h ch else Some (s, h));
       Some (s, h(dnode := None))
     }
   }"

section \<open>Iterating and the operations on whole sets\<close>

definition coset_exist :: "'a coset \<Rightarrow> 'a sheap \<Rightarrow> 'a \<Rightarrow> bool exec" where
  "coset_exist s h data = map_option (\<lambda>a. a \<noteq> st_nil s) (coset_search s h data)"

text \<open>The iterators return a null pointer where the tree has \<open>nil\<close>.\<close>

definition null_nil :: "'a coset \<Rightarrow> nat \<Rightarrow> nat" where
  "null_nil s a = (if a = st_nil s then 0 else a)"

definition coset_begin :: "'a coset \<Rightarrow> 'a sheap \<Rightarrow> nat exec" where
  "coset_begin s h = (if st_root s \<noteq> st_nil s then map_option (null_nil s) (coset_smallest s h (st_root s)) else Some 0)"

definition coset_end :: "'a coset \<Rightarrow> 'a sheap \<Rightarrow> nat exec" where
  "coset_end s h = (if st_root s \<noteq> st_nil s then map_option (null_nil s) (coset_largest s h (st_root s)) else Some 0)"

definition coset_next :: "'a coset \<Rightarrow> 'a sheap \<Rightarrow> nat \<Rightarrow> nat exec" where
  "coset_next s h cur = map_option (null_nil s) (coset_successor s h cur)"

definition coset_prev :: "'a coset \<Rightarrow> 'a sheap \<Rightarrow> nat \<Rightarrow> nat exec" where
  "coset_prev s h cur = map_option (null_nil s) (coset_predecessor s h cur)"

definition node_data :: "'a sheap \<Rightarrow> nat \<Rightarrow> 'a exec" where
  "node_data h a = do { n \<leftarrow> h a; sn_data n }"

partial_function (option) clear_loop :: "'a coset \<Rightarrow> 'a sheap \<Rightarrow> nat \<Rightarrow> ('a coset \<times> 'a sheap) exec" where
  "clear_loop s h cur =
     (if cur = 0 then Some (s, h)
      else do {
        nxt \<leftarrow> coset_next s h cur;
        d \<leftarrow> node_data h cur;
        (s, h) \<leftarrow> coset_delete s h d;
        clear_loop s h nxt
      })"

definition coset_clear :: "'a coset \<Rightarrow> 'a sheap \<Rightarrow> ('a coset \<times> 'a sheap) exec" where
  "coset_clear s h = do { cur \<leftarrow> coset_begin s h; clear_loop s h cur }"

definition coset_free :: "'a coset \<Rightarrow> 'a sheap \<Rightarrow> 'a sheap exec" where
  "coset_free s h = do { (s, h) \<leftarrow> coset_clear s h; Some (h(st_nil s := None)) }"

text \<open>\<open>ps\<close> gives the addresses of the allocations, one for each element of the other set.\<close>

partial_function (option) union_loop :: "'a coset \<Rightarrow> 'a coset \<Rightarrow> 'a sheap \<Rightarrow> nat list \<Rightarrow> nat \<Rightarrow> ('a coset \<times> 'a sheap) exec" where
  "union_loop s s2 h ps cur =
     (if cur = 0 then Some (s, h)
      else case ps of [] \<Rightarrow> None | p # ps \<Rightarrow> do {
        d \<leftarrow> node_data h cur;
        (s, h) \<leftarrow> coset_add s h p d;
        cur \<leftarrow> coset_next s2 h cur;
        union_loop s s2 h ps cur
      })"

definition coset_union :: "'a coset \<Rightarrow> 'a coset \<Rightarrow> 'a sheap \<Rightarrow> nat list \<Rightarrow> ('a coset \<times> 'a sheap) exec" where
  "coset_union s s2 h ps = do { cur \<leftarrow> coset_begin s2 h; union_loop s s2 h ps cur }"

partial_function (option) intersect_loop :: "'a coset \<Rightarrow> 'a coset \<Rightarrow> 'a sheap \<Rightarrow> nat \<Rightarrow> ('a coset \<times> 'a sheap) exec" where
  "intersect_loop s s2 h cur =
     (if cur = 0 then Some (s, h)
      else do {
        nxt \<leftarrow> coset_next s h cur;
        d \<leftarrow> node_data h cur;
        e \<leftarrow> coset_exist s2 h d;
        (s, h) \<leftarrow> (if \<not> e then coset_delete s h d else Some (s, h));
        intersect_loop s s2 h nxt
      })"

definition coset_intersect :: "'a coset \<Rightarrow> 'a coset \<Rightarrow> 'a sheap \<Rightarrow> ('a coset \<times> 'a sheap) exec" where
  "coset_intersect s s2 h = do { cur \<leftarrow> coset_begin s h; intersect_loop s s2 h cur }"

partial_function (option) minus_loop :: "'a coset \<Rightarrow> 'a coset \<Rightarrow> 'a sheap \<Rightarrow> nat \<Rightarrow> ('a coset \<times> 'a sheap) exec" where
  "minus_loop s s2 h cur =
     (if cur = 0 then Some (s, h)
      else do {
        d \<leftarrow> node_data h cur;
        (s, h) \<leftarrow> coset_delete s h d;
        cur \<leftarrow> coset_next s2 h cur;
        minus_loop s s2 h cur
      })"

definition coset_minus :: "'a coset \<Rightarrow> 'a coset \<Rightarrow> 'a sheap \<Rightarrow> ('a coset \<times> 'a sheap) exec" where
  "coset_minus s s2 h = do { cur \<leftarrow> coset_begin s2 h; minus_loop s s2 h cur }"


section \<open>Trees on the heap\<close>

text \<open>\<open>nd b t a u\<close> is the tree with root \<open>a\<close>, \<open>t\<close> on side \<open>b\<close> and \<open>u\<close> on the other; a context is
  the list of the nodes above a hole, each with the side of the hole and its other subtree.\<close>

definition nd :: "bool \<Rightarrow> nat tree \<Rightarrow> nat \<Rightarrow> nat tree \<Rightarrow> nat tree" where
  "nd b t a u = (if b then Node t a u else Node u a t)"

datatype frame = Fr bool nat "nat tree"

fun plug :: "frame list \<Rightarrow> nat tree \<Rightarrow> nat tree" where
  "plug [] t = t"
| "plug (Fr b a u # c) t = plug c (nd b t a u)"

fun flist :: "frame list \<Rightarrow> nat list" where
  "flist [] = []"
| "flist (Fr b a u # c) = a # inorder u @ flist c"

fun rt :: "nat \<Rightarrow> nat tree \<Rightarrow> nat" where
  "rt nil Leaf = nil"
| "rt nil (Node l a r) = a"

fun pa :: "nat \<Rightarrow> frame list \<Rightarrow> nat" where
  "pa nil [] = nil"
| "pa nil (Fr b a u # c) = a"

definition links :: "bool \<Rightarrow> 'a sheap \<Rightarrow> nat \<Rightarrow> (nat \<times> nat \<times> nat) option" where
  "links b h a = map_option (\<lambda>n. (sn_parent n, child b n, child (\<not> b) n)) (h a)"

fun tr :: "'a sheap \<Rightarrow> nat \<Rightarrow> nat \<Rightarrow> nat tree \<Rightarrow> bool" where
  "tr h nil p Leaf \<longleftrightarrow> True"
| "tr h nil p (Node l a r) \<longleftrightarrow> links True h a = Some (p, rt nil l, rt nil r) \<and> tr h nil a l \<and> tr h nil a r"

fun cx :: "nat \<Rightarrow> 'a sheap \<Rightarrow> nat \<Rightarrow> frame list \<Rightarrow> nat \<Rightarrow> bool" where
  "cx root h nil [] q \<longleftrightarrow> root = q"
| "cx root h nil (Fr b a u # c) q \<longleftrightarrow> links b h a = Some (pa nil c, q, rt nil u) \<and> tr h nil a u \<and> cx root h nil c a"

definition hole :: "'a coset \<Rightarrow> 'a sheap \<Rightarrow> frame list \<Rightarrow> nat tree \<Rightarrow> bool" where
  "hole s h c t \<longleftrightarrow> cx (st_root s) h (st_nil s) c (rt (st_nil s) t) \<and> tr h (st_nil s) (pa (st_nil s) c) t \<and>
     distinct (inorder t @ flist c) \<and> st_nil s \<notin> set (inorder t @ flist c) \<and> 0 \<notin> set (inorder t @ flist c) \<and>
     st_nil s \<noteq> 0 \<and> map_option sn_color (h (st_nil s)) = Some 1"

lemma nd_simps [simp]:
  "rt nil (nd b t a u) = a" "set_tree (nd b t a u) = insert a (set_tree t \<union> set_tree u)"
  "nd b t a u \<noteq> Leaf"
  by (auto simp: nd_def)

lemma nd_flip: "nd (\<not> b) t a u = nd b u a t"
  by (simp add: nd_def)

lemma nd_cases: "t = Leaf \<or> (\<exists>u a v. t = nd b u a v)"
  by (cases t; cases b) (auto simp: nd_def)

lemma distinct_nd [simp]:
  "distinct (inorder (nd b t a u)) \<longleftrightarrow> distinct (inorder t) \<and> distinct (inorder u) \<and> a \<notin> set_tree t \<and> a \<notin> set_tree u \<and>
     set_tree t \<inter> set_tree u = {}"
  by (auto simp: nd_def)

lemma links_flip: "links (\<not> b) h a = Some (p, x, y) \<longleftrightarrow> links b h a = Some (p, y, x)"
  by (auto simp: links_def)

lemma links_side: "links b h a = Some (p, x, y) \<longleftrightarrow> links True h a = Some (p, if b then (x, y) else (y, x))"
  using links_flip [of True h a p x y] by (cases b) auto

lemma links_Some: "links b h a = Some (p, x, y) \<longleftrightarrow> (\<exists>n. h a = Some n \<and> sn_parent n = p \<and> child b n = x \<and> child (\<not> b) n = y)"
  by (auto simp: links_def)

lemma links_cong: "links True h' a = links True h a \<Longrightarrow> links b h' a = links b h a"
  by (cases b) (auto simp: links_def map_option_case split: option.splits)

lemma tr_nd [simp]: "tr h nil p (nd b t a u) \<longleftrightarrow> links b h a = Some (p, rt nil t, rt nil u) \<and> tr h nil a t \<and> tr h nil a u"
  by (auto simp: nd_def links_side [of b])

lemma tr_cong: "(\<And>a. a \<in> set_tree t \<Longrightarrow> links True h' a = links True h a) \<Longrightarrow> tr h' nil p t = tr h nil p t"
  by (induction t arbitrary: p) auto

lemma cx_cong: "(\<And>a. a \<in> set (flist c) \<Longrightarrow> links True h' a = links True h a) \<Longrightarrow> cx root h' nil c q = cx root h nil c q"
proof (induction c arbitrary: q)
  case (Cons f c)
  obtain b a u where f: "f = Fr b a u" by (cases f)
  have "tr h' nil a u = tr h nil a u" by (rule tr_cong) (simp add: Cons.prems f)
  moreover have "links b h' a = links b h a" by (rule links_cong) (simp add: Cons.prems f)
  ultimately show ?case using Cons f by simp
qed simp

lemma hole_frame [simp]: "hole s h (Fr b a u # c) t \<longleftrightarrow> hole s h c (nd b t a u)"
  by (auto simp: hole_def)

lemma hole_plug: "hole s h c t \<longleftrightarrow> hole s h [] (plug c t)"
  by (induction c t rule: plug.induct) simp_all

lemma child_simps [simp]:
  "child c (set_child b q n) = (if c = b then q else child c n)" "child c (set_parent q n) = child c n"
  "child c (set_color k n) = child c n" "sn_parent (set_child b q n) = sn_parent n" "sn_parent (set_parent q n) = q"
  "sn_parent (set_color k n) = sn_parent n" "sn_color (set_child b q n) = sn_color n" "sn_color (set_parent q n) = sn_color n"
  "sn_color (set_color k n) = k" "sn_data (set_child b q n) = sn_data n" "sn_data (set_parent q n) = sn_data n"
  "sn_data (set_color k n) = sn_data n" "sn_left n = child True n" "sn_right n = child False n"
  by (simp_all add: child_def set_child_def set_parent_def set_color_def)

lemma inorder_rot: "inorder (nd b (nd b t x u) y v) = inorder (nd b t x (nd b u y v))"
  by (simp add: nd_def)

lemma rt_in: "rt nil t = nil \<or> rt nil t \<in> set_tree t"
  by (cases t) auto

lemma pa_in: "pa nil c = nil \<or> pa nil c \<in> set (flist c)"
  by (cases "(nil, c)" rule: pa.cases) auto

text \<open>Changing the parent pointer of the root of a tree, and the pointer to a hole.\<close>

lemma tr_parent:
  assumes "tr h nil p t" "distinct (inorder t)" "nil \<notin> set_tree t"
    and "\<And>a. a \<in> set_tree t \<Longrightarrow> a \<noteq> rt nil t \<Longrightarrow> links True h' a = links True h a"
    and "t \<noteq> Leaf \<Longrightarrow> links True h' (rt nil t) = map_option (\<lambda>(_, xy). (q, xy)) (links True h (rt nil t))"
  shows "tr h' nil q t"
proof (cases t)
  case (Node l a r)
  have "tr h' nil a l = tr h nil a l" by (rule tr_cong, rule assms(4)) (use assms(2) Node in auto)
  moreover have "tr h' nil a r = tr h nil a r" by (rule tr_cong, rule assms(4)) (use assms(2) Node in auto)
  ultimately show ?thesis using assms(1,5) Node by auto
qed simp

definition same_cd :: "'a sheap \<Rightarrow> 'a sheap \<Rightarrow> bool" where
  "same_cd h h' \<longleftrightarrow> (\<forall>a. map_option (\<lambda>n. (sn_color n, sn_data n)) (h' a) = map_option (\<lambda>n. (sn_color n, sn_data n)) (h a))"

definition same_set :: "'a coset \<Rightarrow> 'a coset \<Rightarrow> bool" where
  "same_set s s' \<longleftrightarrow> st_nil s' = st_nil s \<and> st_comp s' = st_comp s \<and> st_size s' = st_size s"


lemma hole_apart:
  assumes "hole s h c (nd b t x (nd b u y v))"
  shows "x \<noteq> y" "x \<notin> set_tree t" "x \<notin> set_tree u" "x \<notin> set_tree v" "y \<notin> set_tree t" "y \<notin> set_tree u" "y \<notin> set_tree v"
    "x \<notin> set (flist c)" "y \<notin> set (flist c)" "set_tree t \<inter> set_tree u = {}" "set_tree t \<inter> set_tree v = {}" "set_tree u \<inter> set_tree v = {}"
    "set_tree t \<inter> set (flist c) = {}" "set_tree u \<inter> set (flist c) = {}" "set_tree v \<inter> set (flist c) = {}"
    "st_nil s \<noteq> x" "st_nil s \<noteq> y" "st_nil s \<notin> set_tree t" "st_nil s \<notin> set_tree u" "st_nil s \<notin> set_tree v" "st_nil s \<notin> set (flist c)"
  using assms by (auto simp: hole_def)

text \<open>The writes of a rotation, in order: the subtree between, the two nodes and the node above.\<close>

lemma rot_run:
  assumes ho: "hole s h c (nd b t x (nd b u y v))"
  shows "\<exists>s' h'. coset_rot b s h x = Some (s', h') \<and> same_set s s' \<and> same_cd h h' \<and>
    links b h' x = Some (y, rt (st_nil s) t, rt (st_nil s) u) \<and> links b h' y = Some (pa (st_nil s) c, x, rt (st_nil s) v) \<and>
    (u \<noteq> Leaf \<longrightarrow> links True h' (rt (st_nil s) u) = map_option (\<lambda>(_, xy). (x, xy)) (links True h (rt (st_nil s) u))) \<and>
    (case c of [] \<Rightarrow> st_root s' = y
     | Fr b' a w # _ \<Rightarrow> st_root s' = st_root s \<and> links b' h' a = map_option (\<lambda>(p, _, r). (p, y, r)) (links b' h a)) \<and>
    (\<forall>a. a \<notin> {x, y} \<longrightarrow> (u \<noteq> Leaf \<longrightarrow> a \<noteq> rt (st_nil s) u) \<longrightarrow> (c \<noteq> [] \<longrightarrow> a \<noteq> pa (st_nil s) c) \<longrightarrow> h' a = h a)"
proof -
  let ?nil = "st_nil s"
  note A = hole_apart [OF ho]
  obtain nx ny where nx: "h x = Some nx" "sn_parent nx = pa ?nil c" "child b nx = rt ?nil t" "child (\<not> b) nx = y"
    and ny: "h y = Some ny" "sn_parent ny = x" "child b ny = rt ?nil u" "child (\<not> b) ny = rt ?nil v"
    using ho by (auto simp: hole_def links_Some)
  have z: "u = Leaf \<and> rt ?nil u = ?nil \<or> u \<noteq> Leaf \<and> rt ?nil u \<noteq> ?nil \<and> rt ?nil u \<noteq> x \<and> rt ?nil u \<noteq> y \<and> (\<exists>nz. h (rt ?nil u) = Some nz)"
    using ho A by (cases u) (auto simp: hole_def links_Some)
  have a: "c = [] \<and> st_root s = x \<or> (\<exists>b' a w c' na. c = Fr b' a w # c' \<and> h a = Some na \<and> child b' na = x \<and> (x = child True na) = b' \<and>
      a \<noteq> ?nil \<and> a \<noteq> x \<and> a \<noteq> y \<and> (u \<noteq> Leaf \<longrightarrow> a \<noteq> rt ?nil u))"
  proof (cases c)
    case Nil
    then show ?thesis using ho by (simp add: hole_def)
  next
    case (Cons f c')
    obtain b' a w where f: "f = Fr b' a w" by (cases f)
    obtain na where na: "h a = Some na" "child b' na = x" "child (\<not> b') na = rt ?nil w"
      using ho Cons f by (auto simp: hole_def links_Some)
    have "rt ?nil w \<noteq> x" using rt_in [of ?nil w] A(8,16) Cons f by auto
    then have "(x = child True na) = b'" using na(2,3) by (cases b') auto
    moreover have "a \<noteq> ?nil" "a \<noteq> x" "a \<noteq> y" using A Cons f by auto
    moreover have "u \<noteq> Leaf \<Longrightarrow> a \<noteq> rt ?nil u" using A(14) Cons f by (cases u) auto
    ultimately show ?thesis using Cons f na by blast
  qed
  from z show ?thesis
  proof (elim disjE conjE exE)
    assume u: "u = Leaf" "rt ?nil u = ?nil"
    from a show ?thesis
    proof (elim disjE conjE exE)
      assume c: "c = []" "st_root s = x"
      show ?thesis using nx ny u c A(1,16,17)
        by (simp add: coset_rot_def sn_upd_def same_set_def same_cd_def links_def)
    next
      fix b' a w c' na assume c: "c = Fr b' a w # c'" "h a = Some na" "child b' na = x" "(x = child True na) = b'"
        "a \<noteq> ?nil" "a \<noteq> x" "a \<noteq> y"
      show ?thesis using nx ny u c A(1,16,17)
        by (simp add: coset_rot_def sn_upd_def same_set_def same_cd_def links_def)
    qed
  next
    fix nz assume u: "u \<noteq> Leaf" "rt ?nil u \<noteq> ?nil" "rt ?nil u \<noteq> x" "rt ?nil u \<noteq> y" "h (rt ?nil u) = Some nz"
    from a show ?thesis
    proof (elim disjE conjE exE)
      assume c: "c = []" "st_root s = x"
      show ?thesis using nx ny u c A(1,16,17)
        by (simp add: coset_rot_def sn_upd_def same_set_def same_cd_def links_def)
    next
      fix b' a w c' na assume c: "c = Fr b' a w # c'" "h a = Some na" "child b' na = x" "(x = child True na) = b'"
        "a \<noteq> ?nil" "a \<noteq> x" "a \<noteq> y" "u \<noteq> Leaf \<longrightarrow> a \<noteq> rt ?nil u"
      show ?thesis using nx ny u c A(1,16,17)
        by (simp add: coset_rot_def sn_upd_def same_set_def same_cd_def links_def)
    qed
  qed
qed


lemma same_cd_color: "same_cd h h' \<Longrightarrow> map_option sn_color (h' a) = map_option sn_color (h a)"
  unfolding same_cd_def by (cases "h a"; cases "h' a"; fastforce dest: spec [of _ a])

lemma same_cd_data: "same_cd h h' \<Longrightarrow> map_option sn_data (h' a) = map_option sn_data (h a)"
  unfolding same_cd_def by (cases "h a"; cases "h' a"; fastforce dest: spec [of _ a])

lemma rot_spec:
  assumes ho: "hole s h c (nd b t x (nd b u y v))"
  shows "\<exists>s' h'. coset_rot b s h x = Some (s', h') \<and> same_set s s' \<and> same_cd h h' \<and>
    hole s' h' c (nd b (nd b t x u) y v) \<and>
    (\<forall>a. a \<notin> set_tree (nd b t x (nd b u y v)) \<union> set (flist c) \<longrightarrow> h' a = h a)"
proof -
  let ?nil = "st_nil s"
  note A = hole_apart [OF ho]
  obtain s' h' where r: "coset_rot b s h x = Some (s', h')" "same_set s s'" "same_cd h h'"
    "links b h' x = Some (y, rt ?nil t, rt ?nil u)" "links b h' y = Some (pa ?nil c, x, rt ?nil v)"
    "u \<noteq> Leaf \<longrightarrow> links True h' (rt ?nil u) = map_option (\<lambda>(_, xy). (x, xy)) (links True h (rt ?nil u))"
    "case c of [] \<Rightarrow> st_root s' = y
     | Fr b' a w # _ \<Rightarrow> st_root s' = st_root s \<and> links b' h' a = map_option (\<lambda>(p, _, r). (p, y, r)) (links b' h a)"
    "\<forall>a. a \<notin> {x, y} \<longrightarrow> (u \<noteq> Leaf \<longrightarrow> a \<noteq> rt ?nil u) \<longrightarrow> (c \<noteq> [] \<longrightarrow> a \<noteq> pa ?nil c) \<longrightarrow> h' a = h a"
    using rot_run [OF ho] by blast
  have nil: "st_nil s' = ?nil" using r(2) by (simp add: same_set_def)
  have pc: "c \<noteq> [] \<Longrightarrow> pa ?nil c \<in> set (flist c)" by (cases "(?nil, c)" rule: pa.cases) auto
  have ru: "u \<noteq> Leaf \<Longrightarrow> rt ?nil u \<in> set_tree u" by (cases u) auto
  have keep: "links True h' a = links True h a"
    if "a \<noteq> x" "a \<noteq> y" "u \<noteq> Leaf \<longrightarrow> a \<noteq> rt ?nil u" "c \<noteq> [] \<longrightarrow> a \<noteq> pa ?nil c" for a
    using r(8) that by (simp add: links_def)
  have old: "tr h ?nil x t" "tr h ?nil y u" "tr h ?nil y v" "cx (st_root s) h ?nil c x" using ho by (auto simp: hole_def)
  have "tr h' ?nil x t = tr h ?nil x t" using A pc ru by (intro tr_cong keep) auto
  moreover have "tr h' ?nil y v = tr h ?nil y v" using A pc ru by (intro tr_cong keep) auto
  moreover have "tr h' ?nil x u"
  proof (rule tr_parent [OF old(2)])
    show "distinct (inorder u)" using ho by (simp add: hole_def)
    show "links True h' a = links True h a" if "a \<in> set_tree u" "a \<noteq> rt ?nil u" for a
      using A pc that by (intro keep) auto
  qed (use A(19) r(6) in auto)
  moreover have "cx (st_root s') h' ?nil c y"
  proof (cases c)
    case Nil
    then show ?thesis using r(7) by simp
  next
    case (Cons f c')
    obtain b' a w where f: "f = Fr b' a w" by (cases f)
    have d: "distinct (flist c)" using ho by (simp add: hole_def)
    have "tr h' ?nil a w = tr h ?nil a w" using A pc ru Cons f d by (intro tr_cong keep) auto
    moreover have "cx (st_root s) h' ?nil c' a = cx (st_root s) h ?nil c' a" using A pc ru Cons f d by (intro cx_cong keep) auto
    ultimately show ?thesis using old(4) r(7) Cons f by (auto simp: links_Some)
  qed
  moreover have "map_option sn_color (h' ?nil) = Some 1"
    using same_cd_color [OF r(3)] ho by (simp add: hole_def)
  ultimately have "hole s' h' c (nd b (nd b t x u) y v)"
    using ho r(4,5) old nil unfolding hole_def by auto
  moreover have "h' a = h a" if "a \<notin> set_tree (nd b t x (nd b u y v)) \<union> set (flist c)" for a
    using r(8) that pc ru by auto
  ultimately show ?thesis using r(1-3) by blast
qed

section \<open>Red-black trees\<close>

text \<open>The color of an address, black height and the color invariant of a tree; a context accepts a tree of
  a black height and a root color.\<close>

definition cl :: "'a sheap \<Rightarrow> nat \<Rightarrow> int" where
  "cl h a = (case h a of None \<Rightarrow> 1 | Some n \<Rightarrow> sn_color n)"

fun bh :: "(nat \<Rightarrow> int) \<Rightarrow> nat tree \<Rightarrow> nat" where
  "bh C Leaf = 0"
| "bh C (Node l a r) = (if C a = 1 then Suc (bh C l) else bh C l)"

fun rc :: "(nat \<Rightarrow> int) \<Rightarrow> nat tree \<Rightarrow> int" where
  "rc C Leaf = 1"
| "rc C (Node l a r) = C a"

fun invh :: "(nat \<Rightarrow> int) \<Rightarrow> nat tree \<Rightarrow> bool" where
  "invh C Leaf \<longleftrightarrow> True"
| "invh C (Node l a r) \<longleftrightarrow> bh C l = bh C r \<and> invh C l \<and> invh C r"

fun invc :: "(nat \<Rightarrow> int) \<Rightarrow> nat tree \<Rightarrow> bool" where
  "invc C Leaf \<longleftrightarrow> True"
| "invc C (Node l a r) \<longleftrightarrow> (C a = 1 \<or> C a = 0 \<and> rc C l = 1 \<and> rc C r = 1) \<and> invc C l \<and> invc C r"

fun cok :: "(nat \<Rightarrow> int) \<Rightarrow> frame list \<Rightarrow> nat \<Rightarrow> int \<Rightarrow> bool" where
  "cok C [] n k \<longleftrightarrow> True"
| "cok C (Fr b a u # c) n k \<longleftrightarrow> (C a = 1 \<or> C a = 0 \<and> k = 1 \<and> rc C u = 1) \<and> invc C u \<and> invh C u \<and> bh C u = n \<and>
     cok C c (if C a = 1 then Suc n else n) (C a)"

lemma bh_nd: "bh C t = bh C u \<Longrightarrow> bh C (nd b t a u) = (if C a = 1 then Suc (bh C t) else bh C t)"
  by (simp add: nd_def)

lemma inv_nd [simp]:
  "rc C (nd b t a u) = C a"
  "invh C (nd b t a u) \<longleftrightarrow> bh C t = bh C u \<and> invh C t \<and> invh C u"
  "invc C (nd b t a u) \<longleftrightarrow> (C a = 1 \<or> C a = 0 \<and> rc C t = 1 \<and> rc C u = 1) \<and> invc C t \<and> invc C u"
  by (auto simp: nd_def)

lemma cok_plug: "cok C c (bh C t) (rc C t) \<and> invc C t \<and> invh C t \<longleftrightarrow> invc C (plug c t) \<and> invh C (plug c t)"
proof (induction c t rule: plug.induct)
  case (2 b a u c t)
  show ?case unfolding plug.simps 2 [symmetric] by (auto simp: bh_nd)
qed simp

lemma cok_black: "cok C c n k \<Longrightarrow> cok C c n 1"
  by (cases "(C, c, n, k)" rule: cok.cases) auto

lemma inv_cong:
  assumes "\<And>a. a \<in> set_tree t \<Longrightarrow> C' a = C a"
  shows "bh C' t = bh C t" "rc C' t = rc C t" "invh C' t = invh C t" "invc C' t = invc C t"
  using assms by (induction t) auto

lemma cok_cong: "(\<And>a. a \<in> set (flist c) \<Longrightarrow> C' a = C a) \<Longrightarrow> cok C' c n k = cok C c n k"
proof (induction C c n k rule: cok.induct)
  case (2 C b a u c n k)
  have "bh C' u = bh C u" "rc C' u = rc C u" "invh C' u = invh C u" "invc C' u = invc C u"
    using 2(2) by (intro inv_cong; simp)+
  then show ?case using 2 by simp
qed simp

text \<open>The nodes before and after a hole in the order.\<close>

fun lf :: "frame list \<Rightarrow> nat list" where
  "lf [] = []"
| "lf (Fr b a u # c) = (if b then lf c else lf c @ inorder u @ [a])"

fun rg :: "frame list \<Rightarrow> nat list" where
  "rg [] = []"
| "rg (Fr b a u # c) = (if b then a # inorder u @ rg c else rg c)"

lemma inorder_ctx: "inorder (plug c t) = lf c @ inorder t @ rg c"
  by (induction c t rule: plug.induct) (auto simp: nd_def)

end
