(* ===== verification/SetRepair.thy ===== *)
theory SetRepair
  imports SetTree
begin

text \<open>
  The loops of \<open>src/co_set.c\<close> that restore the colors of the tree after an insertion and after a
  deletion: both end, keep the order and the data of the nodes and give a red-black tree again.
\<close>


section \<open>The repair after an insertion\<close>

text \<open>A change of colors, links and the root that keeps the data, inside the nodes \<open>A\<close>.\<close>

definition reshapes :: "nat set \<Rightarrow> 'a coset \<Rightarrow> 'a sheap \<Rightarrow> 'a coset \<Rightarrow> 'a sheap \<Rightarrow> bool" where
  "reshapes A s h s' h' \<longleftrightarrow> same_set s s' \<and> (\<forall>a. map_option sn_data (h' a) = map_option sn_data (h a)) \<and>
     (\<forall>a. a \<notin> A \<longrightarrow> h' a = h a)"

lemma reshapes_trans: "reshapes A s h s1 h1 \<Longrightarrow> reshapes A s1 h1 s2 h2 \<Longrightarrow> reshapes A s h s2 h2"
  by (simp add: reshapes_def same_set_def)

lemma reshapes_refl [simp]: "reshapes A s h s h"
  by (simp add: reshapes_def same_set_def)

lemma reshapes_paint: "h a = Some n \<Longrightarrow> a \<in> A \<Longrightarrow> reshapes A s h s (h(a \<mapsto> set_color k n))"
  by (simp add: reshapes_def same_set_def)

lemma reshapes_nil: "reshapes A s h s' h' \<Longrightarrow> st_nil s' = st_nil s"
  by (simp add: reshapes_def same_set_def)

lemma cl_paint [simp]: "cl (h(a \<mapsto> set_color k n)) = (cl h)(a := k)"
  by (auto simp: cl_def fun_eq_iff)

lemma links_paint: "h a = Some n \<Longrightarrow> links b (h(a \<mapsto> set_color k n)) x = links b h x"
  by (simp add: links_def)

lemma hole_paint:
  assumes "hole s h c t" "h a = Some n" "a \<noteq> st_nil s \<or> k = 1"
  shows "hole s (h(a \<mapsto> set_color k n)) c t"
proof -
  have "tr (h(a \<mapsto> set_color k n)) (st_nil s) p u = tr h (st_nil s) p u" for p u
    by (rule tr_cong) (rule links_paint [where h = h and a = a, OF assms(2)])
  moreover have "cx (st_root s) (h(a \<mapsto> set_color k n)) (st_nil s) c q = cx (st_root s) h (st_nil s) c q" for q
    by (rule cx_cong) (rule links_paint [where h = h and a = a, OF assms(2)])
  ultimately show ?thesis using assms by (auto simp: hole_def)
qed

lemma same_cd_cl: "same_cd h h' \<Longrightarrow> cl h' = cl h"
proof
  fix a assume "same_cd h h'"
  from same_cd_color [OF this, of a] show "cl h' a = cl h a" by (auto simp: cl_def split: option.splits)
qed

lemma set_plug: "set_tree (plug c t) = set_tree t \<union> set (flist c)"
  by (induction c t rule: plug.induct) auto

lemma rot_reshapes:
  assumes "hole s h c (nd b t x (nd b u y v))" "set_tree (plug c (nd b t x (nd b u y v))) \<subseteq> A"
  shows "\<exists>s' h'. coset_rot b s h x = Some (s', h') \<and> reshapes A s h s' h' \<and> cl h' = cl h \<and>
    hole s' h' c (nd b (nd b t x u) y v)"
proof -
  obtain s' h' where r: "coset_rot b s h x = Some (s', h')" "same_set s s'" "same_cd h h'" "hole s' h' c (nd b (nd b t x u) y v)"
    "\<forall>a. a \<notin> set_tree (nd b t x (nd b u y v)) \<union> set (flist c) \<longrightarrow> h' a = h a"
    using rot_spec [OF assms(1)] by blast
  have "reshapes A s h s' h'"
    unfolding reshapes_def
  proof (intro conjI allI impI)
    fix a assume "a \<notin> A"
    then show "h' a = h a" using r(5) assms(2) unfolding set_plug by blast
  qed (use r(2) same_cd_data [OF r(3)] in auto)
  then show ?thesis using r(1,4) same_cd_cl [OF r(3)] by blast
qed


lemma inorder_plug: "inorder t = inorder t' \<Longrightarrow> inorder (plug c t) = inorder (plug c t')"
proof (induction c arbitrary: t t')
  case (Cons f c)
  obtain b a u where f: "f = Fr b a u" by (cases f)
  have "inorder (nd b t a u) = inorder (nd b t' a u)" using Cons.prems by (simp add: nd_def)
  then show ?case unfolding f plug.simps by (rule Cons.IH)
qed simp

lemma rot_leftright: "(if b then coset_leftrot s h x else coset_rightrot s h x) = coset_rot b s h x"
  "(if b then coset_rightrot s h x else coset_leftrot s h x) = coset_rot (\<not> b) s h x"
  by (simp_all add: coset_leftrot_def coset_rightrot_def)

text \<open>What a hole tells of the node above it and of the two nodes above it.\<close>

lemma hole_nodes:
  assumes "hole s h c t"
  shows "t \<noteq> Leaf \<Longrightarrow> \<exists>n. h (rt (st_nil s) t) = Some n \<and> sn_parent n = pa (st_nil s) c"
    and "cl h (rt (st_nil s) t) = rc (cl h) t" "\<exists>m. h (st_nil s) = Some m \<and> sn_color m = 1"
    "c = [] \<Longrightarrow> st_root s = rt (st_nil s) t"
proof -
  show m: "\<exists>m. h (st_nil s) = Some m \<and> sn_color m = 1" using assms by (auto simp: hole_def)
  show "t \<noteq> Leaf \<Longrightarrow> \<exists>n. h (rt (st_nil s) t) = Some n \<and> sn_parent n = pa (st_nil s) c"
    using assms by (cases t) (auto simp: hole_def links_Some)
  show "cl h (rt (st_nil s) t) = rc (cl h) t" using m by (cases t) (auto simp: cl_def)
  show "c = [] \<Longrightarrow> st_root s = rt (st_nil s) t" using assms by (simp add: hole_def)
qed


lemma nd_side: "nd b t a u = (if b = d then nd d t a u else nd d u a t)"
  by (simp add: nd_def)

lemma hole_cons:
  assumes "hole s h (Fr b g u # c) t"
  obtains n where "h g = Some n" "sn_parent n = pa (st_nil s) c" "child b n = rt (st_nil s) t" "child (\<not> b) n = rt (st_nil s) u"
    "g \<noteq> st_nil s" "hole s h c (nd b t g u)" "t \<noteq> Leaf \<longrightarrow> (rt (st_nil s) t = child True n) = b"
proof -
  obtain n where n: "h g = Some n" "sn_parent n = pa (st_nil s) c" "child b n = rt (st_nil s) t" "child (\<not> b) n = rt (st_nil s) u"
    using assms by (auto simp: hole_def links_Some)
  have "rt (st_nil s) t \<noteq> rt (st_nil s) u" if "t \<noteq> Leaf"
    using that assms rt_in [of "st_nil s" u] by (cases t) (auto simp: hole_def)
  then have "t \<noteq> Leaf \<longrightarrow> (rt (st_nil s) t = child True n) = b" using n(3,4) by (cases b) auto
  moreover have "g \<noteq> st_nil s" using assms by (auto simp: hole_def)
  ultimately show thesis using that n assms by simp
qed

lemma insert_case3_spec:
  assumes ho: "hole s h (Fr b p u # Fr b g w # c) t" and t: "t \<noteq> Leaf" and A: "set_tree (plug (Fr b p u # Fr b g w # c) t) \<subseteq> A"
  shows "\<exists>s' h'. insert_case3 b s h (rt (st_nil s) t) = Some (s', h') \<and> reshapes A s h s' h' \<and>
    cl h' = (cl h)(p := 1, g := 0) \<and> hole s' h' (Fr b p (nd b u g w) # c) t"
proof -
  let ?nil = "st_nil s"
  obtain n where n: "h (rt ?nil t) = Some n" "sn_parent n = p" using hole_nodes(1) [OF ho t] by auto
  obtain m where m: "h p = Some m" "sn_parent m = g" "p \<noteq> ?nil" using hole_cons [OF ho] by auto
  have ho2: "hole s h (Fr b g w # c) (nd b t p u)" using ho by simp
  obtain k where k: "h g = Some k" "g \<noteq> ?nil" using hole_cons [OF ho2] by blast
  have pg: "p \<noteq> g" using ho by (auto simp: hole_def)
  define h2 where "h2 = h(p \<mapsto> set_color 1 m, g \<mapsto> set_color 0 k)"
  have h1: "hole s (h(p \<mapsto> set_color 1 m)) (Fr b p u # Fr b g w # c) t" by (rule hole_paint [OF ho m(1)]) simp
  have "hole s h2 (Fr b p u # Fr b g w # c) t" unfolding h2_def by (rule hole_paint [OF h1]) (use pg k in auto)
  then have "hole s h2 c (nd (\<not> b) w g (nd (\<not> b) u p t))" by (simp add: nd_flip)
  moreover have "nd (\<not> b) w g (nd (\<not> b) u p t) = nd b (nd b t p u) g w" by (simp add: nd_flip)
  ultimately obtain s' h' where r: "coset_rot (\<not> b) s h2 g = Some (s', h')" "reshapes A s h2 s' h'" "cl h' = cl h2"
    "hole s' h' c (nd (\<not> b) (nd (\<not> b) w g u) p t)"
    using rot_reshapes [of s h2 c "\<not> b" w g u p t A] A by auto
  have "reshapes A s h s h2"
    unfolding h2_def using m(1) k(1) pg A by (intro reshapes_trans [OF reshapes_paint reshapes_paint]) (auto simp: set_plug)
  moreover have "insert_case3 b s h (rt ?nil t) = coset_rot (\<not> b) s h2 g"
    unfolding insert_case3_def rot_leftright using n m k pg by (cases "rt ?nil t = p") (auto simp: sn_upd_def h2_def)
  moreover have "cl h2 = (cl h)(p := 1, g := 0)" by (simp add: h2_def)
  ultimately show ?thesis using r reshapes_trans by (auto simp: nd_flip)
qed

lemma insert_case2_spec:
  assumes ho: "hole s h (Fr b' p u # Fr b g w # c) (nd b ta a tb)" and A: "set_tree (plug (Fr b' p u # Fr b g w # c) (nd b ta a tb)) \<subseteq> A"
  shows "\<exists>s' h' q v t'. insert_case2 b s h a = Some (s', h', rt (st_nil s) t') \<and> reshapes A s h s' h' \<and> cl h' = cl h \<and> t' \<noteq> Leaf \<and>
    hole s' h' (Fr b q v # Fr b g w # c) t' \<and>
    (if b' = b then q = p \<and> v = u \<and> t' = nd b ta a tb else q = a \<and> v = tb \<and> t' = nd b u p ta)"
proof -
  let ?nil = "st_nil s"
  obtain n where n: "h a = Some n" "sn_parent n = p" using hole_nodes(1) [OF ho] by auto
  obtain m where m: "h p = Some m" "child b' m = a" "child (\<not> b') m = rt ?nil u" using hole_cons [OF ho] by auto
  have au: "a \<noteq> rt ?nil u" using ho rt_in [of ?nil u] by (auto simp: hole_def)
  show ?thesis
  proof (cases "b' = b")
    case True
    then have "insert_case2 b s h a = Some (s, h, a)" using n m au by (simp add: insert_case2_def)
    then show ?thesis using True ho by (intro exI [of _ s] exI [of _ h]) auto
  next
    case False
    then have b: "b' = (\<not> b)" by simp
    have "nd b' (nd b ta a tb) p u = nd b u p (nd b ta a tb)" unfolding b by (simp add: nd_flip)
    then have "hole s h (Fr b g w # c) (nd b u p (nd b ta a tb))" using ho by simp
    moreover have "set_tree (plug (Fr b g w # c) (nd b u p (nd b ta a tb))) \<subseteq> A" using A unfolding b by (simp add: nd_flip)
    ultimately obtain s' h' where r: "coset_rot b s h p = Some (s', h')" "reshapes A s h s' h'" "cl h' = cl h"
      "hole s' h' (Fr b g w # c) (nd b (nd b u p ta) a tb)"
      using rot_reshapes by blast
    have "insert_case2 b s h a = Some (s', h', p)" using n m au r(1) b by (simp add: insert_case2_def rot_leftright)
    then show ?thesis using r False by (intro exI [of _ s'] exI [of _ h'] exI [of _ a] exI [of _ tb] exI [of _ "nd b u p ta"]) auto
  qed
qed


definition rbt :: "(nat \<Rightarrow> int) \<Rightarrow> nat tree \<Rightarrow> bool" where
  "rbt C t \<longleftrightarrow> invc C t \<and> invh C t \<and> rc C t = 1"

fun rblack :: "(nat \<Rightarrow> int) \<Rightarrow> frame list \<Rightarrow> bool" where
  "rblack C [] \<longleftrightarrow> True"
| "rblack C [Fr b a u] \<longleftrightarrow> C a = 1"
| "rblack C (f # g # c) \<longleftrightarrow> rblack C (g # c)"

lemma rblack_cong: "(\<And>a. a \<in> set (flist c) \<Longrightarrow> C' a = C a) \<Longrightarrow> rblack C' c = rblack C c"
proof (induction C c rule: rblack.induct)
  case (3 C f g c)
  then show ?case by (cases f) auto
qed auto

lemma inv_upd [simp]:
  "a \<notin> set_tree t \<Longrightarrow> bh (C(a := k)) t = bh C t" "a \<notin> set_tree t \<Longrightarrow> rc (C(a := k)) t = rc C t"
  "a \<notin> set_tree t \<Longrightarrow> invh (C(a := k)) t = invh C t" "a \<notin> set_tree t \<Longrightarrow> invc (C(a := k)) t = invc C t"
  by (rule inv_cong; auto)+

lemma cok_upd [simp]:
  "a \<notin> set (flist c) \<Longrightarrow> cok (C(a := k)) c n j = cok C c n j" "a \<notin> set (flist c) \<Longrightarrow> rblack (C(a := k)) c = rblack C c"
  by (rule cok_cong rblack_cong; auto)+

lemma rblack_above: "rblack C (Fr b a u # c) \<Longrightarrow> C a = 0 \<Longrightarrow> \<exists>b' g w c'. c = Fr b' g w # c'"
  by (cases c) (auto, metis frame.exhaust)

lemma rblack_tail: "rblack C (f # c) \<Longrightarrow> rblack C c"
  by (cases c) auto

lemma rblack_Cons: "rblack C (Fr b a u # c) \<longleftrightarrow> (if c = [] then C a = 1 else rblack C c)"
  by (cases c) auto

lemma invc_rc: "invc C t \<Longrightarrow> rc C t = 0 \<or> rc C t = 1"
  by (cases t) auto

lemma paint_root:
  assumes ho: "hole s h [] T" and inv: "invc (cl h) T" "invh (cl h) T" and A: "set_tree T \<subseteq> A" "T = Leaf \<Longrightarrow> st_nil s \<in> A"
  shows "\<exists>h'. sn_upd h (rt (st_nil s) T) (set_color 1) = Some h' \<and> reshapes A s h s h' \<and> hole s h' [] T \<and> rbt (cl h') T"
proof (cases T)
  case Leaf
  obtain m where m: "h (st_nil s) = Some m" using hole_nodes(3) [OF ho] by blast
  then show ?thesis using Leaf hole_paint [OF ho m, of 1] reshapes_paint [where h = h, OF m, of A s 1] A(2)
    by (auto simp: sn_upd_def rbt_def)
next
  case (Node l a r)
  obtain m where m: "h a = Some m" using hole_nodes(1) [OF ho] Node by auto
  have a: "a \<noteq> st_nil s" "a \<notin> set_tree l" "a \<notin> set_tree r" using ho Node by (auto simp: hole_def)
  have "bh ((cl h)(a := 1)) l = bh (cl h) l" "invh ((cl h)(a := 1)) l = invh (cl h) l" "invc ((cl h)(a := 1)) l = invc (cl h) l"
    "bh ((cl h)(a := 1)) r = bh (cl h) r" "invh ((cl h)(a := 1)) r = invh (cl h) r" "invc ((cl h)(a := 1)) r = invc (cl h) r"
    using a by simp_all
  then show ?thesis using Node m hole_paint [OF ho m, of 1] a(1) inv reshapes_paint [where h = h, OF m, of A s 1] A(1)
    by (auto simp: sn_upd_def rbt_def)
qed

lemma hole_other:
  assumes "hole s h (Fr b g w # c) t"
  shows "\<exists>x. h (rt (st_nil s) w) = Some x \<and> sn_color x = rc (cl h) w"
proof (cases w)
  case Leaf
  then show ?thesis using hole_nodes(3) [OF assms] by auto
next
  case (Node l a r)
  then show ?thesis using assms by (auto simp: hole_def cl_def links_Some)
qed

lemma insert_fixup_spec:
  assumes "hole s h c t" "t \<noteq> Leaf" "rc (cl h) t = 0" "invc (cl h) t" "invh (cl h) t" "cok (cl h) c (bh (cl h) t) 1" "rblack (cl h) c"
    and "set_tree (plug c t) \<subseteq> A"
  shows "\<exists>s' h' T. insert_fixup s h (rt (st_nil s) t) = Some (s', h') \<and> reshapes A s h s' h' \<and> hole s' h' [] T \<and>
    inorder T = inorder (plug c t) \<and> rbt (cl h') T"
  using assms
proof (induction "length c" arbitrary: s h c t rule: less_induct)
  case less
  let ?nil = "st_nil s" and ?C = "cl h"
  note ho = less.prems(1)
  obtain n where n: "h (rt ?nil t) = Some n" "sn_parent n = pa ?nil c" using hole_nodes(1) [OF ho less.prems(2)] by blast
  have fin: ?case if p: "h (pa ?nil c) = Some p" "sn_color p \<noteq> 0" and cok: "cok ?C c (bh ?C t) (rc ?C t)" for p
  proof -
    have T: "hole s h [] (plug c t)" using ho hole_plug [of s h c t] by blast
    have "invc ?C (plug c t)" "invh ?C (plug c t)" using cok_plug [of ?C c t] cok less.prems(4,5) by auto
    moreover have "plug c t \<noteq> Leaf" using less.prems(2) set_plug [of c t] by (cases t) auto
    ultimately obtain h' where h': "sn_upd h (st_root s) (set_color 1) = Some h'" "reshapes A s h s h'" "hole s h' [] (plug c t)"
      "rbt (cl h') (plug c t)"
      using paint_root [OF T _ _ less.prems(8)] hole_nodes(4) [OF T] by auto
    then have "insert_fixup s h (rt ?nil t) = Some (s, h')"
      using n p by (subst insert_fixup.simps) simp
    then show ?thesis using h' by blast
  qed
  show ?case
  proof (cases c)
    case Nil
    obtain m where "h ?nil = Some m" "sn_color m = 1" using hole_nodes(3) [OF ho] by blast
    then show ?thesis using fin Nil by simp
  next
    case (Cons f c1)
    obtain b' p u where f: "f = Fr b' p u" by (cases f)
    obtain m where m: "h p = Some m" "sn_parent m = pa ?nil c1" "child b' m = rt ?nil t" "p \<noteq> ?nil"
      using hole_cons [OF ho [unfolded Cons f]] by blast
    show ?thesis
    proof (cases "?C p = 0")
      case False
      then have "?C p = 1" "sn_color m = 1" using less.prems(6) Cons f m(1) by (auto simp: cl_def)
      then show ?thesis using fin m(1) less.prems(6) Cons f by simp
    next
      case True
      then obtain b g w c2 where c1: "c1 = Fr b g w # c2"
        using rblack_above [of ?C b' p u c1] less.prems(7) Cons f True by blast
      have c: "c = Fr b' p u # Fr b g w # c2" using Cons f c1 by simp
      have ho1: "hole s h (Fr b g w # c2) (nd b' t p u)" using ho c by simp
      obtain k where k: "h g = Some k" "sn_parent k = pa ?nil c2" "child b k = rt ?nil (nd b' t p u)" "child (\<not> b) k = rt ?nil w"
        "g \<noteq> ?nil" "hole s h c2 (nd b (nd b' t p u) g w)" "nd b' t p u \<noteq> Leaf \<longrightarrow> (rt ?nil (nd b' t p u) = child True k) = b"
        using hole_cons [OF ho1] .
      then have kb: "(p = child True k) = b" by simp
      have mp: "sn_color m = 0" "sn_parent m = g" using True m(1,2) c1 by (simp_all add: cl_def)
      have C: "?C g = 1" "rc ?C u = 1" "invc ?C u" "invh ?C u" "bh ?C u = bh ?C t" "invc ?C w" "invh ?C w" "bh ?C w = bh ?C t"
        "cok ?C c2 (Suc (bh ?C t)) 1"
        using less.prems(6) True c by auto
      obtain x where x: "h (rt ?nil w) = Some x" "sn_color x = rc ?C w" using hole_other [OF ho1] by blast
      show ?thesis
      proof (cases "rc ?C w = 0")
        case True
        then obtain wl z wr where w: "w = Node wl z wr" by (cases w) auto
        have ne: "p \<noteq> g" "p \<noteq> z" "g \<noteq> z" "z \<noteq> ?nil" using ho c w by (auto simp: hole_def)
        define h1 where "h1 = h(p \<mapsto> set_color 1 m)"
        define h2 where "h2 = h1(z \<mapsto> set_color 1 x)"
        define h3 where "h3 = h2(g \<mapsto> set_color 0 k)"
        have hs: "h1 z = Some x" "h2 g = Some k" using ne x(1) k(1) w by (simp_all add: h1_def h2_def)
        have "hole s h1 c t" unfolding h1_def by (rule hole_paint [OF ho m(1)]) simp
        then have "hole s h2 c t" unfolding h2_def by (rule hole_paint [where h = h1, OF _ hs(1)]) simp
        then have "hole s h3 c t" unfolding h3_def by (rule hole_paint [where h = h2, OF _ hs(2)]) (use k in simp)
        then have g3: "hole s h3 c2 (nd b (nd b' t p u) g w)" using c by simp
        have cl3: "cl h3 = ?C(p := 1, z := 1, g := 0)" by (simp add: h1_def h2_def h3_def)
        have A3: "set_tree (plug c2 (nd b (nd b' t p u) g w)) \<subseteq> A" using less.prems(8) c by simp
        have dis: "p \<notin> set_tree t" "z \<notin> set_tree t" "g \<notin> set_tree t" "p \<notin> set_tree u" "z \<notin> set_tree u" "g \<notin> set_tree u"
          "p \<notin> set_tree wl" "z \<notin> set_tree wl" "g \<notin> set_tree wl" "p \<notin> set_tree wr" "z \<notin> set_tree wr" "g \<notin> set_tree wr"
          "p \<notin> set (flist c2)" "z \<notin> set (flist c2)" "g \<notin> set (flist c2)"
          using ho c w by (auto simp: hole_def)
        have Cz: "?C z = 0" using True w by simp
        have bt: "bh (cl h3) (nd b' t p u) = Suc (bh ?C t)" "bh (cl h3) w = Suc (bh ?C t)"
          using ne dis C w Cz by (simp_all add: cl3 bh_nd)
        have it: "invc (cl h3) (nd b' t p u)" "invh (cl h3) (nd b' t p u)" "invc (cl h3) w" "invh (cl h3) w"
          using ne dis C w Cz less.prems(4,5) by (simp_all add: cl3)
        have Cs: "cl h3 g = 0" "cl h3 p = 1" "rc (cl h3) w = 1" using ne w by (simp_all add: cl3)
        have ck: "cok (cl h3) c2 (Suc (bh ?C t)) 1" "rblack (cl h3) c2"
          using C(9) less.prems(7) dis c rblack_tail by (auto simp: cl3 dest: rblack_tail)
        obtain s' h' T where r: "insert_fixup s h3 g = Some (s', h')" "reshapes A s h3 s' h'" "hole s' h' [] T"
          "inorder T = inorder (plug c2 (nd b (nd b' t p u) g w))" "rbt (cl h') T"
          using less.hyps [OF _ g3] bt it Cs ck A3 c by (auto simp: bh_nd)
        have "insert_fixup s h (rt ?nil t) = insert_fixup s h3 g"
          using n m k kb x mp True C(1) c hs ne
          by (subst insert_fixup.simps) (simp add: sn_upd_def h1_def h2_def h3_def w cl_def)
        moreover have "reshapes A s h s h3"
          unfolding h3_def h2_def h1_def using less.prems(8) c w m(1) hs
          by (intro reshapes_trans [OF reshapes_trans [OF reshapes_paint reshapes_paint] reshapes_paint]) (auto simp: set_plug h1_def h2_def)
        ultimately show ?thesis using r c reshapes_trans [of A s h s h3] by auto
      next
        case False
        obtain ta a tb where t: "t = nd b ta a tb" using nd_cases [of t b] less.prems(2) by blast
        have ne: "p \<noteq> g" "a \<noteq> p" "a \<noteq> g" using ho c t by (auto simp: hole_def)
        have dis: "a \<notin> set_tree ta" "a \<notin> set_tree tb" "a \<notin> set_tree u" "a \<notin> set_tree w" "p \<notin> set_tree ta" "p \<notin> set_tree tb"
          "p \<notin> set_tree u" "p \<notin> set_tree w" "g \<notin> set_tree ta" "g \<notin> set_tree tb" "g \<notin> set_tree u" "g \<notin> set_tree w"
          "p \<notin> set (flist c2)" "a \<notin> set (flist c2)" "g \<notin> set (flist c2)"
          using ho c t by (auto simp: hole_def)
        have rw: "rc ?C w = 1" using False invc_rc [OF C(6)] by simp
        have Ct: "?C a = 0" "rc ?C ta = 1" "rc ?C tb = 1" "invc ?C ta" "invc ?C tb" "invh ?C ta" "invh ?C tb" "bh ?C ta = bh ?C t"
          "bh ?C tb = bh ?C t"
          using less.prems(3-5) t by (auto simp: bh_nd)
        have Cp: "?C p = 0" using mp m(1) by (simp add: cl_def)
        obtain s1 h1 q v t1 where 1: "insert_case2 b s h a = Some (s1, h1, rt ?nil t1)" "reshapes A s h s1 h1" "cl h1 = ?C" "t1 \<noteq> Leaf"
          "hole s1 h1 (Fr b q v # Fr b g w # c2) t1"
          "if b' = b then q = p \<and> v = u \<and> t1 = nd b ta a tb else q = a \<and> v = tb \<and> t1 = nd b u p ta"
          using insert_case2_spec [of s h b' p u b g w c2 ta a tb A] ho less.prems(8) unfolding c t by blast
        have nil1: "st_nil s1 = ?nil" using reshapes_nil [OF 1(2)] .
        have i1: "inorder (plug (Fr b q v # Fr b g w # c2) t1) = inorder (plug c t)"
          unfolding c plug.simps by (rule inorder_plug) (use 1(6) t in \<open>auto simp: nd_def split: if_splits\<close>)
        then have A1: "set_tree (plug (Fr b q v # Fr b g w # c2) t1) \<subseteq> A"
          using less.prems(8) by (metis set_inorder)
        obtain s2 h2 where 2: "insert_case3 b s1 h1 (rt ?nil t1) = Some (s2, h2)" "reshapes A s1 h1 s2 h2"
          "cl h2 = ?C(q := 1, g := 0)" "hole s2 h2 (Fr b q (nd b v g w) # c2) t1"
          using insert_case3_spec [OF 1(5,4) A1] 1(3) nil1 by auto
        have i2: "inorder (plug (Fr b q (nd b v g w) # c2) t1) = inorder (plug c t)"
          unfolding i1 [symmetric] plug.simps by (rule inorder_plug) (auto simp: nd_def)
        then have A2: "set_tree (plug (Fr b q (nd b v g w) # c2) t1) \<subseteq> A"
          using less.prems(8) by (metis set_inorder)
        have t1: "rc (cl h2) t1 = 0" "invc (cl h2) t1" "invh (cl h2) t1" "bh (cl h2) t1 = bh ?C t"
        proof -
          have "rc (cl h2) t1 = 0 \<and> invc (cl h2) t1 \<and> invh (cl h2) t1 \<and> bh (cl h2) t1 = bh ?C t"
          proof (cases "b' = b")
            case True
            then have e: "q = p" "t1 = nd b ta a tb" using 1(6) by simp_all
            show ?thesis unfolding 2(3) e using ne dis Ct by (simp add: bh_nd)
          next
            case False
            then have e: "q = a" "t1 = nd b u p ta" using 1(6) by simp_all
            show ?thesis unfolding 2(3) e using ne dis Ct C(2-5) Cp by (simp add: bh_nd)
          qed
          then show "rc (cl h2) t1 = 0" "invc (cl h2) t1" "invh (cl h2) t1" "bh (cl h2) t1 = bh ?C t" by blast+
        qed
        have v: "rc (cl h2) v = 1" "invc (cl h2) v" "invh (cl h2) v" "bh (cl h2) v = bh ?C t" "rc (cl h2) w = 1" "invc (cl h2) w"
          "invh (cl h2) w" "bh (cl h2) w = bh ?C t" "cl h2 q = 1" "cl h2 g = 0"
          using 1(6) ne dis C Ct rw by (auto simp: 2(3) split: if_splits)
        have q: "q \<notin> set (flist c2)" using 1(6) dis by (auto split: if_splits)
        have ck: "cok (cl h2) (Fr b q (nd b v g w) # c2) (bh (cl h2) t1) 1"
          using v C(9) q dis by (simp add: bh_nd t1(4)) (simp add: 2(3))
        have rb: "rblack (cl h2) (Fr b q (nd b v g w) # c2)"
          using less.prems(7) v(9) q dis unfolding c rblack_Cons by (simp add: 2(3) split: if_splits)
        have "length (Fr b q (nd b v g w) # c2) < length c" using c by simp
        from less.hyps [OF this 2(4) 1(4) t1(1-3) ck rb A2] obtain s' h' T where
          r: "insert_fixup s2 h2 (rt (st_nil s2) t1) = Some (s', h')" "reshapes A s2 h2 s' h'" "hole s' h' [] T"
          "inorder T = inorder (plug c t)" "rbt (cl h') T" unfolding i2 by blast
        have "insert_fixup s h (rt ?nil t) = insert_fixup s2 h2 (rt (st_nil s2) t1)"
          using n m k kb x mp False c 1(1) 2(1) t reshapes_nil [OF 2(2)] nil1
          by (subst insert_fixup.simps) (simp add: cl_def)
        moreover have "reshapes A s h s' h'" using reshapes_trans [OF reshapes_trans [OF 1(2) 2(2)] r(2)] .
        ultimately show ?thesis using r by auto
      qed
    qed
  qed
qed

lemma rc_plug: "rblack C c \<longleftrightarrow> c = [] \<or> rc C (plug c t) = 1"
proof (induction c arbitrary: t)
  case (Cons f c)
  obtain b a u where f: "f = Fr b a u" by (cases f)
  show ?case using Cons.IH [of "nd b t a u"] by (simp add: f rblack_Cons)
qed simp


section \<open>The repair after a deletion\<close>

text \<open>The node that lacks a black may be \<open>nil\<close>, whose parent pointer was set for it.\<close>

definition par_ok :: "'a coset \<Rightarrow> 'a sheap \<Rightarrow> frame list \<Rightarrow> nat tree \<Rightarrow> bool" where
  "par_ok s h c t \<longleftrightarrow> map_option sn_parent (h (rt (st_nil s) t)) = Some (pa (st_nil s) c)"

lemma par_okD: "par_ok s h c t \<Longrightarrow> \<exists>n. h (rt (st_nil s) t) = Some n \<and> sn_parent n = pa (st_nil s) c"
  by (auto simp: par_ok_def)

lemma par_ok_tree: "hole s h c t \<Longrightarrow> t \<noteq> Leaf \<Longrightarrow> par_ok s h c t"
  using hole_nodes(1) by (fastforce simp: par_ok_def)

lemma par_ok_keep:
  assumes "reshapes A s h s' h'" "st_nil s \<notin> A" "par_ok s h c t" "hole s' h' c' t" "pa (st_nil s) c' = pa (st_nil s) c"
  shows "par_ok s' h' c' t"
proof (cases t)
  case Leaf
  then show ?thesis using assms by (simp add: par_ok_def reshapes_def same_set_def)
next
  case (Node l a r)
  then show ?thesis using par_ok_tree [OF assms(4)] by simp
qed

lemma reshapes_mono: "reshapes A s h s' h' \<Longrightarrow> A \<subseteq> B \<Longrightarrow> reshapes B s h s' h'"
  by (auto simp: reshapes_def)

lemma tr_color:
  assumes "tr h (st_nil s) p u" "hole s h c t" "st_nil s \<notin> set_tree u"
  shows "\<exists>x. h (rt (st_nil s) u) = Some x \<and> sn_color x = rc (cl h) u"
proof (cases u)
  case Leaf
  then show ?thesis using hole_nodes(3) [OF assms(2)] by auto
next
  case (Node l a r)
  then show ?thesis using assms by (auto simp: cl_def links_Some)
qed

lemma hole_sibling:
  assumes "hole s h (Fr b p w # c) t" "w = nd b w1 z w2"
  shows "\<exists>n. h z = Some n \<and> sn_parent n = p \<and> child b n = rt (st_nil s) w1 \<and> child (\<not> b) n = rt (st_nil s) w2 \<and> z \<noteq> st_nil s \<and>
    sn_color n = cl h z" "hole s h (Fr (\<not> b) p t # c) w"
    "\<exists>x. h (rt (st_nil s) w1) = Some x \<and> sn_color x = rc (cl h) w1" "\<exists>x. h (rt (st_nil s) w2) = Some x \<and> sn_color x = rc (cl h) w2"
proof -
  show w: "hole s h (Fr (\<not> b) p t # c) w" using assms(1) by (simp add: nd_flip)
  then have "tr h (st_nil s) p (nd b w1 z w2)" "st_nil s \<notin> set_tree (nd b w1 z w2)" using assms(2) by (auto simp: hole_def)
  then show "\<exists>n. h z = Some n \<and> sn_parent n = p \<and> child b n = rt (st_nil s) w1 \<and> child (\<not> b) n = rt (st_nil s) w2 \<and> z \<noteq> st_nil s \<and>
      sn_color n = cl h z"
    and "\<exists>x. h (rt (st_nil s) w1) = Some x \<and> sn_color x = rc (cl h) w1" "\<exists>x. h (rt (st_nil s) w2) = Some x \<and> sn_color x = rc (cl h) w2"
    using tr_color [of h s z w1, OF _ assms(1)] tr_color [of h s z w2, OF _ assms(1)] by (auto simp: links_Some cl_def)
qed

lemma delete_case1_spec:
  assumes ho: "hole s h (Fr b p w # c) t" and w: "w = nd b w1 z w2" and pn: "par_ok s h (Fr b p w # c) t"
    and A: "set_tree (plug (Fr b p w # c) t) \<subseteq> A" "st_nil s \<notin> A"
  shows "\<exists>s' h' c' w'. delete_case1 b s h (rt (st_nil s) t) = Some (s', h', rt (st_nil s) w') \<and> reshapes A s h s' h' \<and>
    hole s' h' (Fr b p w' # c') t \<and> par_ok s' h' (Fr b p w' # c') t \<and>
    (if cl h z = 0 then w' = w1 \<and> c' = Fr b z w2 # c \<and> cl h' = (cl h)(z := 1, p := 0) else w' = w \<and> c' = c \<and> cl h' = cl h)"
proof -
  let ?nil = "st_nil s"
  obtain n where n: "h (rt ?nil t) = Some n" "sn_parent n = p" using par_okD [OF pn] by auto
  obtain m where m: "h p = Some m" "child (\<not> b) m = z" "p \<noteq> ?nil" using hole_cons [OF ho] w by auto
  obtain k where k: "h z = Some k" "sn_color k = cl h z" "z \<noteq> ?nil" using hole_sibling(1) [OF ho w] by blast
  have pz: "p \<noteq> z" using ho w by (auto simp: hole_def)
  show ?thesis
  proof (cases "cl h z = 0")
    case False
    then have "delete_case1 b s h (rt ?nil t) = Some (s, h, z)" using n m k by (simp add: delete_case1_def)
    then show ?thesis using False ho pn w by (intro exI [of _ s] exI [of _ h] exI [of _ c] exI [of _ w]) simp
  next
    case True
    define h1 where "h1 = h(z \<mapsto> set_color 1 k)"
    define h2 where "h2 = h1(p \<mapsto> set_color 0 m)"
    have hs: "h1 p = Some m" using pz m by (simp add: h1_def)
    have "hole s h1 (Fr b p w # c) t" unfolding h1_def by (rule hole_paint [OF ho k(1)]) simp
    then have "hole s h2 (Fr b p w # c) t" unfolding h2_def by (rule hole_paint [where h = h1, OF _ hs]) (use m in simp)
    then have "hole s h2 c (nd b t p (nd b w1 z w2))" by (simp add: w)
    then obtain s' h' where r: "coset_rot b s h2 p = Some (s', h')" "reshapes A s h2 s' h'" "cl h' = cl h2"
      "hole s' h' c (nd b (nd b t p w1) z w2)"
      using rot_reshapes [of s h2 c b t p w1 z w2 A] A(1) w by auto
    have "reshapes A s h s h2" unfolding h2_def h1_def using A(1) w k(1) hs
      by (intro reshapes_trans [OF reshapes_paint reshapes_paint]) (auto simp: set_plug h1_def)
    then have rr: "reshapes A s h s' h'" using reshapes_trans r(2) by blast
    have ho': "hole s' h' (Fr b p w1 # Fr b z w2 # c) t" using r(4) by simp
    have pn': "par_ok s' h' (Fr b p w1 # Fr b z w2 # c) t" by (rule par_ok_keep [OF rr A(2) pn ho']) simp
    have nil: "st_nil s' = ?nil" by (rule reshapes_nil [OF rr])
    obtain n' where n': "h' (rt ?nil t) = Some n'" "sn_parent n' = p" using par_okD [OF pn'] nil by auto
    obtain m' where m': "h' p = Some m'" "child (\<not> b) m' = rt ?nil w1" using hole_cons [OF ho'] nil by auto
    have "delete_case1 b s h (rt ?nil t) = Some (s', h', rt ?nil w1)"
      using n m k True r(1) n' m' hs by (simp add: delete_case1_def sn_upd_def h1_def h2_def)
    then show ?thesis using True rr ho' pn' r(3) by (intro exI [of _ s'] exI [of _ h'] exI [of _ "Fr b z w2 # c"] exI [of _ w1])
      (simp add: h1_def h2_def)
  qed
qed

lemma both_black_spec:
  assumes "hole s h (Fr b p w # c) t" "w = nd b w1 z w2"
  shows "both_black h z = Some (rc (cl h) w1 = 1 \<and> rc (cl h) w2 = 1)"
  using hole_sibling [OF assms] by (cases b) (auto simp: both_black_def)

lemma delete_case3_spec:
  assumes ho: "hole s h (Fr b p w # c) t" and w: "w = nd b w1 z w2" and pn: "par_ok s h (Fr b p w # c) t"
    and A: "set_tree (plug (Fr b p w # c) t) \<subseteq> A" "st_nil s \<notin> A" and far: "rc (cl h) w2 = 1 \<Longrightarrow> w1 = nd b u y d"
  shows "\<exists>s' h' w'. delete_case3 b s h (rt (st_nil s) t) z = Some (s', h', rt (st_nil s) w') \<and> reshapes A s h s' h' \<and>
    hole s' h' (Fr b p w' # c) t \<and> par_ok s' h' (Fr b p w' # c) t \<and>
    (if rc (cl h) w2 = 1 then w' = nd b u y (nd b d z w2) \<and> cl h' = (cl h)(y := 1, z := 0) else w' = w \<and> cl h' = cl h)"
proof -
  let ?nil = "st_nil s"
  obtain k where k: "h z = Some k" "child b k = rt ?nil w1" "child (\<not> b) k = rt ?nil w2" "z \<noteq> ?nil" using hole_sibling(1) [OF ho w] by blast
  obtain x where x: "h (rt ?nil w2) = Some x" "sn_color x = rc (cl h) w2" using hole_sibling(4) [OF ho w] by blast
  show ?thesis
  proof (cases "rc (cl h) w2 = 1")
    case False
    then have "delete_case3 b s h (rt ?nil t) z = Some (s, h, z)" using k x by (simp add: delete_case3_def)
    then show ?thesis using False ho pn w by (intro exI [of _ s] exI [of _ h] exI [of _ w]) simp
  next
    case True
    then have w1: "w1 = nd b u y d" by (rule far)
    obtain j where j: "h y = Some j" using hole_sibling(3) [OF ho w] w1 by auto
    have yz: "y \<noteq> z" using ho w w1 by (auto simp: hole_def)
    define h1 where "h1 = h(y \<mapsto> set_color 1 j)"
    define h2 where "h2 = h1(z \<mapsto> set_color 0 k)"
    have hs: "h1 z = Some k" using yz k by (simp add: h1_def)
    have "hole s h1 (Fr b p w # c) t" unfolding h1_def by (rule hole_paint [OF ho j]) simp
    then have "hole s h2 (Fr b p w # c) t" unfolding h2_def by (rule hole_paint [where h = h1, OF _ hs]) (use k in simp)
    then have "hole s h2 (Fr (\<not> b) p t # c) w" by (simp add: nd_flip)
    moreover have "w = nd (\<not> b) w2 z (nd (\<not> b) d y u)" unfolding w w1 by (simp add: nd_flip)
    ultimately have h2: "hole s h2 (Fr (\<not> b) p t # c) (nd (\<not> b) w2 z (nd (\<not> b) d y u))" by simp
    have "set_tree (plug (Fr (\<not> b) p t # c) (nd (\<not> b) w2 z (nd (\<not> b) d y u))) \<subseteq> A"
      using A(1) w w1 unfolding set_plug by auto
    then obtain s' h' where r: "coset_rot (\<not> b) s h2 z = Some (s', h')" "reshapes A s h2 s' h'" "cl h' = cl h2"
      "hole s' h' (Fr (\<not> b) p t # c) (nd (\<not> b) (nd (\<not> b) w2 z d) y u)"
      using rot_reshapes [OF h2] by blast
    have "reshapes A s h s h2" unfolding h2_def h1_def using A(1) w w1 j hs
      by (intro reshapes_trans [OF reshapes_paint reshapes_paint]) (auto simp: set_plug h1_def)
    then have rr: "reshapes A s h s' h'" using reshapes_trans r(2) by blast
    have ho': "hole s' h' (Fr b p (nd b u y (nd b d z w2)) # c) t" using r(4) by (simp add: nd_flip)
    have pn': "par_ok s' h' (Fr b p (nd b u y (nd b d z w2)) # c) t" by (rule par_ok_keep [OF rr A(2) pn ho']) simp
    have nil: "st_nil s' = ?nil" by (rule reshapes_nil [OF rr])
    obtain n' where n': "h' (rt ?nil t) = Some n'" "sn_parent n' = p" using par_okD [OF pn'] nil by auto
    obtain m' where m': "h' p = Some m'" "child (\<not> b) m' = y" using hole_cons [OF ho'] nil by auto
    have "delete_case3 b s h (rt ?nil t) z = Some (s', h', y)"
      using k x True w1 j r(1) n' m' hs by (simp add: delete_case3_def sn_upd_def h1_def h2_def)
    then show ?thesis using True rr ho' pn' r(3)
      by (intro exI [of _ s'] exI [of _ h'] exI [of _ "nd b u y (nd b d z w2)"]) (simp add: h1_def h2_def)
  qed
qed

lemma delete_case4_spec:
  assumes ho: "hole s h (Fr b p w # c) t" and w: "w = nd b w1 z w2" and pn: "par_ok s h (Fr b p w # c) t"
    and A: "set_tree (plug (Fr b p w # c) t) \<subseteq> A" and w2: "w2 = nd b v1 v v2"
  shows "\<exists>s' h'. delete_case4 b s h (rt (st_nil s) t) z = Some (s', h') \<and> reshapes A s h s' h' \<and>
    hole s' h' c (nd b (nd b t p w1) z w2) \<and> cl h' = (cl h)(z := cl h p, p := 1, v := 1)"
proof -
  let ?nil = "st_nil s"
  obtain n where n: "h (rt ?nil t) = Some n" "sn_parent n = p" using par_okD [OF pn] by auto
  obtain m where m: "h p = Some m" "p \<noteq> ?nil" "child b m = rt ?nil t" by (rule hole_cons [OF ho])
  have cp: "sn_color m = cl h p" using m by (simp add: cl_def)
  obtain k where k: "h z = Some k" "child (\<not> b) k = v" "z \<noteq> ?nil" using hole_sibling(1) [OF ho w] w2 by auto
  obtain x where x: "h v = Some x" using hole_sibling(4) [OF ho w] w2 by auto
  have ne: "p \<noteq> z" "v \<noteq> z" "v \<noteq> p" "rt ?nil t \<noteq> z" "rt ?nil t \<noteq> p" using ho w w2 rt_in [of ?nil t] k(3) m(2) by (auto simp: hole_def)
  define h1 where "h1 = h(z \<mapsto> set_color (cl h p) k)"
  define h2 where "h2 = h1(p \<mapsto> set_color 1 m)"
  define h3 where "h3 = h2(v \<mapsto> set_color 1 x)"
  have hs: "h1 p = Some m" "h2 v = Some x" using ne m x by (simp_all add: h1_def h2_def)
  have "hole s h1 (Fr b p w # c) t" unfolding h1_def by (rule hole_paint [OF ho k(1)]) (use k in simp)
  then have "hole s h2 (Fr b p w # c) t" unfolding h2_def by (rule hole_paint [where h = h1, OF _ hs(1)]) simp
  then have "hole s h3 (Fr b p w # c) t" unfolding h3_def by (rule hole_paint [where h = h2, OF _ hs(2)]) simp
  then have h3: "hole s h3 c (nd b t p (nd b w1 z w2))" by (simp add: w)
  have "set_tree (plug c (nd b t p (nd b w1 z w2))) \<subseteq> A" using A w by simp
  then obtain s' h' where r: "coset_rot b s h3 p = Some (s', h')" "reshapes A s h3 s' h'" "cl h' = cl h3"
    "hole s' h' c (nd b (nd b t p w1) z w2)" using rot_reshapes [OF h3] by blast
  have "reshapes A s h s h3" unfolding h3_def h2_def h1_def using A w w2 k(1) hs
    by (intro reshapes_trans [OF reshapes_trans [OF reshapes_paint reshapes_paint] reshapes_paint]) (auto simp: set_plug h1_def h2_def)
  then have rr: "reshapes A s h s' h'" using reshapes_trans r(2) by blast
  have "delete_case4 b s h (rt ?nil t) z = Some (s', h')"
    using n m k x r(1) hs ne cp by (simp add: delete_case4_def sn_upd_def h1_def h2_def h3_def)
  then show ?thesis using rr r(3,4) by (simp add: h1_def h2_def h3_def)
qed


definition almost :: "(nat \<Rightarrow> int) \<Rightarrow> nat tree \<Rightarrow> bool" where
  "almost C t \<longleftrightarrow> invh C t \<and> (case t of Leaf \<Rightarrow> True | Node l a r \<Rightarrow> (C a = 0 \<or> C a = 1) \<and> invc C l \<and> invc C r)"

lemma almost_nd: "almost C (nd b t a u) \<longleftrightarrow> (C a = 0 \<or> C a = 1) \<and> bh C t = bh C u \<and> invh C t \<and> invh C u \<and> invc C t \<and> invc C u"
  by (auto simp: almost_def nd_def)

lemma almost_black: "almost C t \<Longrightarrow> rc C t = 1 \<Longrightarrow> invc C t \<and> invh C t"
  by (cases t) (auto simp: almost_def)

lemma hole_root: "hole s h c t \<Longrightarrow> (rt (st_nil s) t = st_root s) = (c = [])"
proof (cases c)
  case (Cons f c')
  assume ho: "hole s h c t"
  have "hole s h [] (plug c t)" using ho hole_plug by blast
  then have r: "st_root s = rt (st_nil s) (plug c t)" by (simp add: hole_def)
  obtain b a u where f: "f = Fr b a u" by (cases f)
  have "rt (st_nil s) (plug c t) \<in> set (flist c)"
    unfolding Cons f
  proof (induction c' arbitrary: t b a u)
    case (Cons g c')
    obtain b' a' u' where "g = Fr b' a' u'" by (cases g)
    then show ?case using Cons [of b' a' u' "nd b t a u"] by simp blast
  qed simp
  then show ?thesis using ho rt_in [of "st_nil s" t] r Cons by (auto simp: hole_def)
qed (simp add: hole_def)

lemma delete_exit:
  assumes ho: "hole s h c t" and inv: "almost (cl h) t" "cok (cl h) c (Suc (bh (cl h) t)) 1" "rblack (cl h) c"
    and stop: "rc (cl h) t = 0 \<or> c = []" and A: "set_tree (plug c t) \<subseteq> A"
  shows "\<exists>s' h'. delete_fixup s h (rt (st_nil s) t) = Some (s', h') \<and> reshapes (insert (st_nil s) A) s h s' h' \<and>
    hole s' h' [] (plug c t) \<and> rbt (cl h') (plug c t)"
proof -
  let ?nil = "st_nil s"
  obtain n where n: "h (rt ?nil t) = Some n" "sn_color n = rc (cl h) t"
    using tr_color [of h s "pa ?nil c" t c t] ho by (auto simp: hole_def)
  define h' where "h' = h(rt ?nil t \<mapsto> set_color 1 n)"
  have df: "delete_fixup s h (rt ?nil t) = Some (s, h')"
    using n stop hole_root [OF ho] by (subst delete_fixup.simps) (auto simp: sn_upd_def h'_def)
  have "hole s h' c t" unfolding h'_def by (rule hole_paint [OF ho n(1)]) simp
  then have ho': "hole s h' [] (plug c t)" using hole_plug by blast
  have "rt ?nil t \<in> insert ?nil A" using rt_in [of ?nil t] A unfolding set_plug by auto
  then have re: "reshapes (insert ?nil A) s h s h'" unfolding h'_def by (rule reshapes_paint [where h = h, OF n(1)])
  have "rbt (cl h') (plug c t)"
  proof (cases t)
    case Leaf
    then have c: "c = []" using stop by simp
    then show ?thesis using Leaf by (simp add: rbt_def)
  next
    case (Node l a r)
    have dis: "a \<notin> set_tree l" "a \<notin> set_tree r" "a \<notin> set (flist c)" using ho Node by (auto simp: hole_def)
    have cl': "cl h' = (cl h)(a := 1)" by (simp add: h'_def Node)
    have t: "invc (cl h') t" "invh (cl h') t" "rc (cl h') t = 1" "bh (cl h') t = Suc (bh (cl h) l)"
      using inv(1) dis Node by (auto simp: almost_def cl')
    have "cok (cl h') c (bh (cl h') t) 1"
    proof (cases "c = []")
      case False
      then have "bh (cl h) t = bh (cl h) l" using stop Node by simp
      then show ?thesis using inv(2) dis t(4) by (simp add: cl')
    qed simp
    then have "invc (cl h') (plug c t)" "invh (cl h') (plug c t)" using cok_plug [of "cl h'" c t] t by auto
    moreover have "rc (cl h') (plug c t) = 1"
      using rc_plug [of "cl h'" c t] inv(3) dis t(3) by (cases "c = []") (auto simp: cl')
    ultimately show ?thesis by (simp add: rbt_def)
  qed
  then show ?thesis using df re ho' by blast
qed

lemma invc_almost: "invc C t \<Longrightarrow> invh C t \<Longrightarrow> almost C t"
  by (cases t) (auto simp: almost_def)

text \<open>The last step of the loop: after it the whole tree is in order.\<close>

lemma delete_last:
  assumes ho: "hole s h (Fr b p w # c) t" and w: "w = nd b w1 z w2" and pn: "par_ok s h (Fr b p w # c) t"
    and A: "set_tree (plug (Fr b p w # c) t) \<subseteq> A" and w2: "w2 = nd b v1 v v2"
    and t: "invc (cl h) t" "invh (cl h) t" "rc (cl h) t = 1" "cl h p = 0 \<or> cl h p = 1"
    and W: "invc (cl h) w1" "invh (cl h) w1" "bh (cl h) w1 = bh (cl h) t" "invc (cl h) w2" "invh (cl h) w2" "bh (cl h) w2 = bh (cl h) t"
      "cl h v = 0" "rc (cl h) w1 = 0 \<or> rc (cl h) w1 = 1"
    and ck: "cok (cl h) c (if cl h p = 1 then Suc (Suc (bh (cl h) t)) else Suc (bh (cl h) t)) (cl h p)"
  shows "\<exists>s' h' T. delete_case4 b s h (rt (st_nil s) t) z = Some (s', h') \<and> reshapes A s h s' h' \<and>
    hole s' h' [] T \<and> inorder T = inorder (plug (Fr b p w # c) t) \<and> invc (cl h') T \<and> invh (cl h') T"
proof -
  obtain s' h' where r: "delete_case4 b s h (rt (st_nil s) t) z = Some (s', h')" "reshapes A s h s' h'"
    "hole s' h' c (nd b (nd b t p w1) z w2)" "cl h' = (cl h)(z := cl h p, p := 1, v := 1)"
    using delete_case4_spec [OF ho w pn A w2] by blast
  have dis: "p \<noteq> z" "v \<noteq> z" "v \<noteq> p" "p \<notin> set_tree t" "z \<notin> set_tree t" "v \<notin> set_tree t" "p \<notin> set_tree w1" "z \<notin> set_tree w1"
    "v \<notin> set_tree w1" "p \<notin> set_tree v1" "z \<notin> set_tree v1" "v \<notin> set_tree v1" "p \<notin> set_tree v2" "z \<notin> set_tree v2" "v \<notin> set_tree v2"
    "p \<notin> set (flist c)" "z \<notin> set (flist c)" "v \<notin> set (flist c)"
    using ho w w2 by (auto simp: hole_def)
  have V: "rc (cl h) v1 = 1" "rc (cl h) v2 = 1" "invc (cl h) v1" "invc (cl h) v2" "invh (cl h) v1" "invh (cl h) v2"
    "bh (cl h) v1 = bh (cl h) t" "bh (cl h) v2 = bh (cl h) t"
    using W(4-7) w2 by (auto simp: bh_nd)
  let ?u = "nd b (nd b t p w1) z w2"
  have u: "bh (cl h') (nd b t p w1) = Suc (bh (cl h) t)" "bh (cl h') w2 = Suc (bh (cl h) t)" "rc (cl h') w2 = 1"
    "invc (cl h') (nd b t p w1)" "invh (cl h') (nd b t p w1)" "invc (cl h') w2" "invh (cl h') w2" "cl h' z = cl h p" "cl h' p = 1"
    using dis t W V by (simp_all add: r(4) w2 bh_nd)
  have "invc (cl h') ?u" "invh (cl h') ?u" "bh (cl h') ?u = (if cl h p = 1 then Suc (Suc (bh (cl h) t)) else Suc (bh (cl h) t))"
    "rc (cl h') ?u = cl h p"
    using u t(4) by (auto simp: bh_nd)
  moreover have "cok (cl h') c (if cl h p = 1 then Suc (Suc (bh (cl h) t)) else Suc (bh (cl h) t)) (cl h p)"
    using ck dis by (simp add: r(4))
  ultimately have "invc (cl h') (plug c ?u)" "invh (cl h') (plug c ?u)" using cok_plug [of "cl h'" c ?u] by auto
  moreover have "hole s' h' [] (plug c ?u)" using r(3) hole_plug by blast
  moreover have "inorder (plug c ?u) = inorder (plug (Fr b p w # c) t)" unfolding w plug.simps by (rule inorder_plug) (simp add: nd_def)
  ultimately show ?thesis using r(1,2) by blast
qed

lemma delete_fixup_spec:
  assumes "hole s h c t" "par_ok s h c t" "almost (cl h) t" "cok (cl h) c (Suc (bh (cl h) t)) 1" "rblack (cl h) c"
    and "set_tree (plug c t) \<subseteq> A" "st_nil s \<notin> A"
  shows "\<exists>s' h' T. delete_fixup s h (rt (st_nil s) t) = Some (s', h') \<and> reshapes (insert (st_nil s) A) s h s' h' \<and>
    hole s' h' [] T \<and> inorder T = inorder (plug c t) \<and> rbt (cl h') T"
  using assms
proof (induction "length c" arbitrary: s h c t rule: less_induct)
  case less
  let ?nil = "st_nil s" and ?C = "cl h"
  note ho = less.prems(1)
  show ?case
  proof (cases "rc ?C t = 0 \<or> c = []")
    case True
    then show ?thesis using delete_exit [OF ho less.prems(3-5) True less.prems(6)] by blast
  next
    case False
    obtain b p w c2 where c: "c = Fr b p w # c2" using False by (metis frame.exhaust neq_Nil_conv)
    have rt: "rc ?C t = 1" using less.prems(3) False by (cases t) (auto simp: almost_def)
    have it: "invc ?C t" "invh ?C t" using almost_black [OF less.prems(3) rt] by auto
    have W: "?C p = 1 \<or> ?C p = 0 \<and> rc ?C w = 1" "invc ?C w" "invh ?C w" "bh ?C w = Suc (bh ?C t)"
      "cok ?C c2 (if ?C p = 1 then Suc (Suc (bh ?C t)) else Suc (bh ?C t)) (?C p)"
      using less.prems(4) c by auto
    have "w \<noteq> Leaf" using W(4) by auto
    then obtain w1 z w2 where w: "w = nd b w1 z w2" using nd_cases [of w b] by blast
    obtain s1 h1 c1 w' where 1: "delete_case1 b s h (rt ?nil t) = Some (s1, h1, rt ?nil w')" "reshapes A s h s1 h1"
      "hole s1 h1 (Fr b p w' # c1) t" "par_ok s1 h1 (Fr b p w' # c1) t"
      "if ?C z = 0 then w' = w1 \<and> c1 = Fr b z w2 # c2 \<and> cl h1 = ?C(z := 1, p := 0) else w' = w \<and> c1 = c2 \<and> cl h1 = ?C"
      using delete_case1_spec [OF ho [unfolded c] w less.prems(2) [unfolded c] less.prems(6) [unfolded c] less.prems(7)] by blast
    have nil1: "st_nil s1 = ?nil" by (rule reshapes_nil [OF 1(2)])
    have i1: "inorder (plug (Fr b p w' # c1) t) = inorder (plug c t)"
      using 1(5) unfolding c w by (auto simp: inorder_ctx nd_def split: if_splits)
    have A1: "set_tree (plug (Fr b p w' # c1) t) \<subseteq> A" using less.prems(6) i1 by (metis set_inorder)
    have dis: "p \<notin> set_tree t" "z \<notin> set_tree t" "p \<notin> set_tree w1" "z \<notin> set_tree w1" "p \<notin> set_tree w2" "z \<notin> set_tree w2"
      "p \<notin> set (flist c2)" "z \<notin> set (flist c2)" "p \<noteq> z" using ho c w by (auto simp: hole_def)
    have S: "invc (cl h1) t \<and> invh (cl h1) t \<and> rc (cl h1) t = 1 \<and> bh (cl h1) t = bh ?C t \<and> (cl h1 p = 0 \<or> cl h1 p = 1) \<and>
        rc (cl h1) w' = 1 \<and> invc (cl h1) w' \<and> invh (cl h1) w' \<and> bh (cl h1) w' = Suc (bh ?C t) \<and>
        cok (cl h1) c1 (if cl h1 p = 1 then Suc (Suc (bh ?C t)) else Suc (bh ?C t)) (cl h1 p) \<and> rblack (cl h1) (Fr b p w' # c1) \<and>
        (c1 \<noteq> c2 \<longrightarrow> cl h1 p = 0)"
    proof (cases "?C z = 0")
      case True
      then have e: "w' = w1" "c1 = Fr b z w2 # c2" "cl h1 = ?C(z := 1, p := 0)" using 1(5) by simp_all
      have Cp: "?C p = 1" using W(1) True w by simp
      have "rc ?C w1 = 1" "rc ?C w2 = 1" "bh ?C w1 = Suc (bh ?C t)" "bh ?C w2 = Suc (bh ?C t)"
        using W(2-4) True w by (auto simp: bh_nd)
      then show ?thesis using W dis rt it Cp w less.prems(5) unfolding e c
        by (simp add: rblack_Cons)
    next
      case False
      then have e: "w' = w" "c1 = c2" "cl h1 = ?C" using 1(5) by simp_all
      have "rc ?C w = 1" using False invc_rc [OF W(2)] w by simp
      then show ?thesis using W rt it less.prems(5) unfolding e c by (auto simp: rblack_Cons)
    qed
    have "w' \<noteq> Leaf" using S by auto
    then obtain x1 y x2 where w': "w' = nd b x1 y x2" using nd_cases [of w' b] by blast
    have p1: "\<exists>n. h1 (rt ?nil t) = Some n \<and> sn_parent n = p" using par_okD [OF 1(4)] nil1 by simp
    have pr: "\<exists>n m. h (rt ?nil t) = Some n \<and> sn_parent n = p \<and> sn_color n = 1 \<and> h p = Some m \<and> (rt ?nil t = child True m) = b"
    proof -
      obtain n where n: "h (rt ?nil t) = Some n" "sn_parent n = p" using par_okD [OF less.prems(2)] c by auto
      obtain m where m: "h p = Some m" "child b m = rt ?nil t" "child (\<not> b) m = z" using hole_cons [OF ho [unfolded c]] w by auto
      have "rt ?nil t \<noteq> z" using ho c w rt_in [of ?nil t] by (auto simp: hole_def)
      then have "(rt ?nil t = child True m) = b" using m(2,3) by (cases b) auto
      moreover have "sn_color n = 1"
        using tr_color [of h s "pa ?nil c" t c t] ho n rt by (auto simp: hole_def)
      ultimately show ?thesis using n m by blast
    qed
    have ne: "rt ?nil t \<noteq> st_root s" using hole_root [OF ho] c by simp
    have X: "cl h1 y = 1" "invc (cl h1) x1" "invc (cl h1) x2" "invh (cl h1) x1" "invh (cl h1) x2" "bh (cl h1) x1 = bh ?C t" "bh (cl h1) x2 = bh ?C t"
      using S w' by (auto simp: bh_nd)
    have dis1: "p \<notin> set_tree t" "y \<notin> set_tree t" "p \<notin> set_tree x1" "y \<notin> set_tree x1" "p \<notin> set_tree x2" "y \<notin> set_tree x2"
      "p \<notin> set (flist c1)" "y \<notin> set (flist c1)" "p \<noteq> y" "y \<noteq> st_nil s1" "st_nil s1 \<notin> set_tree x1" "st_nil s1 \<notin> set_tree x2"
      using 1(3) w' by (auto simp: hole_def)
    have bb: "both_black h1 (rt ?nil w') = Some (rc (cl h1) x1 = 1 \<and> rc (cl h1) x2 = 1)"
      using both_black_spec [OF 1(3) w'] w' by simp
    show ?thesis
    proof (cases "rc (cl h1) x1 = 1 \<and> rc (cl h1) x2 = 1")
      case True
      obtain k where k: "h1 y = Some k" using hole_sibling(1) [OF 1(3) w'] by blast
      define h2 where "h2 = h1(y \<mapsto> set_color 0 k)"
      let ?t = "nd b t p w'"
      have ho2: "hole s1 h2 (Fr b p w' # c1) t" unfolding h2_def by (rule hole_paint [OF 1(3) k]) (use dis1 in simp)
      then have ht: "hole s1 h2 c1 ?t" by simp
      have cl2: "cl h2 = (cl h1)(y := 0)" by (simp add: h2_def)
      have bt: "bh (cl h2) t = bh ?C t" "bh (cl h2) w' = bh ?C t" "invc (cl h2) t" "invh (cl h2) t" "invc (cl h2) w'" "invh (cl h2) w'" "cl h2 p = cl h1 p"
        using S X True dis1 by (simp_all add: cl2 w' bh_nd)
      have al: "almost (cl h2) ?t" using bt S by (simp add: almost_nd)
      have ck: "cok (cl h2) c1 (Suc (bh (cl h2) ?t)) 1"
        using cok_black [of "cl h1" c1] S bt dis1 by (auto simp: bh_nd cl2)
      have rb: "rblack (cl h2) c1" using S rblack_tail [of "cl h1"] dis1 by (auto simp: cl2)
      have A2: "set_tree (plug c1 ?t) \<subseteq> A" using A1 by simp
      have r12: "reshapes A s h s1 h2"
        unfolding h2_def by (rule reshapes_trans [OF 1(2) reshapes_paint [where h = h1, OF k]]) (use A1 w' in \<open>auto simp: set_plug\<close>)
      have step: "delete_fixup s h (rt ?nil t) = delete_fixup s1 h2 (rt (st_nil s1) ?t)"
        using pr ne 1(1) bb True p1 k w' by (subst delete_fixup.simps) (auto simp: sn_upd_def h2_def)
      have "\<exists>s' h' T. delete_fixup s1 h2 (rt (st_nil s1) ?t) = Some (s', h') \<and> reshapes (insert (st_nil s1) A) s1 h2 s' h' \<and>
        hole s' h' [] T \<and> inorder T = inorder (plug c1 ?t) \<and> rbt (cl h') T"
      proof (cases "c1 = c2")
        case True
        then have "length c1 < length c" using c by simp
        from less.hyps [OF this ht par_ok_tree [OF ht] al ck rb A2] show ?thesis using less.prems(7) nil1 by simp
      next
        case False
        then have "rc (cl h2) ?t = 0 \<or> c1 = []" using S bt(7) by simp
        from delete_exit [OF ht al ck rb this A2] show ?thesis by blast
      qed
      then obtain s' h' T where "delete_fixup s1 h2 (rt (st_nil s1) ?t) = Some (s', h')" "reshapes (insert (st_nil s1) A) s1 h2 s' h'"
        "hole s' h' [] T" "inorder T = inorder (plug c1 ?t)" "rbt (cl h') T" by blast
      moreover have "reshapes (insert ?nil A) s h s1 h2" by (rule reshapes_mono [OF r12]) auto
      ultimately show ?thesis using step i1 nil1 reshapes_trans [of "insert ?nil A" s h s1 h2] by auto
    next
      case False
      have "\<exists>u q d. rc (cl h1) x2 = 1 \<longrightarrow> x1 = nd b u q d"
        using nd_cases [of x1 b] False by (cases "rc (cl h1) x2 = 1") auto
      then obtain u q d where far: "rc (cl h1) x2 = 1 \<Longrightarrow> x1 = nd b u q d" by blast
      have nA: "st_nil s1 \<notin> A" using less.prems(7) nil1 by simp
      obtain s2 h2 w'' where 2: "delete_case3 b s1 h1 (rt (st_nil s1) t) y = Some (s2, h2, rt (st_nil s1) w'')" "reshapes A s1 h1 s2 h2"
        "hole s2 h2 (Fr b p w'' # c1) t" "par_ok s2 h2 (Fr b p w'' # c1) t"
        "if rc (cl h1) x2 = 1 then w'' = nd b u q (nd b d y x2) \<and> cl h2 = (cl h1)(q := 1, y := 0) else w'' = w' \<and> cl h2 = cl h1"
        using delete_case3_spec [OF 1(3) w' 1(4) A1 nA far] by blast
      have i2: "inorder (plug (Fr b p w'' # c1) t) = inorder (plug c t)"
        unfolding i1 [symmetric] plug.simps using 2(5) far w' by (intro inorder_plug) (auto simp: nd_def split: if_splits)
      have A2: "set_tree (plug (Fr b p w'' # c1) t) \<subseteq> A" using less.prems(6) i2 by (metis set_inorder)
      have "\<exists>e1 f e2. w'' = nd b e1 f e2 \<and> e2 \<noteq> Leaf \<and> rc (cl h2) e2 = 0 \<and> invc (cl h2) e1 \<and> invh (cl h2) e1 \<and> bh (cl h2) e1 = bh ?C t \<and>
        invc (cl h2) e2 \<and> invh (cl h2) e2 \<and> bh (cl h2) e2 = bh ?C t \<and> cl h2 p = cl h1 p \<and> invc (cl h2) t \<and> invh (cl h2) t \<and>
        rc (cl h2) t = 1 \<and> bh (cl h2) t = bh ?C t \<and> (\<forall>n k. cok (cl h2) c1 n k = cok (cl h1) c1 n k)"
      proof (cases "rc (cl h1) x2 = 1")
        case True
        then have x1: "x1 = nd b u q d" and e: "w'' = nd b u q (nd b d y x2)" "cl h2 = (cl h1)(q := 1, y := 0)" using far 2(5) by simp_all
        have q0: "cl h1 q = 0" using False True X(2) x1 by auto
        have qd: "q \<noteq> p" "q \<noteq> y" "q \<notin> set_tree t" "q \<notin> set_tree u" "q \<notin> set_tree d" "q \<notin> set_tree x2" "q \<notin> set (flist c1)"
          using 1(3) w' x1 by (auto simp: hole_def)
        have "invc (cl h1) u" "invc (cl h1) d" "invh (cl h1) u" "invh (cl h1) d" "bh (cl h1) u = bh ?C t" "bh (cl h1) d = bh ?C t"
          "rc (cl h1) u = 1" "rc (cl h1) d = 1"
          using X(2,4,6) x1 q0 by (auto simp: bh_nd)
        then show ?thesis using True X S qd dis1 unfolding e x1 by (intro exI [of _ u] exI [of _ q] exI [of _ "nd b d y x2"]) (simp add: bh_nd)
      next
        case far': False
        then have e: "w'' = w'" "cl h2 = cl h1" using 2(5) by simp_all
        have "rc (cl h1) x2 = 0" "x2 \<noteq> Leaf" using far' invc_rc [OF X(3)] by auto
        then show ?thesis using X S unfolding e w' by (intro exI [of _ x1] exI [of _ y] exI [of _ x2]) simp
      qed
      then obtain e1 f e2 where E: "w'' = nd b e1 f e2" "e2 \<noteq> Leaf" "rc (cl h2) e2 = 0" "invc (cl h2) e1" "invh (cl h2) e1" "bh (cl h2) e1 = bh ?C t"
        "invc (cl h2) e2" "invh (cl h2) e2" "bh (cl h2) e2 = bh ?C t" "cl h2 p = cl h1 p" "invc (cl h2) t" "invh (cl h2) t"
        "rc (cl h2) t = 1" "bh (cl h2) t = bh ?C t" "\<forall>n k. cok (cl h2) c1 n k = cok (cl h1) c1 n k" by blast
      obtain v1 v v2 where v: "e2 = nd b v1 v v2" using nd_cases [of e2 b] E(2) by blast
      have SC: "cok (cl h1) c1 (if cl h1 p = 1 then Suc (Suc (bh ?C t)) else Suc (bh ?C t)) (cl h1 p)" "cl h1 p = 0 \<or> cl h1 p = 1"
        using S by blast+
      have last: "cl h2 p = 0 \<or> cl h2 p = 1" "bh (cl h2) e1 = bh (cl h2) t" "bh (cl h2) e2 = bh (cl h2) t" "cl h2 v = 0"
        "rc (cl h2) e1 = 0 \<or> rc (cl h2) e1 = 1"
        using E SC v invc_rc [OF E(4)] by simp_all
      have ck: "cok (cl h2) c1 (if cl h2 p = 1 then Suc (Suc (bh (cl h2) t)) else Suc (bh (cl h2) t)) (cl h2 p)"
        unfolding E(10,14) using SC(1) E(15) by blast
      obtain s3 h3 T where 3: "delete_case4 b s2 h2 (rt (st_nil s2) t) f = Some (s3, h3)" "reshapes A s2 h2 s3 h3"
        "hole s3 h3 [] T" "inorder T = inorder (plug c t)" "invc (cl h3) T" "invh (cl h3) T"
        using delete_last [OF 2(3) E(1) 2(4) A2 v E(11-13) last(1) E(4,5) last(2) E(7,8) last(3-5) ck] unfolding i2 by blast
      have nil2: "st_nil s2 = ?nil" "st_nil s3 = ?nil" using reshapes_nil [OF 2(2)] reshapes_nil [OF 3(2)] nil1 by simp_all
      have "set_tree (plug [] T) \<subseteq> A" using less.prems(6) 3(4) by (metis plug.simps(1) set_inorder)
      from delete_exit [OF 3(3) invc_almost [OF 3(5,6)] _ _ _ this] obtain s' h' where
        4: "delete_fixup s3 h3 (rt (st_nil s3) T) = Some (s', h')" "reshapes (insert (st_nil s3) A) s3 h3 s' h'" "hole s' h' [] T" "rbt (cl h') T"
        by auto
      have rT: "rt (st_nil s3) T = st_root s3" using 3(3) by (simp add: hole_def)
      have "delete_fixup s h (rt ?nil t) = delete_fixup s3 h3 (st_root s3)"
        using pr ne 1(1) bb False p1 2(1) 3(1) nil1 nil2 E(1) w' by (subst delete_fixup.simps) auto
      moreover have "reshapes A s h s3 h3" using reshapes_trans [OF reshapes_trans [OF 1(2) 2(2)] 3(2)] .
      then have "reshapes (insert ?nil A) s h s' h'"
        using reshapes_trans [OF reshapes_mono, of A s h s3 h3 "insert ?nil A" s' h'] 4(2) nil2 by auto
      ultimately show ?thesis using 4 rT 3(4) by auto
    qed
  qed
qed

end
