(* ===== verification/CoSet.thy ===== *)
theory CoSet
  imports SetRepair
begin

text \<open>
  The operations of the ordered set of \<open>src/co_set.c\<close> against a sorted list of its elements.
\<close>


section \<open>Contents and order\<close>

definition dat :: "'a sheap \<Rightarrow> nat \<Rightarrow> 'a option" where
  "dat h a = (case h a of None \<Rightarrow> None | Some n \<Rightarrow> sn_data n)"

text \<open>A comparison function is a total preorder.\<close>

definition comp_ok :: "('a \<Rightarrow> 'a \<Rightarrow> int) \<Rightarrow> bool" where
  "comp_ok f \<longleftrightarrow> (\<forall>a b. f a b < 0 \<longleftrightarrow> f b a > 0) \<and> (\<forall>a b c. f a b \<le> 0 \<longrightarrow> f b c \<le> 0 \<longrightarrow> f a c \<le> 0)"

lemma comp_okD:
  assumes "comp_ok f"
  shows "f a b < 0 \<longleftrightarrow> f b a > 0" "f a b = 0 \<longleftrightarrow> f b a = 0" "f a a = 0"
    "f a b \<le> 0 \<Longrightarrow> f b c < 0 \<Longrightarrow> f a c < 0" "f a b < 0 \<Longrightarrow> f b c \<le> 0 \<Longrightarrow> f a c < 0"
proof -
  have s: "f a b < 0 \<longleftrightarrow> f b a > 0" for a b using assms by (simp add: comp_ok_def)
  have t: "f a b \<le> 0 \<Longrightarrow> f b c \<le> 0 \<Longrightarrow> f a c \<le> 0" for a b c using assms unfolding comp_ok_def by blast
  show "f a b < 0 \<longleftrightarrow> f b a > 0" by (rule s)
  show "f a b = 0 \<longleftrightarrow> f b a = 0" using s [of a b] s [of b a] by linarith
  show "f a a = 0" using s [of a a] by linarith
  show "f a c < 0" if "f a b \<le> 0" "f b c < 0"
  proof (rule ccontr)
    assume "\<not> f a c < 0"
    then have "f c a \<le> 0" using s [of a c] s [of c a] by linarith
    then have "f c b \<le> 0" using t that by blast
    then show False using that(2) s [of b c] by linarith
  qed
  show "f a c < 0" if "f a b < 0" "f b c \<le> 0"
  proof (rule ccontr)
    assume "\<not> f a c < 0"
    then have "f c a \<le> 0" using s [of a c] s [of c a] by linarith
    then have "f b a \<le> 0" using t that by blast
    then show False using that(1) s [of a b] by linarith
  qed
qed

definition set_ok :: "'a coset \<Rightarrow> 'a sheap \<Rightarrow> nat list \<Rightarrow> 'a list \<Rightarrow> bool" where
  "set_ok s h ns xs \<longleftrightarrow>
     (\<exists>T. hole s h [] T \<and> rbt (cl h) T \<and> inorder T = ns) \<and> map (dat h) ns = map Some xs \<and>
     sorted_wrt (\<lambda>a b. st_comp s a b < 0) xs \<and> st_size s = int (length xs) \<and> comp_ok (st_comp s)"

text \<open>How a value compares with the data of a node.\<close>

definition cmpd :: "'a coset \<Rightarrow> 'a sheap \<Rightarrow> 'a \<Rightarrow> nat \<Rightarrow> int" where
  "cmpd s h x a = (case dat h a of None \<Rightarrow> 0 | Some d \<Rightarrow> st_comp s x d)"

definition increasing :: "'a coset \<Rightarrow> 'a sheap \<Rightarrow> nat list \<Rightarrow> bool" where
  "increasing s h ns \<longleftrightarrow> comp_ok (st_comp s) \<and> (\<forall>a\<in>set ns. dat h a \<noteq> None) \<and>
     sorted_wrt (\<lambda>a b. st_comp s (the (dat h a)) (the (dat h b)) < 0) ns"

lemma increasing_data: "map (dat h) ns = map Some xs \<Longrightarrow>
  increasing s h ns \<longleftrightarrow> sorted_wrt (\<lambda>a b. st_comp s a b < 0) xs \<and> comp_ok (st_comp s)"
proof -
  assume a: "map (dat h) ns = map Some xs"
  have d: "dat h x \<noteq> None" if "x \<in> set ns" for x
  proof -
    have "dat h x \<in> set (map (dat h) ns)" using that by simp
    then show ?thesis unfolding a by auto
  qed
  have "map (\<lambda>x. the (dat h x)) ns = map the (map (dat h) ns)" by simp
  also have "\<dots> = xs" unfolding a by (simp add: comp_def)
  finally have "sorted_wrt (\<lambda>a b. st_comp s a b < 0) xs \<longleftrightarrow> sorted_wrt (\<lambda>a b. st_comp s (the (dat h a)) (the (dat h b)) < 0) ns"
    using sorted_wrt_map [of "\<lambda>a b. st_comp s a b < 0" "\<lambda>x. the (dat h x)" ns] by simp
  then show ?thesis using d unfolding increasing_def by blast
qed

lemma cmpd_less:
  assumes "increasing s h (us @ a # vs)"
  shows "cmpd s h x a \<le> 0 \<Longrightarrow> v \<in> set vs \<Longrightarrow> cmpd s h x v < 0" "cmpd s h x a \<ge> 0 \<Longrightarrow> u \<in> set us \<Longrightarrow> cmpd s h x u > 0"
proof -
  have c: "comp_ok (st_comp s)" and i: "\<And>b. b \<in> set (us @ a # vs) \<Longrightarrow> dat h b \<noteq> None" using assms by (auto simp: increasing_def)
  obtain d where d: "dat h a = Some d" using i [of a] by auto
  show "cmpd s h x v < 0" if v: "cmpd s h x a \<le> 0" "v \<in> set vs"
  proof -
    obtain e where e: "dat h v = Some e" using i [of v] v by auto
    have "st_comp s d e < 0" using assms v d e by (auto simp: increasing_def sorted_wrt_append)
    then show ?thesis using comp_okD(4) [OF c] v d e by (simp add: cmpd_def)
  qed
  show "cmpd s h x u > 0" if u: "cmpd s h x a \<ge> 0" "u \<in> set us"
  proof -
    obtain e where e: "dat h u = Some e" using i [of u] u by auto
    have "st_comp s e d < 0" using assms u d e by (auto simp: increasing_def sorted_wrt_append)
    moreover have "st_comp s d x \<le> 0" using u d comp_okD(1) [OF c, of x d] comp_okD(2) [OF c, of x d] by (simp add: cmpd_def)
    ultimately have "st_comp s e x < 0" using comp_okD(5) [OF c] by blast
    then show ?thesis using e comp_okD(1) [OF c, of e x] by (simp add: cmpd_def)
  qed
qed

lemma tr_node: "tr h nil p (Node l a r) \<Longrightarrow> \<exists>n. h a = Some n \<and> sn_parent n = p \<and> child True n = rt nil l \<and> child False n = rt nil r"
  by (auto simp: links_Some)

lemma search_loop_spec:
  assumes "tr h (st_nil s) p t" "st_nil s \<notin> set_tree t" "increasing s h (inorder t)"
  shows "\<exists>a. search_loop s h x (rt (st_nil s) t) = Some a \<and>
    (a = st_nil s \<and> (\<forall>b\<in>set_tree t. cmpd s h x b \<noteq> 0) \<or> a \<in> set_tree t \<and> cmpd s h x a = 0)"
  using assms
proof (induction t arbitrary: p)
  case Leaf
  then show ?case by (simp add: search_loop.simps)
next
  case (Node l a r)
  obtain n where n: "h a = Some n" "child True n = rt (st_nil s) l" "child False n = rt (st_nil s) r"
    using tr_node [OF Node.prems(1)] by blast
  have inc: "increasing s h (inorder l @ a # inorder r)" using Node.prems(3) by simp
  then have i: "increasing s h (inorder l)" "increasing s h (inorder r)" "dat h a \<noteq> None"
    by (auto simp: increasing_def sorted_wrt_append)
  obtain d where d: "sn_data n = Some d" using i(3) n by (auto simp: dat_def)
  have c: "cmpd s h x a = st_comp s x d" using n d by (simp add: cmpd_def dat_def)
  have a: "a \<noteq> st_nil s" using Node.prems(2) by auto
  note sub = cmpd_less [OF inc, of x]
  consider "st_comp s x d < 0" | "st_comp s x d > 0" | "st_comp s x d = 0" by linarith
  then show ?case
  proof cases
    case 1
    have "search_loop s h x (rt (st_nil s) (Node l a r)) = search_loop s h x (rt (st_nil s) l)"
      using n d a 1 by (simp add: search_loop.simps [of s h x a])
    then show ?thesis using Node.IH(1) [OF _ _ i(1)] Node.prems(1,2) sub(1) c 1 by fastforce
  next
    case 2
    have "search_loop s h x (rt (st_nil s) (Node l a r)) = search_loop s h x (rt (st_nil s) r)"
      using n d a 2 by (simp add: search_loop.simps [of s h x a])
    then show ?thesis using Node.IH(2) [OF _ _ i(2)] Node.prems(1,2) sub(2) c 2 by fastforce
  next
    case 3
    then show ?thesis using n d a c by (simp add: search_loop.simps [of s h x a])
  qed
qed

lemma add_place_spec:
  assumes "hole s h c t" "increasing s h (inorder (plug c t))"
    and "\<forall>b\<in>set (lf c). cmpd s h x b > 0" "\<forall>b\<in>set (rg c). cmpd s h x b < 0" "case c of [] \<Rightarrow> True | Fr b a u # _ \<Rightarrow> (ret < 0) = b"
  shows "(\<exists>a\<in>set_tree (plug c t). cmpd s h x a = 0) \<and> add_place s h x (pa (st_nil s) c) (rt (st_nil s) t) ret = Some None \<or>
    (\<exists>c' ret'. add_place s h x (pa (st_nil s) c) (rt (st_nil s) t) ret = Some (Some (pa (st_nil s) c', ret')) \<and>
      plug c' Leaf = plug c t \<and> (\<forall>b\<in>set (lf c'). cmpd s h x b > 0) \<and> (\<forall>b\<in>set (rg c'). cmpd s h x b < 0) \<and>
      (case c' of [] \<Rightarrow> True | Fr b a u # _ \<Rightarrow> (ret' < 0) = b))"
  using assms
proof (induction t arbitrary: c ret)
  case Leaf
  then show ?case by (intro disjI2 exI [of _ c] exI [of _ ret]) (simp add: add_place.simps)
next
  case (Node l a r)
  obtain n where n: "h a = Some n" "child True n = rt (st_nil s) l" "child False n = rt (st_nil s) r"
    using tr_node [of h "st_nil s" _ l a r] Node.prems(1) unfolding hole_def by blast
  have inc: "increasing s h ((lf c @ inorder l) @ a # inorder r @ rg c)" using Node.prems(2) by (simp add: inorder_ctx)
  then have "dat h a \<noteq> None" by (simp add: increasing_def)
  then obtain d where d: "sn_data n = Some d" using n by (auto simp: dat_def)
  have c: "cmpd s h x a = st_comp s x d" using n d by (simp add: cmpd_def dat_def)
  have a: "a \<noteq> st_nil s" using Node.prems(1) by (auto simp: hole_def)
  note sub = cmpd_less [OF inc, of x]
  consider "st_comp s x d < 0" | "st_comp s x d > 0" | "st_comp s x d = 0" by linarith
  then show ?case
  proof cases
    case 1
    have p: "plug (Fr True a r # c) l = plug c (Node l a r)" by (simp add: nd_def)
    have "add_place s h x (pa (st_nil s) c) (rt (st_nil s) (Node l a r)) ret =
        add_place s h x (pa (st_nil s) (Fr True a r # c)) (rt (st_nil s) l) (st_comp s x d)"
      using n d a 1 by (simp add: add_place.simps [of s h x _ a])
    moreover have "hole s h (Fr True a r # c) l" using Node.prems(1) by (simp add: nd_def)
    moreover have "\<forall>b\<in>set (rg (Fr True a r # c)). cmpd s h x b < 0" using sub(1) c 1 Node.prems(4) by auto
    ultimately show ?thesis using Node.IH(1) [of "Fr True a r # c" "st_comp s x d"] Node.prems(2,3) 1 unfolding p by simp
  next
    case 2
    have p: "plug (Fr False a l # c) r = plug c (Node l a r)" by (simp add: nd_def)
    have "add_place s h x (pa (st_nil s) c) (rt (st_nil s) (Node l a r)) ret =
        add_place s h x (pa (st_nil s) (Fr False a l # c)) (rt (st_nil s) r) (st_comp s x d)"
      using n d a 2 by (simp add: add_place.simps [of s h x _ a])
    moreover have "hole s h (Fr False a l # c) r" using Node.prems(1) by (simp add: nd_def)
    moreover have "\<forall>b\<in>set (lf (Fr False a l # c)). cmpd s h x b > 0" using sub(2) c 2 Node.prems(3) by auto
    ultimately show ?thesis using Node.IH(2) [of "Fr False a l # c" "st_comp s x d"] Node.prems(2,4) 2 unfolding p by simp
  next
    case 3
    then have "add_place s h x (pa (st_nil s) c) (rt (st_nil s) (Node l a r)) ret = Some None"
      using n d a by (simp add: add_place.simps [of s h x _ a])
    moreover have "a \<in> set_tree (plug c (Node l a r))" by (simp add: set_plug)
    ultimately show ?thesis using c 3 by auto
  qed
qed


section \<open>Searching and adding\<close>

lemma tr_dom: "tr h nil p t \<Longrightarrow> x \<in> set_tree t \<Longrightarrow> h x \<noteq> None"
  by (induction t arbitrary: p) (auto simp: links_Some)

lemma cx_dom: "cx root h nil c q \<Longrightarrow> x \<in> set (flist c) \<Longrightarrow> h x \<noteq> None"
proof (induction c arbitrary: q)
  case (Cons f c)
  obtain b a u where "f = Fr b a u" by (cases f)
  then show ?case using Cons tr_dom by (auto simp: links_Some)
qed simp

lemma hole_dom: "hole s h c t \<Longrightarrow> x \<in> set_tree t \<union> set (flist c) \<union> {st_nil s} \<Longrightarrow> h x \<noteq> None"
  by (auto simp: hole_def dest: tr_dom cx_dom)

lemma hole_replace:
  assumes ho: "hole s h c t" and s': "st_nil s' = st_nil s"
    and top: "case c of [] \<Rightarrow> st_root s' = rt (st_nil s) t'
      | Fr b a u # _ \<Rightarrow> st_root s' = st_root s \<and> links b h' a = map_option (\<lambda>(p, _, r). (p, rt (st_nil s) t', r)) (links b h a)"
    and rest: "\<And>x. x \<in> set (flist c) \<Longrightarrow> x \<noteq> pa (st_nil s) c \<Longrightarrow> links True h' x = links True h x"
    and t': "tr h' (st_nil s) (pa (st_nil s) c) t'" "distinct (inorder t')" "set_tree t' \<inter> set (flist c) = {}"
      "st_nil s \<notin> set_tree t'" "0 \<notin> set_tree t'" "map_option sn_color (h' (st_nil s)) = Some 1"
  shows "hole s' h' c t'"
proof -
  have "cx (st_root s') h' (st_nil s) c (rt (st_nil s) t')"
  proof (cases c)
    case Nil
    then show ?thesis using top by simp
  next
    case (Cons f c')
    obtain b a u where f: "f = Fr b a u" by (cases f)
    have d: "a \<notin> set_tree u" "a \<notin> set (flist c')" using ho Cons f by (auto simp: hole_def)
    have "tr h' (st_nil s) a u = tr h (st_nil s) a u" by (intro tr_cong rest) (use d Cons f in auto)
    moreover have "cx (st_root s) h' (st_nil s) c' a = cx (st_root s) h (st_nil s) c' a" by (intro cx_cong rest) (use d Cons f in auto)
    ultimately show ?thesis using ho top Cons f by (auto simp: hole_def links_Some)
  qed
  then show ?thesis using ho t' s' by (auto simp: hole_def)
qed

lemma set_okE:
  assumes "set_ok s h ns xs"
  obtains T where "hole s h [] T" "rbt (cl h) T" "inorder T = ns" "map (dat h) ns = map Some xs" "increasing s h ns"
    "st_size s = int (length xs)" "comp_ok (st_comp s)" "length ns = length xs"
proof -
  have m: "map (dat h) ns = map Some xs" using assms by (simp add: set_ok_def)
  then have "length ns = length xs" by (metis length_map)
  then show thesis using that assms increasing_data [OF m, of s] by (auto simp: set_ok_def)
qed

lemma data_index:
  assumes "map (dat h) ns = map Some xs" "a \<in> set ns"
  shows "\<exists>x\<in>set xs. dat h a = Some x"
proof -
  have "dat h a \<in> set (map (dat h) ns)" using assms(2) by simp
  then show ?thesis unfolding assms(1) by auto
qed

lemma cmpd_set:
  assumes "map (dat h) ns = map Some xs"
  shows "(\<exists>a\<in>set ns. P (cmpd s h x a)) \<longleftrightarrow> (\<exists>y\<in>set xs. P (st_comp s x y))"
proof -
  have "set (map (dat h) ns) = set (map Some xs)" using assms by simp
  then have e: "dat h ` set ns = Some ` set xs" by simp
  have "(\<exists>a\<in>set ns. P (cmpd s h x a)) \<longleftrightarrow> (\<exists>d\<in>dat h ` set ns. P (case d of None \<Rightarrow> 0 | Some d \<Rightarrow> st_comp s x d))"
    by (auto simp: cmpd_def)
  then show ?thesis unfolding e by auto
qed

lemma coset_search_spec:
  assumes "set_ok s h ns xs"
  shows "\<exists>a. coset_search s h x = Some a \<and>
    (if \<exists>y\<in>set xs. st_comp s x y = 0 then a \<in> set ns \<and> a \<noteq> st_nil s \<and> cmpd s h x a = 0 else a = st_nil s)"
proof -
  obtain T where T: "hole s h [] T" "rbt (cl h) T" "inorder T = ns" "map (dat h) ns = map Some xs" "increasing s h ns"
    "st_size s = int (length xs)" "comp_ok (st_comp s)" "length ns = length xs" using set_okE [OF assms] .
  have n: "set_tree T = set ns" "st_nil s \<notin> set ns" using T(1) unfolding T(3) [symmetric] by (auto simp: hole_def)
  have t: "tr h (st_nil s) (st_nil s) T" "st_root s = rt (st_nil s) T" using T(1) by (auto simp: hole_def)
  have "st_nil s \<notin> set_tree T" "increasing s h (inorder T)" using n T(3,5) by simp_all
  from search_loop_spec [OF t(1) this, of x] obtain a where a: "search_loop s h x (rt (st_nil s) T) = Some a"
    "a = st_nil s \<and> (\<forall>b\<in>set ns. cmpd s h x b \<noteq> 0) \<or> a \<in> set ns \<and> cmpd s h x a = 0" unfolding n by blast
  have e: "(\<exists>a\<in>set ns. cmpd s h x a = 0) \<longleftrightarrow> (\<exists>y\<in>set xs. st_comp s x y = 0)"
    by (rule cmpd_set [OF T(4), of "\<lambda>k. k = 0" s x])
  show ?thesis
  proof (cases "\<exists>y\<in>set xs. st_comp s x y = 0")
    case True
    then show ?thesis using a n e t(2) unfolding coset_search_def by auto
  next
    case False
    then show ?thesis using a e t(2) unfolding coset_search_def by auto
  qed
qed

definition sins :: "('a \<Rightarrow> 'a \<Rightarrow> int) \<Rightarrow> 'a \<Rightarrow> 'a list \<Rightarrow> 'a list" where
  "sins f x xs = (if \<exists>y\<in>set xs. f x y = 0 then xs else takeWhile (\<lambda>y. f x y > 0) xs @ x # dropWhile (\<lambda>y. f x y > 0) xs)"

text \<open>A set of nodes whose order was checked, with new data at a new node.\<close>

lemma sins_split:
  assumes "\<forall>y\<in>set ys. f x y > 0" "\<forall>y\<in>set zs. f x y < 0"
  shows "sins f x (ys @ zs) = ys @ x # zs"
proof -
  have "\<not> (\<exists>y\<in>set (ys @ zs). f x y = 0)" using assms by force
  moreover have "takeWhile (\<lambda>y. f x y > 0) (ys @ zs) = ys" "dropWhile (\<lambda>y. f x y > 0) (ys @ zs) = zs"
    using assms by (cases zs; auto simp: takeWhile_append2 dropWhile_append2; force)+
  ultimately show ?thesis unfolding sins_def by simp
qed

lemma sorted_sins:
  assumes "comp_ok f" "sorted_wrt (\<lambda>a b. f a b < 0) (ys @ zs)" "\<forall>y\<in>set ys. f x y > 0" "\<forall>y\<in>set zs. f x y < 0"
  shows "sorted_wrt (\<lambda>a b. f a b < 0) (ys @ x # zs)"
  using assms(2-4) comp_okD(1) [OF assms(1)] comp_okD(4,5) [OF assms(1)] by (auto simp: sorted_wrt_append)

lemma map_split: "map f (us @ vs) = map Some xs \<Longrightarrow> \<exists>ys zs. xs = ys @ zs \<and> map f us = map Some ys \<and> map f vs = map Some zs"
  by (auto simp: map_eq_append_conv append_eq_map_conv)

lemma reshapes_dat: "reshapes A s h s' h' \<Longrightarrow> dat h' a = dat h a"
  unfolding reshapes_def dat_def by (auto split: option.splits dest: spec [of _ a])

lemma inc_data:
  assumes "map (dat h) us = map Some ys"
  shows "(\<forall>b\<in>set us. cmpd s h x b > 0) \<longleftrightarrow> (\<forall>y\<in>set ys. st_comp s x y > 0)"
    "(\<forall>b\<in>set us. cmpd s h x b < 0) \<longleftrightarrow> (\<forall>y\<in>set ys. st_comp s x y < 0)"
  using cmpd_set [OF assms, of "\<lambda>k. \<not> k > 0" s x] cmpd_set [OF assms, of "\<lambda>k. \<not> k < 0" s x] by blast+

lemma child_new [simp]: "child b \<lparr>sn_parent = p, sn_left = l, sn_right = r, sn_data = d, sn_color = k\<rparr> = (if b then l else r)"
  by (simp add: child_def del: child_simps)

lemma coset_add_spec:
  assumes ok: "set_ok s h ns xs" and p: "p \<noteq> 0" "h p = None" and len: "length xs + 1 < 2 ^ 31"
  shows "\<exists>s' h' ns'. coset_add s h p x = Some (s', h') \<and> set_ok s' h' ns' (sins (st_comp s) x xs) \<and>
    st_nil s' = st_nil s \<and> st_comp s' = st_comp s \<and> set ns' \<subseteq> insert p (set ns) \<and> (\<forall>a. a \<notin> insert p (set ns) \<longrightarrow> h' a = h a)"
proof -
  let ?nil = "st_nil s"
  obtain T where T: "hole s h [] T" "rbt (cl h) T" "inorder T = ns" "map (dat h) ns = map Some xs" "increasing s h ns"
    "st_size s = int (length xs)" "comp_ok (st_comp s)" "length ns = length xs" using set_okE [OF ok] .
  have root: "st_root s = rt ?nil T" using T(1) by (simp add: hole_def)
  have n: "set_tree T = set ns" unfolding T(3) [symmetric] by simp
  have "increasing s h (inorder (plug [] T))" using T(3,5) by simp
  from add_place_spec [OF T(1) this, of x 0]
  have "(\<exists>a\<in>set ns. cmpd s h x a = 0) \<and> add_place s h x ?nil (st_root s) 0 = Some None \<or>
    (\<exists>c ret. add_place s h x ?nil (st_root s) 0 = Some (Some (pa ?nil c, ret)) \<and> plug c Leaf = T \<and>
      (\<forall>b\<in>set (lf c). cmpd s h x b > 0) \<and> (\<forall>b\<in>set (rg c). cmpd s h x b < 0) \<and> (case c of [] \<Rightarrow> True | Fr b a u # _ \<Rightarrow> (ret < 0) = b))"
    by (simp add: root n)
  then consider "\<exists>a\<in>set ns. cmpd s h x a = 0" "add_place s h x ?nil (st_root s) 0 = Some None"
    | c ret where "add_place s h x ?nil (st_root s) 0 = Some (Some (pa ?nil c, ret))" "plug c Leaf = T"
      "\<forall>b\<in>set (lf c). cmpd s h x b > 0" "\<forall>b\<in>set (rg c). cmpd s h x b < 0" "case c of [] \<Rightarrow> True | Fr b a u # _ \<Rightarrow> (ret < 0) = b"
    by blast
  then show ?thesis
  proof cases
    case 1
    then have "sins (st_comp s) x xs = xs" using cmpd_set [OF T(4), of "\<lambda>k. k = 0" s x] by (simp add: sins_def)
    moreover have "coset_add s h p x = Some (s, h)" using 1(2) by (simp add: coset_add_def)
    ultimately show ?thesis using ok by auto
  next
    case 2
    have hc: "hole s h c Leaf" using T(1) hole_plug [of s h c Leaf] 2(2) by simp
    have ns: "ns = lf c @ rg c" using T(3) 2(2) inorder_ctx [of c Leaf] by simp
    have nsc: "set ns = set (flist c)" using n 2(2) set_plug [of c Leaf] by auto
    have pf: "p \<notin> set (flist c)" "p \<noteq> ?nil" using hole_dom [OF hc, of p] p by auto
    define hp where "hp = h(p \<mapsto> \<lparr>sn_parent = pa ?nil c, sn_left = ?nil, sn_right = ?nil, sn_data = Some x, sn_color = 0\<rparr>)"
    define s1 where "s1 = s\<lparr>st_size := st_size s + 1\<rparr>"
    obtain s2 h2 where 3: "(if pa ?nil c = ?nil then Some (s1\<lparr>st_root := p\<rparr>, hp)
        else do { h \<leftarrow> sn_upd hp (pa ?nil c) (set_child (ret < 0) p); Some (s1, h) }) = Some (s2, h2)"
      and s2: "st_nil s2 = ?nil" "st_comp s2 = st_comp s" "st_size s2 = st_size s + 1"
      and ho2: "hole s2 h2 c (Node Leaf p Leaf)" and cl2: "cl h2 = (cl h)(p := 0)"
      and dat2: "dat h2 = (dat h)(p := Some x)" and fr2: "\<forall>a. a \<notin> insert p (set ns) \<longrightarrow> h2 a = h a"
    proof (cases c)
      case Nil
      show thesis
      proof (rule that)
        show "hole (s1\<lparr>st_root := p\<rparr>) hp c (Node Leaf p Leaf)"
          using p pf hc Nil by (intro hole_replace [OF hc]) (auto simp: s1_def hp_def links_def hole_def)
      qed (use Nil in \<open>auto simp: s1_def hp_def cl_def dat_def\<close>)
    next
      case (Cons f c')
      obtain b a u where f: "f = Fr b a u" by (cases f)
      obtain k where k: "h a = Some k" "a \<noteq> ?nil" "child b k = ?nil" using hole_cons [OF hc [unfolded Cons f]] by auto
      have a: "a \<noteq> p" using pf Cons f by auto
      let ?h = "hp(a \<mapsto> set_child b p k)"
      show thesis
      proof (rule that)
        show "hole s1 ?h c (Node Leaf p Leaf)"
          using p pf hc Cons f a k by (intro hole_replace [OF hc]) (auto simp: s1_def hp_def links_def hole_def)
        show "(if pa ?nil c = ?nil then Some (s1\<lparr>st_root := p\<rparr>, hp)
          else do { h \<leftarrow> sn_upd hp (pa ?nil c) (set_child (ret < 0) p); Some (s1, h) }) = Some (s1, ?h)"
          using Cons f a k 2(5) by (simp add: sn_upd_def hp_def)
        show "\<forall>x. x \<notin> insert p (set ns) \<longrightarrow> ?h x = h x" using nsc Cons f by (simp add: hp_def)
      qed (use a k in \<open>auto simp: s1_def hp_def cl_def dat_def fun_eq_iff\<close>)
    qed
    have C: "cok (cl h) c 0 1" "rblack (cl h) c"
      using T(2) cok_plug [of "cl h" c Leaf] rc_plug [of "cl h" c Leaf] 2(2) by (auto simp: rbt_def)
    have pre: "rc (cl h2) (Node Leaf p Leaf) = 0" "invc (cl h2) (Node Leaf p Leaf)" "invh (cl h2) (Node Leaf p Leaf)"
      "cok (cl h2) c (bh (cl h2) (Node Leaf p Leaf)) 1" "rblack (cl h2) c"
      using C pf by (simp_all add: cl2)
    have A: "set_tree (plug c (Node Leaf p Leaf)) \<subseteq> insert p (set ns)" by (auto simp: set_plug nsc)
    obtain s' h' T' where r: "insert_fixup s2 h2 p = Some (s', h')" "reshapes (insert p (set ns)) s2 h2 s' h'" "hole s' h' [] T'"
      "inorder T' = lf c @ p # rg c" "rbt (cl h') T'"
      using insert_fixup_spec [OF ho2 _ pre A] by (auto simp: inorder_ctx)
    have d': "dat h' = (dat h)(p := Some x)" using reshapes_dat [OF r(2)] dat2 by auto
    have ss: "st_nil s' = ?nil" "st_comp s' = st_comp s" "st_size s' = st_size s + 1"
      using r(2) s2 by (simp_all add: reshapes_def same_set_def)
    obtain ys zs where yz: "xs = ys @ zs" "map (dat h) (lf c) = map Some ys" "map (dat h) (rg c) = map Some zs"
      using map_split [of "dat h" "lf c" "rg c" xs] T(4) ns by blast
    have b: "\<forall>y\<in>set ys. st_comp s x y > 0" "\<forall>y\<in>set zs. st_comp s x y < 0"
      using 2(3,4) inc_data(1) [OF yz(2), of s x] inc_data(2) [OF yz(3), of s x] by simp_all
    have sn: "sins (st_comp s) x xs = ys @ x # zs" unfolding yz(1) by (rule sins_split [where f = "st_comp s", OF b])
    have "p \<notin> set (lf c)" "p \<notin> set (rg c)" using ns nsc pf by auto
    then have m: "map (dat h') (lf c @ p # rg c) = map Some (ys @ x # zs)"
      unfolding d' using yz by (simp add: map_fun_upd)
    have "sorted_wrt (\<lambda>a b. st_comp s a b < 0) xs" using ok by (simp add: set_ok_def)
    then have "sorted_wrt (\<lambda>a b. st_comp s a b < 0) (ys @ x # zs)" using sorted_sins [of "st_comp s" ys zs x] T(7) b yz(1) by simp
    moreover have "length (ys @ x # zs) = length xs + 1" using yz(1) by simp
    ultimately have ok': "set_ok s' h' (lf c @ p # rg c) (sins (st_comp s) x xs)"
      using r(3-5) m T(6,7) ss unfolding set_ok_def sn by auto
    have "- (2 ^ 31) \<le> st_size s + 1 \<and> st_size s + 1 < 2 ^ 31" using T(6) len by simp
    then have "coset_add s h p x = insert_fixup s2 h2 p"
      using 2(1) 3 p by (simp add: coset_add_def cassert_def i32_in hp_def [symmetric] s1_def [symmetric])
    moreover have "set (lf c @ p # rg c) \<subseteq> insert p (set ns)" unfolding ns by auto
    moreover have "\<forall>a. a \<notin> insert p (set ns) \<longrightarrow> h' a = h a" using r(2) fr2 by (simp add: reshapes_def)
    ultimately show ?thesis using r(1) ok' ss(1,2) by (intro exI [of _ s'] exI [of _ h'] exI [of _ "lf c @ p # rg c"]) simp
  qed
qed


section \<open>Deleting\<close>

lemma find_ctx: "a \<in> set_tree T \<Longrightarrow> \<exists>c l r. T = plug c (Node l a r)"
proof -
  have "a \<in> set_tree t \<Longrightarrow> \<exists>c' l r. plug c t = plug (c' @ c) (Node l a r)" for c t
  proof (induction t arbitrary: c)
    case (Node t1 x t2)
    show ?case
    proof (cases "a = x")
      case True
      then show ?thesis by (intro exI [of _ "[]"]) auto
    next
      case False
      have 1: "plug c (Node t1 x t2) = plug (Fr True x t2 # c) t1" "plug c (Node t1 x t2) = plug (Fr False x t1 # c) t2"
        by (simp_all add: nd_def)
      have "a \<in> set_tree t1 \<or> a \<in> set_tree t2" using Node.prems False by auto
      then show ?thesis
      proof
        assume "a \<in> set_tree t1"
        from Node.IH(1) [OF this, of "Fr True x t2 # c"] obtain c' l r where
          "plug (Fr True x t2 # c) t1 = plug (c' @ Fr True x t2 # c) (Node l a r)" by blast
        then show ?thesis unfolding 1(1) by (intro exI [of _ "c' @ [Fr True x t2]"]) auto
      next
        assume "a \<in> set_tree t2"
        from Node.IH(2) [OF this, of "Fr False x t1 # c"] obtain c' l r where
          "plug (Fr False x t1 # c) t2 = plug (c' @ Fr False x t1 # c) (Node l a r)" by blast
        then show ?thesis unfolding 1(2) by (intro exI [of _ "c' @ [Fr False x t1]"]) auto
      qed
    qed
  qed simp
  from this [of T "[]"] show "a \<in> set_tree T \<Longrightarrow> \<exists>c l r. T = plug c (Node l a r)" by simp
qed

lemma smallest_ctx:
  assumes "hole s h c t" "t \<noteq> Leaf"
  shows "\<exists>c' m r. coset_outer True s h (rt (st_nil s) t) = Some m \<and> hole s h c' (Node Leaf m r) \<and>
    plug c' (Node Leaf m r) = plug c t \<and> lf c' = lf c \<and> (c \<noteq> [] \<longrightarrow> c' \<noteq> [])"
  using assms
proof (induction t arbitrary: c)
  case (Node l a r)
  obtain n where n: "h a = Some n" "child True n = rt (st_nil s) l"
    using tr_node [of h "st_nil s" _ l a r] Node.prems(1) unfolding hole_def by blast
  show ?case
  proof (cases l)
    case Leaf
    then have "coset_outer True s h a = Some a" using n by (simp add: coset_outer.simps [of True s h a])
    then show ?thesis using Leaf Node.prems(1) by (intro exI [of _ c] exI [of _ a] exI [of _ r]) simp
  next
    case (Node l1 b l2)
    have ne: "b \<noteq> st_nil s" using Node.prems(1) Node by (simp add: hole_def)
    have ho: "hole s h (Fr True a r # c) l" using Node.prems(1) by (simp add: nd_def)
    have "coset_outer True s h a = coset_outer True s h (rt (st_nil s) l)"
      using n ne Node by (simp add: coset_outer.simps [of True s h a])
    moreover have "plug (Fr True a r # c) l = plug c (Node l a r)" by (simp add: nd_def)
    ultimately show ?thesis using Node.IH(1) [OF ho] Node by auto
  qed
qed simp

lemma coset_unlink_spec:
  assumes ho: "hole s h c (nd b Leaf m u)"
  shows "\<exists>s1 h1. coset_unlink s h m (rt (st_nil s) u) = Some (s1, h1) \<and> hole s1 h1 c u \<and> par_ok s1 h1 c u \<and>
    same_set s s1 \<and> same_cd h h1 \<and> (\<forall>a. a \<notin> insert (st_nil s) (set_tree u \<union> set (flist c)) \<longrightarrow> h1 a = h a)"
proof -
  let ?nil = "st_nil s"
  obtain d where d: "h m = Some d" "sn_parent d = pa ?nil c" using hole_nodes(1) [OF ho] by auto
  have tm: "tr h ?nil m u" "distinct (inorder u)" "?nil \<notin> set_tree u" "0 \<notin> set_tree u" "set_tree u \<inter> set (flist c) = {}"
    "m \<notin> set_tree u" "?nil \<notin> set (flist c)" using ho by (auto simp: hole_def)
  obtain x where x: "h (rt ?nil u) = Some x" using tr_color [OF tm(1) ho tm(3)] by blast
  have ncol: "map_option sn_color (h ?nil) = Some 1" using ho by (simp add: hole_def)
  have cu: "rt ?nil u \<notin> set (flist c)" using rt_in [of ?nil u] tm(5,7) by auto
  define h1 where "h1 = h(rt ?nil u \<mapsto> set_parent (pa ?nil c) x)"
  have tu: "tr g ?nil (pa ?nil c) u" if "\<And>a. a \<in> set_tree u \<Longrightarrow> g a = h1 a" for g
  proof (rule tr_parent [OF tm(1-3)])
    show "links True g a = links True h a" if "a \<in> set_tree u" "a \<noteq> rt ?nil u" for a
      using that \<open>\<And>a. a \<in> set_tree u \<Longrightarrow> g a = h1 a\<close> by (simp add: links_def h1_def)
    assume "u \<noteq> Leaf"
    then have "rt ?nil u \<in> set_tree u" by (cases u) auto
    then show "links True g (rt ?nil u) = map_option (\<lambda>(_, xy). (pa ?nil c, xy)) (links True h (rt ?nil u))"
      using \<open>\<And>a. a \<in> set_tree u \<Longrightarrow> g a = h1 a\<close> x by (simp add: links_def h1_def)
  qed
  show ?thesis
  proof (cases c)
    case Nil
    have r: "coset_unlink s h m (rt ?nil u) = Some (s\<lparr>st_root := rt ?nil u\<rparr>, h1)"
      using d x Nil by (auto simp: coset_unlink_def sn_upd_def h1_def)
    have "hole (s\<lparr>st_root := rt ?nil u\<rparr>) h1 c u"
      using tm Nil tu [of h1] ncol x by (intro hole_replace [OF ho]) (auto simp: h1_def)
    then show ?thesis using r x Nil by (intro exI [of _ "s\<lparr>st_root := rt ?nil u\<rparr>"] exI [of _ h1])
      (use rt_in [of ?nil u] in \<open>auto simp: par_ok_def same_set_def same_cd_def h1_def\<close>)
  next
    case (Cons f c')
    obtain b' a w where f: "f = Fr b' a w" by (cases f)
    obtain k where k: "h a = Some k" "sn_parent k = pa ?nil c'" "child b' k = rt ?nil (nd b Leaf m u)" "child (\<not> b') k = rt ?nil w"
      "a \<noteq> ?nil" "hole s h c' (nd b' (nd b Leaf m u) a w)" "nd b Leaf m u \<noteq> Leaf \<longrightarrow> (rt ?nil (nd b Leaf m u) = child True k) = b'"
      using hole_cons [OF ho [unfolded Cons f]] .
    have a: "a \<noteq> rt ?nil u" "a \<notin> set_tree u" using cu tm(5) Cons f by auto
    define h2 where "h2 = h1(a \<mapsto> set_child b' (rt ?nil u) k)"
    have r: "coset_unlink s h m (rt ?nil u) = Some (s, h2)"
      using d x Cons f a k by (cases "m = rt ?nil u") (auto simp: coset_unlink_def sn_upd_def h1_def h2_def)
    have "hole s h2 c u"
    proof (rule hole_replace [OF ho])
      show "tr h2 ?nil (pa ?nil c) u" using a by (intro tu) (auto simp: h2_def)
      show "links True h2 y = links True h y" if "y \<in> set (flist c)" "y \<noteq> pa ?nil c" for y
        using that cu Cons f by (auto simp: links_def h1_def h2_def)
    qed (use tm Cons f a k ncol x in \<open>auto simp: links_def h1_def h2_def\<close>)
    then show ?thesis using r x Cons f a k by (intro exI [of _ s] exI [of _ h2])
      (use rt_in [of ?nil u] in \<open>auto simp: par_ok_def same_set_def same_cd_def h1_def h2_def\<close>)
  qed
qed

lemma unlink_inv:
  assumes "rbt C (plug c (nd b Leaf m u))"
  shows "C m = 1 \<Longrightarrow> almost C u \<and> cok C c (Suc (bh C u)) 1 \<and> rblack C c"
    "C m \<noteq> 1 \<Longrightarrow> rbt C (plug c u)"
proof -
  have i: "invc C (nd b Leaf m u)" "invh C (nd b Leaf m u)" "cok C c (bh C (nd b Leaf m u)) (C m)"
    using assms cok_plug [of C c "nd b Leaf m u"] by (auto simp: rbt_def)
  have rb: "rblack C c" using assms rc_plug [of C c "nd b Leaf m u"] by (simp add: rbt_def)
  show "almost C u \<and> cok C c (Suc (bh C u)) 1 \<and> rblack C c" if "C m = 1"
    using that i rb invc_almost by (auto simp: bh_nd)
  show "rbt C (plug c u)" if "C m \<noteq> 1"
  proof -
    have u: "u = Leaf" using that i by (cases u) (auto split: if_splits)
    have "c \<noteq> []" using assms that by (auto simp: rbt_def)
    moreover have "cok C c 0 1" using i(3) that u cok_black by (auto simp: bh_nd)
    then have "invc C (plug c u)" "invh C (plug c u)" using cok_plug [of C c u] u by auto
    ultimately show ?thesis using rc_plug [of C c u] rb by (simp add: rbt_def)
  qed
qed


lemma hole_drop:
  assumes "hole s h c t" "m \<notin> set_tree t \<union> set (flist c)" "m \<noteq> st_nil s"
  shows "hole s (h(m := None)) c t"
proof -
  have "tr (h(m := None)) (st_nil s) (pa (st_nil s) c) t = tr h (st_nil s) (pa (st_nil s) c) t"
    using assms(2) by (intro tr_cong) (auto simp: links_def)
  moreover have "cx (st_root s) (h(m := None)) (st_nil s) c q = cx (st_root s) h (st_nil s) c q" for q
    using assms(2) by (intro cx_cong) (auto simp: links_def)
  ultimately show ?thesis using assms by (auto simp: hole_def)
qed

lemma hole_data:
  assumes "hole s h c t" "h a = Some n"
  shows "hole s (h(a \<mapsto> n\<lparr>sn_data := d\<rparr>)) c t" "cl (h(a \<mapsto> n\<lparr>sn_data := d\<rparr>)) = cl h"
proof -
  have l: "links True (h(a \<mapsto> n\<lparr>sn_data := d\<rparr>)) x = links True h x" for x
    using assms(2) by (simp add: links_def child_def del: child_simps)
  have "tr (h(a \<mapsto> n\<lparr>sn_data := d\<rparr>)) (st_nil s) p u = tr h (st_nil s) p u" for p u by (rule tr_cong) (rule l)
  moreover have "cx (st_root s) (h(a \<mapsto> n\<lparr>sn_data := d\<rparr>)) (st_nil s) c q = cx (st_root s) h (st_nil s) c q" for q
    by (rule cx_cong) (rule l)
  ultimately show "hole s (h(a \<mapsto> n\<lparr>sn_data := d\<rparr>)) c t" using assms by (auto simp: hole_def)
  show "cl (h(a \<mapsto> n\<lparr>sn_data := d\<rparr>)) = cl h" using assms(2) by (auto simp: cl_def fun_eq_iff)
qed

lemma same_cd_dat: "same_cd h h' \<Longrightarrow> dat h' = dat h"
proof
  fix a assume "same_cd h h'"
  from same_cd_data [OF this, of a] show "dat h' a = dat h a" by (auto simp: dat_def split: option.splits)
qed

text \<open>Which node goes: the one that holds the value when it has a child missing, else the smallest node of
  its right subtree, whose data it takes over.  The context is that of the node that goes.\<close>

lemma delete_pick:
  assumes ho: "hole s h [] T" and a: "a \<in> set_tree T"
  shows "\<exists>c b m u. hole s h c (nd b Leaf m u) \<and> plug c (nd b Leaf m u) = T \<and>
    (\<exists>n. h a = Some n \<and> (if sn_left n = st_nil s \<or> sn_right n = st_nil s then Some a else coset_smallest s h (sn_right n)) = Some m) \<and>
    (\<exists>d. h m = Some d \<and> (if sn_left d \<noteq> st_nil s then sn_left d else sn_right d) = rt (st_nil s) u) \<and>
    (m \<noteq> a \<longrightarrow> b \<and> (\<exists>us. us \<noteq> [] \<and> lf c = us @ [a]))"
proof -
  let ?nil = "st_nil s"
  obtain c l r where T: "T = plug c (Node l a r)" using find_ctx [OF a] by blast
  have h: "hole s h c (Node l a r)" using ho hole_plug [of s h c] T by simp
  obtain n where n: "h a = Some n" "child True n = rt ?nil l" "child False n = rt ?nil r"
    using tr_node [of h ?nil _ l a r] h unfolding hole_def by blast
  have nl: "rt ?nil l = ?nil \<longleftrightarrow> l = Leaf" "rt ?nil r = ?nil \<longleftrightarrow> r = Leaf" using h by (cases l; cases r; auto simp: hole_def)+
  consider "l = Leaf" | "l \<noteq> Leaf" "r = Leaf" | "l \<noteq> Leaf" "r \<noteq> Leaf" by blast
  then show ?thesis
  proof cases
    case 1
    then have "Node l a r = nd True Leaf a r" by (simp add: nd_def)
    then show ?thesis using h T n nl 1 by (intro exI [of _ c] exI [of _ True] exI [of _ a] exI [of _ r]) auto
  next
    case 2
    then have "Node l a r = nd False Leaf a l" by (simp add: nd_def)
    then show ?thesis using h T n nl 2 by (intro exI [of _ c] exI [of _ False] exI [of _ a] exI [of _ l]) auto
  next
    case 3
    have "hole s h (Fr False a l # c) r" using h by (simp add: nd_def)
    from smallest_ctx [OF this 3(2)] obtain c' m q where m: "coset_outer True s h (rt ?nil r) = Some m" "hole s h c' (Node Leaf m q)"
      "plug c' (Node Leaf m q) = plug (Fr False a l # c) r" "lf c' = lf (Fr False a l # c)" by blast
    have e: "Node Leaf m q = nd True Leaf m q" by (simp add: nd_def)
    obtain d where d: "h m = Some d" "child True d = ?nil" "child False d = rt ?nil q"
      using tr_node [of h ?nil _ Leaf m q] m(2) unfolding hole_def by auto
    have "plug (Fr False a l # c) r = T" using T by (simp add: nd_def)
    then show ?thesis using m n nl 3 d e
      by (intro exI [of _ c'] exI [of _ True] exI [of _ m] exI [of _ q]) (auto simp: coset_smallest_def)
  qed
qed


definition sdel :: "('a \<Rightarrow> 'a \<Rightarrow> int) \<Rightarrow> 'a \<Rightarrow> 'a list \<Rightarrow> 'a list" where
  "sdel f x xs = filter (\<lambda>y. f x y \<noteq> 0) xs"

lemma hole_size [simp]: "hole (s\<lparr>st_size := k\<rparr>) h c t = hole s h c t" "par_ok (s\<lparr>st_size := k\<rparr>) h c t = par_ok s h c t"
  by (simp_all add: hole_def par_ok_def)

lemma sdel_split:
  assumes "comp_ok f" "sorted_wrt (\<lambda>a b. f a b < 0) (ys @ e # zs)" "f x e = 0"
  shows "sdel f x (ys @ e # zs) = ys @ zs"
proof -
  have e: "f e x = 0" using comp_okD(2) [OF assms(1)] assms(3) by blast
  have "f x y \<noteq> 0" if "y \<in> set ys" for y
  proof -
    have "f y e < 0" using assms(2) that by (auto simp: sorted_wrt_append)
    then have "f y x < 0" using comp_okD(5) [OF assms(1), of y e x] e by simp
    then show ?thesis using comp_okD(1) [OF assms(1), of y x] by simp
  qed
  moreover have "f x y \<noteq> 0" if "y \<in> set zs" for y
  proof -
    have "f e y < 0" using assms(2) that by (auto simp: sorted_wrt_append)
    then show ?thesis using comp_okD(4) [OF assms(1), of x e y] assms(3) by simp
  qed
  ultimately show ?thesis using assms(3) by (simp add: sdel_def filter_id_conv)
qed

lemma sdel_none: "\<not> (\<exists>y\<in>set xs. f x y = 0) \<Longrightarrow> sdel f x xs = xs"
  by (auto simp: sdel_def filter_id_conv)

text \<open>The data of the nodes that stay, when the data of the node that goes moves to the one before it.\<close>

lemma data_moved:
  assumes m: "map D ns = map Some xs" and d: "distinct ns" and ns: "ns = us @ a # vs" "D a = Some e"
    and g: "(g = a \<and> D' = D) \<or> (\<exists>vs'. vs = g # vs' \<and> D' = D(a := D g))"
  shows "\<exists>ys zs. xs = ys @ e # zs \<and> map D' (remove1 g ns) = map Some (ys @ zs)"
proof -
  obtain ys zs' where 1: "xs = ys @ zs'" "map D us = map Some ys" "map D (a # vs) = map Some zs'"
    using map_split [of D us "a # vs" xs] m ns(1) by blast
  then obtain zs where 2: "zs' = e # zs" "map D vs = map Some zs" using ns(2) by (cases zs') auto
  show ?thesis
  proof (intro exI conjI)
    show "xs = ys @ e # zs" using 1(1) 2(1) by simp
    from g show "map D' (remove1 g ns) = map Some (ys @ zs)"
    proof (elim disjE conjE exE)
      assume "g = a" "D' = D"
      then show ?thesis using d ns(1) 1(2) 2(2) by (simp add: remove1_append)
    next
      fix vs' assume v: "vs = g # vs'" "D' = D(a := D g)"
      have "remove1 g ns = us @ a # vs'" using d ns(1) v(1) by (auto simp: remove1_append)
      then show ?thesis using d ns(1) v 1(2) 2(2) by (auto simp: map_fun_upd)
    qed
  qed
qed

lemma coset_delete_spec:
  assumes ok: "set_ok s h ns xs" and len: "length xs < 2 ^ 31" and ex: "\<exists>y\<in>set xs. st_comp s x y = 0"
  shows "\<exists>s' h' m. coset_delete s h x = Some (s', h') \<and> set_ok s' h' (remove1 m ns) (sdel (st_comp s) x xs) \<and> m \<in> set ns \<and>
    st_nil s' = st_nil s \<and> st_comp s' = st_comp s \<and> h' m = None \<and> (\<forall>a. a \<notin> insert (st_nil s) (set ns) \<longrightarrow> h' a = h a) \<and>
    (cmpd s h x (hd ns) = 0 \<longrightarrow> m = hd ns)"
proof -
  let ?nil = "st_nil s"
  obtain T where T: "hole s h [] T" "rbt (cl h) T" "inorder T = ns" "map (dat h) ns = map Some xs" "increasing s h ns"
    "st_size s = int (length xs)" "comp_ok (st_comp s)" "length ns = length xs" using set_okE [OF ok] .
  have dn: "distinct ns" "?nil \<notin> set ns" "0 \<notin> set ns" using T(1) unfolding T(3) [symmetric] by (simp_all add: hole_def)
  obtain a where a: "coset_search s h x = Some a" "a \<in> set ns" "a \<noteq> ?nil" "cmpd s h x a = 0"
    using coset_search_spec [OF ok, of x] ex by auto
  have "a \<in> set_tree T" using a(2) T(3) by auto
  from delete_pick [OF T(1) this] obtain c b m u n d where
    c: "hole s h c (nd b Leaf m u)" "plug c (nd b Leaf m u) = T" "h a = Some n"
      "(if sn_left n = ?nil \<or> sn_right n = ?nil then Some a else coset_smallest s h (sn_right n)) = Some m"
      "h m = Some d" "(if sn_left d \<noteq> ?nil then sn_left d else sn_right d) = rt ?nil u"
      "m \<noteq> a \<longrightarrow> b \<and> (\<exists>us. us \<noteq> [] \<and> lf c = us @ [a])" by blast
  obtain s1 h1 where 1: "coset_unlink s h m (rt ?nil u) = Some (s1, h1)" "hole s1 h1 c u" "par_ok s1 h1 c u"
    "same_set s s1" "same_cd h h1" "\<forall>x. x \<notin> insert ?nil (set_tree u \<union> set (flist c)) \<longrightarrow> h1 x = h x"
    using coset_unlink_spec [OF c(1)] by blast
  have ns: "ns = lf c @ (if b then m # inorder u else inorder u @ [m]) @ rg c"
    using T(3) c(2) inorder_ctx [of c "nd b Leaf m u"] by (auto simp: nd_def)
  have mn: "m \<in> set ns" "m \<noteq> ?nil" "m \<notin> set_tree u" "m \<notin> set (flist c)" using ns dn c(1) by (auto simp: hole_def)
  have rem: "remove1 m ns = inorder (plug c u)"
    using dn(1) unfolding ns inorder_ctx by (auto simp: remove1_append)
  have nsu: "set_tree (plug c u) = set ns - {m}"
    using rem dn(1) by (metis set_inorder set_remove1_eq)
  have "h1 a \<noteq> None" using same_cd_color [OF 1(5), of a] c(3) by auto
  then obtain n1 where n1: "h1 a = Some n1" by blast
  define h2 where "h2 = (if m \<noteq> a then h1(a \<mapsto> n1\<lparr>sn_data := sn_data d\<rparr>) else h1)"
  define s2 where "s2 = s1\<lparr>st_size := st_size s - 1\<rparr>"
  have s2: "st_nil s2 = ?nil" "st_comp s2 = st_comp s" "st_size s2 = st_size s - 1"
    using 1(4) by (simp_all add: s2_def same_set_def)
  have ho2: "hole s2 h2 c u" "cl h2 = cl h" using hole_data [OF 1(2) n1, of "sn_data d"] 1(2) same_cd_cl [OF 1(5)]
    by (auto simp: h2_def s2_def)
  have "a \<noteq> ?nil" by (rule a(3))
  have pn: "par_ok s2 h2 c u"
  proof (cases "u = Leaf")
    case True
    then show ?thesis using 1(3) s2(1) a(3) 1(4) by (simp add: par_ok_def h2_def s2_def same_set_def)
  next
    case False
    then show ?thesis by (rule par_ok_tree [OF ho2(1)])
  qed
  have D2: "dat h2 = (if m \<noteq> a then (dat h)(a := dat h m) else dat h)"
    using same_cd_dat [OF 1(5)] n1 c(5) by (auto simp: h2_def dat_def fun_eq_iff)
  have fr2: "\<forall>x. x \<notin> insert ?nil (set ns) \<longrightarrow> h2 x = h x"
  proof (intro allI impI)
    fix y assume y: "y \<notin> insert ?nil (set ns)"
    then have "y \<notin> insert ?nil (set_tree u \<union> set (flist c))" "y \<noteq> a" using nsu a(2) unfolding set_plug by auto
    then show "h2 y = h y" using 1(6) by (simp add: h2_def)
  qed
  have inv: "rbt (cl h) (plug c (nd b Leaf m u))" using T(2) c(2) by simp
  have cd: "sn_color d = cl h m" using c(5) by (simp add: cl_def)
  have "\<exists>s' h' T'. (if sn_color d = 1 then delete_fixup s2 h2 (rt ?nil u) else Some (s2, h2)) = Some (s', h') \<and>
    reshapes (insert ?nil (set ns - {m})) s2 h2 s' h' \<and> hole s' h' [] T' \<and> inorder T' = inorder (plug c u) \<and> rbt (cl h') T'"
  proof (cases "cl h m = 1")
    case True
    have "almost (cl h2) u" "cok (cl h2) c (Suc (bh (cl h2) u)) 1" "rblack (cl h2) c"
      using unlink_inv(1) [OF inv True] ho2(2) by auto
    from delete_fixup_spec [OF ho2(1) pn this, of "set ns - {m}"] show ?thesis using nsu dn(2) s2(1) cd True by simp
  next
    case False
    have "hole s2 h2 [] (plug c u)" using ho2(1) hole_plug by blast
    moreover have "rbt (cl h2) (plug c u)" using unlink_inv(2) [OF inv False] ho2(2) by simp
    ultimately show ?thesis using cd False by auto
  qed
  then obtain s3 h3 T' where 3: "(if sn_color d = 1 then delete_fixup s2 h2 (rt ?nil u) else Some (s2, h2)) = Some (s3, h3)"
    "reshapes (insert ?nil (set ns - {m})) s2 h2 s3 h3" "hole s3 h3 [] T'" "inorder T' = inorder (plug c u)" "rbt (cl h3) T'" by blast
  have s3: "st_nil s3 = ?nil" "st_comp s3 = st_comp s" "st_size s3 = st_size s - 1" using 3(2) s2 by (simp_all add: reshapes_def same_set_def)
  have mT: "m \<notin> set_tree T'" using 3(4) rem dn(1) by (metis set_inorder set_remove1_eq Diff_iff singletonI)
  let ?h = "h3(m := None)"
  have ho3: "hole s3 ?h [] T'" by (rule hole_drop [OF 3(3)]) (use mT mn(2) s3(1) in auto)
  have clm: "cl ?h y = cl h3 y" if "y \<in> set_tree T'" for y using that mT by (auto simp: cl_def)
  have "invc (cl ?h) T' = invc (cl h3) T'" by (rule inv_cong(4)) (rule clm)
  moreover have "invh (cl ?h) T' = invh (cl h3) T'" by (rule inv_cong(3)) (rule clm)
  moreover have "rc (cl ?h) T' = rc (cl h3) T'" by (rule inv_cong(2)) (rule clm)
  ultimately have rb: "rbt (cl ?h) T'" using 3(5) by (simp add: rbt_def)
  have del: "coset_delete s h x = Some (s3, ?h)"
  proof -
    have "i32 (st_size s1 - 1) = Some (st_size s - 1)" using T(6) len ex 1(4) by (auto simp: i32_def same_set_def)
    moreover have "(if m \<noteq> a then sn_upd h1 a (sn_data_update (\<lambda>_. sn_data d)) else Some h1) = Some h2"
      using n1 by (simp add: sn_upd_def h2_def)
    ultimately show ?thesis using a(1,3) c(3-6) 1(1) 3(1)
      by (cases "sn_color d = 1") (simp_all add: coset_delete_def Let_def s2_def [symmetric] del: child_simps)
  qed
  obtain us vs where split: "ns = us @ a # vs" "(m = a \<and> dat h2 = dat h) \<or> (\<exists>vs'. vs = m # vs' \<and> dat h2 = (dat h)(a := dat h m)) \<and> us \<noteq> []"
  proof (cases "m = a")
    case True
    obtain us vs where "ns = us @ a # vs" using split_list [OF a(2)] by blast
    then show thesis using that True D2 by simp
  next
    case False
    then obtain us where "b" "us \<noteq> []" "lf c = us @ [a]" using c(7) by blast
    then show thesis using that [of us "m # inorder u @ rg c"] False D2 ns by simp
  qed
  obtain e where e: "dat h a = Some e" using data_index [OF T(4) a(2)] by blast
  have g: "(m = a \<and> dat h2 = dat h) \<or> (\<exists>vs'. vs = m # vs' \<and> dat h2 = (dat h)(a := dat h m))" using split(2) by blast
  obtain ys zs where yz: "xs = ys @ e # zs" "map (dat h2) (remove1 m ns) = map Some (ys @ zs)"
    using data_moved [OF T(4) dn(1) split(1) e g] by blast
  have sorted: "sorted_wrt (\<lambda>a b. st_comp s a b < 0) (ys @ e # zs)" using ok unfolding yz(1) set_ok_def by blast
  have "st_comp s x e = 0" using a(4) e by (simp add: cmpd_def)
  then have sd: "sdel (st_comp s) x xs = ys @ zs" using sdel_split [OF T(7) sorted, of x] yz(1) by simp
  have "dat ?h y = dat h2 y" if "y \<in> set (remove1 m ns)" for y
    using that dn(1) reshapes_dat [OF 3(2)] by (auto simp: dat_def)
  then have "map (dat ?h) (remove1 m ns) = map Some (ys @ zs)" unfolding yz(2) [symmetric] by simp
  moreover have "sorted_wrt (\<lambda>a b. st_comp s a b < 0) (ys @ zs)" using sorted by (auto simp: sorted_wrt_append)
  moreover have "inorder T' = remove1 m ns" using 3(4) rem by simp
  ultimately have ok': "set_ok s3 ?h (remove1 m ns) (sdel (st_comp s) x xs)"
    using ho3 rb s3 T(6,7) yz(1) unfolding set_ok_def sd by auto
  have "m = hd ns" if "cmpd s h x (hd ns) = 0"
  proof (cases us)
    case Nil
    then show ?thesis using split by auto
  next
    case (Cons u0 us')
    have "increasing s h (us @ a # vs)" using T(5) split(1) by simp
    from cmpd_less(2) [OF this, of x u0] that Cons split(1) a(4) show ?thesis by simp
  qed
  moreover have "?h y = h y" if "y \<notin> insert ?nil (set ns)" for y
    using that 3(2) fr2 mn(1) by (auto simp: reshapes_def)
  ultimately show ?thesis using del ok' mn(1) s3(1,2) by (intro exI [of _ s3] exI [of _ ?h] exI [of _ m]) simp
qed

lemma coset_delete_none:
  assumes "set_ok s h ns xs" "\<not> (\<exists>y\<in>set xs. st_comp s x y = 0)"
  shows "coset_delete s h x = Some (s, h)" "sdel (st_comp s) x xs = xs"
  using coset_search_spec [OF assms(1), of x] assms(2) by (auto simp: coset_delete_def sdel_none)

section \<open>Making and walking\<close>

lemma coset_new_spec:
  assumes "nil \<noteq> 0" "h nil = None" "comp_ok fn"
  shows "\<exists>s h'. coset_new fn h nil = Some (s, h') \<and> set_ok s h' [] [] \<and> st_nil s = nil \<and> st_comp s = fn \<and> (\<forall>a. a \<noteq> nil \<longrightarrow> h' a = h a)"
  using assms by (auto simp: coset_new_def cassert_def sn_upd_def set_ok_def hole_def rbt_def intro!: exI [of _ Leaf])

lemma coset_outer_child:
  assumes "h a = Some n" "child b n = q"
  shows "coset_outer b s h a = (if q = st_nil s then Some a else coset_outer b s h q)"
  using assms by (subst coset_outer.simps) simp

lemma outer_spec:
  assumes "tr h (st_nil s) p t" "t \<noteq> Leaf" "st_nil s \<notin> set_tree t"
  shows "coset_outer b s h (rt (st_nil s) t) = Some (if b then hd (inorder t) else last (inorder t))"
  using assms
proof (induction t arbitrary: p)
  case (Node l a r)
  obtain n where n: "h a = Some n" "child True n = rt (st_nil s) l" "child False n = rt (st_nil s) r"
    using tr_node [OF Node.prems(1)] by blast
  define q where "q = (if b then l else r)"
  have q: "child b n = rt (st_nil s) q" using n by (cases b) (simp_all add: q_def)
  have nl: "rt (st_nil s) q = st_nil s \<longleftrightarrow> q = Leaf" using Node.prems(3) by (cases q) (auto simp: q_def split: if_splits)
  show ?case
  proof (cases "q = Leaf")
    case True
    then show ?thesis using coset_outer_child [of h a n b "rt (st_nil s) q" s] n(1) q by (simp add: q_def split: if_splits)
  next
    case False
    have "coset_outer b s h (rt (st_nil s) q) = Some (if b then hd (inorder q) else last (inorder q))"
      using Node.IH(1) [of a] Node.IH(2) [of a] Node.prems(1,3) False unfolding q_def by (cases b) simp_all
    moreover have "inorder q \<noteq> []" using False by (cases q) auto
    ultimately show ?thesis using coset_outer_child [of h a n b "rt (st_nil s) q" s] n(1) q nl False by (cases b) (simp_all add: q_def)
  qed
qed simp

text \<open>What lies beyond a hole on a side: the nearest node, or \<open>nil\<close>.\<close>

definition beyond :: "bool \<Rightarrow> nat \<Rightarrow> frame list \<Rightarrow> nat" where
  "beyond b nil c = (if b then last (nil # lf c) else hd (rg c @ [nil]))"

lemma climb_spec:
  assumes "hole s h c t" "t \<noteq> Leaf"
  shows "climb b s h (rt (st_nil s) t) (pa (st_nil s) c) = Some (beyond b (st_nil s) c)"
  using assms
proof (induction c arbitrary: t)
  case Nil
  then show ?case by (simp add: climb.simps beyond_def)
next
  case (Cons f c)
  obtain d a u where f: "f = Fr d a u" by (cases f)
  obtain n where n: "h a = Some n" "sn_parent n = pa (st_nil s) c" "child d n = rt (st_nil s) t" "child (\<not> d) n = rt (st_nil s) u"
    "a \<noteq> st_nil s" "hole s h c (nd d t a u)" "t \<noteq> Leaf \<longrightarrow> (rt (st_nil s) t = child True n) = d"
    using hole_cons [OF Cons.prems(1) [unfolded f]] .
  have ut: "rt (st_nil s) t \<noteq> rt (st_nil s) u"
    using Cons.prems rt_in [of "st_nil s" u] by (cases t) (auto simp: f hole_def)
  show ?case
  proof (cases "d = b")
    case True
    have "climb b s h (rt (st_nil s) t) a = climb b s h a (pa (st_nil s) c)"
      using n True by (simp add: climb.simps [of b s h _ a])
    also have "\<dots> = Some (beyond b (st_nil s) c)" using Cons.IH [OF n(6)] by simp
    finally show ?thesis using f True by (simp add: beyond_def)
  next
    case False
    then have "d = (\<not> b)" by simp
    then have "climb b s h (rt (st_nil s) t) a = Some a" using n ut by (simp add: climb.simps [of b s h _ a])
    then show ?thesis using f \<open>d = (\<not> b)\<close> by (cases b) (simp_all add: beyond_def)
  qed
qed

lemma distinct_split:
  assumes "us @ a # vs = us' @ a # vs'" "distinct (us @ a # vs)"
  shows "us = us' \<and> vs = vs'"
proof -
  have "a \<notin> set us" "a \<notin> set us'" using assms(2) assms(2) [unfolded assms(1)] by auto
  then have "us = takeWhile (\<lambda>x. x \<noteq> a) (us @ a # vs)" "us' = takeWhile (\<lambda>x. x \<noteq> a) (us' @ a # vs')"
    by (auto simp: takeWhile_append)
  then show ?thesis using assms(1) by simp
qed

lemma neighbour_spec:
  assumes ho: "hole s h [] T" and T: "inorder T = us @ a # vs"
  shows "coset_neighbour b s h a = Some (if b then last (st_nil s # us) else hd (vs @ [st_nil s]))"
proof -
  let ?nil = "st_nil s"
  have "a \<in> set_tree T" unfolding set_inorder [symmetric] T by simp
  then obtain c l r where c: "T = plug c (Node l a r)" using find_ctx by blast
  have h: "hole s h c (Node l a r)" using ho hole_plug [of s h c] c by simp
  have "distinct (inorder T)" using ho by (simp add: hole_def)
  then have e: "us = lf c @ inorder l" "vs = inorder r @ rg c"
    using distinct_split [of us a vs "lf c @ inorder l" "inorder r @ rg c"] T unfolding c inorder_ctx by simp_all
  have t: "tr h ?nil (pa ?nil c) (Node l a r)" "?nil \<notin> set_tree l" "?nil \<notin> set_tree r" using h by (auto simp: hole_def)
  obtain n where n: "h a = Some n" "sn_parent n = pa ?nil c" "child True n = rt ?nil l" "child False n = rt ?nil r"
    using tr_node [OF t(1)] by blast
  define q where "q = (if b then l else r)"
  have q: "child b n = rt ?nil q" "?nil \<notin> set_tree q" "tr h ?nil a q"
    using n t by (cases b; simp add: q_def)+
  show ?thesis
  proof (cases "q = Leaf")
    case True
    have "climb b s h a (pa ?nil c) = Some (beyond b ?nil c)" using climb_spec [OF h, of b] by simp
    then have "coset_neighbour b s h a = Some (beyond b ?nil c)" using n q True by (simp add: coset_neighbour_def)
    then show ?thesis using True unfolding e q_def beyond_def by (auto split: if_splits)
  next
    case False
    have "rt ?nil q \<noteq> ?nil" using False q(2) by (cases q) auto
    then have "coset_neighbour b s h a = coset_outer (\<not> b) s h (rt ?nil q)" using n q by (simp add: coset_neighbour_def)
    also have "\<dots> = Some (if \<not> b then hd (inorder q) else last (inorder q))" using outer_spec [OF q(3) False q(2)] .
    finally show ?thesis using False unfolding e q_def by (auto split: if_splits)
  qed
qed

section \<open>Iteration\<close>

lemma set_ok_tree:
  assumes "set_ok s h ns xs"
  obtains T where "hole s h [] T" "inorder T = ns" "st_nil s \<noteq> 0" "st_nil s \<notin> set ns" "0 \<notin> set ns" "distinct ns" "st_root s = rt (st_nil s) T"
proof -
  obtain T where T: "hole s h [] T" "inorder T = ns" using assms by (auto simp: set_ok_def)
  then show ?thesis using that [of T] by (auto simp: hole_def)
qed

lemma coset_begin_spec:
  assumes "set_ok s h ns xs"
  shows "coset_begin s h = Some (hd (ns @ [0]))" "coset_end s h = Some (last (0 # ns))"
proof -
  obtain T where T: "hole s h [] T" "inorder T = ns" "st_nil s \<noteq> 0" "st_nil s \<notin> set ns" "0 \<notin> set ns" "distinct ns" "st_root s = rt (st_nil s) T"
    using set_ok_tree [OF assms] .
  have t: "tr h (st_nil s) (st_nil s) T" using T(1) by (simp add: hole_def)
  have n: "st_nil s \<notin> set_tree T" using T(2,4) by auto
  have "coset_begin s h = Some (hd (ns @ [0])) \<and> coset_end s h = Some (last (0 # ns))"
  proof (cases "T = Leaf")
    case True
    then show ?thesis using T(2,7) by (simp add: coset_begin_def coset_end_def)
  next
    case False
    then have ne: "ns \<noteq> []" "rt (st_nil s) T \<noteq> st_nil s" using T(2) n by (cases T; auto)+
    have "hd ns \<noteq> st_nil s" "last ns \<noteq> st_nil s" using T(4) ne(1) hd_in_set last_in_set by metis+
    then show ?thesis
      using outer_spec [OF t False n, of True] outer_spec [OF t False n, of False] ne unfolding T(2)
      by (simp add: coset_begin_def coset_end_def coset_smallest_def coset_largest_def T(7) null_nil_def)
  qed
  then show "coset_begin s h = Some (hd (ns @ [0]))" "coset_end s h = Some (last (0 # ns))" by auto
qed

lemma coset_next_spec:
  assumes "set_ok s h (us @ a # vs) xs"
  shows "coset_next s h a = Some (hd (vs @ [0]))" "coset_prev s h a = Some (last (0 # us))"
proof -
  obtain T where T: "hole s h [] T" "inorder T = us @ a # vs" "st_nil s \<noteq> 0" "st_nil s \<notin> set (us @ a # vs)"
    using set_ok_tree [OF assms] .
  have "coset_next s h a = Some (hd (vs @ [0]))"
    using T(4) neighbour_spec [OF T(1,2), of False] by (cases vs) (auto simp: coset_next_def coset_successor_def null_nil_def)
  moreover have "coset_prev s h a = Some (last (0 # us))"
    using T(4) neighbour_spec [OF T(1,2), of True] by (cases us rule: rev_cases) (auto simp: coset_prev_def coset_predecessor_def null_nil_def)
  ultimately show "coset_next s h a = Some (hd (vs @ [0]))" "coset_prev s h a = Some (last (0 # us))" by auto
qed

lemma next_path:
  assumes "set_ok s h ns xs"
  shows "lpath (coset_next s h) (hd (ns @ [0])) ns"
proof -
  have nz: "0 \<notin> set ns" using set_ok_tree [OF assms] by blast
  have "ns = us @ vs \<Longrightarrow> lpath (coset_next s h) (hd (vs @ [0])) vs" for us vs
  proof (induction vs arbitrary: us)
    case (Cons a vs)
    have "coset_next s h a = Some (hd (vs @ [0]))" using coset_next_spec(1) assms Cons.prems by blast
    moreover have "lpath (coset_next s h) (hd (vs @ [0])) vs" using Cons.IH [of "us @ [a]"] Cons.prems by simp
    ultimately show ?case using nz Cons.prems by auto
  qed simp
  then show ?thesis by blast
qed

lemma prev_path:
  assumes "set_ok s h ns xs"
  shows "lpath (coset_prev s h) (last (0 # ns)) (rev ns)"
proof -
  have nz: "0 \<notin> set ns" using set_ok_tree [OF assms] by blast
  have "ns = us @ vs \<Longrightarrow> lpath (coset_prev s h) (last (0 # us)) (rev us)" for us vs
  proof (induction us arbitrary: vs rule: rev_induct)
    case (snoc a us)
    have "coset_prev s h a = Some (last (0 # us))" using coset_next_spec(2) assms snoc.prems by force
    moreover have "lpath (coset_prev s h) (last (0 # us)) (rev us)" using snoc.IH [of "a # vs"] snoc.prems by simp
    ultimately show ?case using nz snoc.prems by auto
  qed simp
  then show ?thesis by force
qed

section \<open>Clearing\<close>

lemma node_data_spec: "node_data h a = dat h a"
  by (simp add: node_data_def dat_def split: option.splits)

lemma set_ok_dat:
  assumes "set_ok s h (us @ a # vs) xs"
  shows "\<exists>x. dat h a = Some x \<and> x \<in> set xs"
  using assms by (fastforce simp: set_ok_def map_eq_append_conv append_eq_map_conv Cons_eq_map_conv)

lemma clear_loop_spec:
  assumes "set_ok s h ns xs" "length xs < 2 ^ 31"
  shows "\<exists>s' h'. clear_loop s h (hd (ns @ [0])) = Some (s', h') \<and> set_ok s' h' [] [] \<and> st_nil s' = st_nil s \<and> st_comp s' = st_comp s \<and>
    (\<forall>a\<in>set ns. h' a = None) \<and> (\<forall>a. a \<notin> insert (st_nil s) (set ns) \<longrightarrow> h' a = h a)"
  using assms
proof (induction ns arbitrary: s h xs)
  case Nil
  then have "xs = []" by (simp add: set_ok_def)
  then show ?case using Nil by (simp add: clear_loop.simps)
next
  case (Cons a ns)
  obtain x where x: "dat h a = Some x" "x \<in> set xs" using set_ok_dat [of s h "[]" a ns xs] Cons.prems(1) by auto
  have ok: "comp_ok (st_comp s)" using Cons.prems(1) by (simp add: set_ok_def)
  have nx: "coset_next s h a = Some (hd (ns @ [0]))" using coset_next_spec(1) [of s h "[]" a ns xs] Cons.prems(1) by simp
  have z: "a \<noteq> 0" "st_nil s \<notin> set (a # ns)" "distinct (a # ns)" using set_ok_tree [OF Cons.prems(1)] by force+
  have "\<exists>y\<in>set xs. st_comp s x y = 0" using x(2) comp_okD(3) [OF ok] by blast
  from coset_delete_spec [OF Cons.prems this]
  obtain s1 h1 m where d: "coset_delete s h x = Some (s1, h1)" "set_ok s1 h1 (remove1 m (a # ns)) (sdel (st_comp s) x xs)"
    "st_nil s1 = st_nil s" "st_comp s1 = st_comp s" "h1 m = None" "\<forall>q. q \<notin> insert (st_nil s) (set (a # ns)) \<longrightarrow> h1 q = h q"
    "cmpd s h x (hd (a # ns)) = 0 \<longrightarrow> m = hd (a # ns)" by blast
  have "cmpd s h x a = 0" using x(1) comp_okD(3) [OF ok] by (simp add: cmpd_def)
  then have m: "m = a" using d(7) by simp
  have "length (sdel (st_comp s) x xs) \<le> length xs" by (simp add: sdel_def)
  then have "length (sdel (st_comp s) x xs) < 2 ^ 31" using Cons.prems(2) by linarith
  moreover have "set_ok s1 h1 ns (sdel (st_comp s) x xs)" using d(2) m by simp
  ultimately obtain s' h' where r: "clear_loop s1 h1 (hd (ns @ [0])) = Some (s', h')" "set_ok s' h' [] []" "st_nil s' = st_nil s"
    "st_comp s' = st_comp s" "\<forall>a\<in>set ns. h' a = None" "\<forall>a. a \<notin> insert (st_nil s) (set ns) \<longrightarrow> h' a = h1 a"
    using Cons.IH [of s1 h1] d(3,4) by metis
  have "clear_loop s h a = Some (s', h')" using z x(1) nx d(1) r(1) by (simp add: clear_loop.simps [of s h a] node_data_spec)
  moreover have "h' a = None" using r(6) d(5) m z by auto
  ultimately show ?case using r d(6) by auto
qed

section \<open>The operations keep the set\<close>

text \<open>A set of two integers, for the witnesses.\<close>

definition int_order :: "int \<Rightarrow> int \<Rightarrow> int" where
  "int_order a b = a - b"

definition two_set :: "int coset" where
  "two_set = \<lparr>st_root = 2, st_nil = 1, st_comp = int_order, st_size = 2\<rparr>"

definition two_heap :: "int sheap" where
  "two_heap =
     [1 \<mapsto> \<lparr>sn_parent = 1, sn_left = 0, sn_right = 0, sn_data = None, sn_color = 1\<rparr>,
      2 \<mapsto> \<lparr>sn_parent = 1, sn_left = 1, sn_right = 3, sn_data = Some 10, sn_color = 1\<rparr>,
      3 \<mapsto> \<lparr>sn_parent = 2, sn_left = 1, sn_right = 1, sn_data = Some 20, sn_color = 0\<rparr>]"

lemma int_order_ok: "comp_ok int_order"
  by (auto simp: comp_ok_def int_order_def)

lemma two_ok: "set_ok two_set two_heap [2, 3] [10, 20]"
proof -
  have l: "two_heap 2 = Some \<lparr>sn_parent = 1, sn_left = 1, sn_right = 3, sn_data = Some 10, sn_color = 1\<rparr>"
    "two_heap 3 = Some \<lparr>sn_parent = 2, sn_left = 1, sn_right = 1, sn_data = Some 20, sn_color = 0\<rparr>"
    "two_heap 1 = Some \<lparr>sn_parent = 1, sn_left = 0, sn_right = 0, sn_data = None, sn_color = 1\<rparr>" "two_heap 0 = None"
    by (simp_all add: two_heap_def)
  have "hole two_set two_heap [] (Node Leaf 2 (Node Leaf 3 Leaf))"
  proof -
    have a: "links True two_heap 2 = Some (1, 1, 3)" "links True two_heap 3 = Some (2, 1, 1)" by (simp_all only: links_def l) simp_all
    have b: "st_root two_set = 2" "st_nil two_set = 1" by (simp_all add: two_set_def)
    have c: "map_option sn_color (two_heap 1) = Some 1" by (simp only: l) simp
    show ?thesis unfolding hole_def b by (simp add: a c del: One_nat_def)
  qed
  moreover have "rbt (cl two_heap) (Node Leaf 2 (Node Leaf 3 Leaf))" by (simp add: rbt_def cl_def l)
  ultimately have "\<exists>T. hole two_set two_heap [] T \<and> rbt (cl two_heap) T \<and> inorder T = [2, 3]" by force
  then show ?thesis by (simp add: set_ok_def dat_def l) (simp add: two_set_def int_order_ok, simp add: int_order_def)
qed

lemma two_st [simp]: "st_comp two_set = int_order" "st_nil two_set = 1"
  by (simp_all add: two_set_def)

text \<open>C26: adding a value to an ordered set whose nodes hold the sorted values \<open>xs\<close> returns, keeps the
  tree red-black, puts the value at its place unless an equal one is there, and writes only to the nodes
  of the set.\<close>

theorem coset_add_correct:
  assumes "set_ok s h ns xs" "p \<noteq> 0" "h p = None" "length xs + 1 < 2 ^ 31"
  shows "\<exists>s' h' ns'. coset_add s h p x = Some (s', h') \<and> set_ok s' h' ns' (sins (st_comp s) x xs) \<and>
    coset_size s' = int (length (sins (st_comp s) x xs)) \<and> set ns' \<subseteq> insert p (set ns) \<and>
    (\<forall>a. a \<notin> insert p (set ns) \<longrightarrow> h' a = h a)"
proof -
  obtain s' h' ns' where r: "coset_add s h p x = Some (s', h')" "set_ok s' h' ns' (sins (st_comp s) x xs)"
    "set ns' \<subseteq> insert p (set ns)" "\<forall>a. a \<notin> insert p (set ns) \<longrightarrow> h' a = h a"
    using coset_add_spec [OF assms, of x] by blast
  moreover have "coset_size s' = int (length (sins (st_comp s) x xs))" using r(2) by (simp add: set_ok_def coset_size_def)
  ultimately show ?thesis by blast
qed

theorem coset_add_correct_witness:
  "\<exists>s h ns. coset_add two_set two_heap 7 15 = Some (s, h) \<and> set_ok s h ns [10, 15, 20] \<and> coset_size s = 3"
proof -
  have "two_heap 7 = None" by (simp add: two_heap_def)
  moreover have "sins int_order 15 [10, 20] = [10, 15, 20]" by (simp add: sins_def int_order_def)
  ultimately show ?thesis using coset_add_correct [OF two_ok, of 7 15] by auto
qed

text \<open>C27: deleting a value from an ordered set returns, keeps the tree red-black, removes the equal
  value when there is one, frees exactly one node then and none otherwise, and writes only to the nodes
  of the set and to its empty node.\<close>

theorem coset_delete_correct:
  assumes "set_ok s h ns xs" "length xs < 2 ^ 31"
  shows "\<exists>s' h' ns'. coset_delete s h x = Some (s', h') \<and> set_ok s' h' ns' (sdel (st_comp s) x xs) \<and>
    coset_exist s' h' x = Some False \<and> set ns' \<subseteq> set ns \<and> (\<forall>a \<in> set ns - set ns'. h' a = None) \<and>
    (\<forall>a. a \<notin> insert (st_nil s) (set ns) \<longrightarrow> h' a = h a)"
proof -
  have e: "coset_exist s' h' x = Some False" if "set_ok s' h' ns' (sdel (st_comp s) x xs)" "st_comp s' = st_comp s" for s' h' ns'
    using coset_search_spec [OF that(1), of x] that(2) by (auto simp: coset_exist_def sdel_def)
  show ?thesis
  proof (cases "\<exists>y\<in>set xs. st_comp s x y = 0")
    case True
    obtain s' h' m where r: "coset_delete s h x = Some (s', h')" "set_ok s' h' (remove1 m ns) (sdel (st_comp s) x xs)"
      "st_comp s' = st_comp s" "h' m = None" "\<forall>a. a \<notin> insert (st_nil s) (set ns) \<longrightarrow> h' a = h a"
      using coset_delete_spec [OF assms True] by blast
    have "\<forall>a \<in> set ns - set (remove1 m ns). h' a = None" using r(4) by (metis DiffE in_set_remove1)
    then show ?thesis using r e [OF r(2,3)] set_remove1_subset [of m ns] by blast
  next
    case False
    then show ?thesis using coset_delete_none [OF assms(1)] e [of s h ns] assms(1) by (auto intro!: exI [of _ ns])
  qed
qed

theorem coset_delete_correct_witness:
  "\<exists>s h ns. coset_delete two_set two_heap 10 = Some (s, h) \<and> set_ok s h ns [20] \<and> coset_exist s h 10 = Some False"
proof -
  have "sdel int_order 10 [10, 20] = [20]" by (simp add: sdel_def int_order_def)
  then show ?thesis using coset_delete_correct [OF two_ok, of 10] by auto
qed

end
