(* ===== verification/SetOps.thy ===== *)
theory SetOps
  imports CoSet
begin

text \<open>
  The ordered set behind the interface of a set: scripts of operations, iteration, clearing and the
  operations of \<open>src/co_set.c\<close> on two sets.  The two sets of an operation are different ones and share
  no node.
\<close>

section \<open>The interface of an ordered set\<close>

text \<open>\<open>rep st xs\<close>: the state holds the sorted list \<open>xs\<close>; \<open>fresh st p\<close>: the address may be allocated.\<close>

datatype 'a set_op = Put nat 'a | Drop 'a

fun op_list :: "('a \<Rightarrow> 'a \<Rightarrow> int) \<Rightarrow> 'a set_op \<Rightarrow> 'a list \<Rightarrow> 'a list" where
  "op_list f (Put p x) xs = sins f x xs"
| "op_list f (Drop x) xs = sdel f x xs"

fun op_set :: "('a \<Rightarrow> 'a \<Rightarrow> int) \<Rightarrow> 'a set_op \<Rightarrow> 'a set \<Rightarrow> 'a set" where
  "op_set f (Put p x) A = A \<union> {y. f y x = 0}"
| "op_set f (Drop x) A = A - {y. f y x = 0}"

fun put_addrs :: "'a set_op list \<Rightarrow> nat list" where
  "put_addrs [] = []"
| "put_addrs (Put p x # ops) = p # put_addrs ops"
| "put_addrs (Drop x # ops) = put_addrs ops"

fun run_set :: "('st \<Rightarrow> nat \<Rightarrow> 'a \<Rightarrow> 'st exec) \<Rightarrow> ('st \<Rightarrow> 'a \<Rightarrow> 'st exec) \<Rightarrow> 'a set_op list \<Rightarrow> 'st \<Rightarrow> 'st exec" where
  "run_set put del [] st = Some st"
| "run_set put del (Put p x # ops) st = do { st \<leftarrow> put st p x; run_set put del ops st }"
| "run_set put del (Drop x # ops) st = do { st \<leftarrow> del st x; run_set put del ops st }"

lemma length_ops: "length (op_list f q xs) \<le> length xs + length (put_addrs [q])"
proof (cases q)
  case (Put p x)
  have "length (takeWhile P xs) + length (dropWhile P xs) = length xs" for P
    by (metis length_append takeWhile_dropWhile_id)
  then show ?thesis using Put by (simp add: sins_def)
qed (simp add: sdel_def)

text \<open>The values equal to one of a list.\<close>

definition eqs :: "('a \<Rightarrow> 'a \<Rightarrow> int) \<Rightarrow> 'a list \<Rightarrow> 'a set" where
  "eqs f xs = {x. \<exists>y\<in>set xs. f x y = 0}"

lemma comp_trans0:
  assumes "comp_ok f" "f a b = 0"
  shows "f a c = 0 \<longleftrightarrow> f b c = 0"
proof -
  have s: "f x y = 0 \<longleftrightarrow> f x y \<le> 0 \<and> f y x \<le> 0" for x y using comp_okD(1) [OF assms(1), of x y] comp_okD(1) [OF assms(1), of y x] by linarith
  have t: "f a b \<le> 0 \<Longrightarrow> f b c \<le> 0 \<Longrightarrow> f a c \<le> 0" for a b c using assms(1) unfolding comp_ok_def by blast
  show ?thesis using assms(2) unfolding s using t by blast
qed

lemma eqs_op:
  assumes "comp_ok f"
  shows "eqs f (op_list f q xs) = op_set f q (eqs f xs)"
proof (cases q)
  case (Put p x)
  have "set (sins f x xs) = (if \<exists>y\<in>set xs. f x y = 0 then set xs else insert x (set xs))"
    by (auto simp: sins_def dest: set_takeWhileD set_dropWhileD) (metis Un_iff set_append takeWhile_dropWhile_id)
  then show ?thesis using Put comp_trans0 [OF assms] by (auto simp: eqs_def; metis)
next
  case (Drop x)
  then show ?thesis using comp_trans0 [OF assms] comp_okD(2) [OF assms] by (auto simp: eqs_def sdel_def)
qed

lemma eqs_ops: "comp_ok f \<Longrightarrow> eqs f (fold (op_list f) ops xs) = fold (op_set f) ops (eqs f xs)"
  by (induction ops arbitrary: xs) (simp_all add: eqs_op)

locale ordered_set =
  fixes f :: "'a \<Rightarrow> 'a \<Rightarrow> int" and rep :: "'st \<Rightarrow> 'a list \<Rightarrow> bool" and fresh :: "'st \<Rightarrow> nat \<Rightarrow> bool"
    and put :: "'st \<Rightarrow> nat \<Rightarrow> 'a \<Rightarrow> 'st exec" and del :: "'st \<Rightarrow> 'a \<Rightarrow> 'st exec" and mem :: "'st \<Rightarrow> 'a \<Rightarrow> bool exec"
  assumes rep_put: "rep st xs \<Longrightarrow> fresh st p \<Longrightarrow> length xs + 1 < 2 ^ 31 \<Longrightarrow>
      \<exists>st'. put st p x = Some st' \<and> rep st' (sins f x xs) \<and> (\<forall>q. q \<noteq> p \<longrightarrow> fresh st q \<longrightarrow> fresh st' q)"
    and rep_del: "rep st xs \<Longrightarrow> length xs < 2 ^ 31 \<Longrightarrow>
      \<exists>st'. del st x = Some st' \<and> rep st' (sdel f x xs) \<and> (\<forall>q. fresh st q \<longrightarrow> fresh st' q)"
    and rep_mem: "rep st xs \<Longrightarrow> mem st x = Some (x \<in> eqs f xs)"
    and rep_comp: "rep st xs \<Longrightarrow> comp_ok f"
begin

lemma run_rep:
  assumes "rep st xs" "distinct (put_addrs ops)" "\<forall>p\<in>set (put_addrs ops). fresh st p" "length xs + length (put_addrs ops) < 2 ^ 31"
  shows "\<exists>st'. run_set put del ops st = Some st' \<and> rep st' (fold (op_list f) ops xs)"
  using assms
proof (induction ops arbitrary: st xs)
  case (Cons q ops)
  show ?case
  proof (cases q)
    case (Put p x)
    have "fresh st p" "length xs + 1 < 2 ^ 31" using Cons.prems(3,4) Put by simp_all
    from rep_put [OF Cons.prems(1) this] obtain st1
      where st1: "put st p x = Some st1" "rep st1 (sins f x xs)" "\<forall>r. r \<noteq> p \<longrightarrow> fresh st r \<longrightarrow> fresh st1 r" by blast
    have "\<forall>r\<in>set (put_addrs ops). fresh st1 r" using Cons.prems(2,3) Put st1(3) by auto
    moreover have "length (sins f x xs) + length (put_addrs ops) < 2 ^ 31"
      using Cons.prems(4) length_ops [of f q xs] Put by simp
    ultimately show ?thesis using Cons.IH [OF st1(2)] Cons.prems(2) Put st1(1) by simp
  next
    case (Drop x)
    have "length xs < 2 ^ 31" using Cons.prems(4) by simp
    from rep_del [OF Cons.prems(1) this] obtain st1
      where st1: "del st x = Some st1" "rep st1 (sdel f x xs)" "\<forall>r. fresh st r \<longrightarrow> fresh st1 r" by blast
    have "\<forall>r\<in>set (put_addrs ops). fresh st1 r" using Cons.prems(3) Drop st1(3) by auto
    moreover have "length (sdel f x xs) + length (put_addrs ops) < 2 ^ 31"
      using Cons.prems(4) length_ops [of f q xs] Drop by simp
    ultimately show ?thesis using Cons.IH [OF st1(2)] Cons.prems(2) Drop st1(1) by simp
  qed
qed simp

lemma run_set_mem:
  assumes "rep st xs" "distinct (put_addrs ops)" "\<forall>p\<in>set (put_addrs ops). fresh st p" "length xs + length (put_addrs ops) < 2 ^ 31"
  shows "\<exists>st'. run_set put del ops st = Some st' \<and> rep st' (fold (op_list f) ops xs) \<and>
    (\<forall>x. mem st' x = Some (x \<in> fold (op_set f) ops (eqs f xs)))"
  using run_rep [OF assms] rep_mem rep_comp eqs_ops by metis

end

section \<open>Red-black trees are ordered sets\<close>

text \<open>The heap may hold other things, at the addresses \<open>A\<close> with the contents \<open>g\<close>, that are kept.\<close>

definition set_rep :: "nat set \<Rightarrow> 'a sheap \<Rightarrow> ('a \<Rightarrow> 'a \<Rightarrow> int) \<Rightarrow> 'a coset \<times> 'a sheap \<Rightarrow> 'a list \<Rightarrow> bool" where
  "set_rep A g f st xs \<longleftrightarrow> (\<exists>ns. set_ok (fst st) (snd st) ns xs \<and> st_comp (fst st) = f \<and>
     (\<forall>a\<in>A. a \<notin> insert (st_nil (fst st)) (set ns) \<and> snd st a = g a))"

definition set_fresh :: "nat set \<Rightarrow> 'a coset \<times> 'a sheap \<Rightarrow> nat \<Rightarrow> bool" where
  "set_fresh A st p \<longleftrightarrow> p \<noteq> 0 \<and> p \<notin> A \<and> snd st p = None"

definition set_put :: "'a coset \<times> 'a sheap \<Rightarrow> nat \<Rightarrow> 'a \<Rightarrow> ('a coset \<times> 'a sheap) exec" where
  "set_put st p x = coset_add (fst st) (snd st) p x"

definition set_del :: "'a coset \<times> 'a sheap \<Rightarrow> 'a \<Rightarrow> ('a coset \<times> 'a sheap) exec" where
  "set_del st x = coset_delete (fst st) (snd st) x"

definition set_mem :: "'a coset \<times> 'a sheap \<Rightarrow> 'a \<Rightarrow> bool exec" where
  "set_mem st x = coset_exist (fst st) (snd st) x"

lemma coset_exist_spec: "set_ok s h ns xs \<Longrightarrow> coset_exist s h x = Some (x \<in> eqs (st_comp s) xs)"
  using coset_search_spec [of s h ns xs x] by (auto simp: coset_exist_def eqs_def split: if_splits)

lemma set_ok_live:
  assumes "set_ok s h ns xs" "a \<in> insert (st_nil s) (set ns)"
  shows "h a \<noteq> None"
proof -
  obtain T where T: "hole s h [] T" "inorder T = ns" using assms(1) by (auto simp: set_ok_def)
  show ?thesis using hole_dom [OF T(1), of a] assms(2) T(2) by auto
qed

lemma set_rep_put:
  assumes "set_rep A g f st xs" "set_fresh A st p" "length xs + 1 < 2 ^ 31"
  shows "\<exists>st'. set_put st p x = Some st' \<and> set_rep A g f st' (sins f x xs) \<and> (\<forall>q. q \<noteq> p \<longrightarrow> set_fresh A st q \<longrightarrow> set_fresh A st' q)"
proof -
  obtain s h where st: "st = (s, h)" by (cases st)
  obtain ns where r: "set_ok s h ns xs" "st_comp s = f" "\<forall>a\<in>A. a \<notin> insert (st_nil s) (set ns) \<and> h a = g a"
    using assms(1) st by (auto simp: set_rep_def)
  have p: "p \<noteq> 0" "h p = None" "p \<notin> A" using assms(2) st by (simp_all add: set_fresh_def)
  from coset_add_spec [OF r(1) p(1,2) assms(3), of x] obtain s' h' ns'
    where a: "coset_add s h p x = Some (s', h')" "set_ok s' h' ns' (sins f x xs)" "st_nil s' = st_nil s" "st_comp s' = f"
      "set ns' \<subseteq> insert p (set ns)" "\<forall>a. a \<notin> insert p (set ns) \<longrightarrow> h' a = h a"
    using r(2) by auto
  have "set_rep A g f (s', h') (sins f x xs)"
    unfolding set_rep_def using a r(3) p(3) by (intro exI [of _ ns']) auto
  moreover have "set_fresh A (s', h') q" if "q \<noteq> p" "set_fresh A st q" for q
  proof -
    have "q \<notin> set ns" using that(2) st set_ok_live [OF r(1), of q] by (auto simp: set_fresh_def)
    then show ?thesis using that st a(6) by (auto simp: set_fresh_def)
  qed
  ultimately show ?thesis using a(1) st by (auto simp: set_put_def)
qed

lemma set_rep_del:
  assumes "set_rep A g f st xs" "length xs < 2 ^ 31"
  shows "\<exists>st'. set_del st x = Some st' \<and> set_rep A g f st' (sdel f x xs) \<and> (\<forall>q. set_fresh A st q \<longrightarrow> set_fresh A st' q)"
proof -
  obtain s h where st: "st = (s, h)" by (cases st)
  obtain ns where r: "set_ok s h ns xs" "st_comp s = f" "\<forall>a\<in>A. a \<notin> insert (st_nil s) (set ns) \<and> h a = g a"
    using assms(1) st by (auto simp: set_rep_def)
  show ?thesis
  proof (cases "\<exists>y\<in>set xs. st_comp s x y = 0")
    case True
    from coset_delete_spec [OF r(1) assms(2) True] obtain s' h' m
      where a: "coset_delete s h x = Some (s', h')" "set_ok s' h' (remove1 m ns) (sdel f x xs)" "st_nil s' = st_nil s" "st_comp s' = f"
        "\<forall>a. a \<notin> insert (st_nil s) (set ns) \<longrightarrow> h' a = h a"
      using r(2) by auto
    have "set_rep A g f (s', h') (sdel f x xs)"
      unfolding set_rep_def using a r(3) set_remove1_subset [of m ns] by (intro exI [of _ "remove1 m ns"]) auto
    moreover have "set_fresh A (s', h') q" if "set_fresh A st q" for q
    proof -
      have "q \<notin> insert (st_nil s) (set ns)" using that st set_ok_live [OF r(1), of q] by (auto simp: set_fresh_def)
      then show ?thesis using that st a(5) by (auto simp: set_fresh_def)
    qed
    ultimately show ?thesis using a(1) st by (auto simp: set_del_def)
  next
    case False
    then show ?thesis using coset_delete_none [OF r(1) False] assms(1) r(2) st by (auto simp: set_del_def)
  qed
qed

interpretation os: ordered_set f "set_rep A g f" "set_fresh A" set_put set_del set_mem for A g f
proof unfold_locales
  show "\<exists>st'. set_put st p x = Some st' \<and> set_rep A g f st' (sins f x xs) \<and> (\<forall>q. q \<noteq> p \<longrightarrow> set_fresh A st q \<longrightarrow> set_fresh A st' q)"
    if "set_rep A g f st xs" "set_fresh A st p" "length xs + 1 < 2 ^ 31" for st xs p x
    using set_rep_put [OF that] .
  show "\<exists>st'. set_del st x = Some st' \<and> set_rep A g f st' (sdel f x xs) \<and> (\<forall>q. set_fresh A st q \<longrightarrow> set_fresh A st' q)"
    if "set_rep A g f st xs" "length xs < 2 ^ 31" for st xs x
    using set_rep_del [OF that] .
  show "set_mem st x = Some (x \<in> eqs f xs)" if "set_rep A g f st xs" for st xs x
    using that coset_exist_spec by (fastforce simp: set_rep_def set_mem_def)
  show "comp_ok f" if "set_rep A g f st xs" for st xs
    using that by (auto simp: set_rep_def set_ok_def)
qed

section \<open>Operations on two sets\<close>

lemma set_ok_cong:
  assumes "set_ok s h ns xs" "\<forall>a\<in>insert (st_nil s) (set ns). h' a = h a"
  shows "set_ok s h' ns xs"
proof -
  obtain T where T: "hole s h [] T" "rbt (cl h) T" "inorder T = ns" using assms(1) by (auto simp: set_ok_def)
  have n: "set_tree T = set ns" unfolding T(3) [symmetric] by simp
  have "tr h' (st_nil s) (st_nil s) T = tr h (st_nil s) (st_nil s) T"
    by (rule tr_cong) (use assms(2) n in \<open>auto simp: links_def\<close>)
  then have "hole s h' [] T" using T(1) assms(2) by (simp add: hole_def)
  moreover have "\<forall>a\<in>set_tree T. cl h' a = cl h a" using assms(2) n by (simp add: cl_def)
  then have "bh (cl h') T = bh (cl h) T \<and> rc (cl h') T = rc (cl h) T \<and> invh (cl h') T = invh (cl h) T \<and> invc (cl h') T = invc (cl h) T"
    using inv_cong [of T "cl h'" "cl h"] by blast
  then have "rbt (cl h') T" using T(2) by (simp add: rbt_def)
  moreover have "map (dat h') ns = map (dat h) ns" using assms(2) by (simp add: dat_def)
  ultimately show ?thesis using assms(1) T(3) unfolding set_ok_def by metis
qed

text \<open>The walk over the second set while the first one changes.\<close>

lemma set_rep_other:
  assumes "set_rep (insert (st_nil s2) (set ms)) g f (s, h) xs" "set_ok s2 g ms ys"
  shows "set_ok s2 h ms ys"
  using set_ok_cong [OF assms(2), of h] assms(1) by (auto simp: set_rep_def)

lemma union_loop_run:
  assumes "set_ok s2 g ms ys" "set_rep (insert (st_nil s2) (set ms)) g f (s, h) xs" "ms = us @ vs" "map (dat g) vs = map Some ds"
    "length ps = length ds" "distinct ps" "\<forall>p\<in>set ps. set_fresh (insert (st_nil s2) (set ms)) (s, h) p" "length xs + length ds < 2 ^ 31"
  shows "union_loop s s2 h ps (hd (vs @ [0])) = run_set set_put set_del (map2 Put ps ds) (s, h)"
  using assms(2-)
proof (induction vs arbitrary: us s h xs ds ps)
  case Nil
  then show ?case by (simp add: union_loop.simps)
next
  case (Cons a vs)
  let ?A = "insert (st_nil s2) (set ms)"
  obtain d ds' where ds: "ds = d # ds'" "dat g a = Some d" "map (dat g) vs = map Some ds'" using Cons.prems(3) by (cases ds) auto
  obtain p ps' where ps: "ps = p # ps'" using Cons.prems(4) ds(1) by (cases ps) auto
  have z: "a \<noteq> 0" using set_ok_tree [OF assms(1)] Cons.prems(2) by force
  have "a \<in> ?A" using Cons.prems(2) by simp
  then have "h a = g a" using Cons.prems(1) by (auto simp: set_rep_def)
  then have dh: "node_data h a = Some d" using ds(2) by (simp add: node_data_spec dat_def)
  have "set_fresh ?A (s, h) p" "length xs + 1 < 2 ^ 31" using Cons.prems(6,7) ps ds(1) by simp_all
  from os.rep_put [OF Cons.prems(1) this, of d] obtain s1 h1
    where 1: "set_put (s, h) p d = Some (s1, h1)" "set_rep ?A g f (s1, h1) (sins f d xs)"
      "\<forall>q. q \<noteq> p \<longrightarrow> set_fresh ?A (s, h) q \<longrightarrow> set_fresh ?A (s1, h1) q" by auto
  have nx: "coset_next s2 h1 a = Some (hd (vs @ [0]))"
    using coset_next_spec(1) set_rep_other [OF 1(2) assms(1)] Cons.prems(2) by blast
  have "length (sins f d xs) + length ds' < 2 ^ 31" using Cons.prems(7) length_ops [of f "Put p d" xs] ds(1) by simp
  moreover have "\<forall>q\<in>set ps'. set_fresh ?A (s1, h1) q" using 1(3) Cons.prems(5,6) ps by auto
  ultimately have "union_loop s1 s2 h1 ps' (hd (vs @ [0])) = run_set set_put set_del (map2 Put ps' ds') (s1, h1)"
    using Cons.IH [OF 1(2), of "us @ [a]" ds' ps'] Cons.prems(2,4,5) ds(1,3) ps by simp
  then show ?case using z dh nx 1(1) ps ds(1) by (simp add: union_loop.simps [of s s2 h _ a] set_put_def [of "(s, h)"])
qed

lemma minus_loop_run:
  assumes "set_ok s2 g ms ys" "set_rep (insert (st_nil s2) (set ms)) g f (s, h) xs" "ms = us @ vs" "map (dat g) vs = map Some ds"
    "length xs < 2 ^ 31"
  shows "minus_loop s s2 h (hd (vs @ [0])) = run_set set_put set_del (map Drop ds) (s, h)"
  using assms(2-)
proof (induction vs arbitrary: us s h xs ds)
  case Nil
  then show ?case by (simp add: minus_loop.simps)
next
  case (Cons a vs)
  let ?A = "insert (st_nil s2) (set ms)"
  obtain d ds' where ds: "ds = d # ds'" "dat g a = Some d" "map (dat g) vs = map Some ds'" using Cons.prems(3) by (cases ds) auto
  have z: "a \<noteq> 0" using set_ok_tree [OF assms(1)] Cons.prems(2) by force
  have "a \<in> ?A" using Cons.prems(2) by simp
  then have "h a = g a" using Cons.prems(1) by (auto simp: set_rep_def)
  then have dh: "node_data h a = Some d" using ds(2) by (simp add: node_data_spec dat_def)
  from os.rep_del [OF Cons.prems(1,4), of d] obtain s1 h1
    where 1: "set_del (s, h) d = Some (s1, h1)" "set_rep ?A g f (s1, h1) (sdel f d xs)" by auto
  have nx: "coset_next s2 h1 a = Some (hd (vs @ [0]))"
    using coset_next_spec(1) set_rep_other [OF 1(2) assms(1)] Cons.prems(2) by blast
  have "length (sdel f d xs) < 2 ^ 31" using Cons.prems(4) length_ops [of f "Drop d" xs] by simp
  then have "minus_loop s1 s2 h1 (hd (vs @ [0])) = run_set set_put set_del (map Drop ds') (s1, h1)"
    using Cons.IH [OF 1(2), of "us @ [a]" ds'] Cons.prems(2) ds(3) by simp
  then show ?case using z dh nx 1(1) ds(1) by (simp add: minus_loop.simps [of s s2 h a] set_del_def [of "(s, h)"])
qed

lemma put_addrs_map2: "length ps = length ds \<Longrightarrow> put_addrs (map2 Put ps ds) = ps"
  by (induction ps ds rule: list_induct2) simp_all

lemma put_addrs_Drop: "put_addrs (map Drop ds) = []"
  by (induction ds) simp_all

lemma op_set_all:
  assumes "comp_ok f"
  shows "length ps = length ds \<Longrightarrow> fold (op_set f) (map2 Put ps ds) S = S \<union> eqs f ds"
    and "fold (op_set f) (map Drop ds) S = S - eqs f ds"
proof -
  show "length ps = length ds \<Longrightarrow> fold (op_set f) (map2 Put ps ds) S = S \<union> eqs f ds"
    by (induction ps ds arbitrary: S rule: list_induct2) (auto simp: eqs_def)
  show "fold (op_set f) (map Drop ds) S = S - eqs f ds" by (induction ds arbitrary: S) (auto simp: eqs_def)
qed

lemma coset_union_spec:
  assumes ok: "set_ok s h ns xs" "set_ok s2 h ms ys" and dis: "insert (st_nil s) (set ns) \<inter> insert (st_nil s2) (set ms) = {}"
    and ps: "length ps = length ys" "distinct ps" "\<forall>p\<in>set ps. p \<noteq> 0 \<and> h p = None" and len: "length xs + length ys < 2 ^ 31"
  shows "\<exists>s' h'. coset_union s s2 h ps = Some (s', h') \<and> (\<exists>ns'. set_ok s' h' ns' (fold (op_list (st_comp s)) (map2 Put ps ys) xs)) \<and>
    set_ok s2 h' ms ys \<and> (\<forall>x. coset_exist s' h' x = Some (x \<in> eqs (st_comp s) xs \<union> eqs (st_comp s) ys))"
proof -
  let ?A = "insert (st_nil s2) (set ms)" and ?f = "st_comp s"
  have r: "set_rep ?A h ?f (s, h) xs" using ok(1) dis by (auto simp: set_rep_def)
  have fr: "\<forall>p\<in>set ps. set_fresh ?A (s, h) p" unfolding set_fresh_def snd_conv using ps(3) set_ok_live [OF ok(2)] by blast
  have f: "comp_ok ?f" using ok(1) by (simp add: set_ok_def)
  have d: "map (dat h) ms = map Some ys" using ok(2) by (simp add: set_ok_def)
  have "coset_union s s2 h ps = run_set set_put set_del (map2 Put ps ys) (s, h)"
    using union_loop_run [OF ok(2) r, of "[]" ms ys ps] coset_begin_spec(1) [OF ok(2)] d ps(1,2) fr len by (simp add: coset_union_def)
  moreover obtain s' h' where "run_set set_put set_del (map2 Put ps ys) (s, h) = Some (s', h')"
    "set_rep ?A h ?f (s', h') (fold (op_list ?f) (map2 Put ps ys) xs)" "\<forall>x. set_mem (s', h') x = Some (x \<in> fold (op_set ?f) (map2 Put ps ys) (eqs ?f xs))"
    using os.run_set_mem [OF r, of "map2 Put ps ys"] put_addrs_map2 [OF ps(1)] ps(1,2) fr len by auto
  ultimately show ?thesis using set_rep_other [OF _ ok(2)] op_set_all(1) [OF f ps(1)] by (fastforce simp: set_rep_def set_mem_def)
qed

lemma coset_minus_spec:
  assumes ok: "set_ok s h ns xs" "set_ok s2 h ms ys" and dis: "insert (st_nil s) (set ns) \<inter> insert (st_nil s2) (set ms) = {}"
    and len: "length xs < 2 ^ 31"
  shows "\<exists>s' h'. coset_minus s s2 h = Some (s', h') \<and> (\<exists>ns'. set_ok s' h' ns' (fold (op_list (st_comp s)) (map Drop ys) xs)) \<and>
    set_ok s2 h' ms ys \<and> (\<forall>x. coset_exist s' h' x = Some (x \<in> eqs (st_comp s) xs - eqs (st_comp s) ys))"
proof -
  let ?A = "insert (st_nil s2) (set ms)" and ?f = "st_comp s"
  have r: "set_rep ?A h ?f (s, h) xs" using ok(1) dis by (auto simp: set_rep_def)
  have f: "comp_ok ?f" using ok(1) by (simp add: set_ok_def)
  have d: "map (dat h) ms = map Some ys" using ok(2) by (simp add: set_ok_def)
  have "coset_minus s s2 h = run_set set_put set_del (map Drop ys) (s, h)"
    using minus_loop_run [OF ok(2) r, of "[]" ms ys] coset_begin_spec(1) [OF ok(2)] d len by (simp add: coset_minus_def)
  moreover obtain s' h' where "run_set set_put set_del (map Drop ys) (s, h) = Some (s', h')"
    "set_rep ?A h ?f (s', h') (fold (op_list ?f) (map Drop ys) xs)" "\<forall>x. set_mem (s', h') x = Some (x \<in> fold (op_set ?f) (map Drop ys) (eqs ?f xs))"
    using os.run_set_mem [OF r, of "map Drop ys"] len by (auto simp: put_addrs_Drop)
  ultimately show ?thesis using set_rep_other [OF _ ok(2)] op_set_all(2) [OF f] by (fastforce simp: set_rep_def set_mem_def)
qed

text \<open>Deleting a node with two children frees its successor, the node the intersection goes to next.\<close>

lemma bindE:
  assumes "Option.bind e k = Some r"
  obtains y where "e = Some y" "k y = Some r"
  using assms by (cases e) auto

lemma delete_two_frees:
  assumes "coset_search s h x = Some cur" "cur \<noteq> st_nil s" "h cur = Some n" "sn_left n \<noteq> st_nil s" "sn_right n \<noteq> st_nil s"
    "coset_delete s h x = Some (s', h')" "coset_successor s h cur = Some m"
  shows "h' m = None"
proof -
  have m: "coset_smallest s h (sn_right n) = Some m"
    using assms(3,5,7) unfolding coset_successor_def coset_neighbour_def coset_smallest_def child_def if_False by auto
  have "\<exists>h1. h' = h1(m := None)"
  proof -
    have "cur = st_nil s \<longleftrightarrow> False" "sn_left n = st_nil s \<or> sn_right n = st_nil s \<longleftrightarrow> False" using assms(2,4,5) by simp_all
    then obtain y dn h1 where "h cur = Some y" "h' = h1(dn := None)"
      "(if sn_left y = st_nil s \<or> sn_right y = st_nil s then Some cur else coset_smallest s h (sn_right y)) = Some dn"
      using assms(6) unfolding coset_delete_def assms(1) Let_def
      by (simp only: bind.bind_lunit if_False, elim bindE, simp only: split_paired_all prod.case, elim bindE,
          simp only: split_paired_all prod.case option.inject prod.inject, blast)
    then show ?thesis using assms(3-5) m by auto
  qed
  then show ?thesis by auto
qed

lemma intersect_two_children:
  assumes ok: "set_ok s h ns xs" and cur: "cur \<in> set ns" "h cur = Some n" "sn_left n \<noteq> st_nil s" "sn_right n \<noteq> st_nil s"
    and d: "dat h cur = Some d" "coset_exist s2 h d = Some False"
  shows "intersect_loop s s2 h cur = None"
proof -
  obtain us vs where ns: "ns = us @ cur # vs" using cur(1) split_list by metis
  have nx: "coset_next s h cur = Some (hd (vs @ [0]))" using coset_next_spec(1) ok unfolding ns by blast
  obtain T where T: "hole s h [] T" "inorder T = ns" "st_nil s \<noteq> 0" "st_nil s \<notin> set ns" "0 \<notin> set ns" "distinct ns"
    using set_ok_tree [OF ok] .
  have sc: "coset_successor s h cur = Some (hd (vs @ [st_nil s]))"
    using neighbour_spec [OF T(1), of us cur vs False] T(2) ns by (simp add: coset_successor_def)
  have cs: "coset_search s h d = Some cur"
  proof -
    have "d \<in> set xs" "comp_ok (st_comp s)" using ok d(1) cur(1) set_ok_dat [of s h us cur vs xs] ns by (auto simp: set_ok_def)
    then have "\<exists>y\<in>set xs. st_comp s d y = 0" using comp_okD(3) [of "st_comp s" d] by blast
    then obtain a where a: "coset_search s h d = Some a" "a \<in> set ns" "cmpd s h d a = 0" using coset_search_spec [OF ok, of d] by auto
    have "cmpd s h d cur = 0" using d(1) \<open>comp_ok (st_comp s)\<close> comp_okD(3) by (simp add: cmpd_def)
    obtain T where "increasing s h ns" using set_okE [OF ok] by blast
    then have "a \<notin> set us" "a \<notin> set vs"
      using cmpd_less [of s h us cur vs d a] a(3) \<open>cmpd s h d cur = 0\<close> unfolding ns by auto
    then have "a = cur" using a(2) ns by simp
    then show ?thesis using a(1) by simp
  qed
  have "vs \<noteq> []"
  proof -
    have "cur \<in> set_tree T" using cur(1) T(2) by auto
    then obtain c l r where c: "T = plug c (Node l cur r)" using find_ctx by blast
    have ho: "hole s h c (Node l cur r)" using T(1) hole_plug [of s h c] c by simp
    have "vs = inorder r @ rg c"
    proof -
      have e: "us @ cur # vs = (lf c @ inorder l) @ cur # (inorder r @ rg c)" using T(2) ns unfolding c inorder_ctx by simp
      show ?thesis using distinct_split [OF e] T(6) ns by simp
    qed
    moreover have "r \<noteq> Leaf" using ho cur(2,4) by (auto simp: hole_def links_Some)
    ultimately show ?thesis by (cases r) auto
  qed
  then obtain m ms where m: "vs = m # ms" by (cases vs) auto
  have z: "cur \<noteq> 0" "m \<noteq> 0" "cur \<noteq> st_nil s" using T(4,5) ns m by auto
  have "intersect_loop s' s2 h' m = None" if "coset_delete s h d = Some (s', h')" for s' h'
  proof -
    have "h' m = None" using delete_two_frees [OF cs z(3) cur(2-4) that, of m] sc m by simp
    then show ?thesis using z(2) by (simp add: intersect_loop.simps [of s' s2 h' m] coset_next_def coset_successor_def coset_neighbour_def)
  qed
  then show ?thesis
    using z nx m d by (cases "coset_delete s h d") (auto simp: intersect_loop.simps [of s s2 h cur] node_data_spec)
qed

text \<open>The iteration with \<open>coset_begin\<close> and \<open>coset_next\<close> visits every node of a set once, in increasing
  order of the data, and ends; \<open>coset_end\<close> and \<open>coset_prev\<close> visit them in the reverse order.\<close>

theorem coset_iterate_sorted:
  assumes "set_ok s h ns xs"
  shows "\<exists>a b. coset_begin s h = Some a \<and> lpath (coset_next s h) a ns \<and> coset_end s h = Some b \<and> lpath (coset_prev s h) b (rev ns) \<and>
    map (node_data h) ns = map Some xs \<and> sorted_wrt (\<lambda>x y. st_comp s x y < 0) xs"
proof -
  have "map (node_data h) ns = map Some xs" using assms by (simp add: set_ok_def node_data_spec cong: map_cong)
  then show ?thesis
    using coset_begin_spec [OF assms] next_path [OF assms] prev_path [OF assms] assms by (auto simp: set_ok_def)
qed

theorem coset_iterate_sorted_witness:
  "\<exists>a. coset_begin two_set two_heap = Some a \<and> lpath (coset_next two_set two_heap) a [2, 3]"
  using coset_iterate_sorted [OF two_ok] by blast

text \<open>C29: clearing a set frees every node and leaves an empty set that can be used again; freeing it gives
  back the nodes and the set itself and nothing else.\<close>

theorem coset_clear_correct:
  assumes "set_ok s h ns xs" "length xs < 2 ^ 31"
  shows "\<exists>s' h'. coset_clear s h = Some (s', h') \<and> set_ok s' h' [] [] \<and> coset_size s' = 0 \<and> (\<forall>a\<in>set ns. h' a = None) \<and>
    (\<forall>a. a \<notin> insert (st_nil s) (set ns) \<longrightarrow> h' a = h a) \<and>
    coset_free s h = Some (\<lambda>a. if a \<in> insert (st_nil s) (set ns) then None else h a)"
proof -
  obtain s' h' where r: "coset_clear s h = Some (s', h')" "set_ok s' h' [] []" "st_nil s' = st_nil s" "\<forall>a\<in>set ns. h' a = None"
    "\<forall>a. a \<notin> insert (st_nil s) (set ns) \<longrightarrow> h' a = h a"
    using clear_loop_spec [OF assms] coset_begin_spec(1) [OF assms(1)] by (auto simp: coset_clear_def)
  have "coset_free s h = Some (h'(st_nil s := None))" using r(1,3) by (simp add: coset_free_def)
  also have "h'(st_nil s := None) = (\<lambda>a. if a \<in> insert (st_nil s) (set ns) then None else h a)" using r(4,5) by (auto simp: fun_eq_iff)
  finally show ?thesis using r by (auto simp: set_ok_def coset_size_def)
qed

theorem coset_clear_correct_witness:
  "coset_free two_set two_heap = Some (\<lambda>_. None)"
proof -
  have "(\<lambda>a. if a \<in> insert (st_nil two_set) (set [2, 3]) then None else two_heap a) = (\<lambda>_. None)"
    by (auto simp: fun_eq_iff two_heap_def)
  then show ?thesis using coset_clear_correct [OF two_ok] by auto
qed

text \<open>C25: a set refines a mathematical set: after any script of additions and deletions on a new set,
  \<open>coset_exist\<close> answers whether the value is in the abstract set, and the nodes hold the values in order.\<close>

theorem coset_script_correct:
  assumes "comp_ok f" "nil \<noteq> 0" "h nil = None" "distinct (put_addrs ops)"
    "\<forall>p\<in>set (put_addrs ops). p \<noteq> 0 \<and> p \<noteq> nil \<and> h p = None" "length (put_addrs ops) < 2 ^ 31"
  shows "\<exists>s0 h0 s' h' ns. coset_new f h nil = Some (s0, h0) \<and> run_set set_put set_del ops (s0, h0) = Some (s', h') \<and>
    set_ok s' h' ns (fold (op_list f) ops []) \<and> (\<forall>x. coset_exist s' h' x = Some (x \<in> fold (op_set f) ops {}))"
proof -
  obtain s0 h0 where n: "coset_new f h nil = Some (s0, h0)" "set_ok s0 h0 [] []" "st_nil s0 = nil" "st_comp s0 = f" "\<forall>a. a \<noteq> nil \<longrightarrow> h0 a = h a"
    using coset_new_spec [of nil h f] assms(1-3) by blast
  have r: "set_rep {} h f (s0, h0) []" using n by (auto simp: set_rep_def)
  have "\<forall>p\<in>set (put_addrs ops). set_fresh {} (s0, h0) p" using assms(5) n(5) by (simp add: set_fresh_def)
  from os.run_set_mem [OF r assms(4) this] assms(6) show ?thesis
    using n(1) by (fastforce simp: set_rep_def set_mem_def eqs_def)
qed

theorem coset_script_correct_witness:
  "\<exists>s0 h0 s h. coset_new int_order Map.empty 1 = Some (s0, h0) \<and>
     run_set set_put set_del [Put 2 10, Put 3 20, Put 4 10, Drop 20] (s0, h0) = Some (s, h) \<and>
     coset_exist s h 10 = Some True \<and> coset_exist s h 20 = Some False"
  using coset_script_correct [OF int_order_ok, of 1 Map.empty "[Put 2 10, Put 3 20, Put 4 10, Drop 20]"]
  by (fastforce simp: int_order_def)

text \<open>C28: \<open>coset_union\<close> and \<open>coset_minus\<close> compute the union and the difference, as adding or deleting the
  values of the second set one by one does, and leave the second set as it was.\<close>

theorem coset_union_minus_correct:
  assumes "set_ok s h ns xs" "set_ok s2 h ms ys" "insert (st_nil s) (set ns) \<inter> insert (st_nil s2) (set ms) = {}"
    and "length ps = length ys" "distinct ps" "\<forall>p\<in>set ps. p \<noteq> 0 \<and> h p = None" "length xs + length ys < 2 ^ 31"
  shows "(\<exists>s' h' ns'. coset_union s s2 h ps = Some (s', h') \<and> set_ok s' h' ns' (fold (sins (st_comp s)) ys xs) \<and> set_ok s2 h' ms ys \<and>
      (\<forall>x. coset_exist s' h' x = Some (x \<in> eqs (st_comp s) xs \<or> x \<in> eqs (st_comp s) ys))) \<and>
    (\<exists>s' h' ns'. coset_minus s s2 h = Some (s', h') \<and> set_ok s' h' ns' (fold (sdel (st_comp s)) ys xs) \<and> set_ok s2 h' ms ys \<and>
      (\<forall>x. coset_exist s' h' x = Some (x \<in> eqs (st_comp s) xs \<and> x \<notin> eqs (st_comp s) ys)))"
proof -
  have u: "fold (op_list f) (map2 Put ps ys) zs = fold (sins f) ys zs" for f zs
    using assms(4) by (induction ps ys arbitrary: zs rule: list_induct2) simp_all
  have m: "fold (op_list f) (map Drop ys) zs = fold (sdel f) ys zs" for f zs
    by (induction ys arbitrary: zs) simp_all
  have "length xs < 2 ^ 31" using assms(7) by simp
  from coset_minus_spec [OF assms(1-3) this] coset_union_spec [OF assms] show ?thesis unfolding u m by fastforce
qed

text \<open>Two sets on one heap, for the witnesses: the values 10, 20, 30 and the value 10.\<close>

definition three_set :: "int coset" where
  "three_set = \<lparr>st_root = 2, st_nil = 1, st_comp = int_order, st_size = 3\<rparr>"

definition one_set :: "int coset" where
  "one_set = \<lparr>st_root = 6, st_nil = 5, st_comp = int_order, st_size = 1\<rparr>"

definition both_heap :: "int sheap" where
  "both_heap =
     [1 \<mapsto> \<lparr>sn_parent = 1, sn_left = 0, sn_right = 0, sn_data = None, sn_color = 1\<rparr>,
      2 \<mapsto> \<lparr>sn_parent = 1, sn_left = 3, sn_right = 4, sn_data = Some 20, sn_color = 1\<rparr>,
      3 \<mapsto> \<lparr>sn_parent = 2, sn_left = 1, sn_right = 1, sn_data = Some 10, sn_color = 0\<rparr>,
      4 \<mapsto> \<lparr>sn_parent = 2, sn_left = 1, sn_right = 1, sn_data = Some 30, sn_color = 0\<rparr>,
      5 \<mapsto> \<lparr>sn_parent = 5, sn_left = 0, sn_right = 0, sn_data = None, sn_color = 1\<rparr>,
      6 \<mapsto> \<lparr>sn_parent = 5, sn_left = 5, sn_right = 5, sn_data = Some 10, sn_color = 1\<rparr>]"

lemma both_heap_at:
  "both_heap 1 = Some \<lparr>sn_parent = 1, sn_left = 0, sn_right = 0, sn_data = None, sn_color = 1\<rparr>"
  "both_heap 2 = Some \<lparr>sn_parent = 1, sn_left = 3, sn_right = 4, sn_data = Some 20, sn_color = 1\<rparr>"
  "both_heap 3 = Some \<lparr>sn_parent = 2, sn_left = 1, sn_right = 1, sn_data = Some 10, sn_color = 0\<rparr>"
  "both_heap 4 = Some \<lparr>sn_parent = 2, sn_left = 1, sn_right = 1, sn_data = Some 30, sn_color = 0\<rparr>"
  "both_heap 5 = Some \<lparr>sn_parent = 5, sn_left = 0, sn_right = 0, sn_data = None, sn_color = 1\<rparr>"
  "both_heap 6 = Some \<lparr>sn_parent = 5, sn_left = 5, sn_right = 5, sn_data = Some 10, sn_color = 1\<rparr>"
  by (simp_all add: both_heap_def)

lemma three_ok: "set_ok three_set both_heap [3, 2, 4] [10, 20, 30]"
proof -
  have a: "links True both_heap 2 = Some (1, 3, 4)" "links True both_heap 3 = Some (2, 1, 1)" "links True both_heap 4 = Some (2, 1, 1)"
    by (simp_all only: links_def both_heap_at) simp_all
  have b: "st_root three_set = 2" "st_nil three_set = 1" by (simp_all add: three_set_def)
  have c: "map_option sn_color (both_heap 1) = Some 1" by (simp only: both_heap_at) simp
  have "hole three_set both_heap [] (Node (Node Leaf 3 Leaf) 2 (Node Leaf 4 Leaf))"
    unfolding hole_def b by (simp add: a c del: One_nat_def)
  moreover have "rbt (cl both_heap) (Node (Node Leaf 3 Leaf) 2 (Node Leaf 4 Leaf))" by (simp add: rbt_def cl_def both_heap_at)
  ultimately have "\<exists>T. hole three_set both_heap [] T \<and> rbt (cl both_heap) T \<and> inorder T = [3, 2, 4]" by force
  then show ?thesis
    by (simp add: set_ok_def dat_def both_heap_at) (simp add: three_set_def int_order_ok, simp add: int_order_def)
qed

lemma one_ok: "set_ok one_set both_heap [6] [10]"
proof -
  have a: "links True both_heap 6 = Some (5, 5, 5)" by (simp only: links_def both_heap_at) simp
  have b: "st_root one_set = 6" "st_nil one_set = 5" by (simp_all add: one_set_def)
  have c: "map_option sn_color (both_heap 5) = Some 1" by (simp only: both_heap_at) simp
  have "hole one_set both_heap [] (Node Leaf 6 Leaf)" unfolding hole_def b by (simp add: a c)
  moreover have "rbt (cl both_heap) (Node Leaf 6 Leaf)" by (simp add: rbt_def cl_def both_heap_at)
  ultimately have "\<exists>T. hole one_set both_heap [] T \<and> rbt (cl both_heap) T \<and> inorder T = [6]" by force
  then show ?thesis by (simp add: set_ok_def dat_def both_heap_at) (simp add: one_set_def int_order_ok)
qed

lemma both_st [simp]: "st_comp three_set = int_order" "st_nil three_set = 1" "st_comp one_set = int_order" "st_nil one_set = 5"
  by (simp_all add: three_set_def one_set_def)

theorem coset_union_minus_correct_witness:
  "(\<exists>s h ns. coset_union one_set three_set both_heap [7, 8, 9] = Some (s, h) \<and> set_ok s h ns [10, 20, 30]) \<and>
   (\<exists>s h ns. coset_minus three_set one_set both_heap = Some (s, h) \<and> set_ok s h ns [20, 30])"
proof -
  have f: "both_heap 7 = None" "both_heap 8 = None" "both_heap 9 = None" by (simp_all add: both_heap_def)
  have "fold (sins int_order) [10, 20, 30] [10] = [10, 20, 30]" "fold (sdel int_order) [10] [10, 20, 30] = [20, 30]"
    by (simp_all add: sins_def sdel_def int_order_def)
  then show ?thesis
    using coset_union_minus_correct [OF one_ok three_ok, of "[7, 8, 9]"] coset_union_minus_correct [OF three_ok one_ok, of "[7]"] f
    by auto
qed

text \<open>C30: \<open>coset_intersect\<close> reads freed memory: when it comes to a node with two children whose value the
  second set does not have, deleting the value frees the node of the successor, which is the node the loop
  goes to next.\<close>

theorem coset_intersect_use_after_free:
  assumes "set_ok s h ns xs" "cur \<in> set ns" "h cur = Some n" "sn_left n \<noteq> st_nil s" "sn_right n \<noteq> st_nil s"
    "node_data h cur = Some d" "coset_exist s2 h d = Some False"
  shows "intersect_loop s s2 h cur = None"
  using intersect_two_children [OF assms(1-5), of d s2] assms(6,7) by (simp add: node_data_spec)

theorem coset_intersect_use_after_free_witness:
  "coset_intersect three_set one_set both_heap = None"
proof -
  have e: "coset_exist one_set both_heap 20 = Some False" "coset_exist one_set both_heap 10 = Some True"
    using coset_exist_spec [OF one_ok] by (simp_all add: eqs_def int_order_def)
  have "intersect_loop three_set one_set both_heap 2 = None"
    using coset_intersect_use_after_free [OF three_ok, of 2 _ 20 one_set] e(1) by (simp add: both_heap_at node_data_def)
  moreover have "coset_begin three_set both_heap = Some 3" using coset_begin_spec(1) [OF three_ok] by simp
  moreover have "coset_next three_set both_heap 3 = Some 2" using coset_next_spec(1) [of three_set both_heap "[]" 3 "[2, 4]"] three_ok by simp
  moreover have "node_data both_heap 3 = Some 10" by (simp add: node_data_def both_heap_at)
  ultimately show ?thesis
    using e(2) by (simp add: coset_intersect_def intersect_loop.simps [of three_set one_set both_heap 3])
qed

end
