(* ===== verification/WordFilter.thy ===== *)
theory WordFilter
  imports Utf8 "HOL-Library.Sublist"
begin

text \<open>
  The keyword filter (\<open>src/misc/co_wordfilter.c\<close>): a trie of nodes on a heap, the children of a node in
  a vector of pointers sorted by code.  A vector is the list of its elements, as theory \<open>Vec\<close> justifies
  (reading past its end is undefined, inserting at an index up to its length inserts); it is \<open>None\<close> while
  the pointer is null.  A string is the bytes from the pointer on.  \<open>cowf_loadwords\<close>, which reads a file,
  is not modelled.
\<close>

section \<open>Data\<close>

record wf_node =
  wn_chvec :: "nat list option"
  wn_code :: int
  wn_isend :: bool

type_synonym wheap = "nat \<Rightarrow> wf_node option"

record cowf =
  wf_root :: nat

definition new_wf_node :: "wheap \<Rightarrow> nat \<Rightarrow> wheap exec" where
  "new_wf_node h p = do {
     cassert (p \<noteq> 0 \<and> h p = None);
     Some (h(p \<mapsto> \<lparr>wn_chvec = None, wn_code = 0, wn_isend = False\<rparr>))
   }"

text \<open>Freeing the nodes of a list, each after its children; a node is freed as a list of one.\<close>

partial_function (option) free_wf_nodes :: "wheap \<Rightarrow> nat list \<Rightarrow> wheap exec" where
  "free_wf_nodes h ns =
     (case ns of
        [] \<Rightarrow> Some h
      | a # ns \<Rightarrow> do {
          n \<leftarrow> h a;
          h \<leftarrow> (case wn_chvec n of None \<Rightarrow> Some h | Some cs \<Rightarrow> free_wf_nodes h cs);
          free_wf_nodes (h(a := None)) ns
        })"

definition cowf_new :: cowf where
  "cowf_new = \<lparr>wf_root = 0\<rparr>"

definition cowf_clear :: "cowf \<Rightarrow> wheap \<Rightarrow> (cowf \<times> wheap) exec" where
  "cowf_clear w h =
     (if wf_root w \<noteq> 0 then do { h \<leftarrow> free_wf_nodes h [wf_root w]; Some (w\<lparr>wf_root := 0\<rparr>, h) } else Some (w, h))"

definition cowf_free :: "cowf \<Rightarrow> wheap \<Rightarrow> wheap exec" where
  "cowf_free w h = map_option snd (cowf_clear w h)"

section \<open>The children of a node\<close>

definition vec_at :: "nat list \<Rightarrow> int \<Rightarrow> nat exec" where
  "vec_at cs i = (if 0 \<le> i \<and> i < int (length cs) then Some (cs ! nat i) else None)"

text \<open>The binary search: whether the code was found, the last node looked at, null at first, and its
  index.\<close>

partial_function (option) child_search :: "wheap \<Rightarrow> nat list \<Rightarrow> int \<Rightarrow> int \<Rightarrow> int \<Rightarrow> int \<Rightarrow> nat \<Rightarrow> (bool \<times> nat \<times> int) exec" where
  "child_search h cs code low high mid node =
     (if low \<le> high then do {
        s \<leftarrow> i32 (high + low);
        let mid = s div 2;
        node \<leftarrow> vec_at cs mid;
        n \<leftarrow> h node;
        if code = wn_code n then Some (True, node, mid)
        else if code > wn_code n then child_search h cs code (mid + 1) high mid node
        else child_search h cs code low (mid - 1) mid node
      } else Some (False, node, mid))"

definition cowf_find_child :: "wheap \<Rightarrow> nat \<Rightarrow> int \<Rightarrow> (wheap \<times> nat \<times> int) exec" where
  "cowf_find_child h parent code = do {
     n \<leftarrow> h parent;
     let h = (if wn_chvec n = None then h(parent \<mapsto> n\<lparr>wn_chvec := Some []\<rparr>) else h);
     let cs = (case wn_chvec n of None \<Rightarrow> [] | Some cs \<Rightarrow> cs);
     (found, node, mid) \<leftarrow> child_search h cs code 0 (int (length cs) - 1) 0 0;
     if found then Some (h, node, mid)
     else if node = 0 then Some (h, 0, mid)
     else do { m \<leftarrow> h node; Some (h, 0, if code < wn_code m then mid else mid + 1) }
   }"

text \<open>\<open>p\<close> is what \<open>CO_MALLOC\<close> returns when a node is made.\<close>

definition cowf_insert_child :: "wheap \<Rightarrow> nat \<Rightarrow> nat \<Rightarrow> int \<Rightarrow> (wheap \<times> nat) exec" where
  "cowf_insert_child h p parent code = do {
     (h, node, index) \<leftarrow> cowf_find_child h parent code;
     if node \<noteq> 0 then Some (h, node)
     else do {
       h \<leftarrow> new_wf_node h p;
       m \<leftarrow> h p;
       let h = h(p \<mapsto> m\<lparr>wn_code := code\<rparr>);
       n \<leftarrow> h parent;
       cs \<leftarrow> wn_chvec n;
       cassert (0 \<le> index \<and> index \<le> int (length cs));
       Some (h(parent \<mapsto> n\<lparr>wn_chvec := Some (take (nat index) cs @ p # drop (nat index) cs)\<rparr>), p)
     }
   }"

section \<open>Words\<close>

text \<open>The node a word ends at, 0 for the empty word.  Printing the message about a decoding error passes
  the null pointer \<open>p\<close> to \<open>printf\<close>, which is undefined.  \<open>ps\<close> gives an address for every
  character.\<close>

partial_function (option) addword_loop :: "wheap \<Rightarrow> nat list \<Rightarrow> nat \<Rightarrow> nat \<Rightarrow> byte list \<Rightarrow> (wheap \<times> nat) exec" where
  "addword_loop h ps parent child p = do {
     c \<leftarrow> read_byte p 0;
     if c = 0 then Some (h, child)
     else do {
       r \<leftarrow> coutf8_decode p;
       case r of None \<Rightarrow> None
       | Some (k, code) \<Rightarrow> (case ps of [] \<Rightarrow> None | a # ps \<Rightarrow> do {
           (h, node) \<leftarrow> cowf_insert_child h a parent (sint code);
           addword_loop h ps node node (drop k p)
         })
     }
   }"

definition set_isend :: "wheap \<Rightarrow> nat \<Rightarrow> bool \<Rightarrow> wheap exec" where
  "set_isend h a b = map_option (\<lambda>n. h(a \<mapsto> n\<lparr>wn_isend := b\<rparr>)) (h a)"

text \<open>\<open>r\<close> is the address of the root when it is made.\<close>

definition cowf_addword :: "cowf \<Rightarrow> wheap \<Rightarrow> nat \<Rightarrow> nat list \<Rightarrow> byte list \<Rightarrow> (cowf \<times> wheap) exec" where
  "cowf_addword w h r ps wd = do {
     (w, h) \<leftarrow> (if wf_root w = 0 then do { h \<leftarrow> new_wf_node h r; Some (w\<lparr>wf_root := r\<rparr>, h) } else Some (w, h));
     (h, child) \<leftarrow> addword_loop h ps (wf_root w) 0 wd;
     if child \<noteq> 0 then do { h \<leftarrow> set_isend h child True; Some (w, h) } else Some (w, h)
   }"

partial_function (option) lastchild_loop :: "wheap \<Rightarrow> nat \<Rightarrow> nat \<Rightarrow> byte list \<Rightarrow> (wheap \<times> nat) exec" where
  "lastchild_loop h parent child p = do {
     c \<leftarrow> read_byte p 0;
     if c = 0 then Some (h, child)
     else do {
       r \<leftarrow> coutf8_decode p;
       case r of None \<Rightarrow> Some (h, 0)
       | Some (k, code) \<Rightarrow> do {
           (h, node, index) \<leftarrow> cowf_find_child h parent (sint code);
           if node = 0 then Some (h, 0) else lastchild_loop h node node (drop k p)
         }
     }
   }"

definition cowf_get_lastchild :: "wheap \<Rightarrow> nat \<Rightarrow> byte list \<Rightarrow> (wheap \<times> nat) exec" where
  "cowf_get_lastchild h parent wd = lastchild_loop h parent 0 wd"

definition cowf_exist :: "cowf \<Rightarrow> wheap \<Rightarrow> byte list \<Rightarrow> (wheap \<times> bool) exec" where
  "cowf_exist w h wd =
     (if wf_root w = 0 then Some (h, False)
      else do {
        (h, child) \<leftarrow> cowf_get_lastchild h (wf_root w) wd;
        if child = 0 then Some (h, False) else do { n \<leftarrow> h child; Some (h, wn_isend n) }
      })"

definition cowf_delword :: "cowf \<Rightarrow> wheap \<Rightarrow> byte list \<Rightarrow> wheap exec" where
  "cowf_delword w h wd =
     (if wf_root w = 0 then Some h
      else do {
        (h, child) \<leftarrow> cowf_get_lastchild h (wf_root w) wd;
        if child \<noteq> 0 then set_isend h child False else Some h
      })"

section \<open>Texts\<close>

text \<open>The length of the first word of the trie at the start of the text, \<open>None\<close> for the null pointer.\<close>

partial_function (option) check_word_loop :: "wheap \<Rightarrow> nat \<Rightarrow> nat \<Rightarrow> byte list \<Rightarrow> (wheap \<times> nat option) exec" where
  "check_word_loop h parent len p = do {
     c \<leftarrow> read_byte p 0;
     if c = 0 then Some (h, None)
     else do {
       r \<leftarrow> coutf8_decode p;
       case r of None \<Rightarrow> Some (h, None)
       | Some (k, code) \<Rightarrow> do {
           (h, node, index) \<leftarrow> cowf_find_child h parent (sint code);
           if node = 0 then Some (h, None)
           else do {
             n \<leftarrow> h node;
             if wn_isend n then Some (h, Some (len + k)) else check_word_loop h node (len + k) (drop k p)
           }
         }
     }
   }"

definition cowf_check_word :: "wheap \<Rightarrow> nat \<Rightarrow> byte list \<Rightarrow> (wheap \<times> nat option) exec" where
  "cowf_check_word h parent text = check_word_loop h parent 0 text"

text \<open>The bytes before \<open>p\<close> are \<open>pre\<close>, those from it on \<open>p\<close>; the result is the whole text.\<close>

partial_function (option) filter_loop :: "wheap \<Rightarrow> nat \<Rightarrow> byte \<Rightarrow> bool \<Rightarrow> byte list \<Rightarrow> byte list \<Rightarrow> (wheap \<times> bool \<times> byte list) exec" where
  "filter_loop h root ch result pre p = do {
     c \<leftarrow> read_byte p 0;
     if c = 0 then Some (h, result, pre @ p)
     else do {
       (h, e) \<leftarrow> cowf_check_word h root p;
       case e of
         Some k \<Rightarrow> filter_loop h root ch True (pre @ replicate k ch) (drop k p)
       | None \<Rightarrow> do {
           r \<leftarrow> coutf8_decode p;
           case r of None \<Rightarrow> Some (h, result, pre @ p)
           | Some (k, code) \<Rightarrow> filter_loop h root ch result (pre @ take k p) (drop k p)
         }
     }
   }"

definition cowf_fitler :: "cowf \<Rightarrow> wheap \<Rightarrow> byte list \<Rightarrow> byte \<Rightarrow> (wheap \<times> bool \<times> byte list) exec" where
  "cowf_fitler w h text ch =
     (if wf_root w = 0 then Some (h, False, text) else filter_loop h (wf_root w) ch False [] text)"

partial_function (option) check_loop :: "wheap \<Rightarrow> nat \<Rightarrow> byte list \<Rightarrow> (wheap \<times> bool) exec" where
  "check_loop h root p = do {
     c \<leftarrow> read_byte p 0;
     if c = 0 then Some (h, False)
     else do {
       (h, e) \<leftarrow> cowf_check_word h root p;
       if e \<noteq> None then Some (h, True)
       else do {
         r \<leftarrow> coutf8_decode p;
         case r of None \<Rightarrow> Some (h, False) | Some (k, code) \<Rightarrow> check_loop h root (drop k p)
       }
     }
   }"

definition cowf_check :: "cowf \<Rightarrow> wheap \<Rightarrow> byte list \<Rightarrow> (wheap \<times> bool) exec" where
  "cowf_check w h text = (if wf_root w = 0 then Some (h, False) else check_loop h (wf_root w) text)"


section \<open>Searching the children\<close>

text \<open>The place of a code in a sorted list.\<close>

definition place :: "int list \<Rightarrow> int \<Rightarrow> int \<Rightarrow> bool" where
  "place ks c i \<longleftrightarrow> 0 \<le> i \<and> i \<le> int (length ks) \<and> (\<forall>j. 0 \<le> j \<longrightarrow> j < i \<longrightarrow> ks ! nat j < c) \<and>
     (\<forall>j. i \<le> j \<longrightarrow> j < int (length ks) \<longrightarrow> c < ks ! nat j)"

definition codes_at :: "wheap \<Rightarrow> nat list \<Rightarrow> int list \<Rightarrow> bool" where
  "codes_at h cs ks \<longleftrightarrow> length cs = length ks \<and> length ks < 2 ^ 30 \<and> sorted_wrt (<) ks \<and>
     (\<forall>j. 0 \<le> j \<longrightarrow> j < int (length ks) \<longrightarrow> cs ! nat j \<noteq> 0 \<and> map_option wn_code (h (cs ! nat j)) = Some (ks ! nat j))"

definition searched :: "wheap \<Rightarrow> nat list \<Rightarrow> int list \<Rightarrow> int \<Rightarrow> bool \<Rightarrow> nat \<Rightarrow> int \<Rightarrow> bool" where
  "searched h cs ks c found node mid \<longleftrightarrow>
     (if c \<in> set ks then found \<and> 0 \<le> mid \<and> mid < int (length ks) \<and> ks ! nat mid = c \<and> node = cs ! nat mid
      else \<not> found \<and> (node = 0 \<and> place ks c 0 \<and> mid = 0 \<or>
        node \<noteq> 0 \<and> (\<exists>n. h node = Some n \<and> place ks c (if c < wn_code n then mid else mid + 1))))"

lemma sorted_nth_less:
  assumes "sorted_wrt (<) ks" "0 \<le> i" "i < j" "j < int (length ks)"
  shows "ks ! nat i < (ks ! nat j :: int)"
  using sorted_wrt_nth_less [OF assms(1), of "nat i" "nat j"] assms(2-) by simp

lemma child_search_spec:
  assumes at: "codes_at h cs ks" and r: "0 \<le> low" "low \<le> high + 1" "high < int (length ks)"
    and lo: "\<And>j. 0 \<le> j \<Longrightarrow> j < low \<Longrightarrow> ks ! nat j < c" and hi: "\<And>j. high < j \<Longrightarrow> j < int (length ks) \<Longrightarrow> c < ks ! nat j"
    and st: "node = 0 \<and> mid = 0 \<and> low = 0 \<or>
      node \<noteq> 0 \<and> (\<exists>n. h node = Some n \<and> (c < wn_code n \<and> mid = high + 1 \<or> wn_code n < c \<and> low = mid + 1))"
  shows "\<exists>found node' mid'. child_search h cs c low high mid node = Some (found, node', mid') \<and> searched h cs ks c found node' mid'"
  using r lo hi st
proof (induction "nat (high + 1 - low)" arbitrary: low high mid node rule: less_induct)
  case less
  note lo = less.prems(4) and hi = less.prems(5) and st = less.prems(6)
  show ?case
  proof (cases "low \<le> high")
    case False
    then have e: "low = high + 1" using less.prems(2) by simp
    have "place ks c low" unfolding place_def using less.prems(1,3) lo hi e by auto
    moreover have "c \<notin> set ks"
    proof
      assume "c \<in> set ks"
      then obtain j where "j < length ks" "ks ! j = c" by (auto simp: in_set_conv_nth)
      then show False using lo [of "int j"] hi [of "int j"] e by (cases "int j < low") auto
    qed
    moreover have "child_search h cs c low high mid node = Some (False, node, mid)" using False by (subst child_search.simps) simp
    ultimately show ?thesis using st e by (auto simp: searched_def)
  next
    case True
    define m where "m = (high + low) div 2"
    have m: "low \<le> m" "m \<le> high" "0 \<le> m" "m < int (length ks)" using True less.prems(1,3) by (auto simp: m_def)
    have s: "i32 (high + low) = Some (high + low)"
      using True less.prems(1,3) at by (intro i32_in) (auto simp: codes_at_def)
    have cm: "cs ! nat m \<noteq> 0" "length cs = length ks" "sorted_wrt (<) ks" using at m by (auto simp: codes_at_def)
    have "map_option wn_code (h (cs ! nat m)) = Some (ks ! nat m)" using at m by (simp add: codes_at_def)
    then obtain n where n: "h (cs ! nat m) = Some n" "wn_code n = ks ! nat m" by auto
    have v: "vec_at cs m = Some (cs ! nat m)" using m cm by (simp add: vec_at_def)
    have step: "child_search h cs c low high mid node =
      (if c = ks ! nat m then Some (True, cs ! nat m, m)
       else if c > ks ! nat m then child_search h cs c (m + 1) high m (cs ! nat m)
       else child_search h cs c low (m - 1) m (cs ! nat m))"
      using True s v n by (subst child_search.simps) (simp add: m_def Let_def)
    consider "c = ks ! nat m" | "c > ks ! nat m" | "c < ks ! nat m" by linarith
    then show ?thesis
    proof cases
      case 1
      moreover have "c \<in> set ks" using 1 m by simp
      ultimately show ?thesis using step m by (auto simp: searched_def)
    next
      case 2
      have "ks ! nat j < c" if "0 \<le> j" "j < m + 1" for j
        using sorted_nth_less [OF cm(3), of j m] that m 2 by (cases "j = m") auto
      then have "\<exists>found node' mid'. child_search h cs c (m + 1) high m (cs ! nat m) = Some (found, node', mid') \<and> searched h cs ks c found node' mid'"
        using m True less.prems(1-3) hi cm(1) n 2 by (intro less.hyps) auto
      then show ?thesis using step 2 by simp
    next
      case 3
      have "c < ks ! nat j" if "m - 1 < j" "j < int (length ks)" for j
        using sorted_nth_less [OF cm(3), of m j] that m 3 by (cases "j = m") auto
      then have "\<exists>found node' mid'. child_search h cs c low (m - 1) m (cs ! nat m) = Some (found, node', mid') \<and> searched h cs ks c found node' mid'"
        using m True less.prems(1-3) lo cm(1) n 3 by (intro less.hyps) auto
      then show ?thesis using step 3 by simp
    qed
  qed
qed


section \<open>The trie\<close>

text \<open>\<open>P\<close> gives the node of every path of codes from the root, \<open>W\<close> the words, the paths of the nodes
  with \<open>isend\<close>.\<close>

definition kids :: "(int list \<Rightarrow> nat option) \<Rightarrow> int list \<Rightarrow> int list" where
  "kids P w = sorted_list_of_set {c. P (w @ [c]) \<noteq> None}"

definition chs :: "wf_node \<Rightarrow> nat list" where
  "chs n = (case wn_chvec n of None \<Rightarrow> [] | Some cs \<Rightarrow> cs)"

definition codepoint :: "int \<Rightarrow> bool" where
  "codepoint c \<longleftrightarrow> 0 < c \<and> c \<le> 0x10FFFF"

definition node_at :: "wheap \<Rightarrow> (int list \<Rightarrow> nat option) \<Rightarrow> int list set \<Rightarrow> int list \<Rightarrow> nat \<Rightarrow> bool" where
  "node_at h P W w a \<longleftrightarrow> a \<noteq> 0 \<and> (\<exists>n. h a = Some n \<and> wn_isend n = (w \<in> W) \<and> (w \<noteq> [] \<longrightarrow> wn_code n = last w) \<and>
     chs n = map (\<lambda>c. the (P (w @ [c]))) (kids P w))"

definition paths_ok :: "nat \<Rightarrow> (int list \<Rightarrow> nat option) \<Rightarrow> int list set \<Rightarrow> bool" where
  "paths_ok r P W \<longleftrightarrow> P [] = Some r \<and> finite (dom P) \<and> inj_on P (dom P) \<and>
     (\<forall>w c. P (w @ [c]) \<noteq> None \<longrightarrow> P w \<noteq> None \<and> codepoint c) \<and> W \<subseteq> dom P \<and> [] \<notin> W"

definition trie_ok :: "wheap \<Rightarrow> nat \<Rightarrow> (int list \<Rightarrow> nat option) \<Rightarrow> int list set \<Rightarrow> bool" where
  "trie_ok h r P W \<longleftrightarrow> paths_ok r P W \<and> (\<forall>w a. P w = Some a \<longrightarrow> node_at h P W w a)"

lemma kids_codes: "paths_ok r P W \<Longrightarrow> {c. P (w @ [c]) \<noteq> None} \<subseteq> {1..0x10FFFF}"
proof
  fix c assume "paths_ok r P W" "c \<in> {c. P (w @ [c]) \<noteq> None}"
  then have "codepoint c" unfolding paths_ok_def by blast
  then show "c \<in> {1..0x10FFFF}" by (simp add: codepoint_def)
qed

lemma kids_finite: "paths_ok r P W \<Longrightarrow> finite {c. P (w @ [c]) \<noteq> None}"
  by (rule finite_subset [OF kids_codes]) simp_all

lemma set_kids: "paths_ok r P W \<Longrightarrow> c \<in> set (kids P w) \<longleftrightarrow> P (w @ [c]) \<noteq> None"
  using kids_finite [of r P W w] by (simp add: kids_def)

lemma length_kids: "paths_ok r P W \<Longrightarrow> length (kids P w) \<le> 0x10FFFF"
  using card_mono [OF _ kids_codes [of r P W w]] by (simp add: kids_def)

lemma sorted_kids: "sorted_wrt (<) (kids P w)"
  by (simp add: kids_def)

lemma trie_codes:
  assumes ok: "trie_ok h r P W" and w: "P w = Some a" "h a = Some n"
  shows "codes_at h (chs n) (kids P w)"
proof -
  have p: "paths_ok r P W" using ok by (simp add: trie_ok_def)
  have c: "chs n = map (\<lambda>c. the (P (w @ [c]))) (kids P w)" using ok w by (fastforce simp: trie_ok_def node_at_def)
  have "chs n ! nat j \<noteq> 0 \<and> map_option wn_code (h (chs n ! nat j)) = Some (kids P w ! nat j)" if "0 \<le> j" "j < int (length (kids P w))" for j
  proof -
    have "kids P w ! nat j \<in> set (kids P w)" using that by simp
    then obtain b where b: "P (w @ [kids P w ! nat j]) = Some b" unfolding set_kids [OF p] by blast
    then have "node_at h P W (w @ [kids P w ! nat j]) b" using ok by (simp add: trie_ok_def)
    then show ?thesis using that b c by (auto simp: node_at_def)
  qed
  then show ?thesis using length_kids [OF p, of w] sorted_kids [of P w] c by (simp add: codes_at_def)
qed

lemma node_at_upd:
  assumes "node_at h P W w a" "h' a = h a"
  shows "node_at h' P W w a"
  using assms by (simp add: node_at_def)

lemma chvec_empty:
  assumes "trie_ok h r P W" "P w = Some a" "h a = Some n" "wn_chvec n = None"
  shows "trie_ok (h(a \<mapsto> n\<lparr>wn_chvec := Some []\<rparr>)) r P W"
  unfolding trie_ok_def
proof (intro conjI allI impI)
  show "paths_ok r P W" using assms(1) by (simp add: trie_ok_def)
  fix v b
  assume v: "P v = Some b"
  then have n: "node_at h P W v b" using assms(1) by (simp add: trie_ok_def)
  then show "node_at (h(a \<mapsto> n\<lparr>wn_chvec := Some []\<rparr>)) P W v b"
    using assms(3,4) by (auto simp: node_at_def chs_def)
qed

lemma find_child_spec:
  assumes ok: "trie_ok h r P W" and w: "P w = Some a"
  shows "\<exists>h' i n. cowf_find_child h a c = Some (h', case P (w @ [c]) of None \<Rightarrow> 0 | Some b \<Rightarrow> b, i) \<and> trie_ok h' r P W \<and>
    h' a = Some n \<and> wn_chvec n = Some (chs n) \<and> (P (w @ [c]) = None \<longrightarrow> place (kids P w) c i) \<and> (\<forall>q. q \<noteq> a \<longrightarrow> h' q = h q)"
proof -
  have p: "paths_ok r P W" using ok by (simp add: trie_ok_def)
  obtain n where n: "a \<noteq> 0" "h a = Some n" "chs n = map (\<lambda>c. the (P (w @ [c]))) (kids P w)"
    using ok w by (fastforce simp: trie_ok_def node_at_def)
  define h1 where "h1 = (if wn_chvec n = None then h(a \<mapsto> n\<lparr>wn_chvec := Some []\<rparr>) else h)"
  have ok1: "trie_ok h1 r P W" using chvec_empty [OF ok w n(2)] ok by (simp add: h1_def)
  obtain n1 where n1: "h1 a = Some n1" "wn_chvec n1 = Some (chs n)" "chs n1 = chs n"
    using n(2) by (cases "wn_chvec n") (auto simp: h1_def chs_def)
  have at: "codes_at h1 (chs n) (kids P w)" using trie_codes [OF ok1 w n1(1)] n1(3) by simp
  have len: "length (chs n) = length (kids P w)" using n(3) by simp
  obtain found node mid where s: "child_search h1 (chs n) c 0 (int (length (chs n)) - 1) 0 0 = Some (found, node, mid)"
    "searched h1 (chs n) (kids P w) c found node mid"
    using child_search_spec [OF at, of 0 "int (length (chs n)) - 1" c 0 0] len by auto
  have u: "cowf_find_child h a c =
    (if found then Some (h1, node, mid) else if node = 0 then Some (h1, 0, mid)
     else do { m \<leftarrow> h1 node; Some (h1, 0, if c < wn_code m then mid else mid + 1) })"
    using n(2) s(1) by (simp add: cowf_find_child_def h1_def chs_def Let_def)
  have fr: "\<forall>q. q \<noteq> a \<longrightarrow> h1 q = h q" by (simp add: h1_def)
  have cs: "wn_chvec n1 = Some (chs n1)" using n1 by simp
  show ?thesis
  proof (cases "P (w @ [c])")
    case None
    then have "c \<notin> set (kids P w)" by (simp add: set_kids [OF p])
    then have "\<exists>i. cowf_find_child h a c = Some (h1, 0, i) \<and> place (kids P w) c i"
      using s(2) u by (auto simp: searched_def)
    then show ?thesis using ok1 n1(1) cs fr None by auto
  next
    case (Some b)
    then have "c \<in> set (kids P w)" by (simp add: set_kids [OF p])
    then have "found" "node = chs n ! nat mid" "kids P w ! nat mid = c" "nat mid < length (kids P w)"
      using s(2) by (auto simp: searched_def)
    then have "cowf_find_child h a c = Some (h1, b, mid)" using u n(3) Some by simp
    then show ?thesis using ok1 n1(1) cs fr Some by auto
  qed
qed


lemma place_sorted:
  assumes "sorted_wrt (<) ks" "place ks c i"
  shows "sorted_wrt (<) (take (nat i) ks @ c # drop (nat i) ks)"
proof -
  have i: "nat i \<le> length ks" using assms(2) by (auto simp: place_def)
  have lo: "x < c" if x: "x \<in> set (take (nat i) ks)" for x
  proof -
    obtain k where "k < length (take (nat i) ks)" "take (nat i) ks ! k = x" using x unfolding in_set_conv_nth by blast
    then obtain j where "j < nat i" "j < length ks" "x = ks ! j" by auto
    then have "0 \<le> int j" "int j < i" by simp_all
    then have "ks ! nat (int j) < c" using assms(2) unfolding place_def by blast
    then show ?thesis using \<open>x = ks ! j\<close> by simp
  qed
  have hi: "c < x" if x: "x \<in> set (drop (nat i) ks)" for x
  proof -
    obtain j where j: "j < length ks - nat i" "x = ks ! (nat i + j)" using x i unfolding set_conv_nth by auto
    then have "i \<le> int (nat i + j)" "int (nat i + j) < int (length ks)" using assms(2) by (auto simp: place_def)
    then have "c < ks ! nat (int (nat i + j))" using assms(2) unfolding place_def by blast
    then show ?thesis unfolding j(2) nat_int .
  qed
  have "sorted_wrt (<) (take (nat i) ks @ drop (nat i) ks)" using assms(1) by simp
  then have "sorted_wrt (<) (take (nat i) ks)" "sorted_wrt (<) (drop (nat i) ks)" by (simp_all add: sorted_wrt_append)
  moreover have "x < y" if "x \<in> set (take (nat i) ks)" "y \<in> set (drop (nat i) ks)" for x y
    using lo [OF that(1)] hi [OF that(2)] by simp
  ultimately show ?thesis using lo hi by (simp add: sorted_wrt_append)
qed

lemma kids_insert:
  assumes p: "paths_ok r P W" and c: "P (w @ [c]) = None" "place (kids P w) c i"
  shows "kids (P(w @ [c] \<mapsto> q)) w = take (nat i) (kids P w) @ c # drop (nat i) (kids P w)"
proof -
  let ?l = "take (nat i) (kids P w) @ c # drop (nat i) (kids P w)"
  have "set ?l = insert c (set (kids P w))" by (metis Un_insert_right append_take_drop_id list.simps(15) set_append)
  also have "\<dots> = {x. (P(w @ [c] \<mapsto> q)) (w @ [x]) \<noteq> None}" using set_kids [OF p, of _ w] by auto
  finally have "{x. (P(w @ [c] \<mapsto> q)) (w @ [x]) \<noteq> None} = set ?l" by simp
  moreover have "sorted ?l" "distinct ?l" using place_sorted [OF sorted_kids c(2)] strict_sorted_iff by blast+
  ultimately show ?thesis unfolding kids_def [of "P(w @ [c] \<mapsto> q)"] by (metis sorted_list_of_set.idem_if_sorted_distinct)
qed

lemma kids_other: "v \<noteq> w \<Longrightarrow> kids (P(w @ [c] \<mapsto> q)) v = kids P v"
  by (simp add: kids_def)

lemma insert_child_spec:
  assumes ok: "trie_ok h r P W" and w: "P w = Some a" and q: "q \<noteq> 0" "h q = None" and c: "codepoint c"
  shows "\<exists>h' b P'. cowf_insert_child h q a c = Some (h', b) \<and> P' = (if P (w @ [c]) = None then P(w @ [c] \<mapsto> q) else P) \<and>
    P' (w @ [c]) = Some b \<and> b \<noteq> 0 \<and> trie_ok h' r P' W \<and> (\<forall>x. x \<noteq> q \<longrightarrow> h x = None \<longrightarrow> h' x = None)"
proof -
  obtain h1 i n where f: "cowf_find_child h a c = Some (h1, case P (w @ [c]) of None \<Rightarrow> 0 | Some b \<Rightarrow> b, i)" "trie_ok h1 r P W"
    "h1 a = Some n" "wn_chvec n = Some (chs n)" "P (w @ [c]) = None \<longrightarrow> place (kids P w) c i" "\<forall>x. x \<noteq> a \<longrightarrow> h1 x = h x"
    using find_child_spec [OF ok w, of c] by (elim exE conjE) (rule that)
  have live: "h a \<noteq> None" using ok w by (fastforce simp: trie_ok_def node_at_def)
  have p: "paths_ok r P W" using ok by (simp add: trie_ok_def)
  show ?thesis
  proof (cases "P (w @ [c])")
    case (Some b)
    then have "b \<noteq> 0" using ok by (auto simp: trie_ok_def node_at_def)
    moreover have "\<forall>x. x \<noteq> q \<longrightarrow> h x = None \<longrightarrow> h1 x = None" using f(6) live by metis
    ultimately show ?thesis using f(1-4) Some by (auto simp: cowf_insert_child_def intro!: exI [of _ h1])
  next
    case None
    have qa: "q \<noteq> a" using live q(2) by auto
    then have hq: "h1 q = None" using f(6) q(2) by simp
    have pl: "place (kids P w) c i" using f(5) None by simp
    let ?l = "take (nat i) (chs n) @ q # drop (nat i) (chs n)"
    let ?h = "h1(q \<mapsto> \<lparr>wn_chvec = None, wn_code = c, wn_isend = False\<rparr>, a \<mapsto> n\<lparr>wn_chvec := Some ?l\<rparr>)"
    let ?P = "P(w @ [c] \<mapsto> q)"
    have na: "node_at h1 P W w a" using f(2) w by (simp add: trie_ok_def)
    then have cs: "chs n = map (\<lambda>c. the (P (w @ [c]))) (kids P w)" using f(3) by (simp add: node_at_def)
    have "cowf_insert_child h q a c = Some (?h, q)"
      using f(1,3,4) None pl q(1) qa hq cs
      by (simp add: cowf_insert_child_def new_wf_node_def cassert_def place_def Let_def fun_upd_twist)
    moreover have "trie_ok ?h r ?P W"
      unfolding trie_ok_def
    proof (intro conjI allI impI)
      have "q \<notin> ran P"
      proof
        assume "q \<in> ran P"
        then obtain v where "P v = Some q" by (auto simp: ran_def)
        then have "node_at h1 P W v q" using f(2) by (simp add: trie_ok_def)
        then show False using hq by (simp add: node_at_def)
      qed
      then have "inj_on ?P (dom ?P)" using p by (auto simp: paths_ok_def inj_on_def ran_def split: if_splits)
      moreover have "?P v \<noteq> None \<and> codepoint d" if "?P (v @ [d]) \<noteq> None" for v d
      proof (cases "v @ [d] = w @ [c]")
        case False
        have "P (v @ [d]) \<noteq> None" using that unfolding fun_upd_other [OF False] .
        then have "P v \<noteq> None \<and> codepoint d" using p unfolding paths_ok_def by blast
        then show ?thesis by simp
      qed (use w c in simp)
      ultimately show "paths_ok r ?P W" using p w unfolding paths_ok_def by auto
      fix v b
      assume v: "?P v = Some b"
      consider "v = w @ [c]" "b = q" | "v = w" "b = a" | "v \<noteq> w @ [c]" "v \<noteq> w" "P v = Some b" using v w by (cases "v = w @ [c]"; cases "v = w") auto
      then show "node_at ?h ?P W v b"
      proof cases
        case 1
        have "P ((w @ [c]) @ [x]) = None" for x using p None unfolding paths_ok_def by blast
        then have "kids ?P (w @ [c]) = []" by (simp add: kids_def)
        moreover have "w @ [c] \<notin> W" using p None by (auto simp: paths_ok_def)
        ultimately show ?thesis using 1 qa q(1) by (auto simp: node_at_def chs_def)
      next
        case 2
        have cn: "c \<notin> set (kids P w)" using set_kids [OF p, of c w] None by simp
        have "map (\<lambda>x. the (?P (w @ [x]))) (kids ?P w) = ?l"
          using cn unfolding kids_insert [OF p None pl] cs
          by (auto simp: take_map drop_map dest: in_set_takeD in_set_dropD)
        then show ?thesis using 2 na f(3) by (simp add: node_at_def chs_def)
      next
        case 3
        have "inj_on P (dom P)" using p by (simp add: paths_ok_def)
        then have "b \<noteq> a" using 3 w inj_onD [of P "dom P" v w] by auto
        moreover have "node_at h1 P W v b" using f(2) 3 by (simp add: trie_ok_def)
        moreover from this have "b \<noteq> q" using hq by (auto simp: node_at_def)
        ultimately show ?thesis using 3 by (simp add: node_at_def kids_other)
      qed
    qed
    ultimately show ?thesis using None q(1) f(6) live by (auto intro!: exI [of _ ?h] exI [of _ q])
  qed
qed


section \<open>Words and texts\<close>

definition enc :: "int list \<Rightarrow> byte list" where
  "enc cs = concat (map utf8_encode cs)"

lemma enc_simps [simp]: "enc [] = []" "enc (c # cs) = utf8_encode c @ enc cs"
  by (simp_all add: enc_def)

lemma codepoint_decode:
  assumes "codepoint c"
  shows "coutf8_decode (utf8_encode c @ bs) = Some (Some (length (utf8_encode c), word_of_int c))"
    and "sint (word_of_int c :: 32 word) = c" and "\<exists>b. read_byte (utf8_encode c @ bs) 0 = Some b \<and> b \<noteq> 0"
proof -
  show "coutf8_decode (utf8_encode c @ bs) = Some (Some (length (utf8_encode c), word_of_int c))"
    using assms by (intro decode_encode) (simp_all add: codepoint_def)
  show "sint (word_of_int c :: 32 word) = c"
    using assms by (simp add: signed_of_int signed_take_bit_int_eq_self codepoint_def)
  obtain b bs' where b: "utf8_encode c = b # bs'" using encode_pos by (cases "utf8_encode c") auto
  moreover have "u8 (hd (utf8_encode c)) \<noteq> 0" using assms by (intro encode_hd) (simp_all add: codepoint_def)
  ultimately show "\<exists>b. read_byte (utf8_encode c @ bs) 0 = Some b \<and> b \<noteq> 0" by (simp add: read_byte_def)
qed

definition grows :: "wheap \<Rightarrow> wheap \<Rightarrow> nat list \<Rightarrow> bool" where
  "grows h h' ps \<longleftrightarrow> (\<forall>x. x \<notin> set ps \<longrightarrow> h x = None \<longrightarrow> h' x = None)"

lemma addword_loop_spec:
  assumes "trie_ok h r P W" "P w = Some a" "\<forall>c\<in>set cs. codepoint c" "length ps = length cs" "distinct ps"
    "\<forall>p\<in>set ps. p \<noteq> 0 \<and> h p = None"
  shows "\<exists>h' P' b. addword_loop h ps a child (enc cs @ 0 # junk) = Some (h', b) \<and> trie_ok h' r P' W \<and> grows h h' ps \<and>
    (if cs = [] then b = child else b \<noteq> 0 \<and> P' (w @ cs) = Some b)"
  using assms
proof (induction cs arbitrary: h P w a child ps)
  case Nil
  then show ?case by (subst addword_loop.simps) (auto simp: read_byte_def grows_def)
next
  case (Cons c cs)
  obtain p ps' where ps: "ps = p # ps'" using Cons.prems(4) by (cases ps) auto
  have c: "codepoint c" using Cons.prems(3) by simp
  obtain b0 where b0: "read_byte (utf8_encode c @ enc cs @ 0 # junk) 0 = Some b0" "b0 \<noteq> 0"
    using codepoint_decode(3) [OF c] by blast
  have "p \<noteq> 0" "h p = None" using Cons.prems(6) ps by simp_all
  from insert_child_spec [OF Cons.prems(1,2) this c] obtain h1 b P1
    where 1: "cowf_insert_child h p a c = Some (h1, b)" "P1 (w @ [c]) = Some b" "b \<noteq> 0" "trie_ok h1 r P1 W"
      "\<forall>x. x \<noteq> p \<longrightarrow> h x = None \<longrightarrow> h1 x = None" by (elim exE conjE) (rule that)
  have "\<forall>q\<in>set ps'. q \<noteq> 0 \<and> h1 q = None" using 1(5) Cons.prems(5,6) ps by auto
  then obtain h' P' b' where 2: "addword_loop h1 ps' b b (enc cs @ 0 # junk) = Some (h', b')" "trie_ok h' r P' W" "grows h1 h' ps'"
    "if cs = [] then b' = b else b' \<noteq> 0 \<and> P' ((w @ [c]) @ cs) = Some b'"
    using Cons.IH [OF 1(4,2), of ps' b] Cons.prems(3-5) ps by auto
  have "addword_loop h ps a child (enc (c # cs) @ 0 # junk) = Some (h', b')"
    using b0 codepoint_decode(1) [OF c, of "enc cs @ 0 # junk"] codepoint_decode(2) [OF c] ps 1(1) 2(1) by (subst addword_loop.simps) simp
  moreover have "grows h h' ps" using 1(5) 2(3) ps by (simp add: grows_def)
  ultimately show ?case
  proof (cases "cs = []")
    case True
    then have "h' = h1" using 2(1) by (subst (asm) addword_loop.simps) (simp add: read_byte_def)
    then show ?thesis using \<open>addword_loop h ps a child (enc (c # cs) @ 0 # junk) = Some (h', b')\<close> \<open>grows h h' ps\<close> 1 2(4) True
      by auto
  qed (use 2 in auto)
qed

lemma set_isend_spec:
  assumes ok: "trie_ok h r P W" and w: "P w = Some a" "w \<noteq> []"
  shows "\<exists>h'. set_isend h a v = Some h' \<and> trie_ok h' r P (if v then insert w W else W - {w}) \<and> grows h h' []"
proof -
  let ?W = "if v then insert w W else W - {w}"
  obtain n where n: "h a = Some n" "node_at h P W w a" using ok w(1) by (fastforce simp: trie_ok_def node_at_def)
  let ?h = "h(a \<mapsto> n\<lparr>wn_isend := v\<rparr>)"
  have p: "paths_ok r P W" using ok by (simp add: trie_ok_def)
  have "trie_ok ?h r P ?W"
    unfolding trie_ok_def
  proof (intro conjI allI impI)
    show "paths_ok r P ?W" using p w by (auto simp: paths_ok_def)
    fix u b
    assume u: "P u = Some b"
    show "node_at ?h P ?W u b"
    proof (cases "u = w")
      case True
      then show ?thesis using n u w(1) by (auto simp: node_at_def chs_def)
    next
      case False
      then have "b \<noteq> a" using u w(1) p inj_onD [of P "dom P" u w] by (auto simp: paths_ok_def)
      moreover have "node_at h P W u b" using ok u by (simp add: trie_ok_def)
      ultimately show ?thesis using False by (auto simp: node_at_def)
    qed
  qed
  then show ?thesis using n(1) by (auto simp: set_isend_def grows_def)
qed

lemma path_prefix: "paths_ok r P W \<Longrightarrow> P (w @ v) \<noteq> None \<Longrightarrow> P w \<noteq> None"
proof (induction v rule: rev_induct)
  case (snoc c v)
  then have "P (w @ v) \<noteq> None" unfolding paths_ok_def by (metis append_assoc)
  then show ?case using snoc by simp
qed simp

lemma lastchild_loop_spec:
  assumes "trie_ok h r P W" "P w = Some a" "\<forall>c\<in>set cs. codepoint c"
  shows "\<exists>h'. lastchild_loop h a child (enc cs @ 0 # junk) =
      Some (h', if cs = [] then child else case P (w @ cs) of None \<Rightarrow> 0 | Some b \<Rightarrow> b) \<and> trie_ok h' r P W \<and> grows h h' []"
  using assms
proof (induction cs arbitrary: h w a child)
  case Nil
  then show ?case by (subst lastchild_loop.simps) (auto simp: read_byte_def grows_def)
next
  case (Cons c cs)
  have c: "codepoint c" using Cons.prems(3) by simp
  have p: "paths_ok r P W" using Cons.prems(1) by (simp add: trie_ok_def)
  obtain b0 where b0: "read_byte (utf8_encode c @ enc cs @ 0 # junk) 0 = Some b0" "b0 \<noteq> 0"
    using codepoint_decode(3) [OF c] by blast
  obtain h1 i n where f: "cowf_find_child h a c = Some (h1, case P (w @ [c]) of None \<Rightarrow> 0 | Some b \<Rightarrow> b, i)" "trie_ok h1 r P W"
    "\<forall>x. x \<noteq> a \<longrightarrow> h1 x = h x" using find_child_spec [OF Cons.prems(1,2), of c] by blast
  have "h a \<noteq> None" using Cons.prems(1,2) by (fastforce simp: trie_ok_def node_at_def)
  then have g: "grows h h1 []" using f(3) unfolding grows_def by metis
  show ?case
  proof (cases "P (w @ [c])")
    case None
    then have "P (w @ c # cs) = None" using path_prefix [OF p, of "w @ [c]" cs] by (cases "P (w @ c # cs)") auto
    moreover have "lastchild_loop h a child (enc (c # cs) @ 0 # junk) = Some (h1, 0)"
      using b0 codepoint_decode(1) [OF c, of "enc cs @ 0 # junk"] codepoint_decode(2) [OF c] f(1) None by (subst lastchild_loop.simps) simp
    ultimately show ?thesis using f(2) g by simp
  next
    case (Some b)
    then have b: "b \<noteq> 0" using f(2) by (auto simp: trie_ok_def node_at_def)
    have "lastchild_loop h a child (enc (c # cs) @ 0 # junk) = lastchild_loop h1 b b (enc cs @ 0 # junk)"
      using b0 codepoint_decode(1) [OF c, of "enc cs @ 0 # junk"] codepoint_decode(2) [OF c] f(1) Some b by (subst lastchild_loop.simps) simp
    then show ?thesis using Cons.IH [OF f(2) Some, of b] Cons.prems(3) g Some by (auto simp: grows_def)
  qed
qed


section \<open>Matching\<close>

text \<open>The number of codes of the first word below \<open>w\<close> that the text starts with.\<close>

fun first_word :: "int list set \<Rightarrow> int list \<Rightarrow> int list \<Rightarrow> nat option" where
  "first_word W w [] = None"
| "first_word W w (c # cs) = (if w @ [c] \<in> W then Some 1 else map_option Suc (first_word W (w @ [c]) cs))"

lemma first_word_Some: "first_word W w cs = Some n \<Longrightarrow> 0 < n \<and> n \<le> length cs \<and> w @ take n cs \<in> W"
  by (induction W w cs arbitrary: n rule: first_word.induct) (auto split: if_splits)

lemma first_word_None: "first_word W w cs = None \<longleftrightarrow> (\<forall>v. prefix v cs \<longrightarrow> v \<noteq> [] \<longrightarrow> w @ v \<notin> W)"
proof (induction W w cs rule: first_word.induct)
  case (2 W w c cs)
  show ?case
  proof
    assume "first_word W w (c # cs) = None"
    then show "\<forall>v. prefix v (c # cs) \<longrightarrow> v \<noteq> [] \<longrightarrow> w @ v \<notin> W"
      using 2 by (auto simp: prefix_Cons split: if_splits)
  next
    assume r: "\<forall>v. prefix v (c # cs) \<longrightarrow> v \<noteq> [] \<longrightarrow> w @ v \<notin> W"
    then have "w @ [c] \<notin> W" by simp
    moreover have "(w @ [c]) @ v \<notin> W" if "prefix v cs" for v using r [rule_format, of "c # v"] that by simp
    ultimately show "first_word W w (c # cs) = None" using 2 by simp
  qed
qed simp

lemma first_word_prefix: "[] \<notin> W \<Longrightarrow> first_word W [] cs \<noteq> None \<longleftrightarrow> (\<exists>w\<in>W. prefix w cs)"
  using first_word_None [of W "[]" cs] by fastforce

lemma check_word_loop_spec:
  assumes "trie_ok h r P W" "P w = Some a" "\<forall>c\<in>set cs. codepoint c"
  shows "\<exists>h'. check_word_loop h a len (enc cs @ 0 # junk) =
      Some (h', map_option (\<lambda>n. len + length (enc (take n cs))) (first_word W w cs)) \<and> trie_ok h' r P W \<and> grows h h' []"
  using assms
proof (induction cs arbitrary: h w a len)
  case Nil
  then show ?case by (subst check_word_loop.simps) (auto simp: read_byte_def grows_def)
next
  case (Cons c cs)
  have c: "codepoint c" using Cons.prems(3) by simp
  have p: "paths_ok r P W" using Cons.prems(1) by (simp add: trie_ok_def)
  obtain b0 where b0: "read_byte (utf8_encode c @ enc cs @ 0 # junk) 0 = Some b0" "b0 \<noteq> 0"
    using codepoint_decode(3) [OF c] by blast
  note dec = codepoint_decode(1) [OF c, of "enc cs @ 0 # junk"] codepoint_decode(2) [OF c]
  obtain h1 i n where f: "cowf_find_child h a c = Some (h1, case P (w @ [c]) of None \<Rightarrow> 0 | Some b \<Rightarrow> b, i)" "trie_ok h1 r P W"
    "\<forall>x. x \<noteq> a \<longrightarrow> h1 x = h x" using find_child_spec [OF Cons.prems(1,2), of c] by blast
  have "h a \<noteq> None" using Cons.prems(1,2) by (fastforce simp: trie_ok_def node_at_def)
  then have g: "grows h h1 []" using f(3) unfolding grows_def by metis
  show ?case
  proof (cases "P (w @ [c])")
    case None
    have "first_word W w (c # cs) = None"
    proof (rule ccontr)
      assume "first_word W w (c # cs) \<noteq> None"
      then obtain n where "first_word W w (c # cs) = Some n" by blast
      from first_word_Some [OF this] obtain m where "w @ c # take m cs \<in> W" by (cases n) auto
      then have "P ((w @ [c]) @ take m cs) \<noteq> None" using p by (auto simp: paths_ok_def)
      then show False using path_prefix [OF p] None by blast
    qed
    moreover have "check_word_loop h a len (enc (c # cs) @ 0 # junk) = Some (h1, None)"
      using b0 dec f(1) None by (subst check_word_loop.simps) simp
    ultimately show ?thesis using f(2) g by (simp del: first_word.simps)
  next
    case (Some b)
    then have "node_at h1 P W (w @ [c]) b" using f(2) by (simp add: trie_ok_def)
    then obtain m where b: "b \<noteq> 0" "h1 b = Some m" "wn_isend m = (w @ [c] \<in> W)" by (auto simp: node_at_def)
    have s: "check_word_loop h a len (enc (c # cs) @ 0 # junk) =
      (if w @ [c] \<in> W then Some (h1, Some (len + length (utf8_encode c)))
       else check_word_loop h1 b (len + length (utf8_encode c)) (enc cs @ 0 # junk))"
      using b0 dec f(1) Some b by (subst check_word_loop.simps) simp
    show ?thesis
    proof (cases "w @ [c] \<in> W")
      case True
      then show ?thesis using s f(2) g by simp
    next
      case False
      obtain h' where "check_word_loop h1 b (len + length (utf8_encode c)) (enc cs @ 0 # junk) =
        Some (h', map_option (\<lambda>n. len + length (utf8_encode c) + length (enc (take n cs))) (first_word W (w @ [c]) cs))"
        "trie_ok h' r P W" "grows h1 h' []"
        using Cons.IH [OF f(2) Some] Cons.prems(3) by auto
      then show ?thesis using s False g by (auto simp: grows_def option.map_comp comp_def add.assoc)
    qed
  qed
qed

lemma sublist_step: "(\<exists>w\<in>W. sublist w (c # cs)) \<longleftrightarrow> (\<exists>w\<in>W. prefix w (c # cs)) \<or> (\<exists>w\<in>W. sublist w cs)"
  by (auto simp: sublist_Cons_right)

lemma check_word_spec:
  assumes "trie_ok h r P W" "\<forall>c\<in>set cs. codepoint c"
  shows "\<exists>h'. cowf_check_word h r (enc cs @ 0 # junk) = Some (h', map_option (\<lambda>n. length (enc (take n cs))) (first_word W [] cs)) \<and>
    trie_ok h' r P W \<and> grows h h' []"
  using check_word_loop_spec [OF assms(1), of "[]" r cs 0 junk] assms by (simp add: cowf_check_word_def trie_ok_def paths_ok_def)

lemma check_loop_spec:
  assumes "trie_ok h r P W" "\<forall>c\<in>set cs. codepoint c"
  shows "\<exists>h'. check_loop h r (enc cs @ 0 # junk) = Some (h', \<exists>w\<in>W. sublist w cs) \<and> trie_ok h' r P W \<and> grows h h' []"
  using assms
proof (induction cs arbitrary: h)
  case Nil
  have "[] \<notin> W" using Nil(1) by (simp add: trie_ok_def paths_ok_def)
  then have "\<not> (\<exists>w\<in>W. sublist w [])" by auto
  then show ?case using Nil by (subst check_loop.simps) (auto simp: read_byte_def grows_def)
next
  case (Cons c cs)
  have c: "codepoint c" using Cons.prems(2) by simp
  have W: "[] \<notin> W" using Cons.prems(1) by (simp add: trie_ok_def paths_ok_def)
  obtain b0 where b0: "read_byte (utf8_encode c @ enc cs @ 0 # junk) 0 = Some b0" "b0 \<noteq> 0"
    using codepoint_decode(3) [OF c] by blast
  obtain h1 where f: "cowf_check_word h r (enc (c # cs) @ 0 # junk) =
      Some (h1, map_option (\<lambda>n. length (enc (take n (c # cs)))) (first_word W [] (c # cs)))" "trie_ok h1 r P W" "grows h h1 []"
    using check_word_spec [OF Cons.prems] by blast
  have s: "check_loop h r (enc (c # cs) @ 0 # junk) =
    (if first_word W [] (c # cs) \<noteq> None then Some (h1, True) else check_loop h1 r (enc cs @ 0 # junk))"
    using b0 f(1) codepoint_decode(1) [OF c, of "enc cs @ 0 # junk"] by (subst check_loop.simps) (simp del: first_word.simps)
  show ?case
  proof (cases "first_word W [] (c # cs) = None")
    case True
    then have "\<not> (\<exists>w\<in>W. prefix w (c # cs))" using first_word_prefix [OF W, of "c # cs"] by blast
    then show ?thesis using Cons.IH [OF f(2)] Cons.prems(2) s True f(3) by (auto simp: sublist_step grows_def)
  next
    case False
    then have "\<exists>w\<in>W. prefix w (c # cs)" using first_word_prefix [OF W, of "c # cs"] by blast
    then show ?thesis using s False f(2,3) by (auto simp: sublist_step)
  qed
qed

text \<open>The reference of the filter: the codes of a word become as many bytes \<open>ch\<close> as encode them.\<close>

function mask :: "int list set \<Rightarrow> byte \<Rightarrow> int list \<Rightarrow> byte list" where
  "mask W ch [] = []"
| "mask W ch (c # cs) =
     (case first_word W [] (c # cs) of
        None \<Rightarrow> utf8_encode c @ mask W ch cs
      | Some n \<Rightarrow> replicate (length (enc (take n (c # cs)))) ch @ mask W ch (drop (n - 1) cs))"
  by pat_completeness auto
termination by (relation "measure (\<lambda>(W, ch, cs). length cs)") auto

lemma drop_enc: "drop (length (enc (take n cs))) (enc cs @ bs) = enc (drop n cs) @ bs"
proof -
  have "enc cs = enc (take n cs) @ enc (drop n cs)" by (simp add: enc_def flip: concat_append map_append)
  then show ?thesis by simp
qed

lemma filter_loop_spec:
  assumes "trie_ok h r P W" "\<forall>c\<in>set cs. codepoint c"
  shows "\<exists>h'. filter_loop h r ch b pre (enc cs @ 0 # junk) = Some (h', b \<or> (\<exists>w\<in>W. sublist w cs), pre @ mask W ch cs @ 0 # junk) \<and>
    trie_ok h' r P W \<and> grows h h' []"
  using assms
proof (induction cs arbitrary: h b pre rule: length_induct)
  case (1 cs)
  have W: "[] \<notin> W" using 1(2) by (simp add: trie_ok_def paths_ok_def)
  show ?case
  proof (cases cs)
    case Nil
    have "\<not> (\<exists>w\<in>W. sublist w [])" using W by auto
    then show ?thesis using 1(2) Nil by (subst filter_loop.simps) (auto simp: read_byte_def grows_def)
  next
    case (Cons c cs')
    have c: "codepoint c" using 1(3) Cons by simp
    obtain b0 where b0: "read_byte (utf8_encode c @ enc cs' @ 0 # junk) 0 = Some b0" "b0 \<noteq> 0"
      using codepoint_decode(3) [OF c] by blast
    obtain h1 where f: "cowf_check_word h r (enc cs @ 0 # junk) =
        Some (h1, map_option (\<lambda>n. length (enc (take n cs))) (first_word W [] cs))" "trie_ok h1 r P W" "grows h h1 []"
      using check_word_spec [OF 1(2,3)] by blast
    show ?thesis
    proof (cases "first_word W [] cs")
      case None
      then have n: "\<not> (\<exists>w\<in>W. prefix w (c # cs'))" using first_word_prefix [OF W, of cs] Cons by blast
      have "filter_loop h r ch b pre (enc cs @ 0 # junk) = filter_loop h1 r ch b (pre @ utf8_encode c) (enc cs' @ 0 # junk)"
        using b0 f(1) codepoint_decode(1) [OF c, of "enc cs' @ 0 # junk"] None Cons by (subst filter_loop.simps) (simp del: first_word.simps)
      then show ?thesis using 1(1) [rule_format, of cs' h1 b "pre @ utf8_encode c"] 1(3) None n f(2,3) Cons
        by (auto simp: sublist_step grows_def simp del: first_word.simps)
    next
      case (Some n)
      then have n: "\<exists>w\<in>W. prefix w (c # cs')" using first_word_prefix [OF W, of cs] Cons by blast
      have n0: "0 < n" using first_word_Some [OF Some] by simp
      have d: "drop n cs = drop (n - 1) cs'" using n0 Cons by (cases n) simp_all
      let ?k = "length (enc (take n cs))"
      have "filter_loop h r ch b pre (enc cs @ 0 # junk) = filter_loop h1 r ch True (pre @ replicate ?k ch) (enc (drop n cs) @ 0 # junk)"
        using b0 f(1) Some drop_enc [of n cs "0 # junk"] Cons by (subst filter_loop.simps) (simp del: first_word.simps take_Suc_Cons)
      moreover have "\<forall>c\<in>set (drop n cs). codepoint c" using 1(3) by (auto dest: in_set_dropD)
      moreover have "length (drop n cs) < length cs" using n0 Cons by simp
      ultimately show ?thesis using 1(1) [rule_format, of "drop n cs" h1 True "pre @ replicate ?k ch"] Some n f(2,3) Cons d
        by (auto simp: sublist_step grows_def simp del: first_word.simps)
    qed
  qed
qed


section \<open>Freeing\<close>

definition below :: "(int list \<Rightarrow> nat option) \<Rightarrow> int list list \<Rightarrow> int list set" where
  "below P ws = {v. P v \<noteq> None \<and> (\<exists>w\<in>set ws. prefix w v)}"

definition kids_at :: "wheap \<Rightarrow> (int list \<Rightarrow> nat option) \<Rightarrow> int list \<Rightarrow> bool" where
  "kids_at h P v \<longleftrightarrow> (\<exists>n. h (the (P v)) = Some n \<and> chs n = map (\<lambda>c. the (P (v @ [c]))) (kids P v))"

definition apart :: "int list list \<Rightarrow> bool" where
  "apart ws \<longleftrightarrow> sorted_wrt (\<lambda>v w. \<not> prefix v w \<and> \<not> prefix w v) ws"

lemma below_kids:
  assumes p: "paths_ok r P W"
  shows "below P (map (\<lambda>c. w @ [c]) (kids P w)) = below P [w] - {w}"
proof -
  have "v \<in> below P (map (\<lambda>c. w @ [c]) (kids P w))" if v: "v \<in> below P [w]" "v \<noteq> w" for v
  proof -
    obtain u where u: "v = w @ u" "u \<noteq> []" using v by (auto simp: below_def prefix_def)
    then obtain c u' where c: "v = (w @ [c]) @ u'" by (cases u) auto
    have "P ((w @ [c]) @ u') \<noteq> None" using v(1) c by (simp add: below_def)
    then have "P (w @ [c]) \<noteq> None" by (rule path_prefix [OF p])
    then have "c \<in> set (kids P w)" by (simp add: set_kids [OF p])
    then show ?thesis using v(1) c by (auto simp: below_def)
  qed
  then show ?thesis by (auto simp: below_def dest: append_prefixD)
qed

lemma apart_kids: "apart (map (\<lambda>c. w @ [c]) (kids P w))"
proof -
  have "sorted_wrt (\<lambda>c d. \<not> prefix (w @ [c]) (w @ [d]) \<and> \<not> prefix (w @ [d]) (w @ [c])) (kids P w)"
    by (rule sorted_wrt_mono_rel [OF _ sorted_kids]) auto
  then show ?thesis by (simp add: apart_def sorted_wrt_map)
qed

lemma free_wf_nodes_spec:
  assumes "paths_ok r P W" "apart ws" "\<forall>w\<in>set ws. P w \<noteq> None" "\<forall>v\<in>below P ws. kids_at h P v"
  shows "free_wf_nodes h (map (\<lambda>w. the (P w)) ws) = Some (\<lambda>x. if x \<in> (\<lambda>v. the (P v)) ` below P ws then None else h x)"
  using assms(2-)
proof (induction "card (below P ws)" arbitrary: ws h rule: less_induct)
  case less
  have inj: "u = v" if "P u = Some x" "P v = Some x" for u v x
    using assms(1) that inj_onD [of P "dom P" u v] by (auto simp: paths_ok_def)
  have fin: "finite (below P vs)" for vs
    by (rule finite_subset [of _ "dom P"]) (use assms(1) in \<open>auto simp: below_def paths_ok_def\<close>)
  show ?case
  proof (cases ws)
    case Nil
    then show ?thesis by (subst free_wf_nodes.simps) (simp add: below_def)
  next
    case (Cons w ws')
    let ?a = "the (P w)" and ?ks = "map (\<lambda>c. w @ [c]) (kids P w)" and ?A = "\<lambda>vs. (\<lambda>v. the (P v)) ` below P vs"
    have w: "w \<in> below P [w]" "P w = Some ?a" using less.prems(2) Cons by (auto simp: below_def)
    have b: "below P ws = below P [w] \<union> below P ws'" using Cons by (auto simp: below_def)
    have bk: "below P ?ks = below P [w] - {w}" by (rule below_kids [OF assms(1)])
    obtain n where n: "h ?a = Some n" "chs n = map (\<lambda>v. the (P v)) ?ks"
      using less.prems(3) w(1) b by (auto simp: kids_at_def comp_def)
    have "below P ?ks \<subset> below P ws" using bk b w(1) by auto
    then have "card (below P ?ks) < card (below P ws)" by (rule psubset_card_mono [OF fin])
    moreover have "\<forall>v\<in>set ?ks. P v \<noteq> None" using set_kids [OF assms(1), of _ w] by auto
    moreover have "\<forall>v\<in>below P ?ks. kids_at h P v" using less.prems(3) bk b by blast
    ultimately have 1: "free_wf_nodes h (chs n) = Some (\<lambda>x. if x \<in> ?A ?ks then None else h x)"
      using less.hyps [of ?ks h] apart_kids [of w P] n(2) by simp
    let ?h = "(\<lambda>x. if x \<in> ?A ?ks then None else h x)(?a := None)"
    have h: "?h = (\<lambda>x. if x \<in> ?A [w] then None else h x)" using bk w(1) by (auto simp: fun_eq_iff)
    have dis: "below P [w] \<inter> below P ws' = {}"
    proof -
      have "\<not> prefix u v \<and> \<not> prefix v u" if "u \<in> {w}" "v \<in> set ws'" for u v using less.prems(1) Cons that by (auto simp: apart_def)
      then have "\<not> (prefix w v \<and> prefix u v)" if "u \<in> set ws'" for u v using that prefix_same_cases by blast
      then show ?thesis by (auto simp: below_def)
    qed
    have "\<not> w \<in> below P ws'" using dis w(1) by blast
    then have "below P ws' \<subset> below P ws" using b w(1) by blast
    then have "card (below P ws') < card (below P ws)" by (rule psubset_card_mono [OF fin])
    moreover have "kids_at ?h P v" if v: "v \<in> below P ws'" for v
    proof -
      have "the (P v) \<notin> ?A [w]"
      proof
        assume "the (P v) \<in> ?A [w]"
        then obtain u where u: "u \<in> below P [w]" "the (P v) = the (P u)" by blast
        have "P u = Some (the (P u))" "P v = Some (the (P u))" using u v by (auto simp: below_def)
        then have "u = v" by (rule inj)
        then show False using u(1) v dis by blast
      qed
      moreover have "kids_at h P v" using less.prems(3) v b by blast
      ultimately show ?thesis unfolding h by (simp add: kids_at_def)
    qed
    ultimately have "free_wf_nodes ?h (map (\<lambda>w. the (P w)) ws') = Some (\<lambda>x. if x \<in> ?A ws' then None else ?h x)"
      using less.hyps [of ws' ?h] less.prems(1,2) Cons by (simp add: apart_def)
    moreover have "(case wn_chvec n of None \<Rightarrow> Some h | Some cs \<Rightarrow> free_wf_nodes h cs) = free_wf_nodes h (chs n)"
      by (cases "wn_chvec n") (simp_all add: chs_def free_wf_nodes.simps [of h "[]"])
    ultimately have "free_wf_nodes h (map (\<lambda>w. the (P w)) ws) = Some (\<lambda>x. if x \<in> ?A ws' then None else ?h x)"
      using n(1) 1 Cons by (subst free_wf_nodes.simps) simp
    also have "(\<lambda>x. if x \<in> ?A ws' then None else ?h x) = (\<lambda>x. if x \<in> ?A ws then None else h x)"
      unfolding h b by (auto simp: fun_eq_iff)
    finally show ?thesis .
  qed
qed

section \<open>The filter\<close>

text \<open>A filter of the words \<open>W\<close>, made of the nodes \<open>A\<close>.\<close>

definition cowf_ok :: "cowf \<Rightarrow> wheap \<Rightarrow> int list set \<Rightarrow> nat set \<Rightarrow> bool" where
  "cowf_ok w h W A \<longleftrightarrow> wf_root w = 0 \<and> W = {} \<and> A = {} \<or> (\<exists>P. trie_ok h (wf_root w) P W \<and> A = ran P)"

lemma trie_root: "trie_ok h r P W \<Longrightarrow> P [] = Some r \<and> r \<noteq> 0"
  by (auto simp: trie_ok_def paths_ok_def node_at_def)

lemma new_root:
  assumes "h r = None" "r \<noteq> 0"
  shows "trie_ok (h(r \<mapsto> \<lparr>wn_chvec = None, wn_code = 0, wn_isend = False\<rparr>)) r [[] \<mapsto> r] {}"
  using assms by (auto simp: trie_ok_def paths_ok_def node_at_def kids_def chs_def)

lemma cowf_addword_spec:
  assumes ok: "cowf_ok w h W A" and cs: "cs \<noteq> []" "\<forall>c\<in>set cs. codepoint c" and ps: "length ps = length cs" "distinct (r # ps)"
    "\<forall>p\<in>set (r # ps). p \<noteq> 0 \<and> h p = None"
  shows "\<exists>w' h' A'. cowf_addword w h r ps (enc cs @ 0 # junk) = Some (w', h') \<and> cowf_ok w' h' (insert cs W) A' \<and> grows h h' (r # ps)"
proof -
  obtain w1 h1 P where 1: "(if wf_root w = 0 then do { h \<leftarrow> new_wf_node h r; Some (w\<lparr>wf_root := r\<rparr>, h) } else Some (w, h)) = Some (w1, h1)"
    "trie_ok h1 (wf_root w1) P W" "grows h h1 [r]"
  proof (cases "wf_root w = 0")
    case True
    then have "W = {}" using ok trie_root [of h 0] by (auto simp: cowf_ok_def)
    then show ?thesis using that [of "w\<lparr>wf_root := r\<rparr>"] new_root [of h r] ps(3) True
      by (auto simp: new_wf_node_def cassert_def grows_def)
  next
    case False
    then show ?thesis using that [of w h] ok by (auto simp: cowf_ok_def grows_def)
  qed
  have "\<forall>p\<in>set ps. p \<noteq> 0 \<and> h1 p = None" using 1(3) ps(2,3) by (auto simp: grows_def)
  then obtain h2 P2 b where 2: "addword_loop h1 ps (wf_root w1) 0 (enc cs @ 0 # junk) = Some (h2, b)" "trie_ok h2 (wf_root w1) P2 W"
    "grows h1 h2 ps" "b \<noteq> 0" "P2 cs = Some b"
    using addword_loop_spec [OF 1(2), of "[]" "wf_root w1" cs ps 0 junk] trie_root [OF 1(2)] cs ps(1,2) by auto
  obtain h3 where 3: "set_isend h2 b True = Some h3" "trie_ok h3 (wf_root w1) P2 (insert cs W)" "grows h2 h3 []"
    using set_isend_spec [OF 2(2,5) cs(1), of True] by auto
  have "cowf_addword w h r ps (enc cs @ 0 # junk) = Some (w1, h3)" using 1(1) 2(1,4) 3(1) by (simp add: cowf_addword_def)
  moreover have "grows h h3 (r # ps)" using 1(3) 2(3) 3(3) by (simp add: grows_def)
  ultimately show ?thesis using 3(2) by (auto simp: cowf_ok_def)
qed

lemma lastchild_spec:
  assumes "trie_ok h r P W" "\<forall>c\<in>set cs. codepoint c"
  shows "\<exists>h'. cowf_get_lastchild h r (enc cs @ 0 # junk) =
      Some (h', if cs = [] then 0 else case P cs of None \<Rightarrow> 0 | Some b \<Rightarrow> b) \<and> trie_ok h' r P W \<and> grows h h' []"
  using lastchild_loop_spec [OF assms(1), of "[]" r cs 0 junk] trie_root [OF assms(1)] assms(2)
  by (cases "cs = []") (simp_all add: cowf_get_lastchild_def)

lemma cowf_exist_spec:
  assumes ok: "cowf_ok w h W A" and cs: "\<forall>c\<in>set cs. codepoint c"
  shows "\<exists>h'. cowf_exist w h (enc cs @ 0 # junk) = Some (h', cs \<in> W) \<and> cowf_ok w h' W A \<and> grows h h' []"
proof (cases "wf_root w = 0")
  case True
  then show ?thesis using ok trie_root [of h 0] by (auto simp: cowf_ok_def cowf_exist_def grows_def)
next
  case False
  then obtain P where P: "trie_ok h (wf_root w) P W" "A = ran P" using ok by (auto simp: cowf_ok_def)
  obtain h' where h': "cowf_get_lastchild h (wf_root w) (enc cs @ 0 # junk) =
      Some (h', if cs = [] then 0 else case P cs of None \<Rightarrow> 0 | Some b \<Rightarrow> b)" "trie_ok h' (wf_root w) P W" "grows h h' []"
    using lastchild_spec [OF P(1) cs] by blast
  have W: "W \<subseteq> dom P" "[] \<notin> W" using P(1) by (auto simp: trie_ok_def paths_ok_def)
  have "cowf_exist w h (enc cs @ 0 # junk) = Some (h', cs \<in> W)"
  proof (cases "cs = [] \<or> P cs = None")
    case True
    then show ?thesis using False h'(1) W by (auto simp: cowf_exist_def)
  next
    case n: False
    then obtain b where b: "P cs = Some b" by auto
    then have "node_at h' P W cs b" using h'(2) by (simp add: trie_ok_def)
    then show ?thesis using False h'(1) b n by (auto simp: cowf_exist_def node_at_def)
  qed
  then show ?thesis using h' P(2) by (auto simp: cowf_ok_def)
qed

lemma cowf_delword_spec:
  assumes ok: "cowf_ok w h W A" and cs: "\<forall>c\<in>set cs. codepoint c"
  shows "\<exists>h'. cowf_delword w h (enc cs @ 0 # junk) = Some h' \<and> cowf_ok w h' (W - {cs}) A \<and> grows h h' []"
proof (cases "wf_root w = 0")
  case True
  then show ?thesis using ok trie_root [of h 0] by (auto simp: cowf_ok_def cowf_delword_def grows_def)
next
  case False
  then obtain P where P: "trie_ok h (wf_root w) P W" "A = ran P" using ok by (auto simp: cowf_ok_def)
  obtain h1 where h1: "cowf_get_lastchild h (wf_root w) (enc cs @ 0 # junk) =
      Some (h1, if cs = [] then 0 else case P cs of None \<Rightarrow> 0 | Some b \<Rightarrow> b)" "trie_ok h1 (wf_root w) P W" "grows h h1 []"
    using lastchild_spec [OF P(1) cs] by blast
  have W: "W \<subseteq> dom P" "[] \<notin> W" using P(1) by (auto simp: trie_ok_def paths_ok_def)
  show ?thesis
  proof (cases "cs = [] \<or> P cs = None")
    case True
    then have "W - {cs} = W" using W by auto
    then show ?thesis using False h1 P(2) True by (auto simp: cowf_delword_def cowf_ok_def)
  next
    case n: False
    then obtain b where b: "P cs = Some b" by auto
    then have "b \<noteq> 0" using h1(2) by (auto simp: trie_ok_def node_at_def)
    moreover obtain h' where "set_isend h1 b False = Some h'" "trie_ok h' (wf_root w) P (W - {cs})" "grows h1 h' []"
      using set_isend_spec [OF h1(2) b, of False] n by auto
    ultimately show ?thesis using False h1 b n P(2) by (auto simp: cowf_delword_def cowf_ok_def grows_def)
  qed
qed

lemma cowf_clear_spec:
  assumes "cowf_ok w h W A"
  shows "cowf_clear w h = Some (\<lparr>wf_root = 0\<rparr>, \<lambda>x. if x \<in> A then None else h x)"
proof (cases "wf_root w = 0")
  case True
  then have "A = {}" using assms trie_root [of h 0] by (auto simp: cowf_ok_def)
  then show ?thesis using True by (cases w) (simp add: cowf_clear_def)
next
  case False
  then obtain P where P: "trie_ok h (wf_root w) P W" "A = ran P" using assms by (auto simp: cowf_ok_def)
  have p: "paths_ok (wf_root w) P W" using P(1) by (simp add: trie_ok_def)
  have b: "below P [[]] = dom P" by (auto simp: below_def)
  have "kids_at h P v" if "v \<in> dom P" for v
    using P(1) that by (fastforce simp: trie_ok_def node_at_def kids_at_def)
  moreover have "(\<lambda>v. the (P v)) ` dom P = ran P" by (force simp: ran_def image_iff)
  ultimately have "free_wf_nodes h [wf_root w] = Some (\<lambda>x. if x \<in> ran P then None else h x)"
    using free_wf_nodes_spec [OF p, of "[[]]" h] trie_root [OF P(1)] by (simp add: apart_def b)
  then show ?thesis using False P(2) by (cases w) (simp add: cowf_clear_def)
qed


lemma mask_none: "mask {} ch cs = enc cs"
proof (induction cs)
  case (Cons c cs)
  have "first_word {} [] (c # cs) = None" using first_word_None [of "{}" "[]"] by blast
  then show ?case using Cons by (simp del: first_word.simps)
qed simp

text \<open>C31: the filter refines a set of words: adding a word of code points adds it to the set, deleting
  it removes it, and \<open>cowf_exist\<close> tells whether it is in the set.\<close>

theorem cowf_words_correct:
  assumes "cowf_ok w h W A" "cs \<noteq> []" "\<forall>c\<in>set cs. codepoint c" "length ps = length cs" "distinct (r # ps)"
    "\<forall>p\<in>set (r # ps). p \<noteq> 0 \<and> h p = None"
  shows "(\<exists>w' h' A'. cowf_addword w h r ps (enc cs @ 0 # junk) = Some (w', h') \<and> cowf_ok w' h' (insert cs W) A') \<and>
    (\<exists>h'. cowf_delword w h (enc cs @ 0 # junk) = Some h' \<and> cowf_ok w h' (W - {cs}) A) \<and>
    (\<exists>h'. cowf_exist w h (enc cs @ 0 # junk) = Some (h', cs \<in> W) \<and> cowf_ok w h' W A)"
  using cowf_addword_spec [OF assms, of junk] cowf_delword_spec [OF assms(1,3), of junk] cowf_exist_spec [OF assms(1,3), of junk]
  by blast

lemma cowf_new_ok: "cowf_ok cowf_new h {} {}"
  by (simp add: cowf_ok_def cowf_new_def)

lemma bc_filter:
  obtains w h A where "cowf_addword cowf_new Map.empty 1 [2, 3] (enc [0x62, 0x63] @ [0]) = Some (w, h)" "cowf_ok w h {[0x62, 0x63]} A"
  using cowf_addword_spec [OF cowf_new_ok, of "[0x62, 0x63]" "[2, 3]" 1 Map.empty "[]"] that by (auto simp: codepoint_def)

theorem cowf_words_correct_witness:
  "\<exists>w h A h'. cowf_ok w h {[0x62, 0x63]} A \<and> cowf_delword w h (enc [0x62, 0x63] @ [0]) = Some h' \<and> cowf_ok w h' {} A"
proof -
  obtain w h A where 1: "cowf_addword cowf_new Map.empty 1 [2, 3] (enc [0x62, 0x63] @ [0]) = Some (w, h)" "cowf_ok w h {[0x62, 0x63]} A"
    using bc_filter .
  have g: "grows Map.empty h [1, 2, 3]"
    using cowf_addword_spec [OF cowf_new_ok, of "[0x62, 0x63]" "[2, 3]" 1 Map.empty "[]"] 1(1) by (auto simp: codepoint_def)
  have "\<exists>h'. cowf_delword w h (enc [0x62, 0x63] @ 0 # []) = Some h' \<and> cowf_ok w h' ({[0x62, 0x63]} - {[0x62, 0x63]}) A"
    using cowf_words_correct [OF 1(2), of "[0x62, 0x63]" "[5, 6]" 4 "[]"] g by (auto simp: codepoint_def grows_def)
  then show ?thesis using 1(2) by auto
qed

text \<open>C32: \<open>cowf_fitler\<close> replaces, from left to right, the shortest word that starts at each place by as
  many bytes \<open>ch\<close> as it has and keeps the rest; it and \<open>cowf_check\<close> report whether some word occurs
  anywhere in the text.\<close>

theorem cowf_fitler_correct:
  assumes "cowf_ok w h W A" "\<forall>c\<in>set cs. codepoint c"
  shows "(\<exists>h'. cowf_fitler w h (enc cs @ 0 # junk) ch = Some (h', \<exists>v\<in>W. sublist v cs, mask W ch cs @ 0 # junk) \<and> cowf_ok w h' W A) \<and>
    (\<exists>h'. cowf_check w h (enc cs @ 0 # junk) = Some (h', \<exists>v\<in>W. sublist v cs) \<and> cowf_ok w h' W A)"
proof (cases "wf_root w = 0")
  case True
  then have "W = {}" using assms(1) trie_root [of h 0] by (auto simp: cowf_ok_def)
  then show ?thesis using True assms(1) by (simp add: cowf_fitler_def cowf_check_def mask_none)
next
  case False
  then obtain P where P: "trie_ok h (wf_root w) P W" "A = ran P" using assms(1) by (auto simp: cowf_ok_def)
  show ?thesis using filter_loop_spec [OF P(1) assms(2), of ch False "[]" junk] check_loop_spec [OF P(1) assms(2), of junk] False P(2)
    by (auto simp: cowf_fitler_def cowf_check_def cowf_ok_def)
qed

theorem cowf_fitler_correct_witness:
  "\<exists>w h h'. cowf_addword cowf_new Map.empty 1 [2, 3] [0x62, 0x63, 0] = Some (w, h) \<and>
     cowf_fitler w h [0x61, 0x62, 0x62, 0x63, 0x64, 0] 0x2A = Some (h', True, [0x61, 0x62, 0x2A, 0x2A, 0x64, 0])"
proof -
  obtain w h A where 1: "cowf_addword cowf_new Map.empty 1 [2, 3] (enc [0x62, 0x63] @ [0]) = Some (w, h)" "cowf_ok w h {[0x62, 0x63]} A"
    using bc_filter .
  have e: "enc [0x61, 0x62, 0x62, 0x63, 0x64] = [0x61, 0x62, 0x62, 0x63, 0x64]" "enc [0x62, 0x63] = [0x62, 0x63]"
    by (simp_all add: utf8_encode_def)
  have m: "mask {[0x62, 0x63]} 0x2A [0x61, 0x62, 0x62, 0x63, 0x64] = [0x61, 0x62, 0x2A, 0x2A, 0x64]"
    by (simp add: utf8_encode_def eval_nat_numeral)
  have "sublist [0x62, 0x63] [0x61, 0x62, 0x62, 0x63, 0x64 :: int]" by (simp add: sublist_Cons_right)
  then have "\<exists>h'. cowf_fitler w h (enc [0x61, 0x62, 0x62, 0x63, 0x64] @ 0 # []) 0x2A = Some (h', True, [0x61, 0x62, 0x2A, 0x2A, 0x64] @ 0 # [])"
    using cowf_fitler_correct [OF 1(2), of "[0x61, 0x62, 0x62, 0x63, 0x64]" "[]" "0x2A"] m by (auto simp: codepoint_def)
  then show ?thesis using 1(1) unfolding e by auto
qed

text \<open>Clearing a filter frees every one of its nodes and nothing else.\<close>

theorem cowf_clear_correct:
  assumes "cowf_ok w h W A"
  shows "cowf_clear w h = Some (cowf_new, \<lambda>x. if x \<in> A then None else h x) \<and> cowf_ok cowf_new (\<lambda>x. if x \<in> A then None else h x) {} {} \<and>
    cowf_free w h = Some (\<lambda>x. if x \<in> A then None else h x)"
  using cowf_clear_spec [OF assms] cowf_new_ok by (simp add: cowf_free_def cowf_new_def)

theorem cowf_clear_correct_witness:
  "\<exists>w h A. cowf_ok w h {[0x62, 0x63]} A \<and> cowf_free w h = Some (\<lambda>x. if x \<in> A then None else h x)"
  using bc_filter cowf_clear_correct by metis

end
