(* ===== verification/Dns.thy ===== *)
theory Dns
  imports CPrelude
begin

text \<open>
  The DNS messages of \<open>src/co_dnsutils.c\<close>: packing a query for the A record of a name and parsing a
  response.  A buffer is the list of the bytes that are allocated; reading or writing past it is undefined
  (\<open>None\<close>).  Positions are unbounded, since a message has at most 65535 bytes.  \<open>codns_get_server\<close>,
  which reads a file of the system, is not modelled.
\<close>

section \<open>Data\<close>

text \<open>A 16-bit number in network order.\<close>

definition htons_bytes :: "16 word \<Rightarrow> byte list" where
  "htons_bytes w = [ucast (drop_bit 8 w), ucast w]"

definition rd8 :: "byte list \<Rightarrow> nat \<Rightarrow> nat exec" where
  "rd8 buf pos = (if pos < length buf then Some (unat (buf ! pos)) else None)"

definition ntohs_at :: "byte list \<Rightarrow> nat \<Rightarrow> nat exec" where
  "ntohs_at buf pos = do { a \<leftarrow> rd8 buf pos; b \<leftarrow> rd8 buf (pos + 1); Some (256 * a + b) }"

record dns_header =
  dh_tid :: "16 word"
  dh_flags :: "16 word"
  dh_qdcount :: "16 word"
  dh_ancount :: "16 word"
  dh_nscount :: "16 word"
  dh_arcount :: "16 word"

text \<open>The fields of the packed header hold network order.\<close>

definition header_bytes :: "dns_header \<Rightarrow> byte list" where
  "header_bytes q = concat (map htons_bytes [dh_tid q, dh_flags q, dh_qdcount q, dh_ancount q, dh_nscount q, dh_arcount q])"

definition DNS_TYPE_A :: nat where "DNS_TYPE_A = 1"
definition DNS_TYPE_AAAA :: nat where "DNS_TYPE_AAAA = 28"
definition DNS_CLASS_IN :: nat where "DNS_CLASS_IN = 1"

datatype ipaddr = AF_INET "byte list" | AF_INET6 "byte list"

section \<open>The query\<close>

definition gen_tid :: "16 word \<Rightarrow> 16 word \<times> 16 word" where
  "gen_tid gtid = (gtid, gtid + 1)"

text \<open>A string is its bytes from the pointer on, ended by a zero.\<close>

definition c_strlen :: "byte list \<Rightarrow> nat exec" where
  "c_strlen s = (if 0 \<in> set s then Some (length (takeWhile (\<lambda>b. b \<noteq> 0) s)) else None)"

text \<open>\<open>strchr\<close>, as an index.\<close>

definition c_strchr :: "byte list \<Rightarrow> byte \<Rightarrow> nat option exec" where
  "c_strchr s c = do {
     n \<leftarrow> c_strlen s;
     let k = length (takeWhile (\<lambda>b. b \<noteq> c) (take n s));
     Some (if k < n then Some k else None)
   }"

text \<open>The loop over the labels: whether all of them were written, the buffer and the position.  The early
  \<open>return 1\<close> leaves the labels before it in the buffer.\<close>

partial_function (option) pack_labels :: "cell list \<Rightarrow> int \<Rightarrow> int \<Rightarrow> byte list \<Rightarrow> (bool \<times> cell list \<times> int) exec" where
  "pack_labels buf maxsize pos pname = do {
     ppos \<leftarrow> c_strchr pname 0x2E;
     len \<leftarrow> (case ppos of Some k \<Rightarrow> Some k | None \<Rightarrow> c_strlen pname);
     if maxsize < pos + 1 + int len then Some (False, buf, pos)
     else do {
       buf \<leftarrow> mem_store buf pos [Some (word_of_nat len)];
       let pos = pos + 1;
       buf \<leftarrow> mem_store buf pos (map Some (take len pname));
       let pos = pos + int len;
       if ppos \<noteq> None then pack_labels buf maxsize pos (drop (len + 1) pname) else Some (True, buf, pos)
     }
   }"

text \<open>The new transaction counter, the buffer, \<open>*size\<close> and the result.  The first test compares with an
  unsigned \<open>sizeof\<close>.\<close>

definition codns_pack_request :: "16 word \<Rightarrow> cell list \<Rightarrow> int \<Rightarrow> byte list \<Rightarrow> (16 word \<times> cell list \<times> int \<times> int) exec" where
  "codns_pack_request gtid buf sz name =
     (if (if sz < 0 then sz + 2 ^ 64 else sz) < 12 then Some (gtid, buf, sz, 1)
      else do {
        let (tid, gtid) = gen_tid gtid;
        buf \<leftarrow> mem_store buf 0 (map Some (header_bytes \<lparr>dh_tid = tid, dh_flags = 0x0100, dh_qdcount = 1, dh_ancount = 0, dh_nscount = 0, dh_arcount = 0\<rparr>));
        (all, buf, pos) \<leftarrow> pack_labels buf sz 12 name;
        if \<not> all then Some (gtid, buf, sz, 1)
        else if sz < pos + 1 then Some (gtid, buf, sz, 1)
        else do {
          buf \<leftarrow> mem_store buf pos [Some 0];
          let pos = pos + 1;
          if sz < pos + 2 then Some (gtid, buf, sz, 1)
          else do {
            buf \<leftarrow> mem_store buf pos (map Some (htons_bytes (of_nat DNS_TYPE_A)));
            let pos = pos + 2;
            if sz < pos + 2 then Some (gtid, buf, sz, 1)
            else do {
              buf \<leftarrow> mem_store buf pos (map Some (htons_bytes (of_nat DNS_CLASS_IN)));
              Some (gtid, buf, pos + 2, 0)
            }
          }
        }
      })"

section \<open>The response\<close>

text \<open>The position of the last byte of a name: its zero or the second byte of a pointer; \<open>Some None\<close> is
  the early return.\<close>

partial_function (option) skip_name :: "byte list \<Rightarrow> int \<Rightarrow> nat \<Rightarrow> nat option exec" where
  "skip_name buf sz pos = do {
     b \<leftarrow> rd8 buf pos;
     if b = 0 then Some (Some pos)
     else if sz < int pos + 1 then Some None
     else do {
       len \<leftarrow> rd8 buf pos;
       if len div 64 = 3 then Some (Some (pos + 1))
       else if sz < int pos + 1 + int len then Some None
       else skip_name buf sz (pos + 1 + len)
     }
   }"

definition mem_bytes :: "byte list \<Rightarrow> nat \<Rightarrow> nat \<Rightarrow> byte list exec" where
  "mem_bytes buf pos n = (if pos + n \<le> length buf then Some (take n (drop pos buf)) else None)"

text \<open>One answer: the position after it and its address if it has one.\<close>

definition parse_answer :: "byte list \<Rightarrow> int \<Rightarrow> nat \<Rightarrow> (nat \<times> ipaddr list) option exec" where
  "parse_answer buf sz pos = do {
     r \<leftarrow> skip_name buf sz pos;
     case r of None \<Rightarrow> Some None
     | Some pos \<Rightarrow>
         if sz < int pos + 1 then Some None
         else let pos = pos + 1 in
         if sz < int pos + 2 then Some None
         else do {
           atype \<leftarrow> ntohs_at buf pos;
           let pos = pos + 2;
           if sz < int pos + 6 then Some None
           else let pos = pos + 6 in
           if sz < int pos + 2 then Some None
           else do {
             rdlen \<leftarrow> ntohs_at buf pos;
             let pos = pos + 2;
             if sz < int pos + int rdlen then Some None
             else do {
               ads \<leftarrow> (if atype = DNS_TYPE_A then map_option (\<lambda>a. [AF_INET a]) (mem_bytes buf pos 4)
                      else if atype = DNS_TYPE_AAAA then map_option (\<lambda>a. [AF_INET6 a]) (mem_bytes buf pos 16)
                      else Some []);
               Some (Some (pos + rdlen, ads))
             }
           }
         }
   }"

primrec parse_answers :: "nat \<Rightarrow> byte list \<Rightarrow> int \<Rightarrow> nat \<Rightarrow> ipaddr list \<Rightarrow> ipaddr list option exec" where
  "parse_answers 0 buf sz pos retads = Some (Some retads)"
| "parse_answers (Suc n) buf sz pos retads = do {
     r \<leftarrow> parse_answer buf sz pos;
     case r of None \<Rightarrow> Some None | Some (pos, ads) \<Rightarrow> parse_answers n buf sz pos (retads @ ads)
   }"

text \<open>The result and the addresses; \<open>*addrs\<close> is only set when the result is 0.\<close>

definition codns_parse_response :: "byte list \<Rightarrow> int \<Rightarrow> (nat \<times> ipaddr list) exec" where
  "codns_parse_response buf sz =
     (if (if sz < 0 then sz + 2 ^ 64 else sz) < 12 then Some (1, [])
      else do {
        flags \<leftarrow> ntohs_at buf 2;
        let rcode = flags mod 16;
        if rcode \<noteq> 0 then Some (rcode, [])
        else do {
          qdcount \<leftarrow> ntohs_at buf 4;
          if qdcount \<noteq> 1 then Some (1, [])
          else do {
            r \<leftarrow> skip_name buf sz 12;
            case r of None \<Rightarrow> Some (1, [])
            | Some pos \<Rightarrow>
                if sz < int pos + 1 then Some (1, [])
                else let pos = pos + 1 in
                if sz < int pos + 4 then Some (1, [])
                else let pos = pos + 4 in do {
                  ancount \<leftarrow> ntohs_at buf 6;
                  if ancount < 1 then Some (1, [])
                  else do {
                    ads \<leftarrow> parse_answers ancount buf sz pos [];
                    Some (case ads of None \<Rightarrow> (1, []) | Some ads \<Rightarrow> (0, ads))
                  }
                }
          }
        }
      })"


section \<open>Messages\<close>

text \<open>A name on the wire: its labels, then the zero or a pointer.\<close>

definition label_bytes :: "byte list \<Rightarrow> byte list" where
  "label_bytes l = word_of_nat (length l) # l"

definition labels_bytes :: "byte list list \<Rightarrow> byte list" where
  "labels_bytes ls = concat (map label_bytes ls)"

type_synonym wname = "byte list list \<times> (byte \<times> byte) option"

definition name_bytes :: "wname \<Rightarrow> byte list" where
  "name_bytes n = labels_bytes (fst n) @ (case snd n of None \<Rightarrow> [0] | Some (a, b) \<Rightarrow> [a, b])"

definition name_ok :: "wname \<Rightarrow> bool" where
  "name_ok n \<longleftrightarrow> (\<forall>l\<in>set (fst n). 0 < length l \<and> length l < 64) \<and> (case snd n of None \<Rightarrow> True | Some (a, b) \<Rightarrow> unat a div 64 = 3)"

fun dotted :: "byte list list \<Rightarrow> byte list" where
  "dotted [] = []"
| "dotted [l] = l"
| "dotted (l # ls) = l @ 0x2E # dotted ls"

definition query :: "16 word \<Rightarrow> byte list list \<Rightarrow> byte list" where
  "query tid ls = header_bytes \<lparr>dh_tid = tid, dh_flags = 0x0100, dh_qdcount = 1, dh_ancount = 0, dh_nscount = 0, dh_arcount = 0\<rparr> @
     name_bytes (ls, None) @ [0, 1, 0, 1]"

record dns_answer =
  an_name :: wname
  an_type :: nat
  an_class_ttl :: "byte list"
  an_rdata :: "byte list"

definition answer_bytes :: "dns_answer \<Rightarrow> byte list" where
  "answer_bytes a = name_bytes (an_name a) @ htons_bytes (of_nat (an_type a)) @ an_class_ttl a @ htons_bytes (of_nat (length (an_rdata a))) @ an_rdata a"

definition answer_ok :: "dns_answer \<Rightarrow> bool" where
  "answer_ok a \<longleftrightarrow> name_ok (an_name a) \<and> an_type a < 65536 \<and> length (an_class_ttl a) = 6 \<and> length (an_rdata a) < 65536 \<and>
     (an_type a = 1 \<longrightarrow> length (an_rdata a) = 4) \<and> (an_type a = 28 \<longrightarrow> length (an_rdata a) = 16)"

definition answer_addrs :: "dns_answer \<Rightarrow> ipaddr list" where
  "answer_addrs a = (if an_type a = 1 then [AF_INET (an_rdata a)] else if an_type a = 28 then [AF_INET6 (an_rdata a)] else [])"

lemma length_header: "length (header_bytes q) = 12"
  by (simp add: header_bytes_def htons_bytes_def)

lemma labels_Cons [simp]: "labels_bytes [] = []" "labels_bytes (l # ls) = word_of_nat (length l) # l @ labels_bytes ls"
  by (simp_all add: labels_bytes_def label_bytes_def)

section \<open>Packing\<close>

lemma takeWhile_to: "c \<notin> set s \<Longrightarrow> takeWhile (\<lambda>b. b \<noteq> c) (s @ c # r) = s"
  by (induction s) auto

lemma c_str_at:
  assumes "0 \<notin> set s"
  shows "c_strlen (s @ 0 # junk) = Some (length s)"
    and "c_strchr (s @ 0 # junk) c = Some (if c \<in> set s then Some (length (takeWhile (\<lambda>b. b \<noteq> c) s)) else None)"
proof -
  have t: "takeWhile (\<lambda>b. b \<noteq> 0) (s @ 0 # junk) = s" by (rule takeWhile_to [OF assms])
  show l: "c_strlen (s @ 0 # junk) = Some (length s)" using t by (simp add: c_strlen_def)
  have "length (takeWhile (\<lambda>b. b \<noteq> c) s) < length s \<longleftrightarrow> c \<in> set s"
    by (metis (mono_tags, lifting) length_takeWhile_le nat_less_le takeWhile_eq_all_conv takeWhile_eq_take take_all)
  then show "c_strchr (s @ 0 # junk) c = Some (if c \<in> set s then Some (length (takeWhile (\<lambda>b. b \<noteq> c) s)) else None)"
    using l by (simp add: c_strchr_def)
qed

lemma dotted_zero: "\<forall>l\<in>set ls. 0 \<notin> set l \<Longrightarrow> 0 \<notin> set (dotted ls)"
  by (induction ls rule: dotted.induct) auto

definition put :: "cell list \<Rightarrow> nat \<Rightarrow> byte list \<Rightarrow> cell list" where
  "put buf pos bs = take pos buf @ map Some bs @ drop (pos + length bs) buf"

lemma put_simps [simp]: "pos + length bs \<le> length buf \<Longrightarrow> length (put buf pos bs) = length buf"
  by (simp add: put_def)

lemma put_put: "pos + length as + length bs \<le> length buf \<Longrightarrow> put (put buf pos as) (pos + length as) bs = put buf pos (as @ bs)"
  by (simp add: put_def add_ac)

lemma mem_store_put: "pos + length bs \<le> length buf \<Longrightarrow> mem_store buf (int pos) (map Some bs) = Some (put buf pos bs)"
  by (simp add: mem_store_nat put_def)

text \<open>The parts of a query, each of which is written when it still fits.\<close>

definition query_header :: "16 word \<Rightarrow> byte list" where
  "query_header tid = header_bytes \<lparr>dh_tid = tid, dh_flags = 0x0100, dh_qdcount = 1, dh_ancount = 0, dh_nscount = 0, dh_arcount = 0\<rparr>"

definition query_parts :: "16 word \<Rightarrow> byte list list \<Rightarrow> byte list list" where
  "query_parts tid ls = query_header tid # map label_bytes ls @ [[0], [0, 1], [0, 1]]"

fun fitting :: "nat \<Rightarrow> byte list list \<Rightarrow> byte list" where
  "fitting n [] = []"
| "fitting n (c # cs) = (if length c \<le> n then c @ fitting (n - length c) cs else [])"

lemma concat_parts: "concat (query_parts tid ls) = query tid ls"
  by (simp add: query_parts_def query_def query_header_def labels_bytes_def name_bytes_def)

lemma fitting_all: "length (concat cs) \<le> n \<Longrightarrow> fitting n cs = concat cs"
  by (induction cs arbitrary: n) auto

lemma fitting_append: "fitting n (as @ bs) = (if length (concat as) \<le> n then concat as @ fitting (n - length (concat as)) bs else fitting n as)"
  by (induction as arbitrary: n) auto

lemma length_fitting: "length (fitting n cs) \<le> n"
  by (induction n cs rule: fitting.induct) auto

lemma pack_labels_step:
  assumes len: "(do { ppos \<leftarrow> c_strchr pname 0x2E; len \<leftarrow> (case ppos of Some k \<Rightarrow> Some k | None \<Rightarrow> c_strlen pname); Some (ppos, len) }) = Some (pp, length l)"
    and l: "take (length l) pname = l" "sz \<le> length buf"
  shows "pack_labels buf (int sz) (int pos) pname =
    (if pos + length (label_bytes l) \<le> sz
     then if pp \<noteq> None then pack_labels (put buf pos (label_bytes l)) (int sz) (int (pos + length (label_bytes l))) (drop (length l + 1) pname)
       else Some (True, put buf pos (label_bytes l), int (pos + length (label_bytes l)))
     else Some (False, buf, int pos))"
proof -
  obtain k where k: "c_strchr pname 0x2E = Some pp" "(case pp of Some k \<Rightarrow> Some k | None \<Rightarrow> c_strlen pname) = Some (length l)"
    using len by (auto split: bind_splits)
  let ?w = "word_of_nat (length l) :: byte"
  show ?thesis
  proof (cases "pos + 1 + length l \<le> sz")
    case True
    have s: "mem_store buf (int pos) [Some ?w] = Some (put buf pos [?w])"
      using mem_store_put [of pos "[?w]" buf] True l(2) by simp
    have "mem_store (put buf pos [?w]) (int (pos + 1)) (map Some l) = Some (put (put buf pos [?w]) (pos + 1) l)"
      using True l(2) by (intro mem_store_put) simp
    also have "put (put buf pos [?w]) (pos + 1) l = put buf pos (label_bytes l)"
      using put_put [of pos "[?w]" l buf] True l(2) by (simp add: label_bytes_def)
    finally show ?thesis using True s k l(1) by (subst pack_labels.simps) (simp add: label_bytes_def add.commute add.left_commute)
  next
    case False
    then show ?thesis using k by (subst pack_labels.simps) (simp add: label_bytes_def)
  qed
qed

lemma pack_labels_spec:
  assumes "ls \<noteq> []" "\<forall>l\<in>set ls. 0 \<notin> set l \<and> 0x2E \<notin> set l" "sz \<le> length buf" "pos \<le> sz"
  shows "\<exists>p. pack_labels buf (int sz) (int pos) (dotted ls @ 0 # junk) =
      Some (pos + length (labels_bytes ls) \<le> sz, put buf pos (fitting (sz - pos) (map label_bytes ls)), p) \<and>
    (pos + length (labels_bytes ls) \<le> sz \<longrightarrow> p = int (pos + length (labels_bytes ls)))"
  using assms
proof (induction ls arbitrary: buf pos rule: dotted.induct)
  case (2 l)
  have z: "0 \<notin> set l" "0x2E \<notin> set l" using 2 by auto
  have "put buf pos [] = buf" by (simp add: put_def)
  then show ?case using pack_labels_step [of "l @ 0 # junk" None l sz buf pos] c_str_at [OF z(1)] z(2) 2
    by (auto simp: label_bytes_def)
next
  case (3 l l' ls)
  let ?r = "dotted (l' # ls)" and ?b = "put buf pos (label_bytes l)" and ?q = "pos + length (label_bytes l)"
  have z: "0 \<notin> set l" "0x2E \<notin> set l" "0 \<notin> set (l @ 0x2E # ?r)" using 3(3) dotted_zero [of "l' # ls"] by auto
  have tw: "takeWhile (\<lambda>b. b \<noteq> 0x2E) (l @ 0x2E # ?r) = l" by (rule takeWhile_to [OF z(2)])
  have c: "c_strchr ((l @ 0x2E # ?r) @ 0 # junk) 0x2E = Some (Some (length l))" using c_str_at(2) [OF z(3), of junk "0x2E"] tw by simp
  have st: "pack_labels buf (int sz) (int pos) (dotted (l # l' # ls) @ 0 # junk) =
      (if ?q \<le> sz then pack_labels ?b (int sz) (int ?q) (?r @ 0 # junk) else Some (False, buf, int pos))"
    using pack_labels_step [of "(l @ 0x2E # ?r) @ 0 # junk" "Some (length l)" l sz buf pos] c 3(4) by simp
  have lb: "length (label_bytes l) = 1 + length l" by (simp add: label_bytes_def)
  show ?case
  proof (cases "?q \<le> sz")
    case True
    have IH: "\<exists>p. pack_labels ?b (int sz) (int ?q) (?r @ 0 # junk) =
        Some (?q + length (labels_bytes (l' # ls)) \<le> sz, put ?b ?q (fitting (sz - ?q) (map label_bytes (l' # ls))), p) \<and>
      (?q + length (labels_bytes (l' # ls)) \<le> sz \<longrightarrow> p = int (?q + length (labels_bytes (l' # ls))))"
      using 3 True by (intro 3(1)) simp_all
    define cs where "cs = map label_bytes (l' # ls)"
    have f: "fitting (sz - pos) (map label_bytes (l # l' # ls)) = label_bytes l @ fitting (sz - ?q) cs"
    proof -
      have "length (label_bytes l) \<le> sz - pos" using True by linarith
      then show ?thesis by (simp add: cs_def)
    qed
    have "length (fitting (sz - ?q) cs) \<le> sz - ?q" by (rule length_fitting)
    then have "put ?b ?q (fitting (sz - ?q) (map label_bytes (l' # ls))) = put buf pos (fitting (sz - pos) (map label_bytes (l # l' # ls)))"
      using put_put [of pos "label_bytes l" "fitting (sz - ?q) cs" buf] True 3(4) unfolding f cs_def [symmetric] by simp
    then show ?thesis using IH st True lb by (simp add: add.commute add.left_commute)
  next
    case False
    have "put buf pos [] = buf" by (simp add: put_def)
    moreover have "\<not> length (label_bytes l) \<le> sz - pos" using False 3(5) by linarith
    ultimately show ?thesis using st False lb by simp
  qed
qed simp

lemma codns_pack_spec:
  assumes "ls \<noteq> []" "\<forall>l\<in>set ls. 0 \<notin> set l \<and> 0x2E \<notin> set l" "sz \<le> length buf"
  shows "codns_pack_request gtid buf (int sz) (dotted ls @ 0 # junk) =
    Some (if sz < 12 then gtid else gtid + 1, put buf 0 (fitting sz (query_parts gtid ls)),
      if length (query gtid ls) \<le> sz then (int (length (query gtid ls)), 0) else (int sz, 1))"
proof -
  let ?H = "query_header gtid" and ?L = "labels_bytes ls" and ?P = "fitting (sz - 12) (map label_bytes ls)"
  have H: "length ?H = 12" unfolding query_header_def by (rule length_header)
  have L: "concat (map label_bytes ls) = ?L" by (simp add: labels_bytes_def)
  have lq: "length (query gtid ls) = 12 + length ?L + 5" using H L by (simp flip: concat_parts add: query_parts_def)
  have p0: "put buf 0 [] = buf" by (simp add: put_def)
  show ?thesis
  proof (cases "sz < 12")
    case True
    then show ?thesis using H lq p0 by (simp add: codns_pack_request_def query_parts_def)
  next
    case False
    have 1: "mem_store buf 0 (map Some ?H) = Some (put buf 0 ?H)" using mem_store_put [of 0 ?H buf] assms(3) False H by simp
    obtain p where 2: "pack_labels (put buf 0 ?H) (int sz) 12 (dotted ls @ 0 # junk) = Some (12 + length ?L \<le> sz, put (put buf 0 ?H) 12 ?P, p)"
      "12 + length ?L \<le> sz \<longrightarrow> p = int (12 + length ?L)"
      using pack_labels_spec [OF assms(1,2), of sz "put buf 0 ?H" 12 junk] assms(3) False H by auto
    have 3: "put (put buf 0 ?H) 12 ?P = put buf 0 (?H @ ?P)"
      using put_put [of 0 ?H ?P buf] length_fitting [of "sz - 12" "map label_bytes ls"] assms(3) False H by simp
    have start: "codns_pack_request gtid buf (int sz) (dotted ls @ 0 # junk) =
      (if sz < 12 + length ?L then Some (gtid + 1, put buf 0 (?H @ ?P), int sz, 1)
       else if sz < 12 + length ?L + 1 then Some (gtid + 1, put buf 0 (?H @ ?P), int sz, 1)
       else do {
         buf \<leftarrow> mem_store (put buf 0 (?H @ ?P)) (int (12 + length ?L)) (map Some [0]);
         if int sz < int (length ?L) + 15 then Some (gtid + 1, buf, int sz, 1)
         else do {
           buf \<leftarrow> mem_store buf (int (12 + length ?L + 1)) (map Some [0, 1]);
           if int sz < int (length ?L) + 17 then Some (gtid + 1, buf, int sz, 1)
           else do {
             buf \<leftarrow> mem_store buf (int (12 + length ?L + 3)) (map Some [0, 1]);
             Some (gtid + 1, buf, int (12 + length ?L + 5), 0)
           }
         }
       })"
      using False 1 2 3
      by (simp add: codns_pack_request_def gen_tid_def DNS_TYPE_A_def DNS_CLASS_IN_def htons_bytes_def Let_def query_header_def add.commute add.left_commute
        cong: if_cong)
    have store: "mem_store (put buf 0 m) (int (length m)) (map Some bs) = Some (put buf 0 (m @ bs))" if "length m + length bs \<le> sz" for m bs
      using mem_store_put [of "length m" bs "put buf 0 m"] put_put [of 0 m bs buf] that assms(3) by simp
    show ?thesis
    proof (cases "sz < 12 + length ?L")
      case True
      have "\<not> length (concat (map label_bytes ls)) \<le> sz - 12" using True False L by simp
      then have "fitting sz (query_parts gtid ls) = ?H @ ?P" using False H by (simp add: query_parts_def fitting_append)
      then show ?thesis using start True False lq by simp
    next
      case fits: False
      have P: "?P = ?L" using fitting_all [of "map label_bytes ls" "sz - 12"] fits L by simp
      have q: "fitting sz (query_parts gtid ls) = ?H @ ?L @ fitting (sz - 12 - length ?L) [[0], [0, 1], [0, 1]]"
      proof -
        have "length ?L \<le> sz - 12" using fits by simp
        then show ?thesis using False H L by (simp add: query_parts_def fitting_append)
      qed
      define r where "r = sz - 12 - length ?L"
      have "fitting r [[0], [0, 1], [0, 1]] = (if r < 1 then [] else if r < 3 then [0] else if r < 5 then [0, 0, 1] else [0, 0, 1, 0, 1])"
        by (auto simp: le_diff_conv)
      then have w: "fitting sz (query_parts gtid ls) = ?H @ ?L @ (if sz < 12 + length ?L + 1 then [] else if sz < 12 + length ?L + 3 then [0]
          else if sz < 12 + length ?L + 5 then [0, 0, 1] else [0, 0, 1, 0, 1])"
        using q fits unfolding r_def by auto
      have s1: "mem_store (put buf 0 (?H @ ?L)) (int (12 + length ?L)) (map Some [0]) = Some (put buf 0 (?H @ ?L @ [0]))"
        if "12 + length ?L + 1 \<le> sz" using that store [of "?H @ ?L" "[0]"] H by simp
      have s2: "mem_store (put buf 0 (?H @ ?L @ [0])) (int (12 + length ?L + 1)) (map Some [0, 1]) = Some (put buf 0 (?H @ ?L @ [0, 0, 1]))"
        if "12 + length ?L + 3 \<le> sz" using that store [of "?H @ ?L @ [0]" "[0, 1]"] H by (simp add: add.commute add.left_commute)
      have s3: "mem_store (put buf 0 (?H @ ?L @ [0, 0, 1])) (int (12 + length ?L + 3)) (map Some [0, 1]) = Some (put buf 0 (?H @ ?L @ [0, 0, 1, 0, 1]))"
        if "12 + length ?L + 5 \<le> sz" using that store [of "?H @ ?L @ [0, 0, 1]" "[0, 1]"] H by (simp add: add.commute add.left_commute)
      consider "sz < 12 + length ?L + 1" | "12 + length ?L + 1 \<le> sz" "sz < 12 + length ?L + 3"
        | "12 + length ?L + 3 \<le> sz" "sz < 12 + length ?L + 5" | "12 + length ?L + 5 \<le> sz" by linarith
      then show ?thesis
      proof cases
        case 1
        then show ?thesis using start fits False P w lq by simp
      next
        case 2
        then show ?thesis using start fits False P w lq s1 by simp
      next
        case 3
        then show ?thesis using start fits False P w lq s1 s2 by simp
      next
        case 4
        then show ?thesis using start fits False P w lq s1 s2 s3 by simp
      qed
    qed
  qed
qed

section \<open>Parsing\<close>

lemma rd8_at: "rd8 (pre @ b # post) (length pre) = Some (unat b)"
  by (simp add: rd8_def)

lemma rd8_atI: "pos = length pre \<Longrightarrow> rd8 (pre @ b # post) pos = Some (unat b)"
  by (simp add: rd8_def)

lemma htons_unat: "n < 65536 \<Longrightarrow> \<exists>a b. htons_bytes (of_nat n) = [a, b] \<and> 256 * unat a + unat b = n"
proof -
  assume n: "n < 65536"
  have "unat (of_nat n :: 16 word) = n" using n by (simp add: unsigned_of_nat take_bit_eq_mod)
  then have "unat (drop_bit 8 (of_nat n :: 16 word)) = n div 256" unfolding unat_drop_bit_eq by (simp only: drop_bit_eq_div) simp
  then have "unat (ucast (drop_bit 8 (of_nat n :: 16 word)) :: byte) = n div 256"
    using n by (simp only: unsigned_ucast_eq take_bit_eq_mod) simp
  moreover have "unat (ucast (of_nat n :: 16 word) :: byte) = n mod 256"
    using n by (simp add: unsigned_ucast_eq unsigned_of_nat take_bit_eq_mod mod_mod_cancel)
  ultimately show ?thesis by (simp add: htons_bytes_def)
qed

lemma ntohs_spec:
  assumes "n < 65536" "pos = length pre"
  shows "ntohs_at (pre @ htons_bytes (of_nat n) @ post) pos = Some n"
proof -
  obtain a b where ab: "htons_bytes (of_nat n) = [a, b]" "256 * unat a + unat b = n" using htons_unat [OF assms(1)] by blast
  have "rd8 (pre @ a # b # post) pos = Some (unat a)" "rd8 (pre @ a # b # post) (pos + 1) = Some (unat b)"
    using assms(2) rd8_atI [of pos pre a "b # post"] rd8_atI [of "pos + 1" "pre @ [a]" b post] by simp_all
  then show ?thesis using ab by (simp add: ntohs_at_def)
qed

lemma length_name_pos: "0 < length (name_bytes n)"
  by (auto simp: name_bytes_def split: option.split)

lemma skip_name_spec:
  assumes "name_ok n" "pos = length pre" "int (pos + length (name_bytes n)) \<le> sz"
  shows "skip_name (pre @ name_bytes n @ post) sz pos = Some (Some (pos + length (name_bytes n) - 1))"
proof -
  obtain ls t where n: "n = (ls, t)" by (cases n)
  define tb where "tb = (case t of None \<Rightarrow> [0] | Some (a, b) \<Rightarrow> [a, b :: byte])"
  have tp: "0 < length tb" by (auto simp: tb_def split: option.split)
  have "\<forall>l\<in>set ls. 0 < length l \<and> length l < 64 \<Longrightarrow> pos = length pre \<Longrightarrow> int (pos + length (labels_bytes ls @ tb)) \<le> sz \<Longrightarrow>
    skip_name (pre @ (labels_bytes ls @ tb) @ post) sz pos = Some (Some (pos + length (labels_bytes ls @ tb) - 1))" for pre pos
  proof (induction ls arbitrary: pre pos)
    case Nil
    show ?case
    proof (cases t)
      case None
      then show ?thesis using Nil rd8_at [of pre 0 post] by (subst skip_name.simps) (simp add: tb_def)
    next
      case (Some ab)
      obtain a b where ab: "ab = (a, b)" by (cases ab)
      have "unat a div 64 = 3" using assms(1) n Some ab by (simp add: name_ok_def)
      moreover from this have "unat a \<noteq> 0" by auto
      ultimately show ?thesis using Nil rd8_at [of pre a "b # post"] Some ab by (subst skip_name.simps) (simp add: tb_def)
    qed
  next
    case (Cons l ls)
    have l: "0 < length l" "length l < 64" using Cons.prems(1) by auto
    then have u: "unat (word_of_nat (length l) :: byte) = length l" by (simp add: unat_of_nat)
    have r: "rd8 (pre @ (labels_bytes (l # ls) @ tb) @ post) pos = Some (length l)"
      using rd8_atI [OF Cons.prems(2), of "word_of_nat (length l)" "l @ labels_bytes ls @ tb @ post"] u by simp
    have "skip_name (pre @ (labels_bytes (l # ls) @ tb) @ post) sz pos =
        skip_name ((pre @ word_of_nat (length l) # l) @ (labels_bytes ls @ tb) @ post) sz (pos + 1 + length l)"
      using r l Cons.prems(3) tp by (subst skip_name.simps) simp
    also have "\<dots> = Some (Some (pos + 1 + length l + length (labels_bytes ls @ tb) - 1))"
      using Cons.prems by (intro Cons.IH) simp_all
    finally show ?case by simp
  qed
  then show ?thesis using assms n by (simp add: name_ok_def name_bytes_def tb_def)
qed

lemma parse_answer_spec:
  assumes ok: "answer_ok a" and pos: "pos = length pre" and sz: "int (pos + length (answer_bytes a)) \<le> sz"
  shows "parse_answer (pre @ answer_bytes a @ post) sz pos = Some (Some (pos + length (answer_bytes a), answer_addrs a))"
proof -
  let ?N = "name_bytes (an_name a)" and ?T = "htons_bytes (of_nat (an_type a))" and ?L = "htons_bytes (of_nat (length (an_rdata a)))"
  let ?buf = "pre @ answer_bytes a @ post"
  have lh: "length (htons_bytes w) = 2" for w by (simp add: htons_bytes_def)
  have o: "name_ok (an_name a)" "an_type a < 65536" "length (an_class_ttl a) = 6" "length (an_rdata a) < 65536"
    using ok by (simp_all add: answer_ok_def)
  have len: "length (answer_bytes a) = length ?N + 10 + length (an_rdata a)" using o(3) lh by (simp add: answer_bytes_def)
  have np: "0 < length ?N" by (rule length_name_pos)
  obtain k where k: "pos + length ?N = k + 1" using np by (cases "pos + length ?N") auto
  have 1: "skip_name ?buf sz pos = Some (Some k)"
    using skip_name_spec [OF o(1) pos, of sz "?T @ an_class_ttl a @ ?L @ an_rdata a @ post"] sz len k by (simp add: answer_bytes_def)
  have 2: "ntohs_at ?buf (k + 1) = Some (an_type a)"
    using ntohs_spec [OF o(2), of "k + 1" "pre @ ?N" "an_class_ttl a @ ?L @ an_rdata a @ post"] pos k by (simp add: answer_bytes_def)
  have 3: "ntohs_at ?buf (k + 1 + 2 + 6) = Some (length (an_rdata a))"
    using ntohs_spec [OF o(4), of "k + 1 + 2 + 6" "pre @ ?N @ ?T @ an_class_ttl a" "an_rdata a @ post"] pos o(3) lh k
    by (simp add: answer_bytes_def)
  have 4: "mem_bytes ?buf (k + 1 + 2 + 6 + 2) (length (an_rdata a)) = Some (an_rdata a)"
  proof -
    have p: "k + 1 + 2 + 6 + 2 = length (pre @ ?N @ ?T @ an_class_ttl a @ ?L)" using pos o(3) lh k by simp
    have b: "?buf = (pre @ ?N @ ?T @ an_class_ttl a @ ?L) @ an_rdata a @ post" by (simp add: answer_bytes_def)
    show ?thesis unfolding mem_bytes_def p b by simp
  qed
  have 5: "an_type a = 1 \<longrightarrow> length (an_rdata a) = 4" "an_type a = 28 \<longrightarrow> length (an_rdata a) = 16" using ok by (simp_all add: answer_ok_def)
  have b: "\<not> sz < int k + 1" "\<not> sz < int (k + 1) + 2" "\<not> sz < int (k + 1 + 2) + 6" "\<not> sz < int (k + 1 + 2 + 6) + 2"
    "\<not> sz < int (k + 1 + 2 + 6 + 2) + int (length (an_rdata a))" "pos + length (answer_bytes a) = k + 1 + 2 + 6 + 2 + length (an_rdata a)"
    using sz k unfolding len by simp_all
  have 6: "(if an_type a = DNS_TYPE_A then map_option (\<lambda>a. [AF_INET a]) (mem_bytes ?buf (k + 1 + 2 + 6 + 2) 4)
      else if an_type a = DNS_TYPE_AAAA then map_option (\<lambda>a. [AF_INET6 a]) (mem_bytes ?buf (k + 1 + 2 + 6 + 2) 16)
      else Some []) = Some (answer_addrs a)"
    using 4 5 by (auto simp: DNS_TYPE_A_def DNS_TYPE_AAAA_def answer_addrs_def)
  show ?thesis
    unfolding parse_answer_def 1 Let_def bind.bind_lunit option.case b(1-4) if_False 2 3 b(5) 6 b(6) by (simp only: b(1-5) if_False)
qed

lemma parse_answers_spec:
  assumes "\<forall>a\<in>set as. answer_ok a" "pos = length pre" "int (pos + length (concat (map answer_bytes as))) \<le> sz"
  shows "parse_answers (length as) (pre @ concat (map answer_bytes as) @ post) sz pos rs = Some (Some (rs @ concat (map answer_addrs as)))"
  using assms
proof (induction as arbitrary: pre pos rs)
  case (Cons a as)
  let ?R = "concat (map answer_bytes as)"
  have "parse_answer (pre @ answer_bytes a @ ?R @ post) sz pos = Some (Some (pos + length (answer_bytes a), answer_addrs a))"
    using parse_answer_spec [of a pos pre sz "?R @ post"] Cons.prems by simp
  moreover have "parse_answers (length as) ((pre @ answer_bytes a) @ ?R @ post) sz (pos + length (answer_bytes a)) (rs @ answer_addrs a) =
      Some (Some ((rs @ answer_addrs a) @ concat (map answer_addrs as)))"
    using Cons.prems by (intro Cons.IH) simp_all
  ultimately show ?case by simp
qed simp

definition response :: "16 word \<Rightarrow> 16 word \<Rightarrow> 16 word \<Rightarrow> 16 word \<Rightarrow> wname \<Rightarrow> byte list \<Rightarrow> dns_answer list \<Rightarrow> byte list" where
  "response tid flags ns ar qname qtail as =
     header_bytes \<lparr>dh_tid = tid, dh_flags = flags, dh_qdcount = 1, dh_ancount = of_nat (length as), dh_nscount = ns, dh_arcount = ar\<rparr> @
     name_bytes qname @ qtail @ concat (map answer_bytes as)"

lemma header_fields:
  assumes "buf = header_bytes q @ post"
  shows "ntohs_at buf 2 = Some (unat (dh_flags q))" "ntohs_at buf 4 = Some (unat (dh_qdcount q))" "ntohs_at buf 6 = Some (unat (dh_ancount q))"
proof -
  have b: "unat w < 65536" for w :: "16 word" using unsigned_less [of w] by simp
  note h = assms header_bytes_def
  have lh: "length (htons_bytes w) = 2" for w by (simp add: htons_bytes_def)
  show "ntohs_at buf 2 = Some (unat (dh_flags q))"
    using ntohs_spec [OF b, of 2 "htons_bytes (dh_tid q)" "dh_flags q"] lh unfolding h by simp
  show "ntohs_at buf 4 = Some (unat (dh_qdcount q))"
    using ntohs_spec [OF b, of 4 "htons_bytes (dh_tid q) @ htons_bytes (dh_flags q)" "dh_qdcount q"] lh unfolding h by simp
  show "ntohs_at buf 6 = Some (unat (dh_ancount q))"
    using ntohs_spec [OF b, of 6 "htons_bytes (dh_tid q) @ htons_bytes (dh_flags q) @ htons_bytes (dh_qdcount q)" "dh_ancount q"] lh unfolding h by simp
qed

lemma codns_parse_spec:
  assumes "unat flags mod 16 = 0" "name_ok qname" "length qtail = 4" "as \<noteq> []" "length as < 65536" "\<forall>a\<in>set as. answer_ok a"
  shows "codns_parse_response (response tid flags ns ar qname qtail as @ junk) (int (length (response tid flags ns ar qname qtail as))) =
    Some (0, concat (map answer_addrs as))"
proof -
  let ?h = "\<lparr>dh_tid = tid, dh_flags = flags, dh_qdcount = 1, dh_ancount = of_nat (length as), dh_nscount = ns, dh_arcount = ar\<rparr>"
  let ?H = "header_bytes ?h" and ?N = "name_bytes qname" and ?A = "concat (map answer_bytes as)"
  let ?m = "response tid flags ns ar qname qtail as"
  have H: "length ?H = 12" by (rule length_header)
  have np: "0 < length ?N" by (rule length_name_pos)
  have m: "?m = ?H @ ?N @ qtail @ ?A" by (simp add: response_def)
  have len: "length ?m = 16 + length ?N + length ?A" unfolding m using H assms(3) by simp
  have f: "ntohs_at (?m @ junk) 2 = Some (unat flags)" "ntohs_at (?m @ junk) 4 = Some 1" "ntohs_at (?m @ junk) 6 = Some (length as)"
    using header_fields [of "?m @ junk" ?h] assms(5) by (simp_all add: m unat_of_nat)
  have 1: "skip_name (?m @ junk) (int (length ?m)) 12 = Some (Some (12 + length ?N - 1))"
    using skip_name_spec [OF assms(2), of 12 ?H "int (length ?m)" "qtail @ ?A @ junk"] H len by (simp add: m)
  have 2: "parse_answers (length as) (?m @ junk) (int (length ?m)) (16 + length ?N) [] = Some (Some (concat (map answer_addrs as)))"
    using parse_answers_spec [OF assms(6), of "16 + length ?N" "?H @ ?N @ qtail" "int (length ?m)" junk "[]"] H assms(3) len by (simp add: m)
  have s: "Suc (12 + length ?N - 1) = 12 + length ?N" using np by simp
  show ?thesis using f 1 2 assms(1,4) np len by (simp add: codns_parse_response_def Let_def s add.assoc)
qed

lemma skip_name_past:
  assumes "\<forall>l\<in>set ls. 0 < length l \<and> length l < 64" "pos = length pre" "int (pos + length (labels_bytes ls)) \<le> sz"
  shows "skip_name (pre @ labels_bytes ls) sz pos = None"
  using assms
proof (induction ls arbitrary: pre pos)
  case Nil
  then show ?case by (subst skip_name.simps) (simp add: rd8_def)
next
  case (Cons l ls)
  have l: "0 < length l" "length l < 64" using Cons.prems(1) by auto
  then have u: "unat (word_of_nat (length l) :: byte) = length l" by (simp add: unat_of_nat)
  have r: "rd8 (pre @ labels_bytes (l # ls)) pos = Some (length l)"
    using rd8_atI [OF Cons.prems(2), of "word_of_nat (length l)" "l @ labels_bytes ls"] u by simp
  have "skip_name (pre @ labels_bytes (l # ls)) sz pos = skip_name ((pre @ word_of_nat (length l) # l) @ labels_bytes ls) sz (pos + 1 + length l)"
    using r l Cons.prems(3) by (subst skip_name.simps) simp
  then show ?case using Cons.IH [of "pos + 1 + length l" "pre @ word_of_nat (length l) # l"] Cons.prems by simp
qed

text \<open>C33: packing the query of a dotted name whose labels are shorter than 64 bytes writes the header, the
  labels with their lengths, the zero, the type and the class at the start of the buffer and reports their
  number, when the size it is given holds them all.  Else it returns 1 and leaves the size as it was; the
  buffer then starts with the parts that fit, up to the first that does not, and the rest of it is
  unchanged.  With less than the 12 bytes of a header nothing happens at all.\<close>

theorem codns_pack_correct:
  assumes "ls \<noteq> []" "\<forall>l\<in>set ls. 0 \<notin> set l \<and> 0x2E \<notin> set l \<and> 0 < length l \<and> length l < 64" "sz \<le> length buf"
  shows "if length (query gtid ls) \<le> sz
    then codns_pack_request gtid buf (int sz) (dotted ls @ 0 # junk) =
      Some (gtid + 1, map Some (query gtid ls) @ drop (length (query gtid ls)) buf, int (length (query gtid ls)), 0)
    else codns_pack_request gtid buf (int sz) (dotted ls @ 0 # junk) =
      (let w = fitting sz (query_parts gtid ls)
       in Some (if sz < 12 then gtid else gtid + 1, map Some w @ drop (length w) buf, int sz, 1))"
proof -
  have "12 \<le> length (query gtid ls)" by (simp add: query_def length_header)
  moreover have "length (query gtid ls) \<le> sz \<Longrightarrow> fitting sz (query_parts gtid ls) = query gtid ls"
    using fitting_all [of "query_parts gtid ls" sz] by (simp add: concat_parts)
  ultimately show ?thesis using codns_pack_spec [OF assms(1) _ assms(3), of gtid junk] assms(2) by (auto simp: put_def Let_def)
qed

theorem codns_pack_correct_witness:
  "codns_pack_request 7 (replicate 32 None) 32 [0x61, 0x2E, 0x62, 0x63, 0] =
     Some (8, map Some [0, 7, 1, 0, 0, 1, 0, 0, 0, 0, 0, 0, 1, 0x61, 2, 0x62, 0x63, 0, 0, 1, 0, 1] @ replicate 10 None, 22, 0) \<and>
   codns_pack_request 7 (replicate 16 None) 16 [0x61, 0x2E, 0x62, 0x63, 0] =
     Some (8, map Some [0, 7, 1, 0, 0, 1, 0, 0, 0, 0, 0, 0, 1, 0x61] @ replicate 2 None, 16, 1) \<and>
   codns_pack_request 7 (replicate 16 None) 11 [0x61, 0x2E, 0x62, 0x63, 0] = Some (7, replicate 16 None, 11, 1)"
proof -
  have q: "query 7 [[0x61], [0x62, 0x63]] = [0, 7, 1, 0, 0, 1, 0, 0, 0, 0, 0, 0, 1, 0x61, 2, 0x62, 0x63, 0, 0, 1, 0, 1]"
    by (simp add: query_def header_bytes_def htons_bytes_def name_bytes_def)
  have f: "fitting 16 (query_parts 7 [[0x61], [0x62, 0x63]]) = [0, 7, 1, 0, 0, 1, 0, 0, 0, 0, 0, 0, 1, 0x61]"
    "fitting 11 (query_parts 7 [[0x61], [0x62, 0x63]]) = []"
    by (simp_all add: query_parts_def query_header_def header_bytes_def htons_bytes_def label_bytes_def)
  have "int 32 = 32" "int 16 = 16" "int 11 = 11" "replicate 32 (None :: cell) = replicate 22 None @ replicate 10 None"
    "replicate 16 (None :: cell) = replicate 14 None @ replicate 2 None" by (simp_all flip: replicate_add)
  then show ?thesis using codns_pack_correct [of "[[0x61], [0x62, 0x63]]" 32 "replicate 32 None" 7 "[]"]
      codns_pack_correct [of "[[0x61], [0x62, 0x63]]" 16 "replicate 16 None" 7 "[]"]
      codns_pack_correct [of "[[0x61], [0x62, 0x63]]" 11 "replicate 16 None" 7 "[]"] unfolding q f by simp
qed

text \<open>C34: a response is parsed back: a well-formed message, its names compressed or not, gives result 0 and
  the IPv4 and IPv6 addresses of its answers in their order.\<close>

theorem codns_parse_roundtrip:
  assumes "unat flags mod 16 = 0" "name_ok qname" "length qtail = 4" "as \<noteq> []" "length as < 65536" "\<forall>a\<in>set as. answer_ok a"
  shows "codns_parse_response (response tid flags ns ar qname qtail as @ junk) (int (length (response tid flags ns ar qname qtail as))) =
    Some (0, concat (map answer_addrs as))"
  using codns_parse_spec [OF assms] .

lemma flags_bytes: "htons_bytes 0x8180 = [0x81, 0x80]"
  by (simp add: htons_bytes_def)

lemma small_bytes: "htons_bytes 0 = [0, 0]" "htons_bytes 1 = [0, 1]" "htons_bytes 4 = [0, 4]" "htons_bytes 7 = [0, 7]"
  by (simp_all add: htons_bytes_def)

theorem codns_parse_roundtrip_witness:
  "codns_parse_response
     ([0, 7, 0x81, 0x80, 0, 1, 0, 1, 0, 0, 0, 0] @ [1, 0x61, 0] @ [0, 1, 0, 1] @
      [0xC0, 12, 0, 1, 0, 1, 0, 0, 0, 60, 0, 4, 10, 0, 0, 1]) 35 = Some (0, [AF_INET [10, 0, 0, 1]])"
  using codns_parse_roundtrip [of "0x8180" "([[0x61]], None)" "[0, 1, 0, 1]"
      "[\<lparr>an_name = ([], Some (0xC0, 12)), an_type = 1, an_class_ttl = [0, 1, 0, 0, 0, 60], an_rdata = [10, 0, 0, 1]\<rparr>]" 7 0 0 "[]"]
  by (simp add: response_def header_bytes_def flags_bytes small_bytes name_bytes_def answer_bytes_def answer_addrs_def answer_ok_def name_ok_def)

text \<open>A response that ends within the name of its question, just after the header or after one of the
  labels, makes the parser read the byte after the buffer: it looks for the zero of the name before it
  compares the position with the size.\<close>

theorem codns_parse_overread:
  assumes "unat (dh_flags q) mod 16 = 0" "dh_qdcount q = 1" "\<forall>l\<in>set ls. 0 < length l \<and> length l < 64"
  shows "codns_parse_response (header_bytes q @ labels_bytes ls) (12 + int (length (labels_bytes ls))) = None"
  using header_fields(1,2) [of "header_bytes q @ labels_bytes ls" q "labels_bytes ls"] assms length_header [of q]
    skip_name_past [OF assms(3), of 12 "header_bytes q" "12 + int (length (labels_bytes ls))"]
  by (simp add: codns_parse_response_def Let_def)

theorem codns_parse_overread_witness:
  "codns_parse_response [0, 7, 0x81, 0x80, 0, 1, 0, 1, 0, 0, 0, 0] 12 = None"
  using codns_parse_overread [of "\<lparr>dh_tid = 7, dh_flags = 0x8180, dh_qdcount = 1, dh_ancount = 1, dh_nscount = 0, dh_arcount = 0\<rparr>" "[]"]
  by (simp add: header_bytes_def flags_bytes small_bytes)
end
