(* ===== verification/IoBase.thy ===== *)
theory IoBase
  imports RingBuf
begin

text \<open>
  The state of the event-driven sockets of \<open>src/co_ioservice.c\<close> and \<open>src/co_ioservice.h\<close>.  The operating
  system is a parameter: \<open>os\<close> gives the answer to a system call from the calls made before, and every call
  with its answer is appended to \<open>io_log\<close>, so a theorem about all \<open>os\<close> is one about every interleaving of
  complete, partial, interrupted and failing calls.  The application is a parameter too: \<open>app\<close> runs a
  callback, which may change the state in any way.  A pointer to an object is its index in the array of the
  service.  What is left out are the texts of error messages and the names of addresses.
\<close>

section \<open>System calls\<close>

text \<open>What the poll gives back with an event: a pointer to an object or to data of the application.\<close>

datatype io_ptr = Tcp nat | Udp nat | Fd nat | User nat

datatype sysreq =
    Sys_write int "cell list"
  | Sys_read int int
  | Sys_sendto int "cell list" "byte list"
  | Sys_recvfrom int int
  | Sys_close int
  | Sys_accept int
  | Sys_sockerr int
  | Sys_getaddrinfo nat nat
  | Sys_socket nat
  | Sys_reuseaddr int
  | Sys_bind int nat
  | Sys_listen int int
  | Sys_connect int nat
  | Sys_nonblock int
  | Poll_add int io_ptr
  | Poll_write int io_ptr bool
  | Poll_del int

text \<open>\<open>Eagain\<close> stands for \<open>EWOULDBLOCK\<close> and, for a connection, \<open>EINPROGRESS\<close> too, \<open>Errno\<close> for every
  other error.\<close>

datatype sysres = Ret int | Bytes "cell list" | Eintr | Eagain | Errno

type_synonym syslog = "(sysreq \<times> sysres) list"
type_synonym kernel = "syslog \<Rightarrow> sysreq \<Rightarrow> sysres"

text \<open>What the manual pages promise: a write takes at most the bytes it is given, a read gives at most the
  bytes asked for, and a call is not interrupted for ever.\<close>

definition kernel_ok :: "kernel \<Rightarrow> bool" where
  "kernel_ok os \<longleftrightarrow>
     (\<forall>log fd bs. (case os log (Sys_write fd bs) of Ret n \<Rightarrow> 0 \<le> n \<and> n \<le> int (length bs) | Bytes _ \<Rightarrow> False | _ \<Rightarrow> True)) \<and>
     (\<forall>log fd n. (case os log (Sys_read fd n) of Bytes bs \<Rightarrow> int (length bs) \<le> n | Ret _ \<Rightarrow> False | _ \<Rightarrow> True)) \<and>
     (\<forall>log r. \<exists>k. os (log @ replicate k (r, Eintr)) r \<noteq> Eintr)"

section \<open>Objects\<close>

definition COTCP_SIZE :: nat where "COTCP_SIZE = 8192"
definition COUDP_SIZE :: nat where "COUDP_SIZE = 4096"
definition COFD_SIZE :: nat where "COFD_SIZE = 1024"

definition COTCP_INVALID :: int where "COTCP_INVALID = 0"
definition COTCP_NEW :: int where "COTCP_NEW = 1"
definition COTCP_LISTEN :: int where "COTCP_LISTEN = 2"
definition COTCP_CONNECTING :: int where "COTCP_CONNECTING = 3"
definition COTCP_CONNECTED :: int where "COTCP_CONNECTED = 4"
definition COTCP_CLOSING :: int where "COTCP_CLOSING = 5"

definition COUDP_INVALID :: int where "COUDP_INVALID = 0"
definition COUDP_NEW :: int where "COUDP_NEW = 1"
definition COUDP_CLOSING :: int where "COUDP_CLOSING = 2"

definition COFD_INVALID :: int where "COFD_INVALID = 0"
definition COFD_NEW :: int where "COFD_NEW = 1"
definition COFD_BIND :: int where "COFD_BIND = 2"

lemmas io_states = COTCP_INVALID_def COTCP_NEW_def COTCP_LISTEN_def COTCP_CONNECTING_def COTCP_CONNECTED_def COTCP_CLOSING_def
  COUDP_INVALID_def COUDP_NEW_def COUDP_CLOSING_def COFD_INVALID_def COFD_NEW_def COFD_BIND_def

text \<open>Callbacks are numbers, \<open>None\<close> the null pointer; a receive buffer is its bytes.\<close>

record cotcp =
  tc_fd :: int
  tc_state :: int
  tc_recvsize :: int
  tc_recvbuf :: "cell list option"
  tc_ud :: nat
  tc_sendbuf :: "coringbuf option"
  tc_connect :: "nat option"
  tc_recv :: "nat option"
  tc_error :: "nat option"
  tc_close :: "nat option"

record udpbuffer =
  ub_data :: "cell list"
  ub_addr :: "byte list"

record coudp =
  ud_fd :: int
  ud_state :: int
  ud_recvsize :: int
  ud_recvbuf :: "cell list option"
  ud_ud :: nat
  ud_sendlist :: "udpbuffer list"
  ud_recv :: "nat option"
  ud_error :: "nat option"
  ud_close :: "nat option"

record cofd =
  fo_fd :: int
  fo_state :: int
  fo_recvsize :: int
  fo_recvbuf :: "cell list option"
  fo_ud :: nat
  fo_sendbuf :: "coringbuf option"
  fo_recv :: "nat option"
  fo_error :: "nat option"
  fo_close :: "nat option"

record coios =
  io_tcps :: "cotcp list"
  io_udps :: "coudp list"
  io_fds :: "cofd list"
  io_tcpid :: "32 word"
  io_udpid :: "32 word"
  io_fdid :: "32 word"
  io_log :: syslog

datatype io_event =
    TcpConnect nat nat | TcpRecv nat nat "cell list" | TcpError nat nat | TcpClose nat nat
  | UdpRecv nat nat "cell list" | UdpError nat nat | UdpClose nat nat
  | FdRecv nat nat "cell list" | FdError nat nat | FdClose nat nat

type_synonym io_app = "io_event \<Rightarrow> coios \<Rightarrow> coios exec"

definition zero_tcp :: cotcp where
  "zero_tcp = \<lparr>tc_fd = 0, tc_state = 0, tc_recvsize = 0, tc_recvbuf = None, tc_ud = 0, tc_sendbuf = None,
     tc_connect = None, tc_recv = None, tc_error = None, tc_close = None\<rparr>"

definition zero_udp :: coudp where
  "zero_udp = \<lparr>ud_fd = 0, ud_state = 0, ud_recvsize = 0, ud_recvbuf = None, ud_ud = 0, ud_sendlist = [],
     ud_recv = None, ud_error = None, ud_close = None\<rparr>"

definition zero_fd :: cofd where
  "zero_fd = \<lparr>fo_fd = 0, fo_state = 0, fo_recvsize = 0, fo_recvbuf = None, fo_ud = 0, fo_sendbuf = None,
     fo_recv = None, fo_error = None, fo_close = None\<rparr>"

definition coios_new :: coios where
  "coios_new = \<lparr>io_tcps = replicate COTCP_SIZE zero_tcp, io_udps = replicate COUDP_SIZE zero_udp, io_fds = replicate COFD_SIZE zero_fd,
     io_tcpid = 0, io_udpid = 0, io_fdid = 0, io_log = []\<rparr>"

text \<open>A system call and one whose answer is ignored.\<close>

definition syscall :: "kernel \<Rightarrow> sysreq \<Rightarrow> coios \<Rightarrow> sysres \<times> coios" where
  "syscall os r s = (let a = os (io_log s) r in (a, s\<lparr>io_log := io_log s @ [(r, a)]\<rparr>))"

definition sysdo :: "kernel \<Rightarrow> sysreq \<Rightarrow> coios \<Rightarrow> coios" where
  "sysdo os r s = snd (syscall os r s)"

definition call_cb :: "io_app \<Rightarrow> nat option \<Rightarrow> (nat \<Rightarrow> io_event) \<Rightarrow> coios \<Rightarrow> coios exec" where
  "call_cb app cb ev s = (case cb of None \<Rightarrow> Some s | Some f \<Rightarrow> app (ev f) s)"

definition INIT_READ_BUF :: int where "INIT_READ_BUF = 512"

text \<open>\<open>(uint16_t)65536\<close>\<close>

definition MAX_READ_BUF :: int where "MAX_READ_BUF = 65536 mod 2 ^ 16"

definition BACKLOG :: int where "BACKLOG = 128"

text \<open>The loop of \<open>write\<close> calls that empties a ring buffer: what it ended with.\<close>

datatype write_end = Written | Blocked | Failed

end
