(* ===== verification/IoTcp.thy ===== *)
theory IoTcp
  imports IoBase
begin

text \<open>
  The TCP sockets of \<open>src/co_ioservice.c\<close>: their slots, the handlers of the events of the poll and the
  operations of the application, with what a send and a read do whatever the kernel answers.
\<close>

section \<open>Loops of system calls\<close>

text \<open>A call repeated while it is interrupted.\<close>

partial_function (option) retry :: "kernel \<Rightarrow> sysreq \<Rightarrow> coios \<Rightarrow> (sysres \<times> coios) exec" where
  "retry os r s = (let (a, s) = syscall os r s in if a = Eintr then retry os r s else Some (a, s))"

text \<open>The loop of the write handlers, which empties a send buffer.\<close>

partial_function (option) send_loop :: "kernel \<Rightarrow> int \<Rightarrow> coringbuf \<Rightarrow> coios \<Rightarrow> (write_end \<times> coringbuf \<times> coios) exec" where
  "send_loop os fd rb s =
     (if coringbuf_readable_size rb \<noteq> 0 then do {
        let sz = CO_MIN 2048 (coringbuf_readonce_size rb);
        if sz = 0 then Some (Written, rb, s)
        else do {
          bs \<leftarrow> mem_load (rb_buffer rb) (coringbuf_head rb) sz;
          let (a, s) = syscall os (Sys_write fd bs) s;
          case a of
            Ret n \<Rightarrow> do {
              (b, rb) \<leftarrow> coringbuf_consume_size rb n;
              if n \<noteq> sz then Some (Blocked, rb, s) else send_loop os fd rb s
            }
          | Eintr \<Rightarrow> send_loop os fd rb s
          | Eagain \<Rightarrow> Some (Blocked, rb, s)
          | Errno \<Rightarrow> Some (Failed, rb, s)
          | Bytes x \<Rightarrow> None
        }
      } else Some (Written, rb, s))"

section \<open>Slots\<close>

definition get_tcp :: "coios \<Rightarrow> nat \<Rightarrow> cotcp exec" where
  "get_tcp s i = (if i < length (io_tcps s) then Some (io_tcps s ! i) else None)"

definition set_tcp :: "nat \<Rightarrow> cotcp \<Rightarrow> coios \<Rightarrow> coios" where
  "set_tcp i t s = s\<lparr>io_tcps := (io_tcps s)[i := t]\<rparr>"

primrec tcp_alloc_loop :: "nat \<Rightarrow> coios \<Rightarrow> (nat option \<times> coios) exec" where
  "tcp_alloc_loop 0 s = Some (None, s)"
| "tcp_alloc_loop (Suc n) s = do {
     let index = unat (io_tcpid s) mod COTCP_SIZE;
     let s = s\<lparr>io_tcpid := io_tcpid s + 1\<rparr>;
     t \<leftarrow> get_tcp s index;
     if tc_state t = COTCP_INVALID then Some (Some index, set_tcp index (t\<lparr>tc_state := COTCP_NEW\<rparr>) s)
     else tcp_alloc_loop n s
   }"

definition cotcp_alloc :: "coios \<Rightarrow> (nat option \<times> coios) exec" where
  "cotcp_alloc s = tcp_alloc_loop COTCP_SIZE s"

definition cotcp_free :: "coios \<Rightarrow> nat \<Rightarrow> coios exec" where
  "cotcp_free s i = do {
     t \<leftarrow> get_tcp s i;
     if tc_state t = COTCP_INVALID then Some s else Some (set_tcp i zero_tcp s)
   }"

definition cotcp_has_senddata :: "cotcp \<Rightarrow> bool" where
  "cotcp_has_senddata t = (case tc_sendbuf t of None \<Rightarrow> False | Some rb \<Rightarrow> coringbuf_readable_size rb \<noteq> 0)"

text \<open>\<open>_cotcp_close\<close>\<close>

definition tcp_close_fd :: "kernel \<Rightarrow> coios \<Rightarrow> nat \<Rightarrow> coios exec" where
  "tcp_close_fd os s i = do {
     t \<leftarrow> get_tcp s i;
     if tc_state t = COTCP_INVALID then Some s
     else cotcp_free (sysdo os (Sys_close (tc_fd t)) (sysdo os (Poll_del (tc_fd t)) s)) i
   }"

section \<open>Handlers\<close>

definition cotcp_handle_error :: "kernel \<Rightarrow> io_app \<Rightarrow> coios \<Rightarrow> nat \<Rightarrow> coios exec" where
  "cotcp_handle_error os app s i = do {
     t \<leftarrow> get_tcp s i;
     if tc_state t = COTCP_INVALID then Some s
     else do {
       s \<leftarrow> call_cb app (tc_error t) (\<lambda>f. TcpError f i) s;
       tcp_close_fd os s i
     }
   }"

definition cotcp_handle_accept :: "kernel \<Rightarrow> io_app \<Rightarrow> coios \<Rightarrow> nat \<Rightarrow> coios exec" where
  "cotcp_handle_accept os app s i = do {
     t \<leftarrow> get_tcp s i;
     (a, s) \<leftarrow> retry os (Sys_accept (tc_fd t)) s;
     case a of
       Ret fd \<Rightarrow> do {
         (c, s) \<leftarrow> cotcp_alloc s;
         case c of
           None \<Rightarrow> Some (sysdo os (Sys_close fd) s)
         | Some j \<Rightarrow> do {
             let s = sysdo os (Sys_nonblock fd) s;
             n \<leftarrow> get_tcp s j;
             let s = set_tcp j (n\<lparr>tc_fd := fd, tc_ud := tc_ud t, tc_state := COTCP_CONNECTED\<rparr>) s;
             let s = sysdo os (Poll_add fd (Tcp j)) s;
             call_cb app (tc_connect t) (\<lambda>f. TcpConnect f j) s
           }
       }
     | _ \<Rightarrow> Some s
   }"

definition cotcp_handle_connect :: "kernel \<Rightarrow> io_app \<Rightarrow> coios \<Rightarrow> nat \<Rightarrow> coios exec" where
  "cotcp_handle_connect os app s i = do {
     t \<leftarrow> get_tcp s i;
     let (a, s) = syscall os (Sys_sockerr (tc_fd t)) s;
     if a \<noteq> Ret 0 then do {
       s \<leftarrow> call_cb app (tc_error t) (\<lambda>f. TcpError f i) s;
       tcp_close_fd os s i
     } else do {
       let s = set_tcp i (t\<lparr>tc_state := COTCP_CONNECTED, tc_error := None\<rparr>) s;
       call_cb app (tc_connect t) (\<lambda>f. TcpConnect f i) s
     }
   }"

text \<open>The receive buffer after a read that filled it: \<open>realloc\<close> to the size 0 frees the block.\<close>

definition grow_recv :: "int \<Rightarrow> cell list option \<Rightarrow> int \<times> cell list option" where
  "grow_recv sz buf =
     (let sz = CO_MIN MAX_READ_BUF (sz * 2) mod 2 ^ 16
      in (sz, if sz = 0 then None else map_option (\<lambda>b. c_realloc b sz) buf))"

definition cotcp_handle_read :: "kernel \<Rightarrow> io_app \<Rightarrow> coios \<Rightarrow> nat \<Rightarrow> coios exec" where
  "cotcp_handle_read os app s i = do {
     t \<leftarrow> get_tcp s i;
     if tc_state t = COTCP_INVALID then Some s
     else do {
       let t = (if tc_recvbuf t = None then t\<lparr>tc_recvsize := INIT_READ_BUF, tc_recvbuf := Some (c_malloc INIT_READ_BUF)\<rparr> else t);
       let s = set_tcp i t s;
       (a, s) \<leftarrow> retry os (Sys_read (tc_fd t) (tc_recvsize t)) s;
       case a of
         Bytes bs \<Rightarrow>
           if bs = [] then do {
             s \<leftarrow> call_cb app (tc_close t) (\<lambda>f. TcpClose f i) s;
             tcp_close_fd os s i
           } else do {
             buf \<leftarrow> tc_recvbuf t;
             buf \<leftarrow> mem_store buf 0 bs;
             let t = t\<lparr>tc_recvbuf := Some buf\<rparr>;
             let s = set_tcp i t s;
             if tc_state t = COTCP_CONNECTED then do {
               s \<leftarrow> call_cb app (tc_recv t) (\<lambda>f. TcpRecv f i bs) s;
               t \<leftarrow> get_tcp s i;
               if tc_state t \<noteq> COTCP_INVALID \<and> int (length bs) = tc_recvsize t then
                 (case grow_recv (tc_recvsize t) (tc_recvbuf t) of
                    (sz, buf) \<Rightarrow> Some (set_tcp i (t\<lparr>tc_recvsize := sz, tc_recvbuf := buf\<rparr>) s))
               else Some s
             } else Some s
           }
       | Eagain \<Rightarrow> Some s
       | Errno \<Rightarrow> cotcp_handle_error os app s i
       | _ \<Rightarrow> None
     }
   }"

definition cotcp_check_closing :: "kernel \<Rightarrow> coios \<Rightarrow> nat \<Rightarrow> coios exec" where
  "cotcp_check_closing os s i = do {
     t \<leftarrow> get_tcp s i;
     if tc_state t = COTCP_CLOSING then tcp_close_fd os s i
     else Some (sysdo os (Poll_write (tc_fd t) (Tcp i) False) s)
   }"

definition cotcp_handle_write :: "kernel \<Rightarrow> io_app \<Rightarrow> coios \<Rightarrow> nat \<Rightarrow> coios exec" where
  "cotcp_handle_write os app s i = do {
     t \<leftarrow> get_tcp s i;
     if tc_state t = COTCP_INVALID then Some s
     else (case tc_sendbuf t of
       None \<Rightarrow> cotcp_check_closing os s i
     | Some rb \<Rightarrow> do {
         (e, rb, s) \<leftarrow> send_loop os (tc_fd t) rb s;
         let s = set_tcp i (t\<lparr>tc_sendbuf := Some rb\<rparr>) s;
         case e of
           Written \<Rightarrow> cotcp_check_closing os s i
         | Blocked \<Rightarrow> Some s
         | Failed \<Rightarrow> cotcp_handle_error os app s i
       })
   }"

section \<open>Listening and connecting\<close>

datatype tried = Found int | Aborted | Exhausted

primrec listen_loop :: "kernel \<Rightarrow> nat list \<Rightarrow> coios \<Rightarrow> tried \<times> coios" where
  "listen_loop os [] s = (Exhausted, s)"
| "listen_loop os (rp # rps) s =
     (case syscall os (Sys_socket rp) s of
        (Ret fd, s) \<Rightarrow>
          (case syscall os (Sys_reuseaddr fd) s of
             (Ret x, s) \<Rightarrow>
               (case syscall os (Sys_bind fd rp) s of
                  (Ret y, s) \<Rightarrow> (Found fd, s)
                | (a, s) \<Rightarrow> listen_loop os rps (sysdo os (Sys_close fd) s))
           | (a, s) \<Rightarrow> (Aborted, sysdo os (Sys_close fd) s))
      | (a, s) \<Rightarrow> listen_loop os rps s)"

text \<open>\<open>getaddrinfo\<close> answers with the number of addresses.\<close>

definition cotcp_listen :: "kernel \<Rightarrow> coios \<Rightarrow> nat \<Rightarrow> nat \<Rightarrow> nat \<Rightarrow> nat option \<Rightarrow> (nat option \<times> coios) exec" where
  "cotcp_listen os s ip port ud fn_connect = do {
     (c, s) \<leftarrow> cotcp_alloc s;
     case c of
       None \<Rightarrow> Some (None, s)
     | Some i \<Rightarrow>
         (case syscall os (Sys_getaddrinfo ip port) s of
            (Ret n, s) \<Rightarrow>
              (case listen_loop os [0..<nat n] s of
                 (Found fd, s) \<Rightarrow>
                   (case syscall os (Sys_listen fd BACKLOG) s of
                      (Ret x, s) \<Rightarrow> do {
                        t \<leftarrow> get_tcp s i;
                        let s = set_tcp i (t\<lparr>tc_fd := fd, tc_ud := ud, tc_connect := fn_connect, tc_state := COTCP_LISTEN\<rparr>) s;
                        Some (Some i, sysdo os (Poll_add fd (Tcp i)) s)
                      }
                    | (a, s) \<Rightarrow> do { s \<leftarrow> cotcp_free (sysdo os (Sys_close fd) s) i; Some (None, s) })
               | (e, s) \<Rightarrow> do { s \<leftarrow> cotcp_free s i; Some (None, s) })
          | (a, s) \<Rightarrow> do { s \<leftarrow> cotcp_free s i; Some (None, s) })
   }"

text \<open>The socket that connects and whether it has done so at once.\<close>

primrec connect_loop :: "kernel \<Rightarrow> nat list \<Rightarrow> coios \<Rightarrow> (int \<times> bool) option \<times> coios" where
  "connect_loop os [] s = (None, s)"
| "connect_loop os (rp # rps) s =
     (case syscall os (Sys_socket rp) s of
        (Ret fd, s) \<Rightarrow>
          (let s = sysdo os (Sys_nonblock fd) s
           in case syscall os (Sys_connect fd rp) s of
                (Ret x, s) \<Rightarrow> (Some (fd, True), s)
              | (Eagain, s) \<Rightarrow> (Some (fd, False), s)
              | (a, s) \<Rightarrow> connect_loop os rps (sysdo os (Sys_close fd) s))
      | (a, s) \<Rightarrow> connect_loop os rps s)"

definition cotcp_connect :: "kernel \<Rightarrow> io_app \<Rightarrow> coios \<Rightarrow> nat \<Rightarrow> nat \<Rightarrow> nat \<Rightarrow> nat option \<Rightarrow> nat option \<Rightarrow> (bool \<times> coios) exec" where
  "cotcp_connect os app s ip port ud fn_connect fn_error = do {
     (c, s) \<leftarrow> cotcp_alloc s;
     case c of
       None \<Rightarrow> Some (False, s)
     | Some i \<Rightarrow>
         (case syscall os (Sys_getaddrinfo ip port) s of
            (Ret n, s) \<Rightarrow>
              (case connect_loop os [0..<nat n] s of
                 (Some (fd, now), s) \<Rightarrow> do {
                   t \<leftarrow> get_tcp s i;
                   let t = t\<lparr>tc_fd := fd, tc_ud := ud, tc_connect := fn_connect, tc_error := fn_error\<rparr>;
                   let s = sysdo os (Poll_add fd (Tcp i)) (set_tcp i t s);
                   if now then do {
                     s \<leftarrow> call_cb app fn_connect (\<lambda>f. TcpConnect f i) (set_tcp i (t\<lparr>tc_state := COTCP_CONNECTED\<rparr>) s);
                     Some (True, s)
                   } else Some (True, sysdo os (Poll_write fd (Tcp i) True) (set_tcp i (t\<lparr>tc_state := COTCP_CONNECTING\<rparr>) s))
                 }
               | (None, s) \<Rightarrow> do { s \<leftarrow> cotcp_free s i; Some (False, s) })
          | (a, s) \<Rightarrow> do { s \<leftarrow> cotcp_free s i; Some (False, s) })
   }"

section \<open>Sending and closing\<close>

definition cotcp_send :: "kernel \<Rightarrow> io_app \<Rightarrow> coios \<Rightarrow> nat \<Rightarrow> cell list \<Rightarrow> int \<Rightarrow> (bool \<times> coios) exec" where
  "cotcp_send os app s i buff sz = do {
     t \<leftarrow> get_tcp s i;
     if tc_state t \<noteq> COTCP_CONNECTED \<or> sz = 0 then Some (False, s)
     else do {
       rb \<leftarrow> (case tc_sendbuf t of None \<Rightarrow> map_option coringbuf_new (i32 (sz * 2)) | Some rb \<Rightarrow> Some rb);
       rb \<leftarrow> coringbuf_write rb buff sz;
       let s = sysdo os (Poll_write (tc_fd t) (Tcp i) True) (set_tcp i (t\<lparr>tc_sendbuf := Some rb\<rparr>) s);
       s \<leftarrow> cotcp_handle_write os app s i;
       Some (True, s)
     }
   }"

definition cotcp_close :: "kernel \<Rightarrow> io_app \<Rightarrow> coios \<Rightarrow> nat \<Rightarrow> bool \<Rightarrow> (bool \<times> coios) exec" where
  "cotcp_close os app s i force = do {
     t \<leftarrow> get_tcp s i;
     if tc_state t > COTCP_NEW \<and> tc_state t < COTCP_CLOSING then do {
       s \<leftarrow> (if cotcp_has_senddata t then cotcp_handle_write os app s i else Some s);
       t \<leftarrow> get_tcp s i;
       s \<leftarrow> (if force \<or> \<not> cotcp_has_senddata t then do {
               s \<leftarrow> call_cb app (tc_close t) (\<lambda>f. TcpClose f i) s;
               tcp_close_fd os s i
             } else Some (set_tcp i (t\<lparr>tc_state := COTCP_CLOSING\<rparr>) s));
       Some (True, s)
     } else Some (False, s)
   }"

definition cotcp_on_error :: "coios \<Rightarrow> nat \<Rightarrow> nat option \<Rightarrow> (bool \<times> coios) exec" where
  "cotcp_on_error s i fn = do {
     t \<leftarrow> get_tcp s i;
     if tc_state t > COTCP_NEW \<and> tc_state t < COTCP_CLOSING then Some (True, set_tcp i (t\<lparr>tc_error := fn\<rparr>) s) else Some (False, s)
   }"

definition cotcp_on_recv :: "coios \<Rightarrow> nat \<Rightarrow> nat option \<Rightarrow> (bool \<times> coios) exec" where
  "cotcp_on_recv s i fn = do {
     t \<leftarrow> get_tcp s i;
     if tc_state t > COTCP_LISTEN \<and> tc_state t < COTCP_CLOSING then Some (True, set_tcp i (t\<lparr>tc_recv := fn\<rparr>) s) else Some (False, s)
   }"

definition cotcp_on_close :: "coios \<Rightarrow> nat \<Rightarrow> nat option \<Rightarrow> (bool \<times> coios) exec" where
  "cotcp_on_close s i fn = do {
     t \<leftarrow> get_tcp s i;
     if tc_state t > COTCP_NEW \<and> tc_state t < COTCP_CLOSING then Some (True, set_tcp i (t\<lparr>tc_close := fn\<rparr>) s) else Some (False, s)
   }"


section \<open>Events of the poll\<close>

text \<open>The branch of \<open>_coios_process_event\<close> for a TCP socket; the flags are those of the event.\<close>

definition cotcp_event :: "kernel \<Rightarrow> io_app \<Rightarrow> coios \<Rightarrow> nat \<Rightarrow> bool \<Rightarrow> bool \<Rightarrow> bool \<Rightarrow> coios exec" where
  "cotcp_event os app s i rd wr er = do {
     t \<leftarrow> get_tcp s i;
     if tc_state t = COTCP_LISTEN then cotcp_handle_accept os app s i
     else if tc_state t = COTCP_CONNECTING then cotcp_handle_connect os app s i
     else if tc_state t = COTCP_INVALID then Some s
     else do {
       s \<leftarrow> (if rd then cotcp_handle_read os app s i else Some s);
       s \<leftarrow> (if wr then cotcp_handle_write os app s i else Some s);
       if er then cotcp_handle_error os app s i else Some s
     }
   }"

section \<open>What a send loop does\<close>

text \<open>The bytes the kernel has accepted for a descriptor.\<close>

fun sent :: "int \<Rightarrow> syslog \<Rightarrow> cell list" where
  "sent fd [] = []"
| "sent fd ((Sys_write g bs, Ret n) # es) = (if g = fd then take (nat n) bs @ sent fd es else sent fd es)"
| "sent fd (e # es) = sent fd es"

lemma sent_append [simp]: "sent fd (es @ fs) = sent fd es @ sent fd fs"
  by (induction fd es rule: sent.induct) auto

lemma readable_content: "rb_ok rb \<Longrightarrow> coringbuf_readable_size rb = int (length (rb_content rb))"
  by (elim rb_okE) (simp add: readable_ring)

lemma once_content:
  assumes "rb_ok rb" "rb_content rb \<noteq> []"
  shows "0 < coringbuf_readonce_size rb" "coringbuf_readonce_size rb \<le> int (length (rb_content rb))"
    and "0 \<le> n \<Longrightarrow> n \<le> coringbuf_readonce_size rb \<Longrightarrow>
      mem_load (rb_buffer rb) (coringbuf_head rb) n = Some (take (nat n) (rb_content rb))"
proof -
  obtain xs h t where rb: "rb = mk_rb xs h t" and b: "length xs \<le> 2 ^ 30" "h < length xs" "t < length xs"
    using assms(1) by (rule rb_okE)
  define l where "l = (if h \<le> t then t - h else length xs - h)"
  have l: "coringbuf_readonce_size rb = int l" using readonce_ring [OF b(2), of t] by (simp add: rb l_def)
  have ht: "h \<noteq> t" using assms(2) b by (auto simp: rb ring_empty_iff)
  have len: "length (rb_content rb) = (if h \<le> t then t - h else length xs - (h - t))" using b by (simp add: rb length_ring)
  show "0 < coringbuf_readonce_size rb" "coringbuf_readonce_size rb \<le> int (length (rb_content rb))"
    using b ht unfolding l len by (auto simp: l_def)
  assume n: "0 \<le> n" "n \<le> coringbuf_readonce_size rb"
  have k: "nat n \<le> l" "nat n \<le> length (ring h t xs)" "int (nat n) = n" using n l len b ht by (auto simp: rb l_def)
  have "h + nat n \<le> length xs" using k(1) b by (auto simp: l_def split: if_splits)
  then have "mem_load xs (int h) (int (nat n)) = Some (take (nat n) (drop h xs))" by (rule mem_load_nat)
  moreover have "take (nat n) (ring h t xs) = take (nat n) (drop h xs)"
    using ring_take_parts [OF b(2,3) k(2) l_def] k(1) by (simp add: min_absorb1)
  ultimately show "mem_load (rb_buffer rb) (coringbuf_head rb) n = Some (take (nat n) (rb_content rb))"
    using k(3) by (simp add: rb coringbuf_head_def)
qed

definition logged :: "coios \<Rightarrow> syslog \<Rightarrow> coios" where
  "logged s es = s\<lparr>io_log := io_log s @ es\<rparr>"

lemma logged_simps [simp]:
  "io_log (logged s es) = io_log s @ es" "io_tcps (logged s es) = io_tcps s" "logged (logged s es) fs = logged s (es @ fs)"
  "logged s [] = s" "io_udps (logged s es) = io_udps s" "io_fds (logged s es) = io_fds s"
  by (simp_all add: logged_def)

lemma syscall_logged: "syscall os r s = (os (io_log s) r, logged s [(r, os (io_log s) r)])"
  by (simp add: syscall_def logged_def Let_def)

lemma sysdo_logged: "sysdo os r s = logged s [(r, os (io_log s) r)]"
  by (simp add: sysdo_def syscall_logged)

text \<open>How a loop ended: everything was written, the kernel took less than it was given or nothing, or it
  failed.\<close>

definition writes :: "kernel \<Rightarrow> int \<Rightarrow> syslog \<Rightarrow> bool" where
  "writes os fd es \<longleftrightarrow> (\<forall>x\<in>set es. \<exists>bs log. fst x = Sys_write fd bs \<and> snd x = os log (fst x))"

lemma writes_simps [simp]: "writes os fd []"
  "writes os fd (x # es) \<longleftrightarrow> (\<exists>bs log. fst x = Sys_write fd bs \<and> snd x = os log (fst x)) \<and> writes os fd es"
  by (simp_all add: writes_def)

definition loop_result :: "kernel \<Rightarrow> int \<Rightarrow> coringbuf \<Rightarrow> write_end \<Rightarrow> coringbuf \<Rightarrow> syslog \<Rightarrow> bool" where
  "loop_result os fd rb e rb' es \<longleftrightarrow> rb_ok rb' \<and> rb_size rb' = rb_size rb \<and> sent fd es @ rb_content rb' = rb_content rb \<and>
     writes os fd es \<and> (e = Written \<longleftrightarrow> rb_content rb' = []) \<and> (e = Failed \<longleftrightarrow> (\<exists>x\<in>set es. snd x = Errno))"

lemma consume_same_size: "coringbuf_consume_size rb n = Some (b, rb') \<Longrightarrow> rb_size rb' = rb_size rb"
  by (auto simp: coringbuf_consume_size_def Let_def split: if_splits Option.bind_splits)

lemma send_loop_spec:
  assumes os: "kernel_ok os" and ok: "rb_ok rb"
  shows "\<exists>e rb' es. send_loop os fd rb s = Some (e, rb', logged s es) \<and> loop_result os fd rb e rb' es"
  using ok
proof (induction "length (rb_content rb)" arbitrary: rb s rule: less_induct)
  case less
  note rok = less.prems
  show ?case
  proof (cases "rb_content rb = []")
    case True
    then have "send_loop os fd rb s = Some (Written, rb, logged s [])"
      using readable_content [OF rok] by (subst send_loop.simps) simp
    then show ?thesis using True rok by (fastforce simp: loop_result_def)
  next
    case ne: False
    define sz where "sz = CO_MIN 2048 (coringbuf_readonce_size rb)"
    define bs where "bs = take (nat sz) (rb_content rb)"
    define r where "r = Sys_write fd bs"
    have sz: "0 < sz" "sz \<le> int (length (rb_content rb))" "mem_load (rb_buffer rb) (coringbuf_head rb) sz = Some bs"
      using once_content [OF rok ne] by (auto simp: sz_def bs_def)
    have lbs: "int (length bs) = sz" using sz by (simp add: bs_def)
    have rd: "coringbuf_readable_size rb \<noteq> 0" using readable_content [OF rok] ne by simp
    have step: "send_loop os fd rb s =
      (case os (io_log s) r of
         Ret n \<Rightarrow> do { (b, rb1) \<leftarrow> coringbuf_consume_size rb n; if n \<noteq> sz then Some (Blocked, rb1, logged s [(r, os (io_log s) r)])
           else send_loop os fd rb1 (logged s [(r, os (io_log s) r)]) }
       | Eintr \<Rightarrow> send_loop os fd rb (logged s [(r, os (io_log s) r)])
       | Eagain \<Rightarrow> Some (Blocked, rb, logged s [(r, os (io_log s) r)])
       | Errno \<Rightarrow> Some (Failed, rb, logged s [(r, os (io_log s) r)])
       | Bytes x \<Rightarrow> None)" for s
    proof -
      have m: "CO_MIN 2048 (coringbuf_readonce_size rb) = sz" by (simp add: sz_def)
      show ?thesis using rd sz unfolding r_def by (subst send_loop.simps) (simp add: Let_def m [simplified] syscall_logged)
    qed
    have base: "\<exists>e rb' es. send_loop os fd rb s = Some (e, rb', logged s es) \<and> loop_result os fd rb e rb' es"
      if ni: "os (io_log s) r \<noteq> Eintr" for s
    proof -
      have ke: "case os (io_log s) r of Ret n \<Rightarrow> 0 \<le> n \<and> n \<le> int (length bs) | Bytes _ \<Rightarrow> False | _ \<Rightarrow> True"
        using os unfolding kernel_ok_def r_def by blast
      show ?thesis
      proof (cases "os (io_log s) r")
        case (Ret n)
        have n: "0 \<le> n" "n \<le> sz" using ke Ret lbs by simp_all
        have "n \<le> int (length (rb_content rb))" using n sz by simp
        then obtain rb1 where c: "coringbuf_consume_size rb n = Some (True, rb1)" "rb_ok rb1" "rb_content rb1 = drop (nat n) (rb_content rb)"
          using coringbuf_consume_spec [OF rok n(1)] by auto
        have wl: "\<exists>log. Ret n = os log (Sys_write fd bs)" using Ret unfolding r_def by metis
        have z1: "rb_size rb1 = rb_size rb" by (rule consume_same_size [OF c(1)])
        have w: "take (nat n) bs @ rb_content rb1 = rb_content rb" using n c(3) by (simp add: bs_def min_def)
        show ?thesis
        proof (cases "n = sz")
          case False
          then have "rb_content rb1 \<noteq> []" using n sz c(3) by simp
          moreover have "send_loop os fd rb s = Some (Blocked, rb1, logged s [(r, Ret n)])" using step [of s] Ret c(1) False by simp
          moreover from calculation(1) have "loop_result os fd rb Blocked rb1 [(r, Ret n)]"
            using c(2) w z1 wl by (simp add: loop_result_def r_def)
          ultimately show ?thesis by blast
        next
          case True
          have "length (rb_content rb1) < length (rb_content rb)" using c(3) True sz by simp
          from less.hyps [OF this c(2), of "logged s [(r, Ret n)]"] obtain e rb' es
            where "send_loop os fd rb1 (logged s [(r, Ret n)]) = Some (e, rb', logged s ((r, Ret n) # es))" "loop_result os fd rb1 e rb' es" by auto
          then have e: "send_loop os fd rb1 (logged s [(r, Ret n)]) = Some (e, rb', logged s ((r, Ret n) # es))"
            "sent fd es @ rb_content rb' = rb_content rb1" "loop_result os fd rb1 e rb' es" by (simp_all add: loop_result_def)
          have "send_loop os fd rb s = Some (e, rb', logged s ((r, Ret n) # es))" using step [of s] Ret c(1) True e(1) by simp
          moreover have "sent fd ((r, Ret n) # es) @ rb_content rb' = rb_content rb" using w by (simp add: r_def e(2))
          moreover from this have "loop_result os fd rb e rb' ((r, Ret n) # es)" using e(3) z1 wl unfolding loop_result_def r_def by auto
          ultimately show ?thesis by blast
        qed
      next
        case Eagain
        then have "\<exists>log. Eagain = os log (Sys_write fd bs)" unfolding r_def by metis
        then have "loop_result os fd rb Blocked rb [(r, Eagain)]" using rok ne by (simp add: loop_result_def r_def)
        moreover have "send_loop os fd rb s = Some (Blocked, rb, logged s [(r, Eagain)])" using step [of s] Eagain by simp
        ultimately show ?thesis by blast
      next
        case Errno
        then have "\<exists>log. Errno = os log (Sys_write fd bs)" unfolding r_def by metis
        then have "loop_result os fd rb Failed rb [(r, Errno)]" using rok ne by (simp add: loop_result_def r_def)
        moreover have "send_loop os fd rb s = Some (Failed, rb, logged s [(r, Errno)])" using step [of s] Errno by simp
        ultimately show ?thesis by blast
      qed (use ke ni in simp_all)
    qed
    have "\<exists>e rb' es. send_loop os fd rb s = Some (e, rb', logged s es) \<and> loop_result os fd rb e rb' es"
      if "os (io_log s @ replicate k (r, Eintr)) r \<noteq> Eintr" for k s
      using that
    proof (induction k arbitrary: s)
      case 0
      then show ?case using base by simp
    next
      case (Suc k)
      show ?case
      proof (cases "os (io_log s) r = Eintr")
        case True
        have "os (io_log (logged s [(r, Eintr)]) @ replicate k (r, Eintr)) r \<noteq> Eintr" using Suc.prems by simp
        from Suc.IH [OF this] obtain e rb' es where e: "send_loop os fd rb (logged s [(r, Eintr)]) = Some (e, rb', logged (logged s [(r, Eintr)]) es)"
          "loop_result os fd rb e rb' es" by blast
        have "send_loop os fd rb s = Some (e, rb', logged s ((r, Eintr) # es))" using step [of s] True e(1) by simp
        moreover have "loop_result os fd rb e rb' ((r, Eintr) # es)" 
        proof -
          have "\<exists>log. Eintr = os log (Sys_write fd bs)" using True unfolding r_def by metis
          then show ?thesis using e(2) by (simp add: loop_result_def r_def)
        qed
        ultimately show ?thesis by blast
      qed (rule base)
    qed
    moreover obtain k where "os (io_log s @ replicate k (r, Eintr)) r \<noteq> Eintr" using os unfolding kernel_ok_def by blast
    ultimately show ?thesis by blast
  qed
qed

section \<open>Writing from a slot\<close>

lemma tcp_simps [simp]:
  "get_tcp (logged s es) i = get_tcp s i" "set_tcp i t (logged s es) = logged (set_tcp i t s) es"
  "io_log (set_tcp i t s) = io_log s" "set_tcp i t (set_tcp i u s) = set_tcp i t s"
  "i < length (io_tcps s) \<Longrightarrow> get_tcp (set_tcp i t s) i = Some t" "j \<noteq> i \<Longrightarrow> get_tcp (set_tcp i t s) j = get_tcp s j"
  by (simp_all add: get_tcp_def set_tcp_def logged_def)

lemma get_tcp_at: "get_tcp s i = Some t \<Longrightarrow> i < length (io_tcps s)"
  by (simp add: get_tcp_def split: if_splits)

lemma set_tcp_same: "get_tcp s i = Some t \<Longrightarrow> set_tcp i t s = s"
  by (auto simp: get_tcp_def set_tcp_def split: if_splits)

definition pending :: "cotcp \<Rightarrow> cell list" where
  "pending t = (case tc_sendbuf t of None \<Rightarrow> [] | Some rb \<Rightarrow> rb_content rb)"

definition tcp_ok :: "cotcp \<Rightarrow> bool" where
  "tcp_ok t \<longleftrightarrow> (case tc_sendbuf t of None \<Rightarrow> True | Some rb \<Rightarrow> rb_ok rb)"

lemma has_senddata_pending: "tcp_ok t \<Longrightarrow> cotcp_has_senddata t \<longleftrightarrow> pending t \<noteq> []"
  by (auto simp: tcp_ok_def cotcp_has_senddata_def pending_def readable_content split: option.splits)

definition same_but_buf :: "cotcp \<Rightarrow> cotcp \<Rightarrow> bool" where
  "same_but_buf t t' \<longleftrightarrow> (\<exists>b. t' = t\<lparr>tc_sendbuf := b\<rparr>)"

lemma same_but_buf_simps:
  assumes "same_but_buf t t'"
  shows "tc_fd t' = tc_fd t" "tc_state t' = tc_state t" "tc_ud t' = tc_ud t" "tc_close t' = tc_close t" "tc_error t' = tc_error t"
    "tc_recv t' = tc_recv t" "tc_connect t' = tc_connect t" "tc_recvbuf t' = tc_recvbuf t" "tc_recvsize t' = tc_recvsize t"
  using assms by (auto simp: same_but_buf_def)

lemma tcp_close_fd_spec:
  assumes "get_tcp s i = Some t" "tc_state t \<noteq> COTCP_INVALID"
  shows "\<exists>a b. tcp_close_fd os s i = Some (logged (set_tcp i zero_tcp s) [(Poll_del (tc_fd t), a), (Sys_close (tc_fd t), b)])"
  using assms get_tcp_at [OF assms(1)] by (simp add: tcp_close_fd_def cotcp_free_def sysdo_logged) blast

lemma handle_write_spec:
  assumes os: "kernel_ok os" and t: "get_tcp s i = Some t" "tc_state t \<noteq> COTCP_INVALID" "tcp_ok t"
  shows "\<exists>t' es. same_but_buf t t' \<and> tcp_ok t' \<and> writes os (tc_fd t) es \<and> sent (tc_fd t) es @ pending t' = pending t \<and>
    (if \<exists>x\<in>set es. snd x = Errno then cotcp_handle_write os app s i = cotcp_handle_error os app (logged (set_tcp i t' s) es) i
     else if pending t' \<noteq> [] then cotcp_handle_write os app s i = Some (logged (set_tcp i t' s) es)
     else cotcp_handle_write os app s i = cotcp_check_closing os (logged (set_tcp i t' s) es) i)"
proof (cases "tc_sendbuf t")
  case None
  then have "cotcp_handle_write os app s i = cotcp_check_closing os (logged (set_tcp i t s) []) i"
    using t by (simp add: cotcp_handle_write_def set_tcp_same)
  then show ?thesis using None t by (intro exI [of _ t] exI [of _ "[]"]) (auto simp: pending_def same_but_buf_def intro: exI [of _ None])
next
  case (Some rb)
  then have "rb_ok rb" using t(3) by (simp add: tcp_ok_def)
  from send_loop_spec [OF os this, of "tc_fd t" s] obtain e rb' es
    where r: "send_loop os (tc_fd t) rb s = Some (e, rb', logged s es)" "loop_result os (tc_fd t) rb e rb' es" by blast
  let ?t = "t\<lparr>tc_sendbuf := Some rb'\<rparr>"
  have p: "pending t = rb_content rb" "pending ?t = rb_content rb'" using Some by (simp_all add: pending_def)
  have "cotcp_handle_write os app s i =
    (case e of Written \<Rightarrow> cotcp_check_closing os (logged (set_tcp i ?t s) es) i | Blocked \<Rightarrow> Some (logged (set_tcp i ?t s) es)
     | Failed \<Rightarrow> cotcp_handle_error os app (logged (set_tcp i ?t s) es) i)"
    using t(1,2) Some r(1) by (cases e) (simp_all add: cotcp_handle_write_def Let_def)
  moreover have "same_but_buf t ?t" "tcp_ok ?t" "writes os (tc_fd t) es" "sent (tc_fd t) es @ pending ?t = pending t"
    using r(2) p by (auto simp: loop_result_def same_but_buf_def tcp_ok_def)
  ultimately show ?thesis using r(2) p(2) by (intro exI [of _ ?t] exI [of _ es]) (cases e; auto simp: loop_result_def)
qed

section \<open>Streams\<close>

text \<open>The application sends or the poll reports that the socket can be written to.\<close>

datatype tcp_op = Send "cell list" | Writable

fun sends :: "tcp_op list \<Rightarrow> cell list" where
  "sends [] = []"
| "sends (Send bs # ops) = bs @ sends ops"
| "sends (Writable # ops) = sends ops"

fun run_tcp :: "kernel \<Rightarrow> io_app \<Rightarrow> nat \<Rightarrow> tcp_op list \<Rightarrow> coios \<Rightarrow> coios exec" where
  "run_tcp os app i [] s = Some s"
| "run_tcp os app i (Send bs # ops) s = do { (b, s) \<leftarrow> cotcp_send os app s i bs (int (length bs)); cassert b; run_tcp os app i ops s }"
| "run_tcp os app i (Writable # ops) s = do { s \<leftarrow> cotcp_handle_write os app s i; run_tcp os app i ops s }"

definition no_write_errors :: "kernel \<Rightarrow> bool" where
  "no_write_errors os \<longleftrightarrow> (\<forall>log fd bs. os log (Sys_write fd bs) \<noteq> Errno)"

definition others :: "nat \<Rightarrow> coios \<Rightarrow> coios \<Rightarrow> bool" where
  "others i s s' \<longleftrightarrow> (\<forall>j. j \<noteq> i \<longrightarrow> get_tcp s' j = get_tcp s j)"

end
