(* ===== verification/IoConn.thy ===== *)
theory IoConn
  imports IoTcp
begin

text \<open>
  What happens to the bytes of one TCP connection: sends and write events, closing, and the receive buffer.
\<close>

text \<open>The last thing the poll was told about writing to a descriptor.\<close>

fun armed :: "int \<Rightarrow> syslog \<Rightarrow> bool \<Rightarrow> bool" where
  "armed fd [] b = b"
| "armed fd ((Poll_write g i on, a) # es) b = armed fd es (if g = fd then on else b)"
| "armed fd (e # es) b = armed fd es b"

lemma armed_append [simp]: "armed fd (es @ fs) b = armed fd fs (armed fd es b)"
  by (induction fd es b rule: armed.induct) auto

lemma armed_writes [simp]: "writes os fd es \<Longrightarrow> armed gd es b = b"
  by (induction gd es b rule: armed.induct) auto

definition connected :: "nat \<Rightarrow> coios \<Rightarrow> cotcp \<Rightarrow> bool" where
  "connected i s t \<longleftrightarrow> get_tcp s i = Some t \<and> tc_state t = COTCP_CONNECTED \<and> tcp_ok t \<and>
     (armed (tc_fd t) (io_log s) False \<longleftrightarrow> pending t \<noteq> [])"

lemma writes_no_errors: "writes os fd es \<Longrightarrow> no_write_errors os \<Longrightarrow> x \<in> set es \<Longrightarrow> snd x \<noteq> Errno"
  unfolding writes_def no_write_errors_def by (metis prod.collapse)

lemma others_set [intro]: "others i s (logged (set_tcp i t s) es)" "others i s s' \<Longrightarrow> others i s' s'' \<Longrightarrow> others i s s''"
  by (simp_all add: others_def)

text \<open>One write event, or the attempt to write at the end of a send.\<close>

lemma written_connected:
  assumes t: "get_tcp s i = Some t" "tc_state t = COTCP_CONNECTED" "pending t \<noteq> [] \<Longrightarrow> armed (tc_fd t) (io_log s) False"
    and same: "same_but_buf t t'" and ok: "tcp_ok t'" and w: "writes os (tc_fd t) es" and p: "sent (tc_fd t) es @ pending t' = pending t"
    and h: "r = (if pending t' \<noteq> [] then Some (logged (set_tcp i t' s) es) else cotcp_check_closing os (logged (set_tcp i t' s) es) i)"
  shows "\<exists>s' es. r = Some s' \<and> connected i s' t' \<and> others i s s' \<and>
    io_log s' = io_log s @ es \<and> sent (tc_fd t) es @ pending t' = pending t \<and> (\<forall>x\<in>set es. fst x \<noteq> Sys_close (tc_fd t))"
proof -
  have st: "tc_state t \<noteq> COTCP_CLOSING" using t(2) by (simp add: io_states)
  note f = same_but_buf_simps [OF same]
  have i: "i < length (io_tcps s)" by (rule get_tcp_at [OF t(1)])
  show ?thesis
  proof (cases "pending t' = []")
    case False
    then have "r = Some (logged (set_tcp i t' s) es)" using h by simp
    moreover have "connected i (logged (set_tcp i t' s) es) t'"
    proof -
      have "pending t \<noteq> []" using False p by auto
      then show ?thesis using False w t i ok by (simp add: connected_def f)
    qed
    moreover have "\<forall>x\<in>set es. fst x \<noteq> Sys_close (tc_fd t)" using w by (auto simp: writes_def)
    ultimately show ?thesis using p by fastforce
  next
    case True
    let ?q = "Poll_write (tc_fd t) (Tcp i) False"
    have "r = cotcp_check_closing os (logged (set_tcp i t' s) es) i" using h True by simp
    then obtain a where "r = Some (logged (set_tcp i t' s) (es @ [(?q, a)]))"
      using i st f by (simp add: cotcp_check_closing_def sysdo_logged)
    moreover have "connected i (logged (set_tcp i t' s) (es @ [(?q, a)])) t'" using True t ok i by (simp add: connected_def f)
    moreover have "sent (tc_fd t) (es @ [(?q, a)]) @ pending t' = pending t" using p by (cases a) simp_all
    moreover have "\<forall>x\<in>set (es @ [(?q, a)]). fst x \<noteq> Sys_close (tc_fd t)" using w by (auto simp: writes_def)
    ultimately show ?thesis by fastforce
  qed
qed

lemma handle_write_connected:
  assumes os: "kernel_ok os" "no_write_errors os"
    and t: "get_tcp s i = Some t" "tc_state t = COTCP_CONNECTED" "tcp_ok t" "pending t \<noteq> [] \<Longrightarrow> armed (tc_fd t) (io_log s) False"
  shows "\<exists>s' t' es. cotcp_handle_write os app s i = Some s' \<and> connected i s' t' \<and> same_but_buf t t' \<and> others i s s' \<and>
    io_log s' = io_log s @ es \<and> sent (tc_fd t) es @ pending t' = pending t"
proof -
  have st: "tc_state t \<noteq> COTCP_INVALID" using t(2) by (simp add: io_states)
  from handle_write_spec [OF os(1) t(1) st t(3), of app] obtain t' es
    where same: "same_but_buf t t'" and ok: "tcp_ok t'" and w: "writes os (tc_fd t) es" and p: "sent (tc_fd t) es @ pending t' = pending t"
      and h: "if \<exists>x\<in>set es. snd x = Errno then cotcp_handle_write os app s i = cotcp_handle_error os app (logged (set_tcp i t' s) es) i
       else if pending t' \<noteq> [] then cotcp_handle_write os app s i = Some (logged (set_tcp i t' s) es)
       else cotcp_handle_write os app s i = cotcp_check_closing os (logged (set_tcp i t' s) es) i" by blast
  have ne: "\<not> (\<exists>x\<in>set es. snd x = Errno)" using writes_no_errors [OF w os(2)] by blast
  have "cotcp_handle_write os app s i = (if pending t' \<noteq> [] then Some (logged (set_tcp i t' s) es)
      else cotcp_check_closing os (logged (set_tcp i t' s) es) i)" using h ne by (auto split: if_splits)
  from written_connected [OF t(1,2,4) same ok w p this] same show ?thesis by blast
qed

definition ring_wf :: "coringbuf option \<Rightarrow> bool" where
  "ring_wf b \<longleftrightarrow> (case b of None \<Rightarrow> True | Some rb \<Rightarrow> rb_ok rb)"

definition ring_bytes :: "coringbuf option \<Rightarrow> cell list" where
  "ring_bytes b = (case b of None \<Rightarrow> [] | Some rb \<Rightarrow> rb_content rb)"

lemma send_ring:
  assumes ok: "ring_wf b" and n: "bs \<noteq> []" "2 * (length (ring_bytes b) + length bs) + 1 \<le> 2 ^ 30"
  obtains rb rb' where "(case b of None \<Rightarrow> map_option coringbuf_new (i32 (int (length bs) * 2)) | Some rb \<Rightarrow> Some rb) = Some rb"
    "coringbuf_write rb bs (int (length bs)) = Some rb'" "ring_wf (Some rb')" "ring_bytes (Some rb') = ring_bytes b @ bs"
proof -
  define o1 where "o1 = (case b of None \<Rightarrow> map_option coringbuf_new (i32 (int (length bs) * 2)) | Some rb \<Rightarrow> Some rb)"
  have "\<exists>rb. o1 = Some rb \<and> rb_ok rb \<and> rb_content rb = ring_bytes b"
  proof (cases b)
    case None
    have "i32 (int (length bs) * 2) = Some (int (length bs) * 2)" using n by (simp add: i32_def)
    moreover have "rb_ok (coringbuf_new (int (length bs) * 2)) \<and> rb_content (coringbuf_new (int (length bs) * 2)) = []"
      using n by (intro coringbuf_new_ok) simp_all
    ultimately show ?thesis using None by (simp add: o1_def ring_bytes_def)
  qed (use ok in \<open>simp add: o1_def ring_bytes_def ring_wf_def\<close>)
  then obtain rb where rb: "o1 = Some rb" "rb_ok rb" "rb_content rb = ring_bytes b" by blast
  have "rb_room (length bs) rb" using n(2) rb(3) by (simp add: rb_room_def)
  from coringbuf_write_spec [OF rb(2) this] obtain rb' where "coringbuf_write rb bs (int (length bs)) = Some rb'" "rb_ok rb'"
    "rb_content rb' = ring_bytes b @ bs" using rb(3) by auto
  then show thesis using that [OF rb(1) [unfolded o1_def]] by (simp add: ring_wf_def ring_bytes_def)
qed

lemma send_buffer:
  assumes ok: "tcp_ok t" and n: "bs \<noteq> []" "2 * (length (pending t) + length bs) + 1 \<le> 2 ^ 30"
  obtains rb rb' where "(case tc_sendbuf t of None \<Rightarrow> map_option coringbuf_new (i32 (int (length bs) * 2)) | Some rb \<Rightarrow> Some rb) = Some rb"
    "coringbuf_write rb bs (int (length bs)) = Some rb'" "rb_ok rb'" "rb_content rb' = pending t @ bs"
proof -
  have "ring_wf (tc_sendbuf t)" "ring_bytes (tc_sendbuf t) = pending t" using ok by (simp_all add: tcp_ok_def ring_wf_def pending_def ring_bytes_def)
  with send_ring [of "tc_sendbuf t" bs] n that show thesis by (auto simp: ring_wf_def ring_bytes_def)
qed

lemma cotcp_send_spec:
  assumes os: "kernel_ok os" "no_write_errors os" and c: "connected i s t"
    and n: "bs \<noteq> []" "2 * (length (pending t) + length bs) + 1 \<le> 2 ^ 30"
  shows "\<exists>s' t' es. cotcp_send os app s i bs (int (length bs)) = Some (True, s') \<and> connected i s' t' \<and> tc_fd t' = tc_fd t \<and> others i s s' \<and>
    io_log s' = io_log s @ es \<and> sent (tc_fd t) es @ pending t' = pending t @ bs"
proof -
  have t: "get_tcp s i = Some t" "tc_state t = COTCP_CONNECTED" "tcp_ok t" using c by (simp_all add: connected_def)
  obtain rb rb' where rb: "(case tc_sendbuf t of None \<Rightarrow> map_option coringbuf_new (i32 (int (length bs) * 2)) | Some rb \<Rightarrow> Some rb) = Some rb"
    "coringbuf_write rb bs (int (length bs)) = Some rb'" "rb_ok rb'" "rb_content rb' = pending t @ bs"
    using send_buffer [OF t(3) n] by blast
  define u where "u = t\<lparr>tc_sendbuf := Some rb'\<rparr>"
  define s1 where "s1 = sysdo os (Poll_write (tc_fd t) (Tcp i) True) (set_tcp i u s)"
  have i: "i < length (io_tcps s)" by (rule get_tcp_at [OF t(1)])
  have u: "get_tcp s1 i = Some u" "tc_state u = COTCP_CONNECTED" "tcp_ok u" "armed (tc_fd u) (io_log s1) False" "pending u = pending t @ bs"
    "tc_fd u = tc_fd t" "others i s s1"
    using t rb i by (auto simp: s1_def u_def sysdo_logged tcp_ok_def pending_def)
  from handle_write_connected [OF os u(1-3)] u(4) obtain s' t' es
    where h: "cotcp_handle_write os app s1 i = Some s'" "connected i s' t'" "same_but_buf u t'" "others i s1 s'"
      "io_log s' = io_log s1 @ es" "sent (tc_fd u) es @ pending t' = pending u" by blast
  have "cotcp_send os app s i bs (int (length bs)) = Some (True, s')"
    using t rb n(1) h(1) by (simp add: cotcp_send_def Let_def s1_def u_def)
  moreover have "tc_fd t' = tc_fd t" using same_but_buf_simps(1) [OF h(3)] u(6) by simp
  moreover obtain a where "io_log s' = io_log s @ (Poll_write (tc_fd t) (Tcp i) True, a) # es"
    using h(5) by (simp add: s1_def sysdo_logged)
  moreover have "sent (tc_fd t) ((Poll_write (tc_fd t) (Tcp i) True, a) # es) @ pending t' = pending t @ bs" using h(6) u by simp
  moreover have "others i s s'" using u(7) h(4) by blast
  ultimately show ?thesis using h(2) by blast
qed

lemma run_tcp_spec:
  assumes os: "kernel_ok os" "no_write_errors os" and c: "connected i s t"
    and n: "Send [] \<notin> set ops" "2 * (length (pending t) + length (sends ops)) + 1 \<le> 2 ^ 30"
  shows "\<exists>s' t' es. run_tcp os app i ops s = Some s' \<and> connected i s' t' \<and> tc_fd t' = tc_fd t \<and> others i s s' \<and>
    io_log s' = io_log s @ es \<and> sent (tc_fd t) es @ pending t' = pending t @ sends ops"
  using c n
proof (induction ops arbitrary: s t)
  case Nil
  then show ?case by (fastforce simp: others_def)
next
  case (Cons op ops)
  have "\<exists>s1 t1 es. run_tcp os app i (op # ops) s = run_tcp os app i ops s1 \<and> connected i s1 t1 \<and> tc_fd t1 = tc_fd t \<and> others i s s1 \<and>
    io_log s1 = io_log s @ es \<and> sent (tc_fd t) es @ pending t1 = pending t @ sends [op]"
  proof (cases op)
    case (Send bs)
    then have "bs \<noteq> []" "2 * (length (pending t) + length bs) + 1 \<le> 2 ^ 30" using Cons.prems(2,3) by auto
    from cotcp_send_spec [OF os Cons.prems(1) this, of app] Send show ?thesis by (fastforce simp: cassert_def)
  next
    case Writable
    have "get_tcp s i = Some t" "tc_state t = COTCP_CONNECTED" "tcp_ok t" "pending t \<noteq> [] \<Longrightarrow> armed (tc_fd t) (io_log s) False"
      using Cons.prems(1) by (auto simp: connected_def)
    from handle_write_connected [OF os this, of app] Writable show ?thesis
      by (fastforce dest: same_but_buf_simps(1))
  qed
  then obtain s1 t1 es where h: "run_tcp os app i (op # ops) s = run_tcp os app i ops s1" "connected i s1 t1" "tc_fd t1 = tc_fd t" "others i s s1"
    "io_log s1 = io_log s @ es" "sent (tc_fd t) es @ pending t1 = pending t @ sends [op]" by blast
  have "sends (op # ops) = sends [op] @ sends ops" by (cases op) simp_all
  moreover have "length (pending t1) \<le> length (pending t) + length (sends [op])" using arg_cong [OF h(6), of length] by simp
  ultimately have "2 * (length (pending t1) + length (sends ops)) + 1 \<le> 2 ^ 30" using Cons.prems(3) by simp
  from Cons.IH [OF h(2) _ this] Cons.prems(2) obtain s' t' es'
    where k: "run_tcp os app i ops s1 = Some s'" "connected i s' t'" "tc_fd t' = tc_fd t1" "others i s1 s'"
      "io_log s' = io_log s1 @ es'" "sent (tc_fd t1) es' @ pending t' = pending t1 @ sends ops" by auto
  have "sent (tc_fd t) (es @ es') @ pending t' = sent (tc_fd t) es @ pending t1 @ sends ops" using h(3) k(6) by simp
  also have "\<dots> = (pending t @ sends [op]) @ sends ops" by (simp flip: h(6))
  also have "\<dots> = pending t @ sends (op # ops)" by (cases op) simp_all
  finally have "sent (tc_fd t) (es @ es') @ pending t' = pending t @ sends (op # ops)" .
  then show ?case using h k by (intro exI [of _ s'] exI [of _ t'] exI [of _ "es @ es'"]) (auto intro: others_set(2))
qed

section \<open>Closing\<close>

text \<open>A socket that is to be closed as soon as its bytes are sent.\<close>

definition closing :: "nat \<Rightarrow> coios \<Rightarrow> cotcp \<Rightarrow> bool" where
  "closing i s t \<longleftrightarrow> get_tcp s i = Some t \<and> tc_state t = COTCP_CLOSING \<and> tcp_ok t \<and> pending t \<noteq> [] \<and>
     armed (tc_fd t) (io_log s) False"

definition before_close :: "int \<Rightarrow> syslog \<Rightarrow> syslog" where
  "before_close fd es = takeWhile (\<lambda>x. fst x \<noteq> Sys_close fd) es"

lemma before_close_simps:
  "\<forall>x\<in>set es. fst x \<noteq> Sys_close fd \<Longrightarrow> before_close fd (es @ fs) = es @ before_close fd fs"
  "before_close fd ((Sys_close fd, a) # es) = []" "before_close fd ((Poll_del g, a) # es) = (Poll_del g, a) # before_close fd es"
  by (simp_all add: before_close_def takeWhile_append2)

text \<open>What is left of a slot: still there with the bytes that wait; or free, after all of them were sent or a
  write failed, before the descriptor was closed.\<close>

definition write_failed :: "int \<Rightarrow> syslog \<Rightarrow> bool" where
  "write_failed fd es \<longleftrightarrow> (\<exists>bs. (Sys_write fd bs, Errno) \<in> set es)"

definition drained :: "int \<Rightarrow> cell list \<Rightarrow> nat \<Rightarrow> coios \<Rightarrow> syslog \<Rightarrow> bool" where
  "drained fd bs i s es \<longleftrightarrow>
     (if \<exists>x\<in>set es. fst x = Sys_close fd
      then get_tcp s i = Some zero_tcp \<and>
        (\<exists>rest. sent fd (before_close fd es) @ rest = bs \<and> (rest = [] \<or> write_failed fd (before_close fd es)))
      else \<exists>t. closing i s t \<and> tc_fd t = fd \<and> sent fd es @ pending t = bs)"

lemma drained_step:
  assumes d: "drained fd bs i s fs" and es: "\<forall>x\<in>set es. fst x \<noteq> Sys_close fd"
  shows "drained fd (sent fd es @ bs) i s (es @ fs)"
proof (cases "\<exists>x\<in>set fs. fst x = Sys_close fd")
  case True
  then obtain rest where r: "get_tcp s i = Some zero_tcp" "sent fd (before_close fd fs) @ rest = bs"
    "rest = [] \<or> write_failed fd (before_close fd fs)" using d by (auto simp: drained_def)
  then have "sent fd (before_close fd (es @ fs)) @ rest = sent fd es @ bs" "rest = [] \<or> write_failed fd (before_close fd (es @ fs))"
    by (auto simp: before_close_simps(1) [OF es] write_failed_def)
  then show ?thesis using True r(1) by (auto simp: drained_def)
next
  case False
  then obtain t where "closing i s t" "tc_fd t = fd" "sent fd fs @ pending t = bs" using d by (auto simp: drained_def)
  then show ?thesis using False es by (auto simp: drained_def)
qed

lemma writes_no_close: "writes os fd es \<Longrightarrow> \<forall>x\<in>set es. fst x \<noteq> Sys_close gd"
  by (auto simp: writes_def)

lemma sent_poll [simp]: "sent fd ((Poll_write g i on, a) # es) = sent fd es" "sent fd ((Poll_del g, a) # es) = sent fd es"
  by (cases a; simp)+

lemma close_drained:
  assumes t: "get_tcp s i = Some t" "tc_state t \<noteq> COTCP_INVALID" and es: "\<forall>x\<in>set es. fst x \<noteq> Sys_close (tc_fd t)"
    and bs: "sent (tc_fd t) es @ rest = bs" "rest = [] \<or> write_failed (tc_fd t) es"
  obtains s' fs where "tcp_close_fd os s i = Some s'" "others i s s'" "io_log s' = io_log s @ fs" "drained (tc_fd t) bs i s' (es @ fs)"
    "get_tcp s' i = Some zero_tcp"
proof -
  obtain a b where c: "tcp_close_fd os s i = Some (logged (set_tcp i zero_tcp s) [(Poll_del (tc_fd t), a), (Sys_close (tc_fd t), b)])"
    using tcp_close_fd_spec [OF t] by blast
  have f: "before_close (tc_fd t) (es @ [(Poll_del (tc_fd t), a), (Sys_close (tc_fd t), b)]) = es @ [(Poll_del (tc_fd t), a)]"
    by (simp add: before_close_simps(1) [OF es] before_close_simps(2,3))
  have "rest = [] \<or> write_failed (tc_fd t) (es @ [(Poll_del (tc_fd t), a)])" using bs(2) by (auto simp: write_failed_def)
  then have "drained (tc_fd t) bs i (logged (set_tcp i zero_tcp s) [(Poll_del (tc_fd t), a), (Sys_close (tc_fd t), b)])
      (es @ [(Poll_del (tc_fd t), a), (Sys_close (tc_fd t), b)])"
    using bs(1) get_tcp_at [OF t(1)] unfolding drained_def f by (auto intro!: exI [of _ rest])
  then show thesis using get_tcp_at [OF t(1)] by (intro that [OF c]) auto
qed

lemma errno_failed: "writes os fd es \<Longrightarrow> x \<in> set es \<Longrightarrow> snd x = Errno \<Longrightarrow> write_failed fd es"
  by (cases x) (fastforce simp: writes_def write_failed_def)

text \<open>A write that fails closes the descriptor.\<close>

lemma handle_error_drained:
  assumes t: "get_tcp s i = Some t" "tc_state t \<noteq> COTCP_INVALID" and same: "same_but_buf t t'"
    and w: "writes os (tc_fd t) es" "x \<in> set es" "snd x = Errno" and p: "sent (tc_fd t) es @ pending t' = pending t"
    and app: "\<And>f s. app (TcpError f i) s = Some s"
  obtains s' fs where "cotcp_handle_error os app (logged (set_tcp i t' s) es) i = Some s'" "others i s s'" "io_log s' = io_log s @ es @ fs"
    "drained (tc_fd t) (pending t) i s' (es @ fs)" "get_tcp s' i = Some zero_tcp"
proof -
  let ?s = "logged (set_tcp i t' s) es"
  note f = same_but_buf_simps [OF same]
  have at: "get_tcp ?s i = Some t'" "tc_state t' \<noteq> COTCP_INVALID" using get_tcp_at [OF t(1)] t(2) f by simp_all
  have e: "cotcp_handle_error os app ?s i = tcp_close_fd os ?s i"
    using at app by (simp add: cotcp_handle_error_def call_cb_def split: option.split)
  have "\<forall>x\<in>set es. fst x \<noteq> Sys_close (tc_fd t')" "sent (tc_fd t') es @ pending t' = pending t"
    "pending t' = [] \<or> write_failed (tc_fd t') es"
    using writes_no_close [OF w(1)] p errno_failed [OF w] f(1) by auto
  from close_drained [OF at this, of os] obtain s' fs where "tcp_close_fd os ?s i = Some s'" "others i ?s s'" "io_log s' = io_log ?s @ fs"
    "drained (tc_fd t) (pending t) i s' (es @ fs)" "get_tcp s' i = Some zero_tcp"
    unfolding f(1) by blast
  then show thesis using e by (intro that) auto
qed

lemma closing_write:
  assumes os: "kernel_ok os" and c: "closing i s t" and app: "\<And>f s. app (TcpError f i) s = Some s"
  obtains s' es where "cotcp_handle_write os app s i = Some s'" "others i s s'" "io_log s' = io_log s @ es" "drained (tc_fd t) (pending t) i s' es"
proof -
  have t: "get_tcp s i = Some t" "tc_state t = COTCP_CLOSING" "tcp_ok t" "pending t \<noteq> []" "armed (tc_fd t) (io_log s) False"
    using c by (simp_all add: closing_def)
  have st: "tc_state t \<noteq> COTCP_INVALID" using t(2) by (simp add: io_states)
  from handle_write_spec [OF os t(1) st t(3), of app] obtain t' es
    where same: "same_but_buf t t'" and ok: "tcp_ok t'" and w: "writes os (tc_fd t) es" and p: "sent (tc_fd t) es @ pending t' = pending t"
      and h: "if \<exists>x\<in>set es. snd x = Errno then cotcp_handle_write os app s i = cotcp_handle_error os app (logged (set_tcp i t' s) es) i
       else if pending t' \<noteq> [] then cotcp_handle_write os app s i = Some (logged (set_tcp i t' s) es)
       else cotcp_handle_write os app s i = cotcp_check_closing os (logged (set_tcp i t' s) es) i" by blast
  note f = same_but_buf_simps [OF same]
  have i: "i < length (io_tcps s)" by (rule get_tcp_at [OF t(1)])
  have at: "get_tcp (logged (set_tcp i t' s) es) i = Some t'" using i by simp
  show thesis
  proof (cases "\<exists>x\<in>set es. snd x = Errno")
    case True
    then obtain x where x: "x \<in> set es" "snd x = Errno" by blast
    from handle_error_drained [where app = app, OF t(1) st same w x p app] h True show thesis
      by (metis that)
  next
    case ne: False
    show thesis
    proof (cases "pending t' = []")
      case False
      then have "closing i (logged (set_tcp i t' s) es) t'" using at t ok w by (simp add: closing_def f)
      then have "drained (tc_fd t) (pending t) i (logged (set_tcp i t' s) es) es" using p f(1) writes_no_close [OF w] by (auto simp: drained_def)
      then show thesis using h ne False by (intro that [of "logged (set_tcp i t' s) es" es]) auto
    next
      case True
      have r: "cotcp_handle_write os app s i = tcp_close_fd os (logged (set_tcp i t' s) es) i"
        using h ne True at f(2) t(2) by (simp add: cotcp_check_closing_def)
      have st': "tc_state t' \<noteq> COTCP_INVALID" using st f(2) by simp
      have "sent (tc_fd t') es @ [] = pending t" using p True f(1) by simp
      from close_drained [OF at st' writes_no_close [OF w] this, of os] obtain s' fs
        where "tcp_close_fd os (logged (set_tcp i t' s) es) i = Some s'" "others i (logged (set_tcp i t' s) es) s'"
          "io_log s' = io_log (logged (set_tcp i t' s) es) @ fs" "drained (tc_fd t) (pending t) i s' (es @ fs)" unfolding f(1) by blast
      then show thesis using r by (intro that [of s' "es @ fs"]) auto
    qed
  qed
qed

lemma run_free: "get_tcp s i = Some zero_tcp \<Longrightarrow> run_tcp os app i (replicate k Writable) s = Some s"
  by (induction k) (simp_all add: cotcp_handle_write_def zero_tcp_def COTCP_INVALID_def)

lemma run_closing:
  assumes os: "kernel_ok os" and app: "\<And>f s. app (TcpError f i) s = Some s"
  shows "closing i s t \<Longrightarrow> \<exists>s' es. run_tcp os app i (replicate k Writable) s = Some s' \<and> others i s s' \<and> io_log s' = io_log s @ es \<and>
    drained (tc_fd t) (pending t) i s' es"
proof (induction k arbitrary: s t)
  case 0
  then show ?case by (auto simp: drained_def others_def)
next
  case (Suc k)
  obtain s1 es where h: "cotcp_handle_write os app s i = Some s1" "others i s s1" "io_log s1 = io_log s @ es" "drained (tc_fd t) (pending t) i s1 es"
    using closing_write [where app = app, OF os Suc.prems app] .
  show ?case
  proof (cases "\<exists>x\<in>set es. fst x = Sys_close (tc_fd t)")
    case True
    then have "get_tcp s1 i = Some zero_tcp" using h(4) by (simp add: drained_def)
    then have "run_tcp os app i (replicate (Suc k) Writable) s = Some s1" using h(1) run_free by simp
    then show ?thesis using h by blast
  next
    case False
    then obtain u where u: "closing i s1 u" "tc_fd u = tc_fd t" "sent (tc_fd t) es @ pending u = pending t"
      using h(4) by (auto simp: drained_def)
    from Suc.IH [OF u(1)] obtain s' fs where k: "run_tcp os app i (replicate k Writable) s1 = Some s'" "others i s1 s'" "io_log s' = io_log s1 @ fs"
      "drained (tc_fd t) (pending u) i s' fs" using u(2) by auto
    have "drained (tc_fd t) (pending t) i s' (es @ fs)" using drained_step [OF k(4), of es] False u(3) by auto
    then show ?thesis using h k by (intro exI [of _ s'] exI [of _ "es @ fs"]) auto
  qed
qed

definition quiet :: "io_app \<Rightarrow> nat \<Rightarrow> bool" where
  "quiet app i \<longleftrightarrow> (\<forall>f s. app (TcpClose f i) s = Some s \<and> app (TcpError f i) s = Some s)"

text \<open>The attempt to write at the start of a close.\<close>

lemma close_attempt:
  assumes os: "kernel_ok os" and c: "connected i s t" and app: "quiet app i"
  obtains (kept) s1 t1 es where "(if cotcp_has_senddata t then cotcp_handle_write os app s i else Some s) = Some s1"
      "connected i s1 t1" "same_but_buf t t1" "others i s s1" "io_log s1 = io_log s @ es" "sent (tc_fd t) es @ pending t1 = pending t"
      "\<forall>x\<in>set es. fst x \<noteq> Sys_close (tc_fd t)"
    | (failed) s1 es where "(if cotcp_has_senddata t then cotcp_handle_write os app s i else Some s) = Some s1"
      "others i s s1" "io_log s1 = io_log s @ es" "drained (tc_fd t) (pending t) i s1 es" "get_tcp s1 i = Some zero_tcp"
proof (cases "cotcp_has_senddata t")
  case False
  then show thesis using c
    by (intro kept [of s t "[]"]) (auto simp: others_def same_but_buf_def intro: exI [of _ "tc_sendbuf t"])
next
  case True
  have t: "get_tcp s i = Some t" "tc_state t = COTCP_CONNECTED" "tcp_ok t" "pending t \<noteq> [] \<Longrightarrow> armed (tc_fd t) (io_log s) False"
    using c by (auto simp: connected_def)
  have st: "tc_state t \<noteq> COTCP_INVALID" using t(2) by (simp add: io_states)
  have er: "app (TcpError f i) s = Some s" for f s using app by (simp add: quiet_def)
  from handle_write_spec [OF os t(1) st t(3), of app] obtain t' es
    where same: "same_but_buf t t'" and ok: "tcp_ok t'" and w: "writes os (tc_fd t) es" and p: "sent (tc_fd t) es @ pending t' = pending t"
      and h: "if \<exists>x\<in>set es. snd x = Errno then cotcp_handle_write os app s i = cotcp_handle_error os app (logged (set_tcp i t' s) es) i
       else if pending t' \<noteq> [] then cotcp_handle_write os app s i = Some (logged (set_tcp i t' s) es)
       else cotcp_handle_write os app s i = cotcp_check_closing os (logged (set_tcp i t' s) es) i" by blast
  show thesis
  proof (cases "\<exists>x\<in>set es. snd x = Errno")
    case err: True
    then obtain x where x: "x \<in> set es" "snd x = Errno" by blast
    from handle_error_drained [where app = app, OF t(1) st same w x p er] obtain s' fs
      where "cotcp_handle_error os app (logged (set_tcp i t' s) es) i = Some s'" "others i s s'" "io_log s' = io_log s @ es @ fs"
        "drained (tc_fd t) (pending t) i s' (es @ fs)" "get_tcp s' i = Some zero_tcp" by blast
    then show thesis using h err True by (intro failed [of s' "es @ fs"]) simp_all
  next
    case False
    then have "cotcp_handle_write os app s i = (if pending t' \<noteq> [] then Some (logged (set_tcp i t' s) es)
        else cotcp_check_closing os (logged (set_tcp i t' s) es) i)" using h by (auto split: if_splits)
    from written_connected [OF t(1,2,4) same ok w p this] obtain s' es' where "cotcp_handle_write os app s i = Some s'" "connected i s' t'"
      "others i s s'" "io_log s' = io_log s @ es'" "sent (tc_fd t) es' @ pending t' = pending t" "\<forall>x\<in>set es'. fst x \<noteq> Sys_close (tc_fd t)" by blast
    then show thesis using True same by (intro kept [of s' t' es']) simp_all
  qed
qed

lemma close_connected:
  assumes os: "kernel_ok os" and c: "connected i s t" and app: "quiet app i"
  obtains s' es where "cotcp_close os app s i False = Some (True, s')" "others i s s'" "io_log s' = io_log s @ es" "drained (tc_fd t) (pending t) i s' es"
proof -
  have t: "get_tcp s i = Some t" "tc_state t = COTCP_CONNECTED" using c by (auto simp: connected_def)
  have cb: "call_cb app b (\<lambda>f. TcpClose f i) s = Some s" for b s
    using app by (simp add: call_cb_def quiet_def split: option.split)
  have cl: "cotcp_close os app s i False = do {
      s \<leftarrow> (if cotcp_has_senddata t then cotcp_handle_write os app s i else Some s);
      t \<leftarrow> get_tcp s i;
      s \<leftarrow> (if \<not> cotcp_has_senddata t then tcp_close_fd os s i else Some (set_tcp i (t\<lparr>tc_state := COTCP_CLOSING\<rparr>) s));
      Some (True, s) }"
    using t by (simp add: cotcp_close_def io_states cb cong: if_cong)
  show thesis
  proof (cases rule: close_attempt [OF os c app, case_names op fl])
    case (fl s1 es)
    have "cotcp_close os app s i False = Some (True, s1)"
      unfolding cl fl(1) using fl(5) by (simp add: cotcp_has_senddata_def zero_tcp_def tcp_close_fd_def COTCP_INVALID_def)
    then show thesis using fl by (intro that [of s1 es])
  next
    case (op s1 t1 es)
    have u: "get_tcp s1 i = Some t1" "tcp_ok t1" "tc_fd t1 = tc_fd t" "tc_state t1 \<noteq> COTCP_INVALID"
      using op(2,3) by (simp_all add: connected_def same_but_buf_simps io_states)
    have i: "i < length (io_tcps s1)" by (rule get_tcp_at [OF u(1)])
    have c1: "cotcp_close os app s i False = do {
        s \<leftarrow> (if \<not> cotcp_has_senddata t1 then tcp_close_fd os s1 i else Some (set_tcp i (t1\<lparr>tc_state := COTCP_CLOSING\<rparr>) s1));
        Some (True, s) }" unfolding cl op(1) using u(1) by simp
    show thesis
    proof (cases "pending t1 = []")
      case True
      have "\<forall>x\<in>set es. fst x \<noteq> Sys_close (tc_fd t1)" "sent (tc_fd t1) es @ [] = pending t" using op(6,7) u(3) True by simp_all
      from close_drained [OF u(1,4) this, of os] obtain s' fs
        where "tcp_close_fd os s1 i = Some s'" "others i s1 s'" "io_log s' = io_log s1 @ fs" "drained (tc_fd t) (pending t) i s' (es @ fs)"
        unfolding u(3) by blast
      then show thesis using c1 op True has_senddata_pending [OF u(2)] by (intro that [of s' "es @ fs"]) auto
    next
      case False
      let ?s = "set_tcp i (t1\<lparr>tc_state := COTCP_CLOSING\<rparr>) s1"
      have "closing i ?s (t1\<lparr>tc_state := COTCP_CLOSING\<rparr>)"
        using False op(2) i by (simp add: closing_def connected_def tcp_ok_def pending_def)
      then have "drained (tc_fd t) (pending t) i ?s es"
        using op(6,7) u(3) by (auto simp: drained_def pending_def intro!: exI [of _ "t1\<lparr>tc_state := COTCP_CLOSING\<rparr>"])
      then show thesis using c1 op False has_senddata_pending [OF u(2)] by (intro that [of ?s es]) (auto simp: others_def)
    qed
  qed
qed

lemma close_run:
  assumes os: "kernel_ok os" and c: "connected i s t" and app: "quiet app i"
  shows "\<exists>s' es. do { (b, s) \<leftarrow> cotcp_close os app s i False; run_tcp os app i (replicate k Writable) s } = Some s' \<and>
    others i s s' \<and> io_log s' = io_log s @ es \<and> drained (tc_fd t) (pending t) i s' es"
proof -
  obtain s1 es where h: "cotcp_close os app s i False = Some (True, s1)" "others i s s1" "io_log s1 = io_log s @ es" "drained (tc_fd t) (pending t) i s1 es"
    using close_connected [OF os c app] .
  show ?thesis
  proof (cases "\<exists>x\<in>set es. fst x = Sys_close (tc_fd t)")
    case True
    then have "get_tcp s1 i = Some zero_tcp" using h(4) by (simp add: drained_def)
    then show ?thesis using h run_free by auto
  next
    case False
    then obtain u where u: "closing i s1 u" "tc_fd u = tc_fd t" "sent (tc_fd t) es @ pending u = pending t"
      using h(4) by (auto simp: drained_def)
    have "app (TcpError f i) s = Some s" for f s using app by (simp add: quiet_def)
    from run_closing [where app = app, OF os this u(1), of k] obtain s' fs where k: "run_tcp os app i (replicate k Writable) s1 = Some s'" "others i s1 s'"
      "io_log s' = io_log s1 @ fs" "drained (tc_fd t) (pending u) i s' fs" using u(2) by auto
    have "drained (tc_fd t) (pending t) i s' (es @ fs)" using drained_step [OF k(4), of es] False u(3) by auto
    then show ?thesis using h k by (intro exI [of _ s'] exI [of _ "es @ fs"]) auto
  qed
qed

section \<open>Reading\<close>

text \<open>A read of \<open>recvsize\<close> bytes, with a callback that leaves the service alone: what becomes of the buffer.\<close>

lemma read_bytes:
  assumes t: "get_tcp s i = Some t" "tc_state t = COTCP_CONNECTED"
    and buf: "tc_recvbuf t = Some b" "int (length b) = tc_recvsize t"
    and r: "os (io_log s) (Sys_read (tc_fd t) (tc_recvsize t)) = Bytes bs" "bs \<noteq> []" "int (length bs) \<le> tc_recvsize t"
    and app: "\<And>f s. app (TcpRecv f i bs) s = Some s"
  shows "\<exists>s'. cotcp_handle_read os app s i = Some s' \<and> get_tcp s' i =
    Some (if int (length bs) = tc_recvsize t then t\<lparr>tc_recvsize := 0, tc_recvbuf := None\<rparr> else t\<lparr>tc_recvbuf := Some (bs @ drop (length bs) b)\<rparr>)"
proof -
  define u where "u = t\<lparr>tc_recvbuf := Some (bs @ drop (length bs) b)\<rparr>"
  define s1 where "s1 = set_tcp i u (logged s [(Sys_read (tc_fd t) (tc_recvsize t), Bytes bs)])"
  have i: "i < length (io_tcps s)" by (rule get_tcp_at [OF t(1)])
  have rt: "retry os (Sys_read (tc_fd t) (tc_recvsize t)) s = Some (Bytes bs, logged s [(Sys_read (tc_fd t) (tc_recvsize t), Bytes bs)])"
    by (subst retry.simps) (simp add: syscall_logged r)
  have st: "mem_store b 0 bs = Some (bs @ drop (length bs) b)" using mem_store_nat [of 0 bs b] r(3) buf(2) by simp
  have cb: "call_cb app (tc_recv u) (\<lambda>f. TcpRecv f i bs) s1 = Some s1" by (simp add: call_cb_def app split: option.split)
  have g: "get_tcp s1 i = Some u" using i by (simp add: s1_def)
  have "grow_recv (tc_recvsize t) (tc_recvbuf u) = (0, None)" if "int (length bs) = tc_recvsize t"
    using that r(2) by (simp add: grow_recv_def MAX_READ_BUF_def flip: that)
  then have "cotcp_handle_read os app s i =
    Some (if int (length bs) = tc_recvsize t then set_tcp i (t\<lparr>tc_recvsize := 0, tc_recvbuf := None\<rparr>) s1 else s1)"
    using t buf rt st cb g r(2) unfolding cotcp_handle_read_def
    by (simp add: set_tcp_same io_states u_def [symmetric] s1_def [symmetric] del: tcp_simps(2)) (simp add: u_def io_states)
  then show ?thesis using g i by (auto simp: u_def s1_def)
qed

end
