(* ===== verification/IoSafe.thy ===== *)
theory IoSafe
  imports IoConn
begin

text \<open>
  The slots of the TCP sockets, the well-formed states of the service and that every call and event keeps
  them, and the properties of the TCP sockets of \<open>src/co_ioservice.c\<close>.
\<close>

section \<open>Allocating a slot\<close>

text \<open>The size of the array divides \<open>2 ^ 32\<close>, so the index goes on from slot to slot when \<open>tcpid\<close> wraps.\<close>

lemma next_index: "unat (w + 1 :: 32 word) mod COTCP_SIZE = Suc (unat w) mod COTCP_SIZE"
proof -
  have "unat (w + 1) mod COTCP_SIZE = (Suc (unat w) mod 2 ^ 32) mod COTCP_SIZE" by (simp add: unat_word_ariths)
  also have "\<dots> = Suc (unat w) mod COTCP_SIZE" by (rule mod_mod_cancel) (simp add: COTCP_SIZE_def)
  finally show ?thesis .
qed

lemma tcp_alloc_loop_spec:
  assumes "length (io_tcps s) = COTCP_SIZE"
  shows "\<exists>w. ((\<forall>k<n. tc_state (io_tcps s ! ((unat (io_tcpid s) + k) mod COTCP_SIZE)) \<noteq> COTCP_INVALID) \<and>
        tcp_alloc_loop n s = Some (None, s\<lparr>io_tcpid := w\<rparr>)) \<or>
      (\<exists>i t. get_tcp s i = Some t \<and> tc_state t = COTCP_INVALID \<and>
        tcp_alloc_loop n s = Some (Some i, set_tcp i (t\<lparr>tc_state := COTCP_NEW\<rparr>) (s\<lparr>io_tcpid := w\<rparr>)))"
  using assms
proof (induction n arbitrary: s)
  case 0
  then show ?case by (auto intro!: exI [of _ "io_tcpid s"])
next
  case (Suc n)
  define s1 where "s1 = s\<lparr>io_tcpid := io_tcpid s + 1\<rparr>"
  define i where "i = unat (io_tcpid s) mod COTCP_SIZE"
  have i: "get_tcp s i = Some (io_tcps s ! i)" "get_tcp s1 i = Some (io_tcps s ! i)"
    using Suc.prems by (simp_all add: get_tcp_def s1_def i_def COTCP_SIZE_def)
  have step: "tcp_alloc_loop (Suc n) s = (if tc_state (io_tcps s ! i) = COTCP_INVALID
      then Some (Some i, set_tcp i ((io_tcps s ! i)\<lparr>tc_state := COTCP_NEW\<rparr>) s1) else tcp_alloc_loop n s1)"
    using i(2) by (simp add: Let_def i_def [symmetric] s1_def [symmetric])
  show ?case
  proof (cases "tc_state (io_tcps s ! i) = COTCP_INVALID")
    case True
    then show ?thesis using i(1) step by (intro exI [of _ "io_tcpid s + 1"] disjI2) (auto simp: s1_def)
  next
    case False
    have ix: "(unat (io_tcpid s1) + k) mod COTCP_SIZE = (unat (io_tcpid s) + Suc k) mod COTCP_SIZE" for k
      using mod_add_left_eq [of "unat (io_tcpid s + 1)" COTCP_SIZE k] mod_add_left_eq [of "Suc (unat (io_tcpid s))" COTCP_SIZE k]
      by (simp add: s1_def next_index)
    have tc: "io_tcps s1 = io_tcps s" "get_tcp s1 j = get_tcp s j" "s1\<lparr>io_tcpid := w\<rparr> = s\<lparr>io_tcpid := w\<rparr>" for j w
      by (simp_all add: s1_def get_tcp_def)
    have st: "tcp_alloc_loop (Suc n) s = tcp_alloc_loop n s1" using step False by simp
    have "length (io_tcps s1) = COTCP_SIZE" using Suc.prems tc(1) by simp
    from Suc.IH [OF this, unfolded ix tc] obtain w
      where w: "((\<forall>k<n. tc_state (io_tcps s ! ((unat (io_tcpid s) + Suc k) mod COTCP_SIZE)) \<noteq> COTCP_INVALID) \<and>
          tcp_alloc_loop n s1 = Some (None, s\<lparr>io_tcpid := w\<rparr>)) \<or>
        (\<exists>i t. get_tcp s i = Some t \<and> tc_state t = COTCP_INVALID \<and>
          tcp_alloc_loop n s1 = Some (Some i, set_tcp i (t\<lparr>tc_state := COTCP_NEW\<rparr>) (s\<lparr>io_tcpid := w\<rparr>)))" by blast
    have "tc_state (io_tcps s ! ((unat (io_tcpid s) + k) mod COTCP_SIZE)) \<noteq> COTCP_INVALID"
      if "k < Suc n" "\<forall>k<n. tc_state (io_tcps s ! ((unat (io_tcpid s) + Suc k) mod COTCP_SIZE)) \<noteq> COTCP_INVALID" for k
      using that False by (cases k) (auto simp: i_def)
    then show ?thesis using w unfolding st by (intro exI [of _ w]) blast
  qed
qed

lemma cotcp_alloc_spec:
  assumes "length (io_tcps s) = COTCP_SIZE"
  obtains (full) w where "\<forall>t\<in>set (io_tcps s). tc_state t \<noteq> COTCP_INVALID" "cotcp_alloc s = Some (None, s\<lparr>io_tcpid := w\<rparr>)"
    | (slot) w i t where "get_tcp s i = Some t" "tc_state t = COTCP_INVALID"
        "cotcp_alloc s = Some (Some i, set_tcp i (t\<lparr>tc_state := COTCP_NEW\<rparr>) (s\<lparr>io_tcpid := w\<rparr>))"
proof -
  have all: "\<forall>t\<in>set (io_tcps s). tc_state t \<noteq> COTCP_INVALID"
    if k: "\<forall>k<COTCP_SIZE. tc_state (io_tcps s ! ((unat (io_tcpid s) + k) mod COTCP_SIZE)) \<noteq> COTCP_INVALID"
  proof
    fix t assume "t \<in> set (io_tcps s)"
    then obtain i where i: "i < COTCP_SIZE" "t = io_tcps s ! i" using assms by (metis in_set_conv_nth)
    let ?u = "unat (io_tcpid s) mod COTCP_SIZE"
    define k where "k = (i + (COTCP_SIZE - ?u)) mod COTCP_SIZE"
    have "(unat (io_tcpid s) + k) mod COTCP_SIZE = (?u + (i + (COTCP_SIZE - ?u))) mod COTCP_SIZE"
      unfolding k_def by (simp add: mod_simps)
    also have "?u + (i + (COTCP_SIZE - ?u)) = i + COTCP_SIZE" by (simp add: COTCP_SIZE_def)
    also have "(i + COTCP_SIZE) mod COTCP_SIZE = i" using i(1) by simp
    finally have "(unat (io_tcpid s) + k) mod COTCP_SIZE = i" .
    moreover have "k < COTCP_SIZE" by (simp add: k_def COTCP_SIZE_def)
    ultimately show "tc_state t \<noteq> COTCP_INVALID" using k i(2) by auto
  qed
  from tcp_alloc_loop_spec [OF assms, of COTCP_SIZE] show thesis
    unfolding cotcp_alloc_def [symmetric] using all by (elim exE disjE conjE) (rule full, simp_all, rule slot)
qed

section \<open>Well-formed services\<close>

definition tcp_wf :: "cotcp \<Rightarrow> bool" where
  "tcp_wf t \<longleftrightarrow> tcp_ok t \<and> 0 \<le> tc_state t \<and> tc_state t \<le> COTCP_CLOSING \<and>
     (case tc_recvbuf t of None \<Rightarrow> True | Some b \<Rightarrow> int (length b) = tc_recvsize t \<and> b \<noteq> [])"

definition io_wf :: "coios \<Rightarrow> bool" where
  "io_wf s \<longleftrightarrow> length (io_tcps s) = COTCP_SIZE \<and> (\<forall>t\<in>set (io_tcps s). tcp_wf t)"

definition app_ok :: "io_app \<Rightarrow> bool" where
  "app_ok app \<longleftrightarrow> (\<forall>e s. io_wf s \<longrightarrow> (\<exists>s'. app e s = Some s' \<and> io_wf s'))"

text \<open>\<open>defined_wf m\<close>: the operation is defined and leaves a well-formed service.\<close>

definition defined_wf :: "coios exec \<Rightarrow> bool" where
  "defined_wf m \<longleftrightarrow> (\<exists>s. m = Some s \<and> io_wf s)"

definition defined_res :: "('r \<times> coios) exec \<Rightarrow> bool" where
  "defined_res m \<longleftrightarrow> (\<exists>r s. m = Some (r, s) \<and> io_wf s)"

named_theorems io_wf_intros \<open>operations that keep a service well-formed\<close>

lemma defined_wf_Some [io_wf_intros]: "io_wf s \<Longrightarrow> defined_wf (Some s)"
  by (simp add: defined_wf_def)

lemma defined_res_Some [io_wf_intros]: "io_wf s \<Longrightarrow> defined_res (Some (r, s))"
  by (simp add: defined_res_def)

lemma defined_wf_bind:
  assumes "defined_wf m" "\<And>s. io_wf s \<Longrightarrow> defined_wf (f s)"
  shows "defined_wf (m \<bind> f)"
  using assms by (auto simp: defined_wf_def)

lemma defined_res_bind:
  assumes "defined_wf m" "\<And>s. io_wf s \<Longrightarrow> defined_res (f s)"
  shows "defined_res (m \<bind> f)"
  using assms by (auto simp: defined_wf_def)

lemma io_wf_logged [simp]: "io_wf (logged s es) = io_wf s"
  by (simp add: io_wf_def)

lemma io_wf_sysdo [simp]: "io_wf (sysdo os r s) = io_wf s"
  by (simp add: sysdo_logged)

lemma io_wf_id [simp]: "io_wf (s\<lparr>io_tcpid := w\<rparr>) = io_wf s"
  by (simp add: io_wf_def)

lemma io_wf_set [io_wf_intros]: "io_wf s \<Longrightarrow> tcp_wf t \<Longrightarrow> io_wf (set_tcp i t s)"
  using set_update_subset_insert [of "io_tcps s" i t] by (auto simp: io_wf_def set_tcp_def)

lemma tcp_wf_zero [simp]: "tcp_wf zero_tcp"
  by (simp add: tcp_wf_def tcp_ok_def zero_tcp_def io_states)

lemma io_wf_get:
  assumes "io_wf s" "i < COTCP_SIZE"
  obtains t where "get_tcp s i = Some t" "tcp_wf t"
  using assms by (simp add: io_wf_def get_tcp_def)

lemma call_cb_wf [io_wf_intros]: "app_ok app \<Longrightarrow> io_wf s \<Longrightarrow> defined_wf (call_cb app cb ev s)"
  by (auto simp: call_cb_def app_ok_def defined_wf_def split: option.split)

lemma retry_log:
  assumes os: "kernel_ok os"
  shows "\<exists>a k log. retry os r s = Some (a, logged s (replicate k (r, Eintr) @ [(r, a)])) \<and> a = os log r \<and> a \<noteq> Eintr"
proof -
  have step: "retry os r s = (if os (io_log s) r = Eintr then retry os r (logged s [(r, Eintr)])
    else Some (os (io_log s) r, logged s [(r, os (io_log s) r)]))" for s
    by (subst retry.simps) (simp add: syscall_logged)
  have "\<exists>a k log. retry os r s = Some (a, logged s (replicate k (r, Eintr) @ [(r, a)])) \<and> a = os log r \<and> a \<noteq> Eintr"
    if "os (io_log s @ replicate n (r, Eintr)) r \<noteq> Eintr" for n
    using that
  proof (induction n arbitrary: s)
    case 0
    then show ?case using step [of s] by (intro exI [of _ "os (io_log s) r"] exI [of _ 0] exI [of _ "io_log s"]) simp
  next
    case (Suc n)
    show ?case
    proof (cases "os (io_log s) r = Eintr")
      case True
      have "os (io_log (logged s [(r, Eintr)]) @ replicate n (r, Eintr)) r \<noteq> Eintr" using Suc.prems by simp
      from Suc.IH [OF this] obtain a k log where h: "retry os r (logged s [(r, Eintr)]) =
          Some (a, logged (logged s [(r, Eintr)]) (replicate k (r, Eintr) @ [(r, a)]))" "a = os log r" "a \<noteq> Eintr" by blast
      have "retry os r s = Some (a, logged s (replicate (Suc k) (r, Eintr) @ [(r, a)]))" using step [of s] True h(1) by simp
      then show ?thesis using h(2,3) by blast
    next
      case False
      then show ?thesis using step [of s] by (intro exI [of _ "os (io_log s) r"] exI [of _ 0] exI [of _ "io_log s"]) simp
    qed
  qed
  moreover obtain n where "os (io_log s @ replicate n (r, Eintr)) r \<noteq> Eintr" using os unfolding kernel_ok_def by blast
  ultimately show ?thesis by blast
qed

lemma retry_spec:
  assumes os: "kernel_ok os"
  shows "\<exists>a es log. retry os r s = Some (a, logged s es) \<and> a = os log r \<and> a \<noteq> Eintr"
  using retry_log [OF os, of r s] by blast

lemma close_fd_wf [io_wf_intros]:
  assumes "io_wf s" "i < COTCP_SIZE"
  shows "defined_wf (tcp_close_fd os s i)"
proof -
  obtain t where t: "get_tcp s i = Some t" using assms by (rule io_wf_get)
  show ?thesis
  proof (cases "tc_state t = COTCP_INVALID")
    case True
    then show ?thesis using t assms by (simp add: tcp_close_fd_def defined_wf_def)
  next
    case False
    from tcp_close_fd_spec [OF t this, of os] show ?thesis using io_wf_set [OF assms(1) tcp_wf_zero] by (auto simp: defined_wf_def)
  qed
qed

lemma free_wf [io_wf_intros]: "io_wf s \<Longrightarrow> i < COTCP_SIZE \<Longrightarrow> defined_wf (cotcp_free s i)"
  by (frule (1) io_wf_get) (auto simp: cotcp_free_def intro!: io_wf_intros)

lemma handle_error_wf [io_wf_intros]:
  assumes "app_ok app" "io_wf s" "i < COTCP_SIZE"
  shows "defined_wf (cotcp_handle_error os app s i)"
proof -
  obtain t where t: "get_tcp s i = Some t" using assms(2,3) by (rule io_wf_get)
  show ?thesis using t assms by (auto simp: cotcp_handle_error_def intro!: io_wf_intros defined_wf_bind)
qed

lemma tcp_wf_same: "same_but_buf t t' \<Longrightarrow> tcp_ok t' \<Longrightarrow> tcp_wf t \<Longrightarrow> tcp_wf t'"
  by (auto simp: tcp_wf_def same_but_buf_def split: option.split)

lemma check_closing_wf [io_wf_intros]:
  assumes "io_wf s" "i < COTCP_SIZE"
  shows "defined_wf (cotcp_check_closing os s i)"
proof -
  obtain t where "get_tcp s i = Some t" using assms by (rule io_wf_get)
  then show ?thesis using assms by (auto simp: cotcp_check_closing_def intro!: io_wf_intros)
qed

lemma handle_write_wf [io_wf_intros]:
  assumes os: "kernel_ok os" and a: "app_ok app" "io_wf s" "i < COTCP_SIZE"
  shows "defined_wf (cotcp_handle_write os app s i)"
proof -
  obtain t where t: "get_tcp s i = Some t" "tcp_wf t" using a(2,3) by (rule io_wf_get)
  show ?thesis
  proof (cases "tc_state t = COTCP_INVALID")
    case True
    then show ?thesis using t a by (simp add: cotcp_handle_write_def io_wf_intros)
  next
    case False
    have "tcp_ok t" using t(2) by (simp add: tcp_wf_def)
    from handle_write_spec [OF os t(1) False this, of app] obtain t' es where h: "same_but_buf t t'" "tcp_ok t'"
      "if \<exists>x\<in>set es. snd x = Errno then cotcp_handle_write os app s i = cotcp_handle_error os app (logged (set_tcp i t' s) es) i
       else if pending t' \<noteq> [] then cotcp_handle_write os app s i = Some (logged (set_tcp i t' s) es)
       else cotcp_handle_write os app s i = cotcp_check_closing os (logged (set_tcp i t' s) es) i" by blast
    have "io_wf (logged (set_tcp i t' s) es)" using io_wf_set [OF a(2) tcp_wf_same [OF h(1,2) t(2)]] by simp
    then show ?thesis using h(3) a by (auto intro!: io_wf_intros split: if_splits)
  qed
qed

lemma grow_recv_wf: "grow_recv sz b = (sz', b') \<Longrightarrow> 0 < sz \<Longrightarrow> b' = None"
  by (auto simp: grow_recv_def MAX_READ_BUF_def Let_def split: if_splits)

lemma handle_read_wf [io_wf_intros]:
  assumes os: "kernel_ok os" and a: "app_ok app" "io_wf s" "i < COTCP_SIZE"
  shows "defined_wf (cotcp_handle_read os app s i)"
proof -
  obtain t0 where t0: "get_tcp s i = Some t0" "tcp_wf t0" using a(2,3) by (rule io_wf_get)
  show ?thesis
  proof (cases "tc_state t0 = COTCP_INVALID")
    case True
    then show ?thesis using t0 a by (simp add: cotcp_handle_read_def io_wf_intros)
  next
    case ne: False
    define t where "t = (if tc_recvbuf t0 = None then t0\<lparr>tc_recvsize := INIT_READ_BUF, tc_recvbuf := Some (c_malloc INIT_READ_BUF)\<rparr> else t0)"
    obtain b where b: "tc_recvbuf t = Some b" "int (length b) = tc_recvsize t" "b \<noteq> []" and t: "tcp_wf t"
      using t0(2) by (auto simp: t_def tcp_wf_def tcp_ok_def INIT_READ_BUF_def c_malloc_def split: option.splits)
    obtain r es log where r: "retry os (Sys_read (tc_fd t) (tc_recvsize t)) (set_tcp i t s) = Some (r, logged (set_tcp i t s) es)"
      "r = os log (Sys_read (tc_fd t) (tc_recvsize t))" "r \<noteq> Eintr"
      using retry_spec [OF os] by blast
    have ke: "case r of Bytes bs \<Rightarrow> int (length bs) \<le> tc_recvsize t | Ret _ \<Rightarrow> False | _ \<Rightarrow> True"
      using os unfolding kernel_ok_def r(2) by blast
    define s1 where "s1 = logged (set_tcp i t s) es"
    have s1: "io_wf s1" using io_wf_set [OF a(2) t] by (simp add: s1_def)
    have h: "cotcp_handle_read os app s i = (case r of
         Bytes bs \<Rightarrow>
           if bs = [] then do { s \<leftarrow> call_cb app (tc_close t) (\<lambda>f. TcpClose f i) s1; tcp_close_fd os s i }
           else do {
             buf \<leftarrow> mem_store b 0 bs;
             let t = t\<lparr>tc_recvbuf := Some buf\<rparr>;
             let s = set_tcp i t s1;
             if tc_state t = COTCP_CONNECTED then do {
               s \<leftarrow> call_cb app (tc_recv t) (\<lambda>f. TcpRecv f i bs) s;
               t \<leftarrow> get_tcp s i;
               if tc_state t \<noteq> COTCP_INVALID \<and> int (length bs) = tc_recvsize t then
                 (case grow_recv (tc_recvsize t) (tc_recvbuf t) of
                    (sz, buf) \<Rightarrow> Some (set_tcp i (t\<lparr>tc_recvsize := sz, tc_recvbuf := buf\<rparr>) s))
               else Some s
             } else Some s
           }
       | Eagain \<Rightarrow> Some s1
       | Errno \<Rightarrow> cotcp_handle_error os app s1 i
       | _ \<Rightarrow> None)"
      using t0(1) ne r(1) b(1) unfolding cotcp_handle_read_def
      by (simp add: t_def [symmetric] s1_def [symmetric] Let_def cong: sysres.case_cong if_cong)
    show ?thesis
    proof (cases r)
      case (Bytes bs)
      show ?thesis
      proof (cases "bs = []")
        case True
        then show ?thesis using h Bytes a s1 by (auto intro!: io_wf_intros defined_wf_bind)
      next
        case False
        define u where "u = t\<lparr>tc_recvbuf := Some (bs @ drop (length bs) b)\<rparr>"
        have st: "mem_store b 0 bs = Some (bs @ drop (length bs) b)" using mem_store_nat [of 0 bs b] ke Bytes b(2) by simp
        have u: "tcp_wf u" using t ke Bytes b(1,2) False by (simp add: u_def tcp_wf_def tcp_ok_def)
        have grow: "defined_wf (do { t \<leftarrow> get_tcp s i;
               if tc_state t \<noteq> COTCP_INVALID \<and> int (length bs) = tc_recvsize t then
                 (case grow_recv (tc_recvsize t) (tc_recvbuf t) of
                    (sz, buf) \<Rightarrow> Some (set_tcp i (t\<lparr>tc_recvsize := sz, tc_recvbuf := buf\<rparr>) s))
               else Some s })" if s: "io_wf s" for s
        proof -
          obtain v where v: "get_tcp s i = Some v" "tcp_wf v" using s a(3) by (rule io_wf_get)
          obtain sz b' where g: "grow_recv (tc_recvsize v) (tc_recvbuf v) = (sz, b')" by fastforce
          show ?thesis
          proof (cases "tc_state v \<noteq> COTCP_INVALID \<and> int (length bs) = tc_recvsize v")
            case True
            then have "0 < tc_recvsize v" using False by (cases bs) simp_all
            then have "tcp_wf (v\<lparr>tc_recvsize := sz, tc_recvbuf := b'\<rparr>)"
              using v(2) grow_recv_wf [OF g] by (simp add: tcp_wf_def tcp_ok_def)
            then show ?thesis using True v(1) s g by (simp add: io_wf_intros)
          qed (use v(1) s in \<open>auto intro: io_wf_intros\<close>)
        qed
        show ?thesis
        proof (cases "tc_state t = COTCP_CONNECTED")
          case True
          then show ?thesis using h Bytes False st a(1) s1 u unfolding u_def
            by (auto simp: Let_def intro!: io_wf_intros defined_wf_bind grow)
        qed (use h Bytes False st s1 u in \<open>auto simp: Let_def u_def intro!: io_wf_intros\<close>)
      qed
    qed (use h ke r(3) a s1 in \<open>auto intro: io_wf_intros\<close>)
  qed
qed

lemma alloc_wf:
  assumes s: "io_wf s"
  obtains (none) s' where "cotcp_alloc s = Some (None, s')" "io_wf s'"
    | (slot) s' i where "cotcp_alloc s = Some (Some i, s')" "io_wf s'" "i < COTCP_SIZE"
proof -
  have len: "length (io_tcps s) = COTCP_SIZE" using s by (simp add: io_wf_def)
  show thesis
  proof (cases rule: cotcp_alloc_spec [OF len, case_names full slot])
    case (full w)
    then show thesis using none s by simp
  next
    case (slot w i t)
    have "i < COTCP_SIZE" "tcp_wf t" using slot(1) s len by (auto simp: get_tcp_def io_wf_def split: if_splits)
    then have "io_wf (set_tcp i (t\<lparr>tc_state := COTCP_NEW\<rparr>) (s\<lparr>io_tcpid := w\<rparr>))"
      using s by (intro io_wf_set) (auto simp: tcp_wf_def tcp_ok_def io_states split: option.split)
    then show thesis using that(2) slot(3) \<open>i < COTCP_SIZE\<close> by blast
  qed
qed

lemma tcp_wf_update:
  "tcp_wf t \<Longrightarrow> 0 \<le> st \<Longrightarrow> st \<le> COTCP_CLOSING \<Longrightarrow> tcp_wf (t\<lparr>tc_state := st\<rparr>)"
  "tcp_wf (t\<lparr>tc_fd := fd\<rparr>) = tcp_wf t" "tcp_wf (t\<lparr>tc_ud := ud\<rparr>) = tcp_wf t" "tcp_wf (t\<lparr>tc_error := cb\<rparr>) = tcp_wf t"
  "tcp_wf (t\<lparr>tc_connect := cb\<rparr>) = tcp_wf t" "tcp_wf (t\<lparr>tc_recv := cb\<rparr>) = tcp_wf t" "tcp_wf (t\<lparr>tc_close := cb\<rparr>) = tcp_wf t"
  by (auto simp: tcp_wf_def tcp_ok_def split: option.split)

lemma handle_accept_wf [io_wf_intros]:
  assumes os: "kernel_ok os" and a: "app_ok app" "io_wf s" "i < COTCP_SIZE"
  shows "defined_wf (cotcp_handle_accept os app s i)"
proof -
  obtain t where t: "get_tcp s i = Some t" "tcp_wf t" using a(2,3) by (rule io_wf_get)
  obtain r es log where r: "retry os (Sys_accept (tc_fd t)) s = Some (r, logged s es)" using retry_spec [OF os] by blast
  have s1: "io_wf (logged s es)" using a(2) by simp
  show ?thesis
  proof (cases r)
    case (Ret fd)
    show ?thesis
    proof (cases rule: alloc_wf [OF s1, case_names none slot])
      case (none s')
      then show ?thesis using t(1) r Ret by (simp add: cotcp_handle_accept_def io_wf_intros)
    next
      case (slot s' j)
      have s2: "io_wf (sysdo os (Sys_nonblock fd) s')" using slot(2) by simp
      obtain n where n: "get_tcp (sysdo os (Sys_nonblock fd) s') j = Some n" "tcp_wf n" using s2 slot(3) by (rule io_wf_get)
      have "tcp_wf (n\<lparr>tc_fd := fd, tc_ud := tc_ud t, tc_state := COTCP_CONNECTED\<rparr>)"
        using n(2) by (intro tcp_wf_update(1)) (simp_all add: tcp_wf_update io_states)
      then show ?thesis using t(1) r Ret slot(1) s2 n(1) a(1) by (auto simp: cotcp_handle_accept_def Let_def intro!: io_wf_intros)
    qed
  qed (use t(1) r s1 in \<open>auto simp: cotcp_handle_accept_def intro!: io_wf_intros\<close>)
qed

lemma handle_connect_wf [io_wf_intros]:
  assumes a: "app_ok app" "io_wf s" "i < COTCP_SIZE"
  shows "defined_wf (cotcp_handle_connect os app s i)"
proof -
  obtain t where t: "get_tcp s i = Some t" "tcp_wf t" using a(2,3) by (rule io_wf_get)
  have "tcp_wf (t\<lparr>tc_state := COTCP_CONNECTED, tc_error := None\<rparr>)"
    using tcp_wf_update(1) [OF t(2), of COTCP_CONNECTED] by (simp add: tcp_wf_update io_states)
  then show ?thesis using t(1) a by (auto simp: cotcp_handle_connect_def syscall_logged Let_def intro!: io_wf_intros defined_wf_bind)
qed

lemma event_wf:
  assumes os: "kernel_ok os" and a: "app_ok app" "io_wf s" "i < COTCP_SIZE"
  shows "defined_wf (cotcp_event os app s i rd wr er)"
proof -
  obtain t where t: "get_tcp s i = Some t" using a(2,3) by (rule io_wf_get)
  show ?thesis using t os a by (auto simp: cotcp_event_def intro!: io_wf_intros defined_wf_bind)
qed

lemma loops_wf:
  "io_wf s \<Longrightarrow> io_wf (snd (listen_loop os rps s))" "io_wf s \<Longrightarrow> io_wf (snd (connect_loop os rps s))"
  by (induction rps arbitrary: s) (auto simp: syscall_logged Let_def split: sysres.split)

lemma free_res: "io_wf s \<Longrightarrow> i < COTCP_SIZE \<Longrightarrow> defined_res (do { s \<leftarrow> cotcp_free s i; Some (r, s) })"
  by (intro defined_res_bind free_wf io_wf_intros)

lemma listen_wf:
  assumes a: "io_wf s"
  shows "defined_res (cotcp_listen os s ip port ud cb)"
proof (cases rule: alloc_wf [OF a, case_names none slot])
  case (none s')
  then show ?thesis by (simp add: cotcp_listen_def io_wf_intros)
next
  case (slot s1 i)
  define q where "q = Sys_getaddrinfo ip port"
  show ?thesis
  proof (cases "os (io_log s1) q")
    case (Ret n)
    obtain e s2 where l: "listen_loop os [0..<nat n] (logged s1 [(q, Ret n)]) = (e, s2)" by fastforce
    then have s2: "io_wf s2" using loops_wf(1) [of "logged s1 [(q, Ret n)]" os "[0..<nat n]"] slot(2) by simp
    show ?thesis
    proof (cases e)
      case (Found fd)
      define r where "r = os (io_log s2) (Sys_listen fd BACKLOG)"
      define s3 where "s3 = logged s2 [(Sys_listen fd BACKLOG, r)]"
      have s3: "io_wf s3" using s2 by (simp add: s3_def)
      obtain t where t: "get_tcp s3 i = Some t" "tcp_wf t" using s3 slot(3) by (rule io_wf_get)
      have "tcp_wf (t\<lparr>tc_fd := fd, tc_ud := ud, tc_connect := cb, tc_state := COTCP_LISTEN\<rparr>)"
        using t(2) by (intro tcp_wf_update(1)) (simp_all add: tcp_wf_update io_states)
      then have set: "io_wf (set_tcp i (t\<lparr>tc_fd := fd, tc_ud := ud, tc_connect := cb, tc_state := COTCP_LISTEN\<rparr>) s3)" using s3 by (rule io_wf_set [rotated])
      have "syscall os (Sys_listen fd BACKLOG) s2 = (r, s3)" by (simp add: syscall_logged r_def s3_def)
      then show ?thesis using slot Ret l Found t(1) set s3 unfolding cotcp_listen_def q_def
        by (cases r) (simp_all add: syscall_logged [of os "Sys_getaddrinfo ip port"] Let_def defined_res_Some free_res)
    qed (use slot Ret l s2 in \<open>simp_all add: cotcp_listen_def q_def syscall_logged free_res\<close>)
  qed (use slot in \<open>simp_all add: cotcp_listen_def q_def syscall_logged free_res\<close>)
qed

lemma connect_wf:
  assumes a: "app_ok app" "io_wf s"
  shows "defined_res (cotcp_connect os app s ip port ud cb er)"
proof (cases rule: alloc_wf [OF a(2), case_names none slot])
  case (none s')
  then show ?thesis by (simp add: cotcp_connect_def io_wf_intros)
next
  case (slot s1 i)
  define q where "q = Sys_getaddrinfo ip port"
  show ?thesis
  proof (cases "os (io_log s1) q")
    case (Ret n)
    obtain e s2 where l: "connect_loop os [0..<nat n] (logged s1 [(q, Ret n)]) = (e, s2)" by fastforce
    then have s2: "io_wf s2" using loops_wf(2) [of "logged s1 [(q, Ret n)]" os "[0..<nat n]"] slot(2) by simp
    show ?thesis
    proof (cases e)
      case (Some p)
      obtain fd now where p: "p = (fd, now)" by fastforce
      obtain t where t: "get_tcp s2 i = Some t" "tcp_wf t" using s2 slot(3) by (rule io_wf_get)
      let ?u = "t\<lparr>tc_fd := fd, tc_ud := ud, tc_connect := cb, tc_error := er\<rparr>"
      have u: "tcp_wf ?u" "tcp_wf (?u\<lparr>tc_state := COTCP_CONNECTED\<rparr>)" "tcp_wf (?u\<lparr>tc_state := COTCP_CONNECTING\<rparr>)"
        using t(2) by (auto simp: tcp_wf_update io_states intro!: tcp_wf_update(1))
      then show ?thesis using slot Ret l Some p t(1) s2 a(1) unfolding cotcp_connect_def q_def
        by (auto simp: syscall_logged [of os "Sys_getaddrinfo ip port"] Let_def intro!: io_wf_intros defined_res_bind)
    qed (use slot Ret l s2 in \<open>simp_all add: cotcp_connect_def q_def syscall_logged free_res\<close>)
  qed (use slot in \<open>simp_all add: cotcp_connect_def q_def syscall_logged free_res\<close>)
qed

definition send_fits :: "coios \<Rightarrow> nat \<Rightarrow> nat \<Rightarrow> bool" where
  "send_fits s i n \<longleftrightarrow> (\<forall>t. get_tcp s i = Some t \<longrightarrow> 2 * (length (pending t) + n) + 1 \<le> 2 ^ 30)"

lemma send_wf:
  assumes os: "kernel_ok os" and a: "app_ok app" "io_wf s" "i < COTCP_SIZE" and n: "send_fits s i (length bs)"
  shows "defined_res (cotcp_send os app s i bs (int (length bs)))"
proof -
  obtain t where t: "get_tcp s i = Some t" "tcp_wf t" using a(2,3) by (rule io_wf_get)
  show ?thesis
  proof (cases "tc_state t \<noteq> COTCP_CONNECTED \<or> bs = []")
    case True
    then show ?thesis using t(1) a(2) by (auto simp: cotcp_send_def intro: io_wf_intros)
  next
    case False
    have ok: "tcp_ok t" "bs \<noteq> []" "2 * (length (pending t) + length bs) + 1 \<le> 2 ^ 30"
      using t n False by (simp_all add: tcp_wf_def send_fits_def)
    obtain rb rb' where rb: "(case tc_sendbuf t of None \<Rightarrow> map_option coringbuf_new (i32 (int (length bs) * 2)) | Some rb \<Rightarrow> Some rb) = Some rb"
      "coringbuf_write rb bs (int (length bs)) = Some rb'" "rb_ok rb'" using send_buffer [OF ok] by blast
    have "tcp_wf (t\<lparr>tc_sendbuf := Some rb'\<rparr>)" using t(2) rb(3) by (simp add: tcp_wf_def tcp_ok_def split: option.splits)
    then have "io_wf (set_tcp i (t\<lparr>tc_sendbuf := Some rb'\<rparr>) s)" using a(2) by (rule io_wf_set [rotated])
    then show ?thesis using t(1) False rb(1,2) os a
      by (auto simp: cotcp_send_def Let_def intro!: io_wf_intros defined_res_bind)
  qed
qed

lemma close_wf:
  assumes os: "kernel_ok os" and a: "app_ok app" "io_wf s" "i < COTCP_SIZE"
  shows "defined_res (cotcp_close os app s i force)"
proof -
  obtain t where t: "get_tcp s i = Some t" using a(2,3) by (rule io_wf_get)
  have fin: "defined_res (do {
       t \<leftarrow> get_tcp s i;
       s \<leftarrow> (if force \<or> \<not> cotcp_has_senddata t then do {
               s \<leftarrow> call_cb app (tc_close t) (\<lambda>f. TcpClose f i) s;
               tcp_close_fd os s i
             } else Some (set_tcp i (t\<lparr>tc_state := COTCP_CLOSING\<rparr>) s));
       Some (True, s) })" if s: "io_wf s" for s
  proof -
    obtain u where u: "get_tcp s i = Some u" "tcp_wf u" using s a(3) by (rule io_wf_get)
    have "tcp_wf (u\<lparr>tc_state := COTCP_CLOSING\<rparr>)" using u(2) by (intro tcp_wf_update(1)) (simp_all add: io_states)
    then show ?thesis using u(1) s a(1,3) by (auto intro!: io_wf_intros defined_wf_bind defined_res_bind)
  qed
  have "defined_wf (if cotcp_has_senddata t then cotcp_handle_write os app s i else Some s)"
    using os a by (simp add: io_wf_intros)
  then have "defined_res ((if cotcp_has_senddata t then cotcp_handle_write os app s i else Some s) \<bind> (\<lambda>s. do {
       t \<leftarrow> get_tcp s i;
       s \<leftarrow> (if force \<or> \<not> cotcp_has_senddata t then do {
               s \<leftarrow> call_cb app (tc_close t) (\<lambda>f. TcpClose f i) s;
               tcp_close_fd os s i
             } else Some (set_tcp i (t\<lparr>tc_state := COTCP_CLOSING\<rparr>) s));
       Some (True, s) }))" using fin by (rule defined_res_bind)
  then show ?thesis using t a(2) unfolding cotcp_close_def by (simp add: io_wf_intros)
qed

lemma on_wf:
  assumes a: "io_wf s" "i < COTCP_SIZE"
  shows "defined_res (cotcp_on_error s i cb)" "defined_res (cotcp_on_recv s i cb)" "defined_res (cotcp_on_close s i cb)"
proof -
  obtain t where "get_tcp s i = Some t" "tcp_wf t" using a by (rule io_wf_get)
  then show "defined_res (cotcp_on_error s i cb)" "defined_res (cotcp_on_recv s i cb)" "defined_res (cotcp_on_close s i cb)"
    using a(1) by (simp_all add: cotcp_on_error_def cotcp_on_recv_def cotcp_on_close_def tcp_wf_update defined_res_Some io_wf_set)
qed

section \<open>The calls of a service\<close>

datatype tcp_call =
    CEvent nat bool bool bool
  | CListen nat nat nat "nat option"
  | CConnect nat nat nat "nat option" "nat option"
  | CSend nat "cell list"
  | CClose nat bool
  | COn_error nat "nat option"
  | COn_recv nat "nat option"
  | COn_close nat "nat option"

fun tcp_do :: "kernel \<Rightarrow> io_app \<Rightarrow> tcp_call \<Rightarrow> coios \<Rightarrow> coios exec" where
  "tcp_do os app (CEvent i rd wr er) s = cotcp_event os app s i rd wr er"
| "tcp_do os app (CListen ip port ud cb) s = map_option snd (cotcp_listen os s ip port ud cb)"
| "tcp_do os app (CConnect ip port ud cb er) s = map_option snd (cotcp_connect os app s ip port ud cb er)"
| "tcp_do os app (CSend i bs) s = map_option snd (cotcp_send os app s i bs (int (length bs)))"
| "tcp_do os app (CClose i force) s = map_option snd (cotcp_close os app s i force)"
| "tcp_do os app (COn_error i cb) s = map_option snd (cotcp_on_error s i cb)"
| "tcp_do os app (COn_recv i cb) s = map_option snd (cotcp_on_recv s i cb)"
| "tcp_do os app (COn_close i cb) s = map_option snd (cotcp_on_close s i cb)"

text \<open>The object of a call is one of the array, and what it sends fits in its buffer.\<close>

fun call_fits :: "coios \<Rightarrow> tcp_call \<Rightarrow> bool" where
  "call_fits s (CEvent i rd wr er) \<longleftrightarrow> i < COTCP_SIZE"
| "call_fits s (CSend i bs) \<longleftrightarrow> i < COTCP_SIZE \<and> send_fits s i (length bs)"
| "call_fits s (CClose i force) \<longleftrightarrow> i < COTCP_SIZE"
| "call_fits s (COn_error i cb) \<longleftrightarrow> i < COTCP_SIZE"
| "call_fits s (COn_recv i cb) \<longleftrightarrow> i < COTCP_SIZE"
| "call_fits s (COn_close i cb) \<longleftrightarrow> i < COTCP_SIZE"
| "call_fits s c \<longleftrightarrow> True"

lemma defined_res_snd: "defined_res m \<Longrightarrow> defined_wf (map_option snd m)"
  by (auto simp: defined_res_def defined_wf_def)

lemma io_wf_new: "io_wf coios_new"
  by (simp add: io_wf_def coios_new_def)

lemma tcp_do_wf: "kernel_ok os \<Longrightarrow> app_ok app \<Longrightarrow> io_wf s \<Longrightarrow> call_fits s c \<Longrightarrow> defined_wf (tcp_do os app c s)"
  by (cases c) (auto intro: event_wf defined_res_snd listen_wf connect_wf send_wf close_wf on_wf)

section \<open>Properties\<close>

text \<open>A kernel that takes two bytes at a time and has as much to read as it is asked for, an application
  that does nothing and a service with one connection.\<close>

definition slow_os :: kernel where
  "slow_os log r = (case r of
     Sys_write fd bs \<Rightarrow> Ret (min 2 (int (length bs)))
   | Sys_read fd n \<Rightarrow> if n < 0 then Errno else Bytes (replicate (nat n) (Some 0))
   | _ \<Rightarrow> Ret 0)"

definition idle_app :: io_app where
  "idle_app e s = Some s"

definition one_tcp :: cotcp where
  "one_tcp = zero_tcp\<lparr>tc_fd := 7, tc_state := COTCP_CONNECTED\<rparr>"

definition one_connection :: coios where
  "one_connection = set_tcp 0 one_tcp coios_new"

lemma slow_os_ok: "kernel_ok slow_os" "no_write_errors slow_os"
  by (auto simp: kernel_ok_def no_write_errors_def slow_os_def split: sysreq.splits intro: exI [of _ 0])

lemma idle_app_ok: "app_ok idle_app" "idle_app e s = Some s"
  by (simp_all add: app_ok_def idle_app_def)

lemma get_one: "get_tcp one_connection 0 = Some one_tcp"
  by (simp add: one_connection_def coios_new_def COTCP_SIZE_def)

lemma one_connected: "connected 0 one_connection one_tcp" "pending one_tcp = []"
  using get_one by (simp_all add: connected_def one_tcp_def one_connection_def zero_tcp_def tcp_ok_def pending_def coios_new_def)

lemma one_wf: "io_wf one_connection"
  using io_wf_new unfolding one_connection_def
  by (rule io_wf_set) (simp add: one_tcp_def tcp_wf_def tcp_ok_def zero_tcp_def io_states)

text \<open>C35: TCP data is delivered as a stream.  Over any sequence of sends and write events on a connection,
  whatever part of each write the kernel takes, whenever it would block and however often it interrupts,
  the calls succeed, what the kernel has taken followed by what waits in the send buffer is what was taken
  and waited before followed by everything sent since, in order and without loss or repetition; the poll
  watches the descriptor for writing exactly as long as bytes wait; no other socket is touched.\<close>
theorem cotcp_stream:
  assumes "kernel_ok os" "no_write_errors os" "connected i s t" "Send [] \<notin> set ops"
    "2 * (length (pending t) + length (sends ops)) + 1 \<le> 2 ^ 30"
  shows "\<exists>s' t'. run_tcp os app i ops s = Some s' \<and> connected i s' t' \<and> tc_fd t' = tc_fd t \<and> others i s s' \<and>
    sent (tc_fd t) (io_log s') @ pending t' = sent (tc_fd t) (io_log s) @ pending t @ sends ops"
  using run_tcp_spec [OF assms, of app] by fastforce

theorem cotcp_stream_witness:
  "\<exists>s' t'. run_tcp slow_os idle_app 0 [Send [Some 1, Some 2, Some 3], Writable, Send [Some 4]] one_connection = Some s' \<and>
    connected 0 s' t' \<and> tc_fd t' = tc_fd one_tcp \<and> others 0 one_connection s' \<and>
    sent (tc_fd one_tcp) (io_log s') @ pending t' =
      sent (tc_fd one_tcp) (io_log one_connection) @ pending one_tcp @ sends [Send [Some 1, Some 2, Some 3], Writable, Send [Some 4]]"
  by (rule cotcp_stream [OF slow_os_ok one_connected(1)]) (simp_all add: one_connected(2))


text \<open>A connection with three bytes that wait: the close sends two of them and leaves the socket closing, the
  write event sends the third and closes it.\<close>

definition three_bytes :: "int \<Rightarrow> coringbuf" where
  "three_bytes h = \<lparr>rb_buffer = [Some 1, Some 2, Some 3, None], rb_size = 4, rb_head = h, rb_tail = 3\<rparr>"

definition waiting_tcp :: cotcp where
  "waiting_tcp = one_tcp\<lparr>tc_sendbuf := Some (three_bytes 0)\<rparr>"

definition waiting_connection :: coios where
  "waiting_connection = logged (set_tcp 0 waiting_tcp coios_new) [(Poll_write 7 (Tcp 0) True, Ret 0)]"

lemma waiting_connected: "connected 0 waiting_connection waiting_tcp" "pending waiting_tcp = [Some 1, Some 2, Some 3]"
  by (simp_all add: connected_def waiting_connection_def waiting_tcp_def one_tcp_def zero_tcp_def tcp_ok_def pending_def three_bytes_def
    rb_ok_def rb_content_def ring_def coios_new_def COTCP_SIZE_def)

lemma three_bytes_loops:
  "send_loop slow_os 7 (three_bytes 0) s = Some (Blocked, three_bytes 2, logged s [(Sys_write 7 [Some 1, Some 2, Some 3], Ret 2)])"
  "send_loop slow_os 7 (three_bytes 2) s = Some (Written, three_bytes 3, logged s [(Sys_write 7 [Some 3], Ret 1)])"
proof -
  note c = three_bytes_def coringbuf_readable_size_def coringbuf_readonce_size_def coringbuf_head_def mem_load_def
    coringbuf_consume_size_def slow_os_def syscall_logged Let_def rb_advance_def i32_def
  have 3: "send_loop slow_os 7 (three_bytes 3) s = Some (Written, three_bytes 3, s)" for s
    by (subst send_loop.simps) (simp add: c)
  show "send_loop slow_os 7 (three_bytes 0) s = Some (Blocked, three_bytes 2, logged s [(Sys_write 7 [Some 1, Some 2, Some 3], Ret 2)])"
    by (subst send_loop.simps) (simp add: c)
  show "send_loop slow_os 7 (three_bytes 2) s = Some (Written, three_bytes 3, logged s [(Sys_write 7 [Some 3], Ret 1)])"
    using 3 by (subst send_loop.simps) (simp add: c)
qed

lemma waiting_close:
  "cotcp_close slow_os idle_app waiting_connection 0 False =
    Some (True, logged (set_tcp 0 (waiting_tcp\<lparr>tc_sendbuf := Some (three_bytes 2), tc_state := COTCP_CLOSING\<rparr>) waiting_connection)
      [(Sys_write 7 [Some 1, Some 2, Some 3], Ret 2)])"
proof -
  have i: "0 < length (io_tcps waiting_connection)" by (simp add: waiting_connection_def set_tcp_def coios_new_def COTCP_SIZE_def)
  have g: "get_tcp waiting_connection 0 = Some waiting_tcp" using waiting_connected(1) by (simp add: connected_def)
  have h: "cotcp_has_senddata waiting_tcp" "cotcp_has_senddata (waiting_tcp\<lparr>tc_sendbuf := Some (three_bytes 2)\<rparr>)"
    by (simp_all add: cotcp_has_senddata_def waiting_tcp_def three_bytes_def coringbuf_readable_size_def)
  have f: "tc_fd waiting_tcp = 7" "tc_state waiting_tcp = COTCP_CONNECTED" "tc_sendbuf waiting_tcp = Some (three_bytes 0)"
    by (simp_all add: waiting_tcp_def one_tcp_def)
  have "cotcp_handle_write slow_os idle_app waiting_connection 0 =
    Some (logged (set_tcp 0 (waiting_tcp\<lparr>tc_sendbuf := Some (three_bytes 2)\<rparr>) waiting_connection) [(Sys_write 7 [Some 1, Some 2, Some 3], Ret 2)])"
    using g f by (simp add: cotcp_handle_write_def three_bytes_loops io_states)
  then show ?thesis using g f h i by (simp add: cotcp_close_def io_states)
qed

lemma waiting_run:
  obtains s' where "run_tcp slow_os idle_app 0 (replicate 1 Writable)
      (logged (set_tcp 0 (waiting_tcp\<lparr>tc_sendbuf := Some (three_bytes 2), tc_state := COTCP_CLOSING\<rparr>) waiting_connection)
        [(Sys_write 7 [Some 1, Some 2, Some 3], Ret 2)]) = Some s'"
    "io_log s' = io_log waiting_connection @ [(Sys_write 7 [Some 1, Some 2, Some 3], Ret 2), (Sys_write 7 [Some 3], Ret 1), (Poll_del 7, Ret 0), (Sys_close 7, Ret 0)]"
proof -
  let ?t = "waiting_tcp\<lparr>tc_sendbuf := Some (three_bytes 2), tc_state := COTCP_CLOSING\<rparr>"
  have i: "0 < length (io_tcps waiting_connection)" by (simp add: waiting_connection_def set_tcp_def coios_new_def COTCP_SIZE_def)
  have f: "tc_fd waiting_tcp = 7" by (simp add: waiting_tcp_def one_tcp_def)
  have "run_tcp slow_os idle_app 0 (replicate 1 Writable) (logged (set_tcp 0 ?t waiting_connection) [(Sys_write 7 [Some 1, Some 2, Some 3], Ret 2)]) =
    Some (logged (set_tcp 0 zero_tcp waiting_connection)
      [(Sys_write 7 [Some 1, Some 2, Some 3], Ret 2), (Sys_write 7 [Some 3], Ret 1), (Poll_del 7, Ret 0), (Sys_close 7, Ret 0)])"
    using i f by (simp add: cotcp_handle_write_def three_bytes_loops cotcp_check_closing_def tcp_close_fd_def cotcp_free_def
      sysdo_logged io_states slow_os_def)
  then show thesis by (rule that) simp
qed


text \<open>C39: A read that fills the receive buffer does not double it: the bound \<open>(uint16_t)65536\<close> is 0, so the
  new size is 0 and \<open>realloc\<close> releases the buffer; the next read starts again with 512 bytes.\<close>
theorem cotcp_read_full:
  assumes "get_tcp s i = Some t" "tc_state t = COTCP_CONNECTED" "tc_recvbuf t = Some b" "int (length b) = tc_recvsize t"
    "os (io_log s) (Sys_read (tc_fd t) (tc_recvsize t)) = Bytes bs" "bs \<noteq> []" "int (length bs) = tc_recvsize t"
    "\<And>f s. app (TcpRecv f i bs) s = Some s"
  shows "\<exists>s'. cotcp_handle_read os app s i = Some s' \<and> get_tcp s' i = Some (t\<lparr>tc_recvsize := 0, tc_recvbuf := None\<rparr>)"
  using read_bytes [of s i t b os bs app] assms by simp

definition full_tcp :: cotcp where
  "full_tcp = one_tcp\<lparr>tc_recvsize := INIT_READ_BUF, tc_recvbuf := Some (c_malloc INIT_READ_BUF)\<rparr>"

theorem cotcp_read_full_witness:
  "\<exists>s'. cotcp_handle_read slow_os idle_app (set_tcp 0 full_tcp coios_new) 0 = Some s' \<and>
    get_tcp s' 0 = Some (full_tcp\<lparr>tc_recvsize := 0, tc_recvbuf := None\<rparr>)"
  by (rule cotcp_read_full [where bs = "replicate 512 (Some 0)" and b = "c_malloc INIT_READ_BUF"])
    (simp_all add: coios_new_def COTCP_SIZE_def full_tcp_def one_tcp_def slow_os_def idle_app_def INIT_READ_BUF_def c_malloc_def)

text \<open>C37: The socket service stays typed.  In a well-formed service every call of the application and every
  event of the poll is defined and leaves a well-formed service, whatever the kernel answers and
  whatever a well-behaved application does in its callbacks, such as closing the socket that is being
  handled: each slot has one of the six states, a send buffer that is a ring buffer and a receive
  buffer of the size recorded.\<close>
theorem cotcp_typed:
  assumes "kernel_ok os" "app_ok app" "io_wf s" "call_fits s c"
  shows "\<exists>s'. tcp_do os app c s = Some s' \<and> io_wf s'"
  using tcp_do_wf [OF assms] by (simp add: defined_wf_def)

theorem cotcp_typed_witness:
  "\<exists>s'. tcp_do slow_os idle_app (CSend 0 [Some 1, Some 2, Some 3]) one_connection = Some s' \<and> io_wf s'"
  by (rule cotcp_typed [OF slow_os_ok(1) idle_app_ok(1) one_wf])
    (simp add: send_fits_def get_one one_connected(2) COTCP_SIZE_def)

text \<open>C38: A slot is found exactly when there is one: \<open>_cotcp_alloc\<close> marks a free slot as new and changes
  no other, or fails because no slot is free, wherever its counter stands and even when it wraps.\<close>
theorem cotcp_alloc_correct:
  assumes "length (io_tcps s) = COTCP_SIZE"
  shows "\<exists>w. if \<exists>t\<in>set (io_tcps s). tc_state t = COTCP_INVALID
    then \<exists>i t. get_tcp s i = Some t \<and> tc_state t = COTCP_INVALID \<and>
      cotcp_alloc s = Some (Some i, set_tcp i (t\<lparr>tc_state := COTCP_NEW\<rparr>) (s\<lparr>io_tcpid := w\<rparr>))
    else cotcp_alloc s = Some (None, s\<lparr>io_tcpid := w\<rparr>)"
proof (cases rule: cotcp_alloc_spec [OF assms, case_names full slot])
  case (full w)
  then show ?thesis by (intro exI [of _ w]) auto
next
  case (slot w i t)
  then have "t \<in> set (io_tcps s)" by (auto simp: get_tcp_def split: if_splits)
  then show ?thesis using slot by (intro exI [of _ w]) auto
qed

theorem cotcp_alloc_correct_witness:
  "\<exists>w. if \<exists>t\<in>set (io_tcps coios_new). tc_state t = COTCP_INVALID
    then \<exists>i t. get_tcp coios_new i = Some t \<and> tc_state t = COTCP_INVALID \<and>
      cotcp_alloc coios_new = Some (Some i, set_tcp i (t\<lparr>tc_state := COTCP_NEW\<rparr>) (coios_new\<lparr>io_tcpid := w\<rparr>))
    else cotcp_alloc coios_new = Some (None, coios_new\<lparr>io_tcpid := w\<rparr>)"
  by (rule cotcp_alloc_correct) (simp add: coios_new_def)

end
