(* ===== verification/IoUdp.thy ===== *)
theory IoUdp
  imports IoSafe
begin

text \<open>
  The UDP sockets and the other descriptors of \<open>src/co_ioservice.c\<close>, and the dispatch of an event of the poll to
  its object.  The address a datagram comes from is left out.
\<close>

section \<open>UDP sockets\<close>

definition get_udp :: "coios \<Rightarrow> nat \<Rightarrow> coudp exec" where
  "get_udp s i = (if i < length (io_udps s) then Some (io_udps s ! i) else None)"

definition set_udp :: "nat \<Rightarrow> coudp \<Rightarrow> coios \<Rightarrow> coios" where
  "set_udp i u s = s\<lparr>io_udps := (io_udps s)[i := u]\<rparr>"

primrec udp_alloc_loop :: "nat \<Rightarrow> coios \<Rightarrow> (nat option \<times> coios) exec" where
  "udp_alloc_loop 0 s = Some (None, s)"
| "udp_alloc_loop (Suc n) s = do {
     let index = unat (io_udpid s) mod COUDP_SIZE;
     let s = s\<lparr>io_udpid := io_udpid s + 1\<rparr>;
     u \<leftarrow> get_udp s index;
     if ud_state u = COUDP_INVALID then Some (Some index, set_udp index (u\<lparr>ud_state := COUDP_NEW\<rparr>) s)
     else udp_alloc_loop n s
   }"

definition coudp_alloc :: "coios \<Rightarrow> (nat option \<times> coios) exec" where
  "coudp_alloc s = udp_alloc_loop COUDP_SIZE s"

definition coudp_free :: "coios \<Rightarrow> nat \<Rightarrow> coios exec" where
  "coudp_free s i = do {
     u \<leftarrow> get_udp s i;
     if ud_state u = COUDP_INVALID then Some s else Some (set_udp i zero_udp s)
   }"

definition udpbuffer_add :: "udpbuffer list \<Rightarrow> cell list \<Rightarrow> byte list \<Rightarrow> udpbuffer list" where
  "udpbuffer_add list buff addr = list @ [\<lparr>ub_data = buff, ub_addr = addr\<rparr>]"

text \<open>\<open>_coudp_close\<close>\<close>

definition udp_close_fd :: "kernel \<Rightarrow> coios \<Rightarrow> nat \<Rightarrow> coios exec" where
  "udp_close_fd os s i = do {
     u \<leftarrow> get_udp s i;
     if ud_state u = COUDP_INVALID then Some s
     else coudp_free (sysdo os (Sys_close (ud_fd u)) (sysdo os (Poll_del (ud_fd u)) s)) i
   }"

primrec udp_bind_loop :: "kernel \<Rightarrow> bool \<Rightarrow> nat list \<Rightarrow> coios \<Rightarrow> tried \<times> coios" where
  "udp_bind_loop os bindaddr [] s = (Exhausted, s)"
| "udp_bind_loop os bindaddr (rp # rps) s =
     (case syscall os (Sys_socket rp) s of
        (Ret fd, s) \<Rightarrow>
          if \<not> bindaddr then (Found fd, s)
          else (case syscall os (Sys_reuseaddr fd) s of
             (Ret x, s) \<Rightarrow>
               (case syscall os (Sys_bind fd rp) s of
                  (Ret y, s) \<Rightarrow> (Found fd, s)
                | (a, s) \<Rightarrow> udp_bind_loop os bindaddr rps (sysdo os (Sys_close fd) s))
           | (a, s) \<Rightarrow> (Aborted, sysdo os (Sys_close fd) s))
      | (a, s) \<Rightarrow> udp_bind_loop os bindaddr rps s)"

definition coudp_new :: "kernel \<Rightarrow> coios \<Rightarrow> nat \<Rightarrow> nat \<Rightarrow> nat \<Rightarrow> bool \<Rightarrow> (nat option \<times> coios) exec" where
  "coudp_new os s ip port ud bindaddr = do {
     (c, s) \<leftarrow> coudp_alloc s;
     case c of
       None \<Rightarrow> Some (None, s)
     | Some i \<Rightarrow>
         (case syscall os (Sys_getaddrinfo ip port) s of
            (Ret n, s) \<Rightarrow>
              (case udp_bind_loop os bindaddr [0..<nat n] s of
                 (Found fd, s) \<Rightarrow> do {
                   let s = sysdo os (Sys_nonblock fd) s;
                   u \<leftarrow> get_udp s i;
                   let s = set_udp i (u\<lparr>ud_fd := fd, ud_ud := ud, ud_state := COUDP_NEW\<rparr>) s;
                   Some (Some i, sysdo os (Poll_add fd (Udp i)) s)
                 }
               | (e, s) \<Rightarrow> do { s \<leftarrow> coudp_free s i; Some (None, s) })
          | (a, s) \<Rightarrow> do { s \<leftarrow> coudp_free s i; Some (None, s) })
   }"

definition coudp_has_senddata :: "coudp \<Rightarrow> bool" where
  "coudp_has_senddata u \<longleftrightarrow> ud_sendlist u \<noteq> []"

definition coudp_handle_error :: "kernel \<Rightarrow> io_app \<Rightarrow> coios \<Rightarrow> nat \<Rightarrow> coios exec" where
  "coudp_handle_error os app s i = do {
     u \<leftarrow> get_udp s i;
     if ud_state u = COUDP_INVALID then Some s
     else do {
       s \<leftarrow> call_cb app (ud_error u) (\<lambda>f. UdpError f i) s;
       udp_close_fd os s i
     }
   }"

definition coudp_check_closing :: "kernel \<Rightarrow> coios \<Rightarrow> nat \<Rightarrow> coios exec" where
  "coudp_check_closing os s i = do {
     u \<leftarrow> get_udp s i;
     if ud_state u = COUDP_CLOSING then udp_close_fd os s i
     else Some (sysdo os (Poll_write (ud_fd u) (Udp i) False) s)
   }"

text \<open>The loop over the datagrams that wait.\<close>

primrec udp_send_loop :: "kernel \<Rightarrow> int \<Rightarrow> udpbuffer list \<Rightarrow> coios \<Rightarrow> (write_end \<times> udpbuffer list \<times> coios) exec" where
  "udp_send_loop os fd [] s = Some (Written, [], s)"
| "udp_send_loop os fd (wb # list) s = do {
     (a, s) \<leftarrow> retry os (Sys_sendto fd (ub_data wb) (ub_addr wb)) s;
     case a of
       Ret sz \<Rightarrow>
         if sz \<noteq> int (length (ub_data wb)) then do {
           cassert (0 \<le> sz \<and> sz \<le> int (length (ub_data wb)));
           Some (Blocked, wb\<lparr>ub_data := drop (nat sz) (ub_data wb)\<rparr> # list, s)
         } else udp_send_loop os fd list s
     | Eagain \<Rightarrow> Some (Blocked, wb # list, s)
     | Errno \<Rightarrow> Some (Failed, wb # list, s)
     | _ \<Rightarrow> None
   }"

definition coudp_handle_write :: "kernel \<Rightarrow> io_app \<Rightarrow> coios \<Rightarrow> nat \<Rightarrow> coios exec" where
  "coudp_handle_write os app s i = do {
     u \<leftarrow> get_udp s i;
     if ud_state u = COUDP_INVALID then Some s
     else do {
       (e, list, s) \<leftarrow> udp_send_loop os (ud_fd u) (ud_sendlist u) s;
       let s = set_udp i (u\<lparr>ud_sendlist := list\<rparr>) s;
       case e of
         Written \<Rightarrow> coudp_check_closing os s i
       | Blocked \<Rightarrow> Some s
       | Failed \<Rightarrow> coudp_handle_error os app s i
     }
   }"

definition coudp_handle_read :: "kernel \<Rightarrow> io_app \<Rightarrow> coios \<Rightarrow> nat \<Rightarrow> coios exec" where
  "coudp_handle_read os app s i = do {
     u \<leftarrow> get_udp s i;
     if ud_state u = COUDP_INVALID then Some s
     else do {
       let u = (if ud_recvbuf u = None then u\<lparr>ud_recvsize := INIT_READ_BUF, ud_recvbuf := Some (c_malloc INIT_READ_BUF)\<rparr> else u);
       let s = set_udp i u s;
       (a, s) \<leftarrow> retry os (Sys_recvfrom (ud_fd u) (ud_recvsize u)) s;
       case a of
         Bytes bs \<Rightarrow>
           if bs = [] then do {
             s \<leftarrow> call_cb app (ud_close u) (\<lambda>f. UdpClose f i) s;
             udp_close_fd os s i
           } else do {
             buf \<leftarrow> ud_recvbuf u;
             buf \<leftarrow> mem_store buf 0 bs;
             let s = set_udp i (u\<lparr>ud_recvbuf := Some buf\<rparr>) s;
             s \<leftarrow> call_cb app (ud_recv u) (\<lambda>f. UdpRecv f i bs) s;
             u \<leftarrow> get_udp s i;
             if ud_state u \<noteq> COUDP_INVALID \<and> int (length bs) = ud_recvsize u then
               (case grow_recv (ud_recvsize u) (ud_recvbuf u) of
                  (sz, buf) \<Rightarrow> Some (set_udp i (u\<lparr>ud_recvsize := sz, ud_recvbuf := buf\<rparr>) s))
             else Some s
           }
       | Eagain \<Rightarrow> Some s
       | Errno \<Rightarrow> coudp_handle_error os app s i
       | _ \<Rightarrow> None
     }
   }"

definition coudp_send :: "kernel \<Rightarrow> io_app \<Rightarrow> coios \<Rightarrow> nat \<Rightarrow> cell list \<Rightarrow> byte list \<Rightarrow> (bool \<times> coios) exec" where
  "coudp_send os app s i buff addr = do {
     u \<leftarrow> get_udp s i;
     if ud_state u \<noteq> COUDP_NEW \<or> buff = [] then Some (False, s)
     else do {
       let s = set_udp i (u\<lparr>ud_sendlist := udpbuffer_add (ud_sendlist u) buff addr\<rparr>) s;
       s \<leftarrow> coudp_handle_write os app (sysdo os (Poll_write (ud_fd u) (Udp i) True) s) i;
       Some (True, s)
     }
   }"

definition coudp_close :: "kernel \<Rightarrow> io_app \<Rightarrow> coios \<Rightarrow> nat \<Rightarrow> bool \<Rightarrow> (bool \<times> coios) exec" where
  "coudp_close os app s i force = do {
     u \<leftarrow> get_udp s i;
     if ud_state u \<ge> COUDP_NEW \<and> ud_state u < COUDP_CLOSING then do {
       s \<leftarrow> (if coudp_has_senddata u then coudp_handle_write os app s i else Some s);
       u \<leftarrow> get_udp s i;
       s \<leftarrow> (if force \<or> \<not> coudp_has_senddata u then do {
               s \<leftarrow> call_cb app (ud_close u) (\<lambda>f. UdpClose f i) s;
               udp_close_fd os s i
             } else Some (set_udp i (u\<lparr>ud_state := COUDP_CLOSING\<rparr>) s));
       Some (True, s)
     } else Some (False, s)
   }"

definition coudp_on_error :: "coios \<Rightarrow> nat \<Rightarrow> nat option \<Rightarrow> (bool \<times> coios) exec" where
  "coudp_on_error s i fn = do {
     u \<leftarrow> get_udp s i;
     if ud_state u = COUDP_NEW then Some (True, set_udp i (u\<lparr>ud_error := fn\<rparr>) s) else Some (False, s)
   }"

definition coudp_on_recv :: "coios \<Rightarrow> nat \<Rightarrow> nat option \<Rightarrow> (bool \<times> coios) exec" where
  "coudp_on_recv s i fn = do {
     u \<leftarrow> get_udp s i;
     if ud_state u = COUDP_NEW then Some (True, set_udp i (u\<lparr>ud_recv := fn\<rparr>) s) else Some (False, s)
   }"

definition coudp_on_close :: "coios \<Rightarrow> nat \<Rightarrow> nat option \<Rightarrow> (bool \<times> coios) exec" where
  "coudp_on_close s i fn = do {
     u \<leftarrow> get_udp s i;
     if ud_state u = COUDP_NEW then Some (True, set_udp i (u\<lparr>ud_close := fn\<rparr>) s) else Some (False, s)
   }"

section \<open>Other descriptors\<close>

definition get_fd :: "coios \<Rightarrow> nat \<Rightarrow> cofd exec" where
  "get_fd s i = (if i < length (io_fds s) then Some (io_fds s ! i) else None)"

definition set_fd :: "nat \<Rightarrow> cofd \<Rightarrow> coios \<Rightarrow> coios" where
  "set_fd i f s = s\<lparr>io_fds := (io_fds s)[i := f]\<rparr>"

primrec fd_alloc_loop :: "nat \<Rightarrow> coios \<Rightarrow> (nat option \<times> coios) exec" where
  "fd_alloc_loop 0 s = Some (None, s)"
| "fd_alloc_loop (Suc n) s = do {
     let index = unat (io_fdid s) mod COFD_SIZE;
     let s = s\<lparr>io_fdid := io_fdid s + 1\<rparr>;
     f \<leftarrow> get_fd s index;
     if fo_state f = COFD_INVALID then Some (Some index, set_fd index (f\<lparr>fo_state := COFD_NEW\<rparr>) s)
     else fd_alloc_loop n s
   }"

definition cofd_alloc :: "coios \<Rightarrow> (nat option \<times> coios) exec" where
  "cofd_alloc s = fd_alloc_loop COFD_SIZE s"

definition cofd_free :: "coios \<Rightarrow> nat \<Rightarrow> coios exec" where
  "cofd_free s i = do {
     f \<leftarrow> get_fd s i;
     if fo_state f = COFD_INVALID then Some s else Some (set_fd i zero_fd s)
   }"

definition cofd_bind :: "kernel \<Rightarrow> coios \<Rightarrow> int \<Rightarrow> nat \<Rightarrow> (nat option \<times> coios) exec" where
  "cofd_bind os s fd ud = do {
     (c, s) \<leftarrow> cofd_alloc s;
     case c of
       None \<Rightarrow> Some (None, s)
     | Some i \<Rightarrow> do {
         let s = sysdo os (Sys_nonblock fd) s;
         f \<leftarrow> get_fd s i;
         let s = set_fd i (f\<lparr>fo_fd := fd, fo_ud := ud, fo_state := COFD_BIND\<rparr>) s;
         Some (Some i, sysdo os (Poll_add fd (Fd i)) s)
       }
   }"

definition cofd_unbind :: "kernel \<Rightarrow> coios \<Rightarrow> nat \<Rightarrow> (bool \<times> coios) exec" where
  "cofd_unbind os s i = do {
     f \<leftarrow> get_fd s i;
     if fo_state f = COFD_BIND then do {
       s \<leftarrow> cofd_free (sysdo os (Poll_del (fo_fd f)) s) i;
       Some (True, s)
     } else Some (False, s)
   }"

definition cofd_handle_error :: "kernel \<Rightarrow> io_app \<Rightarrow> coios \<Rightarrow> nat \<Rightarrow> coios exec" where
  "cofd_handle_error os app s i = do {
     f \<leftarrow> get_fd s i;
     if fo_state f = COFD_INVALID then Some s
     else do {
       s \<leftarrow> call_cb app (fo_error f) (\<lambda>g. FdError g i) s;
       (b, s) \<leftarrow> cofd_unbind os s i;
       Some s
     }
   }"

text \<open>The poll is given the data of the user where it had the object.\<close>

definition cofd_handle_write :: "kernel \<Rightarrow> io_app \<Rightarrow> coios \<Rightarrow> nat \<Rightarrow> coios exec" where
  "cofd_handle_write os app s i = do {
     f \<leftarrow> get_fd s i;
     if fo_state f = COFD_INVALID then Some s
     else do {
       (e, b, s) \<leftarrow> (case fo_sendbuf f of
            None \<Rightarrow> Some (Written, None, s)
          | Some rb \<Rightarrow> do { (e, rb, s) \<leftarrow> send_loop os (fo_fd f) rb s; Some (e, Some rb, s) });
       let s = set_fd i (f\<lparr>fo_sendbuf := b\<rparr>) s;
       case e of
         Written \<Rightarrow> Some (sysdo os (Poll_write (fo_fd f) (User (fo_ud f)) False) s)
       | Blocked \<Rightarrow> Some s
       | Failed \<Rightarrow> cofd_handle_error os app s i
     }
   }"

definition cofd_handle_read :: "kernel \<Rightarrow> io_app \<Rightarrow> coios \<Rightarrow> nat \<Rightarrow> coios exec" where
  "cofd_handle_read os app s i = do {
     f \<leftarrow> get_fd s i;
     if fo_state f = COFD_INVALID then Some s
     else do {
       let f = (if fo_recvbuf f = None then f\<lparr>fo_recvsize := INIT_READ_BUF, fo_recvbuf := Some (c_malloc INIT_READ_BUF)\<rparr> else f);
       let s = set_fd i f s;
       (a, s) \<leftarrow> retry os (Sys_read (fo_fd f) (fo_recvsize f)) s;
       case a of
         Bytes bs \<Rightarrow>
           if bs = [] then do {
             s \<leftarrow> call_cb app (fo_close f) (\<lambda>g. FdClose g i) s;
             (b, s) \<leftarrow> cofd_unbind os s i;
             Some s
           } else do {
             buf \<leftarrow> fo_recvbuf f;
             buf \<leftarrow> mem_store buf 0 bs;
             let s = set_fd i (f\<lparr>fo_recvbuf := Some buf\<rparr>) s;
             s \<leftarrow> call_cb app (fo_recv f) (\<lambda>g. FdRecv g i bs) s;
             f \<leftarrow> get_fd s i;
             if fo_state f \<noteq> COFD_INVALID \<and> int (length bs) = fo_recvsize f then
               (case grow_recv (fo_recvsize f) (fo_recvbuf f) of
                  (sz, buf) \<Rightarrow> Some (set_fd i (f\<lparr>fo_recvsize := sz, fo_recvbuf := buf\<rparr>) s))
             else Some s
           }
       | Eagain \<Rightarrow> Some s
       | Errno \<Rightarrow> cofd_handle_error os app s i
       | _ \<Rightarrow> None
     }
   }"

definition cofd_send :: "kernel \<Rightarrow> io_app \<Rightarrow> coios \<Rightarrow> nat \<Rightarrow> cell list \<Rightarrow> int \<Rightarrow> (bool \<times> coios) exec" where
  "cofd_send os app s i buf sz = do {
     f \<leftarrow> get_fd s i;
     if fo_state f \<noteq> COFD_BIND \<or> sz = 0 then Some (False, s)
     else do {
       rb \<leftarrow> (case fo_sendbuf f of None \<Rightarrow> map_option coringbuf_new (i32 (sz * 2)) | Some rb \<Rightarrow> Some rb);
       rb \<leftarrow> coringbuf_write rb buf sz;
       let s = sysdo os (Poll_write (fo_fd f) (User (fo_ud f)) True) (set_fd i (f\<lparr>fo_sendbuf := Some rb\<rparr>) s);
       s \<leftarrow> cofd_handle_write os app s i;
       Some (True, s)
     }
   }"

definition cofd_on_error :: "coios \<Rightarrow> nat \<Rightarrow> nat option \<Rightarrow> (bool \<times> coios) exec" where
  "cofd_on_error s i fn = do {
     f \<leftarrow> get_fd s i;
     if fo_state f = COFD_BIND then Some (True, set_fd i (f\<lparr>fo_error := fn\<rparr>) s) else Some (False, s)
   }"

definition cofd_on_recv :: "coios \<Rightarrow> nat \<Rightarrow> nat option \<Rightarrow> (bool \<times> coios) exec" where
  "cofd_on_recv s i fn = do {
     f \<leftarrow> get_fd s i;
     if fo_state f = COFD_BIND then Some (True, set_fd i (f\<lparr>fo_recv := fn\<rparr>) s) else Some (False, s)
   }"

definition cofd_on_close :: "coios \<Rightarrow> nat \<Rightarrow> nat option \<Rightarrow> (bool \<times> coios) exec" where
  "cofd_on_close s i fn = do {
     f \<leftarrow> get_fd s i;
     if fo_state f = COFD_BIND then Some (True, set_fd i (f\<lparr>fo_close := fn\<rparr>) s) else Some (False, s)
   }"

section \<open>Dispatch\<close>

definition coudp_event :: "kernel \<Rightarrow> io_app \<Rightarrow> coios \<Rightarrow> nat \<Rightarrow> bool \<Rightarrow> bool \<Rightarrow> bool \<Rightarrow> coios exec" where
  "coudp_event os app s i rd wr er = do {
     u \<leftarrow> get_udp s i;
     if ud_state u = COFD_BIND \<or> ud_state u = COFD_NEW then do {
       s \<leftarrow> (if rd then coudp_handle_read os app s i else Some s);
       s \<leftarrow> (if wr then coudp_handle_write os app s i else Some s);
       if er then coudp_handle_error os app s i else Some s
     } else Some s
   }"

definition cofd_event :: "kernel \<Rightarrow> io_app \<Rightarrow> coios \<Rightarrow> nat \<Rightarrow> bool \<Rightarrow> bool \<Rightarrow> bool \<Rightarrow> coios exec" where
  "cofd_event os app s i rd wr er = do {
     f \<leftarrow> get_fd s i;
     if fo_state f = COFD_BIND then do {
       s \<leftarrow> (if rd then cofd_handle_read os app s i else Some s);
       s \<leftarrow> (if wr then cofd_handle_write os app s i else Some s);
       if er then cofd_handle_error os app s i else Some s
     } else Some s
   }"

text \<open>The pointer of the event is taken for an object of the service: one to anything else is undefined.\<close>

definition coios_process_event :: "kernel \<Rightarrow> io_app \<Rightarrow> coios \<Rightarrow> io_ptr \<Rightarrow> bool \<Rightarrow> bool \<Rightarrow> bool \<Rightarrow> coios exec" where
  "coios_process_event os app s p rd wr er =
     (case p of
        Tcp i \<Rightarrow> cotcp_event os app s i rd wr er
      | Udp i \<Rightarrow> coudp_event os app s i rd wr er
      | Fd i \<Rightarrow> cofd_event os app s i rd wr er
      | User n \<Rightarrow> None)"

section \<open>Senders\<close>

text \<open>
  What the three kinds of objects promise to an application that sends: a send and a write event succeed, and
  what the kernel has taken followed by what waits grows by what is sent.  \<open>taken\<close> only grows.
\<close>

fun run_sender :: "('m \<Rightarrow> 's \<Rightarrow> (bool \<times> 's) exec) \<Rightarrow> ('s \<Rightarrow> 's exec) \<Rightarrow> 'm option list \<Rightarrow> 's \<Rightarrow> 's exec" where
  "run_sender send writable [] s = Some s"
| "run_sender send writable (Some m # ops) s = do { (b, s) \<leftarrow> send m s; cassert b; run_sender send writable ops s }"
| "run_sender send writable (None # ops) s = do { s \<leftarrow> writable s; run_sender send writable ops s }"

fun said :: "('m \<Rightarrow> 'b list) \<Rightarrow> 'm option list \<Rightarrow> 'b list" where
  "said content [] = []"
| "said content (Some m # ops) = content m @ said content ops"
| "said content (None # ops) = said content ops"

definition passes :: "('s \<Rightarrow> 'b list) \<Rightarrow> ('s \<Rightarrow> 'b list) \<Rightarrow> 's \<Rightarrow> 'b list \<Rightarrow> 's \<Rightarrow> bool" where
  "passes taken waiting s bs s' \<longleftrightarrow> (\<exists>xs. taken s' = taken s @ xs \<and> xs @ waiting s' = waiting s @ bs)"

lemma passes_refl [simp]: "passes taken waiting s [] s"
  by (simp add: passes_def)

lemma passes_trans: "passes taken waiting s bs s1 \<Longrightarrow> passes taken waiting s1 cs s2 \<Longrightarrow> passes taken waiting s (bs @ cs) s2"
  unfolding passes_def by (metis append.assoc)

lemma passes_length: "passes taken waiting s bs s' \<Longrightarrow> length (waiting s') \<le> length (waiting s) + length bs"
  unfolding passes_def by (metis length_append le_add2)

locale sender =
  fixes send :: "'m \<Rightarrow> 's \<Rightarrow> (bool \<times> 's) exec" and writable :: "'s \<Rightarrow> 's exec"
    and ok :: "'s \<Rightarrow> bool" and taken waiting :: "'s \<Rightarrow> 'b list"
    and content :: "'m \<Rightarrow> 'b list" and valid :: "'m \<Rightarrow> bool" and room :: "nat \<Rightarrow> bool"
  assumes send_law: "ok s \<Longrightarrow> valid m \<Longrightarrow> room (length (waiting s) + length (content m)) \<Longrightarrow>
      \<exists>s'. send m s = Some (True, s') \<and> ok s' \<and> passes taken waiting s (content m) s'"
    and write_law: "ok s \<Longrightarrow> \<exists>s'. writable s = Some s' \<and> ok s' \<and> passes taken waiting s [] s'"
    and room_mono: "room n \<Longrightarrow> k \<le> n \<Longrightarrow> room k"
begin

lemma run_passes:
  assumes "ok s" "\<forall>m. Some m \<in> set ops \<longrightarrow> valid m" "room (length (waiting s) + length (said content ops))"
  shows "\<exists>s'. run_sender send writable ops s = Some s' \<and> ok s' \<and> passes taken waiting s (said content ops) s'"
  using assms
proof (induction ops arbitrary: s)
  case (Cons q ops)
  define bs where "bs = (case q of None \<Rightarrow> [] | Some m \<Rightarrow> content m)"
  have len: "said content (q # ops) = bs @ said content ops" by (cases q) (simp_all add: bs_def)
  have "\<exists>s1. run_sender send writable (q # ops) s = run_sender send writable ops s1 \<and> ok s1 \<and> passes taken waiting s bs s1"
  proof (cases q)
    case None
    then show ?thesis using write_law [OF Cons.prems(1)] by (auto simp: bs_def)
  next
    case (Some m)
    then have "room (length (waiting s) + length (content m))" using Cons.prems(3) by (auto intro: room_mono)
    then show ?thesis using send_law [OF Cons.prems(1), of m] Cons.prems(2) Some by (auto simp: bs_def cassert_def)
  qed
  then obtain s1 where s1: "run_sender send writable (q # ops) s = run_sender send writable ops s1" "ok s1" "passes taken waiting s bs s1" by blast
  have "length (waiting s1) + length (said content ops) \<le> length (waiting s) + length (said content (q # ops))"
    using passes_length [OF s1(3)] by (simp add: len)
  then have "room (length (waiting s1) + length (said content ops))" using Cons.prems(3) by (rule room_mono [rotated])
  from Cons.IH [OF s1(2) _ this] Cons.prems(2) obtain s' where s': "run_sender send writable ops s1 = Some s'" "ok s'"
    "passes taken waiting s1 (said content ops) s'" by auto
  then show ?case using s1 passes_trans [OF s1(3) s'(3)] by (simp add: len)
qed simp

end

section \<open>Datagrams\<close>

text \<open>The datagrams the kernel has accepted from a descriptor.\<close>

type_synonym dgram = "cell list \<times> byte list"

fun dgrams :: "int \<Rightarrow> syslog \<Rightarrow> dgram list" where
  "dgrams fd [] = []"
| "dgrams fd ((Sys_sendto g bs a, Ret n) # es) = (if g = fd then (bs, a) # dgrams fd es else dgrams fd es)"
| "dgrams fd (e # es) = dgrams fd es"

lemma dgrams_append [simp]: "dgrams fd (es @ fs) = dgrams fd es @ dgrams fd fs"
  by (induction fd es rule: dgrams.induct) auto

lemma dgrams_poll [simp]: "dgrams fd ((Poll_write g p on, a) # es) = dgrams fd es"
  by (cases a) simp_all

definition dgram_of :: "udpbuffer \<Rightarrow> dgram" where
  "dgram_of wb = (ub_data wb, ub_addr wb)"

text \<open>A datagram is taken whole or not at all; no other error is met.\<close>

definition dgram_kernel :: "kernel \<Rightarrow> bool" where
  "dgram_kernel os \<longleftrightarrow> kernel_ok os \<and> (\<forall>log fd bs a. (case os log (Sys_sendto fd bs a) of
     Ret n \<Rightarrow> n = int (length bs) | Bytes _ \<Rightarrow> False | Errno \<Rightarrow> False | _ \<Rightarrow> True))"

definition only_sends :: "int \<Rightarrow> syslog \<Rightarrow> bool" where
  "only_sends fd es \<longleftrightarrow> (\<forall>x\<in>set es. \<exists>bs a. fst x = Sys_sendto fd bs a)"

lemma only_sends_armed [simp]: "only_sends fd es \<Longrightarrow> armed gd es b = b"
  by (induction gd es b rule: armed.induct) (auto simp: only_sends_def)

lemma only_sends_append: "only_sends fd (es @ fs) \<longleftrightarrow> only_sends fd es \<and> only_sends fd fs"
  by (auto simp: only_sends_def)

lemma dgrams_retried: "dgrams fd (replicate k (r, Eintr)) = []"
  by (induction k) (cases r; simp)+

lemma udp_send_loop_spec:
  assumes os: "dgram_kernel os"
  shows "\<exists>e ws' es. udp_send_loop os fd ws s = Some (e, ws', logged s es) \<and> dgrams fd es @ map dgram_of ws' = map dgram_of ws \<and>
    (if ws' = [] then e = Written else e = Blocked) \<and> only_sends fd es"
proof (induction ws arbitrary: s)
  case Nil
  show ?case by (intro exI [of _ Written] exI [of _ "[]"]) (simp add: only_sends_def)
next
  case (Cons wb ws)
  let ?r = "Sys_sendto fd (ub_data wb) (ub_addr wb)"
  have ko: "kernel_ok os" using os by (simp add: dgram_kernel_def)
  obtain a k log where r: "retry os ?r s = Some (a, logged s (replicate k (?r, Eintr) @ [(?r, a)]))" "a = os log ?r" "a \<noteq> Eintr"
    using retry_log [OF ko] by blast
  have ke: "case a of Ret n \<Rightarrow> n = int (length (ub_data wb)) | Bytes _ \<Rightarrow> False | Errno \<Rightarrow> False | _ \<Rightarrow> True"
    using os unfolding dgram_kernel_def r(2) by blast
  have sd: "only_sends fd (replicate k (?r, Eintr) @ [(?r, a)])" by (auto simp: only_sends_def)
  show ?case
  proof (cases a)
    case (Ret n)
    obtain e ws' es where h: "udp_send_loop os fd ws (logged s (replicate k (?r, Eintr) @ [(?r, a)])) =
        Some (e, ws', logged (logged s (replicate k (?r, Eintr) @ [(?r, a)])) es)"
      "dgrams fd es @ map dgram_of ws' = map dgram_of ws" "if ws' = [] then e = Written else e = Blocked" "only_sends fd es"
      using Cons.IH by blast
    have "udp_send_loop os fd (wb # ws) s = Some (e, ws', logged s ((replicate k (?r, Eintr) @ [(?r, a)]) @ es))"
      using r(1) Ret ke h(1) by simp
    moreover have "dgrams fd ((replicate k (?r, Eintr) @ [(?r, a)]) @ es) @ map dgram_of ws' = map dgram_of (wb # ws)"
      using h(2) Ret by (simp add: dgrams_retried dgram_of_def)
    moreover have "only_sends fd ((replicate k (?r, Eintr) @ [(?r, a)]) @ es)" using sd h(4) by (simp only: only_sends_append)
    ultimately show ?thesis using h(3) by (intro exI [of _ e] exI [of _ ws'] exI [of _ "(replicate k (?r, Eintr) @ [(?r, a)]) @ es"] conjI)
  next
    case Eagain
    have "dgrams fd (replicate k (?r, Eintr) @ [(?r, a)]) = []" using Eagain by (simp add: dgrams_retried)
    moreover have "udp_send_loop os fd (wb # ws) s = Some (Blocked, wb # ws, logged s (replicate k (?r, Eintr) @ [(?r, a)]))"
      using r(1) Eagain by simp
    ultimately show ?thesis using sd
      by (intro exI [of _ Blocked] exI [of _ "wb # ws"] exI [of _ "replicate k (?r, Eintr) @ [(?r, a)]"]) simp
  qed (use ke r(3) in simp_all)
qed

lemma udp_simps [simp]:
  "get_udp (logged s es) i = get_udp s i" "set_udp i u (logged s es) = logged (set_udp i u s) es"
  "io_log (set_udp i u s) = io_log s" "set_udp i u (set_udp i v s) = set_udp i u s"
  "i < length (io_udps s) \<Longrightarrow> get_udp (set_udp i u s) i = Some u"
  by (simp_all add: get_udp_def set_udp_def logged_def)

definition udp_open :: "nat \<Rightarrow> int \<Rightarrow> coios \<Rightarrow> bool" where
  "udp_open i fd s \<longleftrightarrow> (\<exists>u. get_udp s i = Some u \<and> ud_state u = COUDP_NEW \<and> ud_fd u = fd \<and>
     (armed fd (io_log s) False \<longleftrightarrow> ud_sendlist u \<noteq> []))"

definition udp_waiting :: "nat \<Rightarrow> coios \<Rightarrow> dgram list" where
  "udp_waiting i s = (case get_udp s i of None \<Rightarrow> [] | Some u \<Rightarrow> map dgram_of (ud_sendlist u))"

lemma udp_write_spec:
  assumes os: "dgram_kernel os" and u: "get_udp s i = Some u" "ud_state u = COUDP_NEW"
    and ar: "ud_sendlist u \<noteq> [] \<Longrightarrow> armed (ud_fd u) (io_log s) False"
  shows "\<exists>s' xs. coudp_handle_write os app s i = Some s' \<and> udp_open i (ud_fd u) s' \<and> dgrams (ud_fd u) (io_log s') = dgrams (ud_fd u) (io_log s) @ xs \<and>
    xs @ udp_waiting i s' = map dgram_of (ud_sendlist u)"
proof -
  obtain e ws es where h: "udp_send_loop os (ud_fd u) (ud_sendlist u) s = Some (e, ws, logged s es)"
    "dgrams (ud_fd u) es @ map dgram_of ws = map dgram_of (ud_sendlist u)" "if ws = [] then e = Written else e = Blocked" "only_sends (ud_fd u) es"
    using udp_send_loop_spec [OF os] by blast
  have i: "i < length (io_udps s)" using u(1) by (simp add: get_udp_def split: if_splits)
  define v where "v = u\<lparr>ud_sendlist := ws\<rparr>"
  have st: "ud_state u \<noteq> COUDP_INVALID" "ud_state u \<noteq> COUDP_CLOSING" using u(2) by (simp_all add: io_states)
  show ?thesis
  proof (cases "ws = []")
    case False
    have "coudp_handle_write os app s i = Some (logged (set_udp i v s) es)"
      using u(1) st h(1,3) False by (simp add: coudp_handle_write_def v_def)
    moreover have "udp_open i (ud_fd u) (logged (set_udp i v s) es)"
    proof -
      have "ud_sendlist u \<noteq> []" using h(2) False by auto
      then show ?thesis using False i u(2) h(4) ar by (simp add: udp_open_def v_def)
    qed
    ultimately show ?thesis using h(2) i by (auto simp: udp_waiting_def v_def)
  next
    case True
    then obtain a where "coudp_handle_write os app s i = Some (logged (set_udp i v s) (es @ [(Poll_write (ud_fd u) (Udp i) False, a)]))"
      using u(1) st h(1,3) i by (simp add: coudp_handle_write_def coudp_check_closing_def sysdo_logged v_def)
    moreover have "udp_open i (ud_fd u) (logged (set_udp i v s) (es @ [(Poll_write (ud_fd u) (Udp i) False, a)]))"
      using True i u(2) by (simp add: udp_open_def v_def)
    ultimately show ?thesis using h(2) i True by (auto simp: udp_waiting_def v_def)
  qed
qed

definition udp_say :: "kernel \<Rightarrow> io_app \<Rightarrow> nat \<Rightarrow> dgram \<Rightarrow> coios \<Rightarrow> (bool \<times> coios) exec" where
  "udp_say os app i m s = coudp_send os app s i (fst m) (snd m)"

definition udp_write_event :: "kernel \<Rightarrow> io_app \<Rightarrow> nat \<Rightarrow> coios \<Rightarrow> coios exec" where
  "udp_write_event os app i s = coios_process_event os app s (Udp i) False True False"

definition udp_ok :: "kernel \<Rightarrow> nat \<Rightarrow> int \<Rightarrow> coios \<Rightarrow> bool" where
  "udp_ok os i fd s \<longleftrightarrow> dgram_kernel os \<and> udp_open i fd s"

definition udp_taken :: "int \<Rightarrow> coios \<Rightarrow> dgram list" where
  "udp_taken fd s = dgrams fd (io_log s)"

interpretation udp: sender "udp_say os app i" "udp_write_event os app i" "udp_ok os i fd" "udp_taken fd" "udp_waiting i"
  "\<lambda>m. [m]" "\<lambda>m. fst m \<noteq> []" "\<lambda>n. True" for os app i fd
proof (unfold_locales, goal_cases)
  case (1 s m)
  obtain u where os: "dgram_kernel os" and u: "get_udp s i = Some u" "ud_state u = COUDP_NEW" "ud_fd u = fd"
    using 1(1) by (auto simp: udp_ok_def udp_open_def)
  have i: "i < length (io_udps s)" using u(1) by (simp add: get_udp_def split: if_splits)
  define v where "v = u\<lparr>ud_sendlist := udpbuffer_add (ud_sendlist u) (fst m) (snd m)\<rparr>"
  define s1 where "s1 = sysdo os (Poll_write (ud_fd u) (Udp i) True) (set_udp i v s)"
  have v: "get_udp s1 i = Some v" "ud_state v = COUDP_NEW" "armed (ud_fd v) (io_log s1) False" "ud_fd v = fd"
    "dgrams fd (io_log s1) = dgrams fd (io_log s)" "map dgram_of (ud_sendlist v) = udp_waiting i s @ [m]"
    using u i by (simp_all add: s1_def v_def sysdo_logged udpbuffer_add_def udp_waiting_def dgram_of_def)
  from udp_write_spec [OF os v(1,2,3), of app] obtain s' xs where h: "coudp_handle_write os app s1 i = Some s'" "udp_open i fd s'"
    "dgrams fd (io_log s') = dgrams fd (io_log s) @ xs" "xs @ udp_waiting i s' = udp_waiting i s @ [m]"
    unfolding v(4-6) by blast
  have "udp_say os app i m s = Some (True, s')"
    using u 1(2) h(1) by (simp add: udp_say_def coudp_send_def s1_def v_def)
  then show ?case using h os by (auto simp: udp_ok_def udp_taken_def passes_def)
next
  case (2 s)
  obtain u where os: "dgram_kernel os" and u: "get_udp s i = Some u" "ud_state u = COUDP_NEW" "ud_fd u = fd"
    "ud_sendlist u \<noteq> [] \<Longrightarrow> armed (ud_fd u) (io_log s) False"
    using 2 by (auto simp: udp_ok_def udp_open_def)
  have "udp_write_event os app i s = coudp_handle_write os app s i"
    using u(1,2) by (simp add: udp_write_event_def coios_process_event_def coudp_event_def io_states)
  then show ?case using udp_write_spec [OF os u(1,2,4), of app] u(1,3) os
    by (auto simp: udp_ok_def udp_taken_def passes_def udp_waiting_def)
qed simp

section \<open>Descriptors\<close>

lemma fd_simps [simp]:
  "get_fd (logged s es) i = get_fd s i" "set_fd i f (logged s es) = logged (set_fd i f s) es"
  "io_log (set_fd i f s) = io_log s" "set_fd i f (set_fd i g s) = set_fd i f s"
  "i < length (io_fds s) \<Longrightarrow> get_fd (set_fd i f s) i = Some f"
  by (simp_all add: get_fd_def set_fd_def logged_def)

definition fd_open :: "nat \<Rightarrow> int \<Rightarrow> nat \<Rightarrow> coios \<Rightarrow> bool" where
  "fd_open i fd ud s \<longleftrightarrow> (\<exists>f. get_fd s i = Some f \<and> fo_state f = COFD_BIND \<and> fo_fd f = fd \<and> fo_ud f = ud \<and> ring_wf (fo_sendbuf f))"

definition fd_waiting :: "nat \<Rightarrow> coios \<Rightarrow> cell list" where
  "fd_waiting i s = (case get_fd s i of None \<Rightarrow> [] | Some f \<Rightarrow> ring_bytes (fo_sendbuf f))"

text \<open>The pointer the poll gives back with the events of a descriptor.\<close>

fun polled :: "int \<Rightarrow> syslog \<Rightarrow> io_ptr option \<Rightarrow> io_ptr option" where
  "polled fd [] p = p"
| "polled fd ((Poll_add g q, a) # es) p = polled fd es (if g = fd then Some q else p)"
| "polled fd ((Poll_write g q on, a) # es) p = polled fd es (if g = fd then Some q else p)"
| "polled fd ((Poll_del g, a) # es) p = polled fd es (if g = fd then None else p)"
| "polled fd (e # es) p = polled fd es p"

lemma polled_append [simp]: "polled fd (es @ fs) p = polled fd fs (polled fd es p)"
  by (induction fd es p rule: polled.induct) auto

lemma polled_writes [simp]: "writes os fd es \<Longrightarrow> polled gd es p = p"
  by (induction gd es p rule: polled.induct) auto

lemma fd_write_spec:
  assumes os: "kernel_ok os" "no_write_errors os"
    and f: "get_fd s i = Some f" "fo_state f = COFD_BIND" "ring_wf (fo_sendbuf f)"
  shows "\<exists>s' xs. cofd_handle_write os app s i = Some s' \<and> fd_open i (fo_fd f) (fo_ud f) s' \<and>
    sent (fo_fd f) (io_log s') = sent (fo_fd f) (io_log s) @ xs \<and> xs @ fd_waiting i s' = ring_bytes (fo_sendbuf f) \<and>
    polled (fo_fd f) (io_log s') None \<in> {polled (fo_fd f) (io_log s) None, Some (User (fo_ud f))}"
proof -
  have i: "i < length (io_fds s)" using f(1) by (simp add: get_fd_def split: if_splits)
  have st: "fo_state f \<noteq> COFD_INVALID" using f(2) by (simp add: io_states)
  define loop where "loop = (case fo_sendbuf f of None \<Rightarrow> Some (Written, None, s)
     | Some rb \<Rightarrow> do { (e, rb, s) \<leftarrow> send_loop os (fo_fd f) rb s; Some (e, Some rb, s) })"
  have "\<exists>e b es. loop = Some (e, b, logged s es) \<and> e \<noteq> Failed \<and> ring_wf b \<and> sent (fo_fd f) es @ ring_bytes b = ring_bytes (fo_sendbuf f) \<and>
    writes os (fo_fd f) es"
  proof (cases "fo_sendbuf f")
    case None
    then show ?thesis by (intro exI [of _ Written] exI [of _ None] exI [of _ "[]"]) (simp add: loop_def ring_wf_def ring_bytes_def)
  next
    case (Some rb)
    then have "rb_ok rb" using f(3) by (simp add: ring_wf_def)
    from send_loop_spec [OF os(1) this, of "fo_fd f" s] obtain e rb' es
      where r: "send_loop os (fo_fd f) rb s = Some (e, rb', logged s es)" "loop_result os (fo_fd f) rb e rb' es" by blast
    have w: "writes os (fo_fd f) es" using r(2) by (simp add: loop_result_def)
    have "e \<noteq> Failed" using r(2) writes_no_errors [OF w os(2)] by (auto simp: loop_result_def)
    then show ?thesis using r Some by (intro exI [of _ e] exI [of _ "Some rb'"] exI [of _ es]) (simp add: loop_def loop_result_def ring_wf_def ring_bytes_def)
  qed
  then obtain e b es where h: "loop = Some (e, b, logged s es)" "e \<noteq> Failed" "ring_wf b" "sent (fo_fd f) es @ ring_bytes b = ring_bytes (fo_sendbuf f)"
    "writes os (fo_fd f) es" by blast
  define s1 where "s1 = logged (set_fd i (f\<lparr>fo_sendbuf := b\<rparr>) s) es"
  define s' where "s' = (if e = Written then sysdo os (Poll_write (fo_fd f) (User (fo_ud f)) False) s1 else s1)"
  have "cofd_handle_write os app s i = Some s'"
    using f(1) st h(1,2) by (cases e) (simp_all add: cofd_handle_write_def loop_def [symmetric] s1_def s'_def)
  moreover have "fd_open i (fo_fd f) (fo_ud f) s'" "fd_waiting i s' = ring_bytes b"
    using i f(2) h(3) by (simp_all add: fd_open_def fd_waiting_def s'_def s1_def sysdo_logged)
  moreover have "sent (fo_fd f) (io_log s') = sent (fo_fd f) (io_log s) @ sent (fo_fd f) es"
    by (simp add: s'_def s1_def sysdo_logged)
  moreover have "polled (fo_fd f) (io_log s') None \<in> {polled (fo_fd f) (io_log s) None, Some (User (fo_ud f))}"
    using h(5) by (simp add: s'_def s1_def sysdo_logged)
  ultimately show ?thesis using h(4) by auto
qed

lemma cofd_send_spec:
  assumes os: "kernel_ok os" "no_write_errors os"
    and f: "get_fd s i = Some f" "fo_state f = COFD_BIND" "ring_wf (fo_sendbuf f)"
    and n: "bs \<noteq> []" "2 * (length (ring_bytes (fo_sendbuf f)) + length bs) + 1 \<le> 2 ^ 30"
  shows "\<exists>s' xs. cofd_send os app s i bs (int (length bs)) = Some (True, s') \<and> fd_open i (fo_fd f) (fo_ud f) s' \<and>
    sent (fo_fd f) (io_log s') = sent (fo_fd f) (io_log s) @ xs \<and> xs @ fd_waiting i s' = ring_bytes (fo_sendbuf f) @ bs \<and>
    polled (fo_fd f) (io_log s') None = Some (User (fo_ud f))"
proof -
  have i: "i < length (io_fds s)" using f(1) by (simp add: get_fd_def split: if_splits)
  obtain rb rb' where rb: "(case fo_sendbuf f of None \<Rightarrow> map_option coringbuf_new (i32 (int (length bs) * 2)) | Some rb \<Rightarrow> Some rb) = Some rb"
    "coringbuf_write rb bs (int (length bs)) = Some rb'" "ring_wf (Some rb')" "ring_bytes (Some rb') = ring_bytes (fo_sendbuf f) @ bs"
    using send_ring [OF f(3) n] by blast
  define g where "g = f\<lparr>fo_sendbuf := Some rb'\<rparr>"
  define s1 where "s1 = sysdo os (Poll_write (fo_fd f) (User (fo_ud f)) True) (set_fd i g s)"
  have g: "get_fd s1 i = Some g" "fo_state g = COFD_BIND" "ring_wf (fo_sendbuf g)" "fo_fd g = fo_fd f" "fo_ud g = fo_ud f"
    "ring_bytes (fo_sendbuf g) = ring_bytes (fo_sendbuf f) @ bs" "sent (fo_fd f) (io_log s1) = sent (fo_fd f) (io_log s)"
    "polled (fo_fd f) (io_log s1) None = Some (User (fo_ud f))"
    using f i rb(3,4) by (simp_all add: s1_def g_def sysdo_logged)
  have "cofd_send os app s i bs (int (length bs)) = do { s \<leftarrow> cofd_handle_write os app s1 i; Some (True, s) }"
    using f(1,2) n(1) rb(1,2) by (simp add: cofd_send_def s1_def g_def)
  then show ?thesis using fd_write_spec [OF os g(1,2,3), of app] unfolding g(4-8) by auto
qed

definition fd_ok :: "kernel \<Rightarrow> nat \<Rightarrow> int \<Rightarrow> nat \<Rightarrow> coios \<Rightarrow> bool" where
  "fd_ok os i fd ud s \<longleftrightarrow> kernel_ok os \<and> no_write_errors os \<and> fd_open i fd ud s"

definition tcp_good :: "kernel \<Rightarrow> nat \<Rightarrow> int \<Rightarrow> coios \<Rightarrow> bool" where
  "tcp_good os i fd s \<longleftrightarrow> kernel_ok os \<and> no_write_errors os \<and> (\<exists>t. connected i s t \<and> tc_fd t = fd)"

definition tcp_waiting :: "nat \<Rightarrow> coios \<Rightarrow> cell list" where
  "tcp_waiting i s = (case get_tcp s i of None \<Rightarrow> [] | Some t \<Rightarrow> pending t)"

definition sent_on :: "int \<Rightarrow> coios \<Rightarrow> cell list" where
  "sent_on fd s = sent fd (io_log s)"

definition ring_room :: "nat \<Rightarrow> bool" where
  "ring_room n \<longleftrightarrow> 2 * n + 1 \<le> 2 ^ 30"

definition bytes_of :: "cell list \<Rightarrow> cell list" where
  "bytes_of bs = bs"

interpretation fds: sender "\<lambda>bs s. cofd_send os app s i bs (int (length bs))" "\<lambda>s. coios_process_event os app s (Fd i) False True False"
  "fd_ok os i fd ud" "sent_on fd" "fd_waiting i" bytes_of "\<lambda>bs. bs \<noteq> []" ring_room for os app i fd ud
proof (unfold_locales, goal_cases)
  case (1 s bs)
  obtain f where os: "kernel_ok os" "no_write_errors os" and f: "get_fd s i = Some f" "fo_state f = COFD_BIND" "ring_wf (fo_sendbuf f)"
    "fo_fd f = fd" "fo_ud f = ud" using 1(1) by (auto simp: fd_ok_def fd_open_def)
  have "2 * (length (ring_bytes (fo_sendbuf f)) + length bs) + 1 \<le> 2 ^ 30"
    using 1(3) f(1) by (simp add: ring_room_def fd_waiting_def bytes_of_def)
  from cofd_send_spec [OF os f(1-3) 1(2) this, of app] show ?case
    using os f by (auto simp: fd_ok_def passes_def sent_on_def fd_waiting_def bytes_of_def)
next
  case (2 s)
  obtain f where os: "kernel_ok os" "no_write_errors os" and f: "get_fd s i = Some f" "fo_state f = COFD_BIND" "ring_wf (fo_sendbuf f)"
    "fo_fd f = fd" "fo_ud f = ud" using 2 by (auto simp: fd_ok_def fd_open_def)
  have "coios_process_event os app s (Fd i) False True False = cofd_handle_write os app s i"
    using f(1,2) by (simp add: coios_process_event_def cofd_event_def io_states)
  then show ?case using fd_write_spec [OF os f(1-3), of app] os f
    by (auto simp: fd_ok_def passes_def sent_on_def fd_waiting_def)
qed (simp add: ring_room_def)

interpretation tcps: sender "\<lambda>bs s. cotcp_send os app s i bs (int (length bs))" "\<lambda>s. coios_process_event os app s (Tcp i) False True False"
  "tcp_good os i fd" "sent_on fd" "tcp_waiting i" bytes_of "\<lambda>bs. bs \<noteq> []" ring_room for os app i fd
proof (unfold_locales, goal_cases)
  case (1 s bs)
  obtain t where os: "kernel_ok os" "no_write_errors os" and t: "connected i s t" "tc_fd t = fd" using 1(1) by (auto simp: tcp_good_def)
  have at: "get_tcp s i = Some t" using t(1) by (simp add: connected_def)
  have "2 * (length (pending t) + length bs) + 1 \<le> 2 ^ 30" using 1(3) at by (simp add: ring_room_def tcp_waiting_def bytes_of_def)
  from cotcp_send_spec [OF os t(1) 1(2) this, of app] show ?case
    using os t(2) at by (auto simp: tcp_good_def passes_def sent_on_def tcp_waiting_def bytes_of_def connected_def)
next
  case (2 s)
  obtain t where os: "kernel_ok os" "no_write_errors os" and t: "connected i s t" "tc_fd t = fd" using 2 by (auto simp: tcp_good_def)
  have at: "get_tcp s i = Some t" "tc_state t = COTCP_CONNECTED" "tcp_ok t" "pending t \<noteq> [] \<Longrightarrow> armed (tc_fd t) (io_log s) False"
    using t(1) by (auto simp: connected_def)
  have e: "coios_process_event os app s (Tcp i) False True False = cotcp_handle_write os app s i"
    using at(1,2) by (simp add: coios_process_event_def cotcp_event_def io_states)
  from handle_write_connected [OF os at, of app] obtain s' t' es where h: "cotcp_handle_write os app s i = Some s'" "connected i s' t'"
    "same_but_buf t t'" "io_log s' = io_log s @ es" "sent (tc_fd t) es @ pending t' = pending t" by blast
  have "get_tcp s' i = Some t'" "tc_fd t' = fd" using h(2) same_but_buf_simps(1) [OF h(3)] t(2) by (simp_all add: connected_def)
  then show ?case using h os t(2) at(1) e by (auto simp: tcp_good_def passes_def sent_on_def tcp_waiting_def)
qed (simp add: ring_room_def)

section \<open>Properties\<close>

text \<open>A kernel that takes every second datagram it is given, and a service with one UDP socket.\<close>

definition dgram_os :: kernel where
  "dgram_os log r = (case r of
     Sys_sendto fd bs a \<Rightarrow> if even (length log) then Eagain else Ret (int (length bs))
   | Sys_write fd bs \<Rightarrow> Ret (int (length bs))
   | Sys_read fd n \<Rightarrow> Eagain
   | _ \<Rightarrow> Ret 0)"

definition one_socket :: coios where
  "one_socket = set_udp 0 (zero_udp\<lparr>ud_fd := 9, ud_state := COUDP_NEW\<rparr>) coios_new"

lemma dgram_os_ok: "dgram_kernel dgram_os"
  by (auto simp: dgram_kernel_def kernel_ok_def dgram_os_def split: sysreq.splits intro: exI [of _ 0])

lemma one_socket_open: "udp_open 0 9 one_socket" "udp_waiting 0 one_socket = []"
  by (simp_all add: udp_open_def udp_waiting_def one_socket_def zero_udp_def coios_new_def COUDP_SIZE_def)



text \<open>The bytes sent on another descriptor, by its sends and the write events it is given, are a stream too.\<close>

lemma cofd_stream:
  assumes "fd_ok os i fd ud s" "\<forall>m. Some m \<in> set ops \<longrightarrow> m \<noteq> []"
    "2 * (length (fd_waiting i s) + length (said bytes_of ops)) + 1 \<le> 2 ^ 30"
  shows "\<exists>s'. run_sender (\<lambda>bs s. cofd_send os app s i bs (int (length bs))) (\<lambda>s. coios_process_event os app s (Fd i) False True False) ops s = Some s' \<and>
    fd_ok os i fd ud s' \<and> sent fd (io_log s') @ fd_waiting i s' = sent fd (io_log s) @ fd_waiting i s @ said bytes_of ops"
proof -
  have "ring_room (length (fd_waiting i s) + length (said bytes_of ops))" using assms(3) by (simp add: ring_room_def)
  from fds.run_passes [OF assms(1,2) this, of app] show ?thesis by (fastforce simp: passes_def sent_on_def)
qed

text \<open>But the poll does not hold the object any more after a send: the next event of the descriptor comes with
  the data of the application, which the dispatch takes for an object of the service.\<close>

lemma cofd_send_misdirected:
  assumes "fd_ok os i fd ud s" "bs \<noteq> []" "2 * (length (fd_waiting i s) + length bs) + 1 \<le> 2 ^ 30"
  shows "\<exists>s'. cofd_send os app s i bs (int (length bs)) = Some (True, s') \<and> polled fd (io_log s') None = Some (User ud) \<and>
    coios_process_event os app s' (User ud) rd wr er = None"
proof -
  obtain f where f: "get_fd s i = Some f" "fo_state f = COFD_BIND" "ring_wf (fo_sendbuf f)" "fo_fd f = fd" "fo_ud f = ud"
    and os: "kernel_ok os" "no_write_errors os" using assms(1) by (auto simp: fd_ok_def fd_open_def)
  have "2 * (length (ring_bytes (fo_sendbuf f)) + length bs) + 1 \<le> 2 ^ 30" using assms(3) f(1) by (simp add: fd_waiting_def)
  from cofd_send_spec [OF os f(1-3) assms(2) this, of app] f(4,5) show ?thesis by (auto simp: coios_process_event_def)
qed

text \<open>A datagram without data is taken for the end of the socket.\<close>

lemma coudp_empty_datagram:
  assumes u: "get_udp s i = Some u" "ud_state u = COUDP_NEW" "ud_recvbuf u \<noteq> None"
    and r: "os (io_log s) (Sys_recvfrom (ud_fd u) (ud_recvsize u)) = Bytes []" and app: "\<And>f s. app (UdpClose f i) s = Some s"
  shows "\<exists>s' a b. coudp_handle_read os app s i = Some s' \<and> get_udp s' i = Some zero_udp \<and>
    io_log s' = io_log s @ [(Sys_recvfrom (ud_fd u) (ud_recvsize u), Bytes []), (Poll_del (ud_fd u), a), (Sys_close (ud_fd u), b)]"
proof -
  have i: "i < length (io_udps s)" using u(1) by (simp add: get_udp_def split: if_splits)
  have same: "set_udp i u s = s" using u(1) by (auto simp: get_udp_def set_udp_def split: if_splits)
  have st: "ud_state u \<noteq> COUDP_INVALID" using u(2) by (simp add: io_states)
  have rt: "retry os (Sys_recvfrom (ud_fd u) (ud_recvsize u)) s = Some (Bytes [], logged s [(Sys_recvfrom (ud_fd u) (ud_recvsize u), Bytes [])])"
    by (subst retry.simps) (simp add: syscall_logged r)
  have cb: "call_cb app c (\<lambda>f. UdpClose f i) s = Some s" for c s by (simp add: call_cb_def app split: option.split)
  obtain b where b: "ud_recvbuf u = Some b" using u(3) by blast
  show ?thesis using u(1,2) b st rt i by (simp add: coudp_handle_read_def same cb udp_close_fd_def coudp_free_def sysdo_logged)
qed

end
