(* ===== verification/Spec2Isabelle.thy ===== *)
theory Spec2Isabelle
  imports Queue PQueue Utf8 Utils Buffer RingBuf CoList TimerService Dict Routine SetOps WordFilter Dns IoUdp
begin

text \<open>
  A model of colinlib, a C library of containers, timers, coroutines and event-driven sockets.

  \<^bold>\<open>How C is read.\<close>  An operation is a function into \<open>'a exec\<close>, which is \<open>'a option\<close>: \<open>None\<close> is undefined
  behaviour (an access outside a block or to a freed one, a signed overflow, an undefined shift) or, for a
  loop given by \<open>partial_function\<close>, not returning.  So a theorem that an operation is \<open>Some\<close> says that it is
  memory safe and ends.  A struct is a record; an \<open>int\<close> is a HOL integer whose arithmetic goes through the
  range check \<open>i32\<close> where it can leave the range, an unsigned integer or a bit pattern is a word.  Where nodes
  are linked by pointers there is a heap, a partial function from addresses to nodes; \<open>malloc\<close> is an address
  given to the operation, fresh by hypothesis, and \<open>free\<close> takes the address out of the heap.  Callbacks,
  compare functions, the kernel and the application are parameters.  Allocation does not fail.

  \<^bold>\<open>The parts.\<close>  The queues stand on the vector; the timer service on the timing wheel, which stands on the
  circular lists, and on the allocator of fixed-size items; the coroutines on the context switch; the
  sockets on the ring buffer; the keyword filter on the vector and on the UTF-8 decoder.
  \<^item> \<open>CPrelude\<close>: executions, memory blocks, the collection \<open>c_simps\<close>.  \<open>Utils\<close>: the macros of \<open>co_utils.h\<close>.
  \<^item> \<open>Vec\<close>: \<open>co_vec.c\<close>, a growing array of items; locale \<open>item_vector\<close>.  \<open>Ring\<close>, \<open>Queue\<close>: \<open>co_queue.c\<close>, a
    circular queue; locale \<open>fifo\<close>.  \<open>PQueue\<close>: \<open>co_pqueue.c\<close>, a binary heap; locale \<open>priority_queue\<close>.
  \<^item> \<open>Utf8\<close>: \<open>co_utf8.c\<close>.  \<open>Buffer\<close>, \<open>RingBuf\<close>: \<open>co_buffer.c\<close> and the integers of \<open>co_endian.h\<close>; locale
    \<open>byte_stream\<close>, which gives a \<open>fifo\<close>.
  \<^item> \<open>Links\<close>, \<open>Clink\<close>, \<open>CoList\<close>: \<open>co_clink.h\<close> and \<open>co_list.c\<close>, rings and lists on a heap.
  \<^item> \<open>TimingWheel\<close>: \<open>co_timingwheel.c\<close>; locale \<open>wheel_client\<close> for what a callback promises.  \<open>Falloc\<close>:
    \<open>co_falloc.c\<close>.  \<open>TimerService\<close>: \<open>co_timerservice.c\<close>, which interprets \<open>wheel_client\<close>.
  \<^item> \<open>Dict\<close>: \<open>co_dict.c\<close>, a hash table with the list of its nodes; locale \<open>assoc_store\<close>.
  \<^item> \<open>SetTree\<close>, \<open>SetRepair\<close>, \<open>CoSet\<close>, \<open>SetOps\<close>: \<open>co_set.c\<close>, a red-black tree with parent pointers, its
    repair loops, its operations and the operations on two sets; locale \<open>ordered_set\<close>.
  \<^item> \<open>Ctx\<close>: \<open>co_ctx.c\<close> and \<open>coctx_swap.S\<close> on a small x86-64 machine.  \<open>Routine\<close>: \<open>co_routine.c\<close>; the relation
    \<open>cort_step\<close> and locale \<open>simulation\<close>.
  \<^item> \<open>WordFilter\<close>: \<open>co_wordfilter.c\<close>, a trie with sorted children.  \<open>Dns\<close>: \<open>co_dnsutils.c\<close>.
  \<^item> \<open>IoBase\<close>, \<open>IoTcp\<close>, \<open>IoConn\<close>, \<open>IoSafe\<close>, \<open>IoUdp\<close>: \<open>co_ioservice.c\<close>, the state of its objects, the TCP sockets
    with what becomes of their bytes and that they are well-formed, the UDP sockets, the other
    descriptors and the dispatch of an event.  \<open>os\<close> answers each system call as a function of the calls
    before it, so a theorem for all \<open>os\<close> covers every partial, blocked, interrupted and failing call.
    Locale \<open>sender\<close> is what the three kinds of objects promise to an application that sends.

  \<^bold>\<open>What the lemmas show.\<close>  Each component has a well-formedness predicate (\<open>vec_ok\<close>, \<open>q_ok\<close>, \<open>pq_ok\<close>, \<open>bf_ok\<close>,
  \<open>rb_ok\<close>, \<open>fa_ok\<close>, \<open>wheel\<close>, \<open>ts_ok\<close>, \<open>dict_ok\<close>, \<open>set_ok\<close>, \<open>cowf_ok\<close>, \<open>sched_ok\<close>, \<open>io_wf\<close>) and an
  abstraction to lists, multisets, sets or maps, and for each operation a lemma \<open>_spec\<close>: on a well-formed
  state it is defined, keeps the state well-formed and does on the abstraction what it promises.  The locales
  lift these to scripts of operations.  Heap lemmas also say which addresses are left alone.

  \<^bold>\<open>Bounds.\<close>  Sizes are kept below what the C types hold: a ring buffer below \<open>2 ^ 30\<close> bytes (\<open>rb_room\<close>), a
  vector where capacity times item size fits in 32 bits (\<open>vec_room\<close>), a dictionary below \<open>2 ^ 32\<close> and a set
  below \<open>2 ^ 31\<close> entries.  No fuel is used: loops are structural, have a measure, or are partial functions
  whose termination is proved as part of each \<open>_spec\<close>.

  \<^bold>\<open>Not modelled.\<close>  Of \<open>co_ioservice.c\<close> the helpers around single system calls and \<open>coios_free\<close>; \<open>co_poll.h\<close>, a layer over epoll and kqueue; \<open>co_loop.c\<close>, which reads the clock;
  \<open>co_routineex.c\<close>; \<open>co_str.c\<close>; the functions that read a file (\<open>cowf_loadwords\<close>, \<open>codns_get_server\<close>); floating
  point (the \<open>float\<close> and \<open>double\<close> accessors of the buffer and the random numbers); debug printers; the
  \<open>ucontext\<close> variant of the context switch; texts of error messages.
\<close>

end
